(* ===== verification/Prelude.thy ===== *)
theory Prelude
  imports Main "HOL-Library.Word"
begin

text \<open>
  Shared vocabulary of the development: bytes and machine integers as the C++ sources use
  them, block copies (\<open>memcpy\<close>) into byte buffers, and the list facts the components share.
  \<^item> \<open>blit\<close> is \<open>memcpy(p + off, src, len)\<close> with \<open>src\<close> the bytes copied;
  \<^item> \<open>wrap32\<close> is the value a signed 32-bit variable holds after an arithmetic result is
    stored in it (two's complement, as gcc on x86 compiles the sources);
  \<^item> \<open>quot32\<close> is the truncating division of C.
  The collections \<open>handler_defs\<close> and \<open>state_defs\<close> gather the definitions that the proofs
  of the event handlers unfold.
\<close>

named_theorems handler_defs "definitions of request handlers"
named_theorems state_defs "definitions of state components and state predicates"

section \<open>Bytes and machine integers\<close>

type_synonym byte = "8 word"
type_synonym u8 = "8 word"
type_synonym u16 = "16 word"
type_synonym u32 = "32 word"

definition wrap32 :: "int \<Rightarrow> int" where
  "wrap32 x = (x + 2147483648) mod 4294967296 - 2147483648"

definition quot32 :: "int \<Rightarrow> int \<Rightarrow> int" where
  "quot32 a b = sgn a * sgn b * (\<bar>a\<bar> div \<bar>b\<bar>)"

definition in_int32 :: "int \<Rightarrow> bool" where
  "in_int32 x \<longleftrightarrow> - 2147483648 \<le> x \<and> x < 2147483648"

lemma wrap32_range [simp]: "in_int32 (wrap32 x)"
proof -
  have "0 \<le> (x + 2147483648) mod 4294967296" and "(x + 2147483648) mod 4294967296 < 4294967296"
    by (simp_all add: pos_mod_bound)
  then show ?thesis by (simp add: in_int32_def wrap32_def)
qed

lemma wrap32_id [simp]: "in_int32 x \<Longrightarrow> wrap32 x = x"
  by (simp add: in_int32_def wrap32_def)

lemma in_int32_0 [simp]: "in_int32 0"
  by (simp add: in_int32_def)

lemma pos_int_natE:
  assumes "\<not> x < 1"
  obtains n where "x = int n" and "1 \<le> n"
  using assms that [of "nat x"] by auto

text \<open>
  Integers in packets: \<open>le_u32 b i\<close> is \<open>*(uint32_t*)(b + i)\<close> on x86, \<open>be_u16\<close> and \<open>be_u32\<close> are the
  same reads under \<open>ntohs\<close> and \<open>ntohl\<close>; \<open>le_bytes\<close> and \<open>be_bytes\<close> write an integer.
\<close>

definition le_u32 :: "byte list \<Rightarrow> nat \<Rightarrow> u32" where
  "le_u32 b i = word_of_int (uint (b ! i) + 256 * uint (b ! (i + 1)) + 65536 * uint (b ! (i + 2)) + 16777216 * uint (b ! (i + 3)))"

definition be_u16 :: "byte list \<Rightarrow> nat \<Rightarrow> u16" where
  "be_u16 b i = word_of_int (256 * uint (b ! i) + uint (b ! (i + 1)))"

definition be_u32 :: "byte list \<Rightarrow> nat \<Rightarrow> u32" where
  "be_u32 b i = word_of_int (16777216 * uint (b ! i) + 65536 * uint (b ! (i + 1)) + 256 * uint (b ! (i + 2)) + uint (b ! (i + 3)))"

definition le_bytes :: "u32 \<Rightarrow> byte list" where
  "le_bytes w = map (\<lambda>k. word_of_int (uint w div 256 ^ k)) [0, 1, 2, 3]"

lemma length_le_bytes [simp]: "length (le_bytes w) = 4"
  by (simp add: le_bytes_def)

lemma base256: "(x::int) = x mod 256 + 256 * (x div 256 mod 256) + 65536 * (x div 65536 mod 256) + 16777216 * (x div 16777216)"
proof -
  have d: "x div 65536 = x div 256 div 256" "x div 16777216 = x div 65536 div 256"
    by (simp_all add: zdiv_zmult2_eq [symmetric])
  have m: "y = y mod 256 + 256 * (y div 256)" for y :: int by simp
  from m [of x] m [of "x div 256"] m [of "x div 65536"] show ?thesis unfolding d by linarith
qed

lemma le_u32_le_bytes [simp]: "le_u32 (le_bytes w @ bs) 0 = w"
proof -
  have "uint w < 4294967296" "0 \<le> uint w" using uint_bounded [of w] by simp_all
  then have b: "0 \<le> uint w div 16777216" "uint w div 16777216 < 256" by linarith+
  then have "uint w div 16777216 mod 256 = uint w div 16777216" by simp
  with base256 [of "uint w"] have e: "uint w mod 256 + 256 * (uint w div 256 mod 256) +
    65536 * (uint w div 65536 mod 256) + 16777216 * (uint w div 16777216 mod 256) = uint w" by simp
  have u: "uint (word_of_int x :: byte) = x mod 256" for x by (simp add: uint_word_of_int)
  have "le_u32 (le_bytes w @ bs) 0 = word_of_int (uint w mod 256 + 256 * (uint w div 256 mod 256) +
    65536 * (uint w div 65536 mod 256) + 16777216 * (uint w div 16777216 mod 256))"
    unfolding le_u32_def by (simp only: le_bytes_def list.map append_Cons nth_Cons_0 nth_Cons_Suc u
      power_0 power_one_right div_by_1 add_0 One_nat_def numeral_2_eq_2 numeral_3_eq_3) simp
  then show ?thesis unfolding e by simp
qed

lemma le_u32_skip: "length as = 4 \<Longrightarrow> le_u32 (as @ bs) (i + 4) = le_u32 bs i"
  by (simp add: le_u32_def nth_append add.commute add.left_commute)

section \<open>Block copies into byte buffers\<close>

definition blit :: "'a list \<Rightarrow> nat \<Rightarrow> 'a list \<Rightarrow> 'a list" where
  "blit dst off src = take off dst @ src @ drop (off + length src) dst"

lemma blit_Nil [simp]: "blit dst off [] = dst"
  by (simp add: blit_def)

lemma length_blit [simp]:
  "off + length src \<le> length dst \<Longrightarrow> length (blit dst off src) = length dst"
  by (simp add: blit_def)

lemma take_blit_before [simp]:
  "k \<le> off \<Longrightarrow> off + length src \<le> length dst \<Longrightarrow> take k (blit dst off src) = take k dst"
  by (simp add: blit_def)

lemma drop_blit_after [simp]:
  "off + length src \<le> k \<Longrightarrow> off + length src \<le> length dst \<Longrightarrow>
   drop k (blit dst off src) = drop k dst"
  by (simp add: blit_def)

lemma take_blit_at:
  "off + length src \<le> length dst \<Longrightarrow>
   take (off + length src) (blit dst off src) = take off dst @ src"
  by (simp add: blit_def)

lemma drop_blit_at:
  "off + length src \<le> length dst \<Longrightarrow>
   drop off (blit dst off src) = src @ drop (off + length src) dst"
  by (simp add: blit_def)

lemma drop_blit_before:
  "k \<le> off \<Longrightarrow> off + length src \<le> length dst \<Longrightarrow>
   drop k (blit dst off src) = take (off - k) (drop k dst) @ src @ drop (off + length src) dst"
  by (simp add: blit_def drop_take)

section \<open>Segments of a list\<close>

definition seg :: "'a list \<Rightarrow> nat \<Rightarrow> nat \<Rightarrow> 'a list" where
  "seg xs i j = take (j - i) (drop i xs)"

lemma seg_same [simp]: "seg xs i i = []"
  by (simp add: seg_def)

lemma length_seg [simp]: "j \<le> length xs \<Longrightarrow> length (seg xs i j) = j - i"
  by (simp add: seg_def)

lemma seg_from_0: "seg xs 0 j = take j xs"
  by (simp add: seg_def)

lemma seg_append:
  assumes "i \<le> j" and "j \<le> k"
  shows "seg xs i j @ seg xs j k = seg xs i k"
proof -
  from assms have "k - i = (j - i) + (k - j)" by simp
  then have "take (k - i) (drop i xs) = take (j - i) (drop i xs) @ take (k - j) (drop (j - i) (drop i xs))"
    by (simp only: take_add)
  with assms show ?thesis by (simp add: seg_def)
qed

lemma take_seg: "i + n \<le> j \<Longrightarrow> take n (seg xs i j) = seg xs i (i + n)"
  by (simp add: seg_def min_absorb1 le_diff_conv2)

lemma drop_seg: "drop n (seg xs i j) = seg xs (i + n) j"
  by (simp add: seg_def drop_take add.commute)

end
