(* ===== verification/QueueIface.thy ===== *)
theory QueueIface
  imports Prelude
begin

text \<open>
  The interface \<open>i_ring_queue\<close> of \<open>src/c/library/ring-queue/trunk\<close> (\<open>i_ring_queue.h\<close>) and its
  error codes (\<open>error_list.h\<close>, \<open>error_list.cpp\<close>). A class implementing the interface is a
  record of its virtual methods, so that the decorators (\<open>SharedQueue\<close>) call whatever queue they
  wrap through it, as the C++ does through the base-class pointer. The locale \<open>byte_queue\<close> states
  what every implementation promises about the bytes it holds; its lemmas are proved once and
  reach the implementations through interpretations.
\<close>

section \<open>Error codes\<close>

datatype queue_err =
    E_NO_ERROR
  | E_NOT_INIT
  | E_ALREADY_INITED
  | E_PARAM
  | E_MEMORY
  | E_SYSTEM
  | E_IDLE_BUFFER

fun err_code :: "queue_err \<Rightarrow> int" where
  "err_code E_NO_ERROR = 0"
| "err_code E_NOT_INIT = 1"
| "err_code E_ALREADY_INITED = 2"
| "err_code E_PARAM = 3"
| "err_code E_MEMORY = 4"
| "err_code E_SYSTEM = 5"
| "err_code E_IDLE_BUFFER = 6"

definition g_errstr :: "string list" where
  "g_errstr =
     [''no error'', ''not init'', ''already inited'', ''bad parameter'', ''out of memory'',
      ''no enough idle buffer'', ''system error'']"

definition get_errstr :: "int \<Rightarrow> string option" where
  "get_errstr e = (if e < 0 \<or> e \<ge> 7 then None else Some (g_errstr ! nat e))"

section \<open>The virtual methods\<close>

text \<open>
  A method takes the object and returns the object it leaves and its \<open>int\<close> result; the two pop
  methods also return the bytes they write to the caller's buffer. \<open>vt_init\<close> is \<open>None\<close> where
  an \<open>assert\<close> of the source fails.
\<close>

record 'q i_ring_queue =
  vt_init :: "int \<Rightarrow> 'q \<Rightarrow> ('q \<times> int) option"
  vt_push_data :: "byte list option \<Rightarrow> int \<Rightarrow> bool \<Rightarrow> 'q \<Rightarrow> 'q \<times> int"
  vt_pop_data :: "bool \<Rightarrow> int \<Rightarrow> int \<Rightarrow> 'q \<Rightarrow> 'q \<times> int \<times> byte list"
  vt_pop_data_dummy :: "bool \<Rightarrow> int \<Rightarrow> int \<Rightarrow> 'q \<Rightarrow> 'q \<times> int \<times> byte list"
  vt_get_buffer_len :: "'q \<Rightarrow> 'q \<times> int"
  vt_get_data_len :: "'q \<Rightarrow> 'q \<times> int"
  vt_get_empty_buffer_len :: "'q \<Rightarrow> 'q \<times> int"
  vt_get_last_errno :: "'q \<Rightarrow> queue_err"
  vt_uninit :: "'q \<Rightarrow> 'q \<times> int"

section \<open>The contract\<close>

text \<open>
  \<open>ready\<close> is the implementation's invariant for an initialised object, \<open>content\<close> the bytes it
  holds, oldest first. A negative or zero result leaves the content alone (\<open>nat\<close> of it is 0).
\<close>

locale byte_queue =
  fixes vt :: "'q i_ring_queue"
    and ready :: "'q \<Rightarrow> bool"
    and content :: "'q \<Rightarrow> byte list"
  assumes push_law: "ready q \<Longrightarrow> data_len \<le> int (length src) \<Longrightarrow>
      vt_push_data vt (Some src) data_len atomic q = (q', rv) \<Longrightarrow>
      ready q' \<and> rv \<le> max 0 data_len \<and> content q' = content q @ take (nat rv) src"
    and push_null_law: "ready q \<Longrightarrow> vt_push_data vt None data_len atomic q = (q', rv) \<Longrightarrow>
      ready q' \<and> rv = -1 \<and> content q' = content q"
    and pop_law: "ready q \<Longrightarrow> vt_pop_data vt recv len timeout q = (q', rv, out) \<Longrightarrow>
      ready q' \<and> rv \<le> int (length (content q)) \<and> content q' = drop (nat rv) (content q) \<and>
      out = (if recv then take (nat rv) (content q) else [])"
    and dummy_law: "ready q \<Longrightarrow> vt_pop_data_dummy vt recv len timeout q = (q', rv, out) \<Longrightarrow>
      ready q' \<and> rv \<le> int (length (content q)) \<and> content q' = content q \<and>
      out = (if recv then take (nat rv) (content q) else [])"
    and dummy_pop_law: "ready q \<Longrightarrow> vt_pop_data_dummy vt recv len 0 q = (q', rv, out) \<Longrightarrow>
      0 < rv \<Longrightarrow> fst (snd (vt_pop_data vt False rv 0 q')) = rv"
    and dummy_again_law: "ready q \<Longrightarrow> vt_pop_data_dummy vt recv len 0 q = (q', rv, out) \<Longrightarrow>
      0 < rv \<Longrightarrow> fst (snd (vt_pop_data_dummy vt recv' rv 0 q')) = rv"
    and data_len_law: "ready q \<Longrightarrow> vt_get_data_len vt q = (q, int (length (content q)))"

text \<open>
  A client's use of a queue: pushes of whole buffers, pops and peeks into a buffer of \<open>len\<close>
  bytes. The run returns the object, the bytes the queue accepted and the bytes it delivered.
\<close>

datatype queue_op =
    Push "byte list" bool
  | Pop int
  | Peek int

fun run_queue ::
    "'q i_ring_queue \<Rightarrow> queue_op list \<Rightarrow> 'q \<Rightarrow> 'q \<times> byte list \<times> byte list" where
  "run_queue vt [] q = (q, [], [])"
| "run_queue vt (Push src atomic # ops) q =
     (let (q1, rv) = vt_push_data vt (Some src) (int (length src)) atomic q;
          (q2, accepted, delivered) = run_queue vt ops q1
      in (q2, take (nat rv) src @ accepted, delivered))"
| "run_queue vt (Pop len # ops) q =
     (let (q1, rv, out) = vt_pop_data vt True len 0 q;
          (q2, accepted, delivered) = run_queue vt ops q1
      in (q2, accepted, out @ delivered))"
| "run_queue vt (Peek len # ops) q =
     (let (q1, rv, out) = vt_pop_data_dummy vt True len 0 q in run_queue vt ops q1)"

context byte_queue begin

lemma run_fifo:
  "ready q \<Longrightarrow> run_queue vt ops q = (q', accepted, delivered) \<Longrightarrow>
   ready q' \<and> content q @ accepted = delivered @ content q'"
proof (induction ops arbitrary: q q' accepted delivered)
  case Nil
  then show ?case by simp
next
  case (Cons opn ops)
  show ?case
  proof (cases opn)
    case (Push src atomic)
    obtain q1 rv where push: "vt_push_data vt (Some src) (int (length src)) atomic q = (q1, rv)"
      by (cases "vt_push_data vt (Some src) (int (length src)) atomic q")
    obtain acc1 del1 where run: "run_queue vt ops q1 = (q', acc1, del1)"
      and "accepted = take (nat rv) src @ acc1" and "delivered = del1"
      using Cons.prems(2) push Push by (auto split: prod.splits)
    moreover from push_law [OF Cons.prems(1) order_refl push] have "ready q1"
      and "content q1 = content q @ take (nat rv) src" by auto
    ultimately show ?thesis using Cons.IH [OF _ run] by auto
  next
    case (Pop len)
    obtain q1 rv out where pop: "vt_pop_data vt True len 0 q = (q1, rv, out)"
      by (cases "vt_pop_data vt True len 0 q")
    obtain acc1 del1 where run: "run_queue vt ops q1 = (q', acc1, del1)"
      and "accepted = acc1" and "delivered = out @ del1"
      using Cons.prems(2) pop Pop by (auto split: prod.splits)
    moreover from pop_law [OF Cons.prems(1) pop] have "ready q1" and
      "content q = out @ content q1" by auto
    ultimately show ?thesis using Cons.IH [OF _ run] by auto
  next
    case (Peek len)
    obtain q1 rv out where peek: "vt_pop_data_dummy vt True len 0 q = (q1, rv, out)"
      by (cases "vt_pop_data_dummy vt True len 0 q")
    with Cons.prems(2) Peek have run: "run_queue vt ops q1 = (q', accepted, delivered)" by simp
    from dummy_law [OF Cons.prems(1) peek] have "ready q1" and "content q1 = content q" by auto
    with Cons.IH [OF _ run] show ?thesis by simp
  qed
qed

text \<open>A peek does not disturb what the next pop delivers.\<close>

lemma peek_then_pop:
  assumes "ready q" and "vt_pop_data_dummy vt True len 0 q = (q1, rv, out)" and "0 < rv"
  shows "vt_pop_data vt True rv' 0 q1 = (q2, rv2, out2) \<Longrightarrow> rv2 = rv \<Longrightarrow> out2 = out"
  using dummy_law [OF assms(1,2)] pop_law by fastforce

end

end
