(* ===== verification/RingQueue.thy ===== *)
theory RingQueue
  imports QueueIface
begin

text \<open>
  The shared-memory ring buffer \<open>c_ring_queue\<close> of \<open>src/c/library/ring-queue/trunk\<close>
  (\<open>ring_queue.h\<close>, \<open>ring_queue.cpp\<close>).
  One byte of the mapping is kept free, so that equal indices mean an empty queue.
  A method of the class is a function that takes the object and returns the object it leaves
  together with the \<open>int\<close> it returns and, where it fills a caller's buffer, the bytes it writes
  there. The proofs relate every method to the byte list the queue holds (\<open>rq_content\<close>).
\<close>

section \<open>The object\<close>

record ring_meta =
  p_buffer :: "byte list"
  buf_len :: int
  read_index :: int
  write_index :: int

text \<open>
  \<open>m_p_meta\<close> is \<open>NULL\<close> before \<open>init\<close> and after \<open>uninit\<close>, \<open>MAP_FAILED\<close> after a failed
  \<open>mmap\<close>, and otherwise points to the mapping.
\<close>

datatype meta_ptr = Meta_null | Meta_failed | Meta ring_meta

record ring_queue =
  m_inited :: bool
  m_last_errno :: queue_err
  m_p_meta :: meta_ptr

definition null_meta :: ring_meta where
  "null_meta = \<lparr>p_buffer = [], buf_len = 0, read_index = 0, write_index = 0\<rparr>"

text \<open>
  Dereferencing \<open>m_p_meta\<close>. Every method checks \<open>m_inited\<close> first, and an initialised object
  has a mapping (\<open>rq_wf\<close> below), so the default is never read.
\<close>

definition rq_meta :: "ring_queue \<Rightarrow> ring_meta" where
  "rq_meta q = (case m_p_meta q of Meta m \<Rightarrow> m | _ \<Rightarrow> null_meta)"

abbreviation rq_fail :: "queue_err \<Rightarrow> ring_queue \<Rightarrow> ring_queue" where
  "rq_fail e q \<equiv> q\<lparr>m_last_errno := e\<rparr>"

definition rq_new :: ring_queue where
  "rq_new = \<lparr>m_inited = False, m_last_errno = E_NO_ERROR, m_p_meta = Meta_null\<rparr>"

section \<open>Methods\<close>

text \<open>
  The answer of the operating system to \<open>mmap\<close>. An anonymous mapping is zero-filled. The
  result \<open>None\<close> of \<open>rq_init\<close> is the failed \<open>assert(m_p_meta == NULL)\<close>.
\<close>

datatype mmap_result = Mmap_ok | Mmap_enomem | Mmap_other_error

definition rq_init :: "mmap_result \<Rightarrow> int \<Rightarrow> ring_queue \<Rightarrow> (ring_queue \<times> int) option" where
  "rq_init os len q =
     (if m_inited q then Some (rq_fail E_ALREADY_INITED q, -1)
      else
        let blen = wrap32 (len + 1) in
        if blen \<le> 1 \<or> blen \<ge> 1 * 1024 * 1024 * 1024 then Some (rq_fail E_PARAM q, -1)
        else if m_p_meta q \<noteq> Meta_null then None
        else
          (case os of
             Mmap_enomem \<Rightarrow> Some (q\<lparr>m_p_meta := Meta_failed, m_last_errno := E_MEMORY\<rparr>, -1)
           | Mmap_other_error \<Rightarrow>
               Some (q\<lparr>m_p_meta := Meta_failed, m_last_errno := E_SYSTEM\<rparr>, -1)
           | Mmap_ok \<Rightarrow>
               Some (q\<lparr>m_p_meta := Meta \<lparr>p_buffer = replicate (nat blen) 0, buf_len = blen,
                                         read_index = 0, write_index = 0\<rparr>,
                      m_last_errno := E_NO_ERROR, m_inited := True\<rparr>, 0)))"

text \<open>
  \<open>p_data\<close> is \<open>None\<close> for the null pointer; otherwise the bytes it points to, at least
  \<open>data_len\<close> of them.
\<close>

definition rq_push_data ::
    "byte list option \<Rightarrow> int \<Rightarrow> bool \<Rightarrow> ring_queue \<Rightarrow> ring_queue \<times> int" where
  "rq_push_data p_data data_len is_atomic q =
     (if \<not> m_inited q then (rq_fail E_NOT_INIT q, -1)
      else
        (case p_data of
           None \<Rightarrow> (rq_fail E_PARAM q, -1)
         | Some src \<Rightarrow>
             if data_len < 1 then (rq_fail E_PARAM q, -1)
             else
               let m = rq_meta q; current_read_index = read_index m in
               if write_index m \<ge> current_read_index then
                 let current_empty_buffer_len =
                       buf_len m - (write_index m - current_read_index) - 1;
                     copy_len = min data_len current_empty_buffer_len
                 in if is_atomic \<and> copy_len < data_len then (rq_fail E_IDLE_BUFFER q, -1)
                    else
                      let right_empty_buffer_len = buf_len m - write_index m in
                      if copy_len < right_empty_buffer_len then
                        (q\<lparr>m_p_meta := Meta (m\<lparr>
                             p_buffer := blit (p_buffer m) (nat (write_index m))
                                              (take (nat copy_len) src),
                             write_index := write_index m + copy_len\<rparr>)\<rparr>, copy_len)
                      else
                        (q\<lparr>m_p_meta := Meta (m\<lparr>
                             p_buffer :=
                               blit (blit (p_buffer m) (nat (write_index m))
                                          (take (nat right_empty_buffer_len) src)) 0
                                    (take (nat (copy_len - right_empty_buffer_len))
                                          (drop (nat right_empty_buffer_len) src)),
                             write_index := copy_len - right_empty_buffer_len\<rparr>)\<rparr>, copy_len)
               else
                 let current_empty_buffer_len = current_read_index - write_index m - 1;
                     copy_len = min data_len current_empty_buffer_len
                 in if is_atomic \<and> copy_len < data_len then (rq_fail E_IDLE_BUFFER q, -1)
                    else
                      (q\<lparr>m_p_meta := Meta (m\<lparr>
                           p_buffer := blit (p_buffer m) (nat (write_index m))
                                            (take (nat copy_len) src),
                           write_index := write_index m + copy_len\<rparr>)\<rparr>, copy_len)))"

definition rq_get_data_len :: "ring_queue \<Rightarrow> ring_queue \<times> int" where
  "rq_get_data_len q =
     (if \<not> m_inited q then (rq_fail E_NOT_INIT q, -1)
      else
        let m = rq_meta q; current_write_index = write_index m; current_read_index = read_index m
        in if current_write_index \<ge> current_read_index
           then (q, current_write_index - current_read_index)
           else (q, buf_len m - (current_read_index - current_write_index)))"

text \<open>
  \<open>recv\<close> says whether \<open>p_recv_buffer\<close> is non-null; the third component of the result is what
  is written to it (nothing when it is null).
\<close>

definition rq_pop_data ::
    "bool \<Rightarrow> int \<Rightarrow> int \<Rightarrow> ring_queue \<Rightarrow> ring_queue \<times> int \<times> byte list" where
  "rq_pop_data recv len timeout q =
     (if \<not> m_inited q then (rq_fail E_NOT_INIT q, -1, [])
      else if len < 1 \<or> timeout \<noteq> 0 then (rq_fail E_PARAM q, -1, [])
      else if snd (rq_get_data_len q) \<le> 0 then (q, 0, [])
      else
        let m = rq_meta q; current_write_index = write_index m in
        if current_write_index \<ge> read_index m then
          let current_data_len = current_write_index - read_index m;
              copy_len = min current_data_len len
          in (q\<lparr>m_p_meta := Meta (m\<lparr>read_index := read_index m + copy_len\<rparr>)\<rparr>, copy_len,
              if recv then take (nat copy_len) (drop (nat (read_index m)) (p_buffer m)) else [])
        else
          let current_data_len = buf_len m - (read_index m - current_write_index);
              copy_len = min current_data_len len;
              right_data_len = buf_len m - read_index m
          in if len < right_data_len then
               (q\<lparr>m_p_meta := Meta (m\<lparr>read_index := read_index m + len\<rparr>)\<rparr>, len,
                if recv then take (nat len) (drop (nat (read_index m)) (p_buffer m)) else [])
             else
               (q\<lparr>m_p_meta := Meta (m\<lparr>read_index := copy_len - right_data_len\<rparr>)\<rparr>, copy_len,
                if recv then take (nat right_data_len) (drop (nat (read_index m)) (p_buffer m)) @
                             take (nat (copy_len - right_data_len)) (p_buffer m)
                else []))"

definition rq_pop_data_dummy ::
    "bool \<Rightarrow> int \<Rightarrow> int \<Rightarrow> ring_queue \<Rightarrow> ring_queue \<times> int \<times> byte list" where
  "rq_pop_data_dummy recv len timeout q =
     (if \<not> m_inited q then (rq_fail E_NOT_INIT q, -1, [])
      else if len < 1 \<or> timeout \<noteq> 0 then (rq_fail E_PARAM q, -1, [])
      else if snd (rq_get_data_len q) \<le> 0 then (q, 0, [])
      else
        let m = rq_meta q; current_write_index = write_index m in
        if current_write_index \<ge> read_index m then
          let current_data_len = current_write_index - read_index m;
              copy_len = min current_data_len len
          in (q, copy_len,
              if recv then take (nat copy_len) (drop (nat (read_index m)) (p_buffer m)) else [])
        else
          let current_data_len = buf_len m - (read_index m - current_write_index);
              copy_len = min current_data_len len;
              right_data_len = buf_len m - read_index m
          in if len < right_data_len then
               (q, len,
                if recv then take (nat len) (drop (nat (read_index m)) (p_buffer m)) else [])
             else
               (q, copy_len,
                if recv then take (nat right_data_len) (drop (nat (read_index m)) (p_buffer m)) @
                             take (nat (copy_len - right_data_len)) (p_buffer m)
                else []))"

definition rq_get_buffer_len :: "ring_queue \<Rightarrow> ring_queue \<times> int" where
  "rq_get_buffer_len q =
     (if \<not> m_inited q then (rq_fail E_NOT_INIT q, -1) else (q, buf_len (rq_meta q) - 1))"

definition rq_get_empty_buffer_len :: "ring_queue \<Rightarrow> ring_queue \<times> int" where
  "rq_get_empty_buffer_len q =
     (if \<not> m_inited q then (rq_fail E_NOT_INIT q, -1)
      else (q, buf_len (rq_meta q) - snd (rq_get_data_len q) - 1))"

definition rq_get_last_errno :: "ring_queue \<Rightarrow> queue_err" where
  "rq_get_last_errno q = m_last_errno q"

definition rq_get_last_errstr :: "ring_queue \<Rightarrow> string option" where
  "rq_get_last_errstr q = get_errstr (err_code (m_last_errno q))"

definition rq_uninit :: "ring_queue \<Rightarrow> ring_queue \<times> int" where
  "rq_uninit q =
     (if \<not> m_inited q then (rq_fail E_NOT_INIT q, -1)
      else (q\<lparr>m_p_meta := Meta_null, m_inited := False\<rparr>, 0))"

section \<open>Invariant and abstraction\<close>

definition meta_wf :: "ring_meta \<Rightarrow> bool" where
  "meta_wf m \<longleftrightarrow>
     1 < buf_len m \<and> buf_len m < 1073741824 \<and> int (length (p_buffer m)) = buf_len m \<and>
     0 \<le> read_index m \<and> read_index m < buf_len m \<and>
     0 \<le> write_index m \<and> write_index m < buf_len m"

definition rq_wf :: "ring_queue \<Rightarrow> bool" where
  "rq_wf q \<longleftrightarrow> (m_inited q \<longrightarrow> (\<exists>m. m_p_meta q = Meta m \<and> meta_wf m))"

definition meta_content :: "ring_meta \<Rightarrow> byte list" where
  "meta_content m =
     (let r = nat (read_index m); w = nat (write_index m) in
      if r \<le> w then seg (p_buffer m) r w
      else drop r (p_buffer m) @ take w (p_buffer m))"

definition rq_content :: "ring_queue \<Rightarrow> byte list" where
  "rq_content q = (if m_inited q then meta_content (rq_meta q) else [])"

definition rq_capacity :: "ring_queue \<Rightarrow> nat" where
  "rq_capacity q = (if m_inited q then nat (buf_len (rq_meta q) - 1) else 0)"

text \<open>An initialised queue and nothing else: the state every client of the queue works in.\<close>

definition rq_ready :: "ring_queue \<Rightarrow> bool" where
  "rq_ready q \<longleftrightarrow> m_inited q \<and> rq_wf q"

section \<open>The content under index movements\<close>


lemma meta_content_nat:
  assumes "read_index m = int r" and "write_index m = int w"
  shows "meta_content m =
    (if r \<le> w then seg (p_buffer m) r w else drop r (p_buffer m) @ take w (p_buffer m))"
  using assms by (simp add: meta_content_def)

lemma meta_wfE:
  assumes "meta_wf m"
  obtains n r w where "buf_len m = int n" "read_index m = int r" "write_index m = int w"
    "1 < n" "n < 1073741824" "length (p_buffer m) = n" "r < n" "w < n"
proof -
  from assms have "buf_len m = int (nat (buf_len m))" "read_index m = int (nat (read_index m))"
    "write_index m = int (nat (write_index m))" "1 < nat (buf_len m)" "nat (buf_len m) < 1073741824"
    "length (p_buffer m) = nat (buf_len m)" "nat (read_index m) < nat (buf_len m)"
    "nat (write_index m) < nat (buf_len m)"
    by (auto simp: meta_wf_def)
  then show ?thesis by (rule that)
qed

lemma length_meta_content:
  assumes "meta_wf m"
  shows "int (length (meta_content m)) =
    (if write_index m \<ge> read_index m then write_index m - read_index m
     else buf_len m - (read_index m - write_index m))"
  using assms by (cases rule: meta_wfE) (auto simp: meta_content_nat of_nat_diff)

lemma length_meta_content_less:
  "meta_wf m \<Longrightarrow> length (meta_content m) < nat (buf_len m)"
  by (cases rule: meta_wfE) (auto simp: meta_content_nat)

text \<open>Writing without wrap-around, behind the data (\<open>r \<le> w\<close>) or in the gap (\<open>w < r\<close>).\<close>

lemma content_write_straight:
  assumes "meta_wf m" and "write_index m = int w" and "read_index m = int r"
    and "w + length src < length (p_buffer m)" and "w < r \<longrightarrow> w + length src < r"
    and "m' = m\<lparr>p_buffer := blit (p_buffer m) w src, write_index := int (w + length src)\<rparr>"
  shows "meta_wf m' \<and> meta_content m' = meta_content m @ src"
proof (cases "r \<le> w")
  case True
  let ?b = "p_buffer m" and ?b' = "blit (p_buffer m) w src"
  have "take (w + length src) ?b' = take w ?b @ src"
    using assms(4) by (simp add: take_blit_at)
  then have "drop r (take (w + length src) ?b') = drop r (take w ?b) @ src"
    using True assms(1,2) by (auto simp: meta_wf_def)
  then have "seg ?b' r (w + length src) = seg ?b r w @ src"
    by (simp add: seg_def drop_take)
  moreover have "meta_content m' = seg ?b' r (w + length src)"
    using True assms(3,6) meta_content_nat [of m' r "w + length src"] by simp
  moreover have "meta_content m = seg ?b r w"
    using True assms(2,3) meta_content_nat [of m r w] by simp
  ultimately show ?thesis using assms by (auto simp: meta_wf_def)
next
  case False
  with assms have "w + length src < r" "r < length (p_buffer m)" by (auto simp: meta_wf_def)
  with False assms meta_content_nat [of m' r "w + length src"] meta_content_nat [of m r w]
  show ?thesis by (auto simp: meta_wf_def take_blit_at)
qed

text \<open>Writing up to the end of the buffer and on from its start.\<close>

lemma content_write_wrapped:
  assumes "meta_wf m" and "write_index m = int w" and "read_index m = int r" and "r \<le> w"
    and "length s1 = length (p_buffer m) - w" and "length s2 < r"
    and "m' = m\<lparr>p_buffer := blit (blit (p_buffer m) w s1) 0 s2, write_index := int (length s2)\<rparr>"
  shows "meta_wf m' \<and> meta_content m' = meta_content m @ s1 @ s2"
proof -
  let ?b = "p_buffer m" and ?b1 = "blit (p_buffer m) w s1"
  have wn: "w < length ?b" and s2: "length s2 < r" using assms(1,2,6) by (auto simp: meta_wf_def)
  with assms(5) have len1: "length ?b1 = length ?b" by simp
  have "drop r (blit ?b1 0 s2) = drop r ?b1" using s2 wn assms(4) len1 by simp
  also have "\<dots> = take (w - r) (drop r ?b) @ s1"
    using assms(4,5) wn by (simp add: drop_blit_before)
  finally have "drop r (blit ?b1 0 s2) = seg ?b r w @ s1" by (simp add: seg_def)
  moreover have "take (length s2) (blit ?b1 0 s2) = s2"
    using take_blit_at [of 0 s2 ?b1] len1 s2 wn assms(4) by simp
  ultimately show ?thesis
    using assms s2 wn len1 meta_content_nat [of m' r "length s2"] meta_content_nat [of m r w]
    by (auto simp: meta_wf_def)
qed

text \<open>Reading: the read index moves over the first bytes of the content.\<close>

lemma content_read_straight:
  assumes "meta_wf m" and "read_index m = int r" and "write_index m = int w"
    and "r \<le> w \<longrightarrow> r + n \<le> w" and "r + n < length (p_buffer m) \<or> r \<le> w"
    and "m' = m\<lparr>read_index := int (r + n)\<rparr>"
  shows "meta_wf m' \<and> meta_content m' = drop n (meta_content m) \<and>
         take n (drop r (p_buffer m)) = take n (meta_content m)"
proof (cases "r \<le> w")
  case True
  with assms meta_content_nat [of m' "r + n" w] meta_content_nat [of m r w] show ?thesis
    by (auto simp: meta_wf_def drop_seg take_seg) (simp_all add: seg_def)
next
  case False
  with assms have "r + n < length (p_buffer m)" by simp
  with False assms meta_content_nat [of m' "r + n" w] meta_content_nat [of m r w] show ?thesis
    by (auto simp: meta_wf_def add.commute)
qed

lemma content_read_wrapped:
  assumes "meta_wf m" and "read_index m = int r" and "write_index m = int w" and "w < r"
    and "k = length (p_buffer m) - r" and "n \<le> w" and "m' = m\<lparr>read_index := int n\<rparr>"
  shows "meta_wf m' \<and> meta_content m' = drop (k + n) (meta_content m) \<and>
         take k (drop r (p_buffer m)) @ take n (p_buffer m) = take (k + n) (meta_content m)"
proof -
  have "r < length (p_buffer m)" using assms(1,2) by (auto simp: meta_wf_def)
  with assms meta_content_nat [of m' n w] meta_content_nat [of m r w] show ?thesis
    by (auto simp: meta_wf_def seg_def drop_take min_absorb1)
qed

section \<open>What the methods do to the content\<close>


lemma rq_readyE:
  assumes "rq_ready q"
  obtains m where "m_inited q" "m_p_meta q = Meta m" "meta_wf m"
  using assms by (auto simp: rq_ready_def rq_wf_def)

lemma rq_meta_Meta [simp]: "m_p_meta q = Meta m \<Longrightarrow> rq_meta q = m"
  by (simp add: rq_meta_def)

definition rq_free :: "ring_queue \<Rightarrow> nat" where
  "rq_free q = rq_capacity q - length (rq_content q)"

lemma rq_content_Meta:
  "m_inited q \<Longrightarrow> m_p_meta q = Meta m \<Longrightarrow> rq_content q = meta_content m"
  by (simp add: rq_content_def)

lemma rq_capacity_Meta:
  "m_inited q \<Longrightarrow> m_p_meta q = Meta m \<Longrightarrow> rq_capacity q = nat (buf_len m) - 1"
  by (simp add: rq_capacity_def nat_diff_distrib')

lemma rq_ready_Meta:
  "m_inited q \<Longrightarrow> m_p_meta q = Meta m \<Longrightarrow> rq_ready q \<longleftrightarrow> meta_wf m"
  by (auto simp: rq_ready_def rq_wf_def)

lemmas rq_Meta = rq_content_Meta rq_capacity_Meta rq_ready_Meta

lemma rq_content_bound: "rq_ready q \<Longrightarrow> length (rq_content q) \<le> rq_capacity q"
  by (erule rq_readyE) (use length_meta_content_less in \<open>fastforce simp: rq_Meta\<close>)

lemma rq_fail_simps [simp]:
  "rq_content (rq_fail e q) = rq_content q" "rq_capacity (rq_fail e q) = rq_capacity q"
  "rq_ready (rq_fail e q) = rq_ready q" "rq_wf (rq_fail e q) = rq_wf q"
  by (simp_all add: rq_content_def rq_capacity_def rq_ready_def rq_wf_def rq_meta_def)

lemma rq_get_data_len_ready:
  "rq_ready q \<Longrightarrow> rq_get_data_len q = (q, int (length (rq_content q)))"
  by (erule rq_readyE) (simp add: rq_get_data_len_def rq_Meta Let_def length_meta_content)

text \<open>What a successful push stores, and when an atomic push is refused.\<close>

lemma rq_push_data_ready:
  assumes "rq_ready q" and "1 \<le> n" and "n \<le> length src"
    and "k = min n (rq_free q)"
  shows "if atomic \<and> k < n then rq_push_data (Some src) (int n) atomic q = (rq_fail E_IDLE_BUFFER q, -1)
         else \<exists>q'. rq_push_data (Some src) (int n) atomic q = (q', int k) \<and> rq_ready q' \<and>
                   rq_content q' = rq_content q @ take k src \<and> rq_capacity q' = rq_capacity q"
proof -
  obtain m where q: "m_inited q" "m_p_meta q = Meta m" and wf: "meta_wf m"
    using assms(1) by (rule rq_readyE)
  obtain N r w where m: "buf_len m = int N" "read_index m = int r" "write_index m = int w"
    "1 < N" "N < 1073741824" "length (p_buffer m) = N" "r < N" "w < N"
    using wf by (rule meta_wfE)
  have len: "length (meta_content m) = (if r \<le> w then w - r else N - (r - w))"
    using length_meta_content [OF wf] m by (auto simp: of_nat_diff split: if_splits)
  have free: "rq_free q = (if r \<le> w then N - (w - r) - 1 else r - w - 1)"
    using q m len by (auto simp: rq_free_def rq_Meta)
  have copy: "min (int n) (if r \<le> w then int N - (int w - int r) - 1 else int r - int w - 1) = int k"
    using assms(4) free m by (auto simp: of_nat_diff min_def)
  show ?thesis
  proof (cases "r \<le> w")
    case True
    note c = copy [simplified True if_True]
    show ?thesis
    proof (cases "k < N - w")
      case True
      let ?m = "m\<lparr>p_buffer := blit (p_buffer m) w (take k src), write_index := int w + int k\<rparr>"
      have "meta_wf ?m \<and> meta_content ?m = meta_content m @ take k src"
        by (rule content_write_straight [OF wf m(3,2)]) (use True \<open>r \<le> w\<close> assms m in auto)
      then show ?thesis using q m assms(2) c True \<open>r \<le> w\<close>
        by (auto simp: rq_push_data_def Let_def rq_Meta)
    next
      case False
      let ?s1 = "take (N - w) src" and ?s2 = "take (k - (N - w)) (drop (N - w) src)"
      let ?m = "m\<lparr>p_buffer := blit (blit (p_buffer m) w ?s1) 0 ?s2, write_index := int k - (int N - int w)\<rparr>"
      have s: "?s1 @ ?s2 = take k src"
        using False by (metis le_add_diff_inverse not_less take_add)
      have kn: "k \<le> length src" "k \<le> N - (w - r) - 1"
        using assms(3,4) free \<open>r \<le> w\<close> by simp_all
      have l1: "length ?s1 = length (p_buffer m) - w" using kn False m(6) by simp
      have l2: "length ?s2 = k - (N - w)" using kn by simp
      have l3: "length ?s2 < r" using l2 kn False \<open>r \<le> w\<close> m(8) by linarith
      have ix: "int k - (int N - int w) = int (length ?s2)" using l2 False m(8) by linarith
      have "meta_wf ?m \<and> meta_content ?m = meta_content m @ ?s1 @ ?s2"
        by (rule content_write_wrapped [OF wf m(3,2) \<open>r \<le> w\<close> l1 l3]) (simp only: ix)
      moreover have "nat (int k - (int N - int w)) = k - (N - w)" "nat (int N - int w) = N - w"
        using m by auto
      ultimately show ?thesis using q m assms(2) c False \<open>r \<le> w\<close> s
        by (auto simp: rq_push_data_def Let_def rq_Meta)
    qed
  next
    case False
    note c = copy [simplified False if_False]
    let ?m = "m\<lparr>p_buffer := blit (p_buffer m) w (take k src), write_index := int w + int k\<rparr>"
    have "meta_wf ?m \<and> meta_content ?m = meta_content m @ take k src"
      by (rule content_write_straight [OF wf m(3,2)]) (use False assms m free in auto)
    then show ?thesis using q m assms(2) c False
      by (auto simp: rq_push_data_def Let_def rq_Meta)
  qed
qed

lemma rq_pop_data_ready:
  assumes "rq_ready q" and "1 \<le> n" and "k = min n (length (rq_content q))"
  shows "\<exists>q'. rq_pop_data recv (int n) 0 q =
                (q', int k, if recv then take k (rq_content q) else []) \<and>
              rq_ready q' \<and> rq_content q' = drop k (rq_content q) \<and>
              rq_capacity q' = rq_capacity q"
proof -
  obtain m where q: "m_inited q" "m_p_meta q = Meta m" and wf: "meta_wf m"
    using assms(1) by (rule rq_readyE)
  obtain N r w where m: "buf_len m = int N" "read_index m = int r" "write_index m = int w"
    "1 < N" "N < 1073741824" "length (p_buffer m) = N" "r < N" "w < N"
    using wf by (rule meta_wfE)
  have len: "length (meta_content m) = (if r \<le> w then w - r else N - (r - w))"
    using length_meta_content [OF wf] m by (auto simp: of_nat_diff split: if_splits)
  note dl = rq_get_data_len_ready [OF assms(1)]
  show ?thesis
  proof (cases "length (meta_content m) = 0")
    case True
    then show ?thesis using q dl assms by (simp add: rq_pop_data_def rq_Meta)
  next
    case nonempty: False
    show ?thesis
    proof (cases "r \<le> w \<or> n < N - r")
      case True
      let ?m = "m\<lparr>read_index := int r + int k\<rparr>"
      have "meta_wf ?m \<and> meta_content ?m = drop k (meta_content m) \<and>
            take k (drop r (p_buffer m)) = take k (meta_content m)"
        by (rule content_read_straight [OF wf m(2,3)]) (use True assms q m len in \<open>auto simp: rq_Meta\<close>)
      moreover have "r \<le> w \<Longrightarrow> min (int w - int r) (int n) = int k"
        using assms q len by (auto simp: rq_Meta min_def of_nat_diff)
      moreover have "\<not> r \<le> w \<Longrightarrow> int n = int k"
        using assms q len True m by (auto simp: rq_Meta min_def of_nat_diff)
      ultimately show ?thesis using q m dl nonempty True assms(2)
        by (auto simp: rq_pop_data_def Let_def rq_Meta)
    next
      case False
      then have wr: "w < r" and nr: "N - r \<le> n" by auto
      let ?m = "m\<lparr>read_index := int k - (int N - int r)\<rparr>"
      have k: "N - r \<le> k" "k - (N - r) \<le> w" "(N - r) + (k - (N - r)) = k"
        using assms q len wr nr m by (auto simp: rq_Meta)
      have "meta_wf ?m \<and> meta_content ?m = drop (N - r + (k - (N - r))) (meta_content m) \<and>
            take (N - r) (drop r (p_buffer m)) @ take (k - (N - r)) (p_buffer m) =
            take (N - r + (k - (N - r))) (meta_content m)"
        by (rule content_read_wrapped [OF wf m(2,3) wr _ k(2)])
           (use k m in simp_all)
      moreover have "min (int N - (int r - int w)) (int n) = int k"
        using assms q len wr m by (auto simp: rq_Meta min_def of_nat_diff)
      moreover have "nat (int k - (int N - int r)) = k - (N - r)" "nat (int N - int r) = N - r"
        using m by auto
      ultimately show ?thesis using q m dl nonempty wr nr k(3) assms(2)
        by (auto simp: rq_pop_data_def Let_def rq_Meta)
    qed
  qed
qed

lemma rq_pop_data_dummy_eq:
  assumes "rq_ready q"
  shows "rq_pop_data_dummy recv len t q =
    (let (q', rv, out) = rq_pop_data recv len t q in (if rv < 0 then q' else q, rv, out))"
proof -
  obtain m where "m_inited q" "m_p_meta q = Meta m" and wf: "meta_wf m"
    using assms by (rule rq_readyE)
  with rq_get_data_len_ready [OF assms] show ?thesis
    by (auto simp: rq_pop_data_dummy_def rq_pop_data_def Let_def meta_wf_def)
qed

lemma rq_pop_data_error:
  "rq_ready q \<Longrightarrow> len < 1 \<or> timeout \<noteq> 0 \<Longrightarrow>
   rq_pop_data recv len timeout q = (rq_fail E_PARAM q, -1, [])"
  by (erule rq_readyE) (simp add: rq_pop_data_def)

lemma rq_push_data_error:
  "rq_ready q \<Longrightarrow> p_data = None \<or> len < 1 \<Longrightarrow>
   rq_push_data p_data len atomic q = (rq_fail E_PARAM q, -1)"
  by (erule rq_readyE) (auto simp: rq_push_data_def split: option.split)


section \<open>The ring buffer implements the interface\<close>

definition rq_vtable :: "mmap_result \<Rightarrow> ring_queue i_ring_queue" where
  "rq_vtable os =
     \<lparr>vt_init = rq_init os,
      vt_push_data = rq_push_data,
      vt_pop_data = rq_pop_data,
      vt_pop_data_dummy = rq_pop_data_dummy,
      vt_get_buffer_len = rq_get_buffer_len,
      vt_get_data_len = rq_get_data_len,
      vt_get_empty_buffer_len = rq_get_empty_buffer_len,
      vt_get_last_errno = rq_get_last_errno,
      vt_uninit = rq_uninit\<rparr>"

lemma rq_push_cases:
  assumes "rq_ready q" and "data_len \<le> int (length src)"
    and "rq_push_data (Some src) data_len atomic q = (q', rv)"
  shows "rq_ready q' \<and> rv \<le> max 0 data_len \<and> rq_content q' = rq_content q @ take (nat rv) src \<and>
         rq_capacity q' = rq_capacity q"
proof (cases "data_len < 1")
  case True
  then show ?thesis using assms rq_push_data_error by fastforce
next
  case False
  then obtain n where n: "data_len = int n" "1 \<le> n" by (rule pos_int_natE)
  with assms(2) have "n \<le> length src" by simp
  with n show ?thesis
    using rq_push_data_ready [OF assms(1), of n src "min n (rq_free q)" atomic] assms(1,3)
    by (auto split: if_splits)
qed

lemma rq_pop_cases:
  assumes "rq_ready q" and "rq_pop_data recv len timeout q = (q', rv, out)"
  shows "rq_ready q' \<and> rv \<le> int (length (rq_content q)) \<and>
         rq_content q' = drop (nat rv) (rq_content q) \<and> rq_capacity q' = rq_capacity q \<and>
         out = (if recv then take (nat rv) (rq_content q) else []) \<and>
         (0 \<le> rv \<longrightarrow> rv = min len (int (length (rq_content q))) \<and> 1 \<le> len \<and> timeout = 0)"
proof (cases "len < 1 \<or> timeout \<noteq> 0")
  case True
  then show ?thesis using assms rq_pop_data_error by fastforce
next
  case False
  then have "\<not> len < 1" by simp
  then obtain n where "len = int n" "1 \<le> n" by (rule pos_int_natE)
  then show ?thesis
    using rq_pop_data_ready [OF assms(1), of n "min n (length (rq_content q))" recv] assms(2) False
    by auto
qed

lemma rq_dummy_cases:
  assumes "rq_ready q" and "rq_pop_data_dummy recv len timeout q = (q', rv, out)"
  shows "rq_ready q' \<and> rv \<le> int (length (rq_content q)) \<and>
         rq_content q' = rq_content q \<and> rq_capacity q' = rq_capacity q \<and>
         out = (if recv then take (nat rv) (rq_content q) else []) \<and>
         (0 \<le> rv \<longrightarrow> q' = q \<and> rv = min len (int (length (rq_content q))) \<and> 1 \<le> len \<and> timeout = 0)"
proof -
  obtain q1 where pop: "rq_pop_data recv len timeout q = (q1, rv, out)" and
    q': "q' = (if rv < 0 then q1 else q)"
    using assms rq_pop_data_dummy_eq [OF assms(1), of recv len timeout] by (auto split: prod.splits)
  from rq_pop_cases [OF assms(1) pop] assms(1) q' show ?thesis by auto
qed

definition rq_ready_cap :: "nat \<Rightarrow> ring_queue \<Rightarrow> bool" where
  "rq_ready_cap c q \<longleftrightarrow> rq_ready q \<and> rq_capacity q = c"

interpretation rq: byte_queue "rq_vtable os" "rq_ready_cap c" rq_content
proof (unfold_locales, unfold rq_ready_cap_def, goal_cases)
  case (1 q data_len src atomic q' rv)
  then show ?case using rq_push_cases [of q data_len src atomic q' rv] by (simp add: rq_vtable_def)
next
  case (2 q data_len atomic q' rv)
  then show ?case using rq_push_data_error [of q None] by (auto simp: rq_vtable_def)
next
  case (3 q recv len timeout q' rv out)
  then show ?case using rq_pop_cases [of q recv len timeout q' rv out] by (simp add: rq_vtable_def)
next
  case (4 q recv len timeout q' rv out)
  then show ?case using rq_dummy_cases [of q recv len timeout q' rv out] by (simp add: rq_vtable_def)
next
  case (5 q recv len q' rv out)
  then have d: "q' = q" "rv \<le> int (length (rq_content q))"
    using rq_dummy_cases [of q recv len 0 q' rv out] by (simp_all add: rq_vtable_def)
  obtain n where n: "rv = int n" using \<open>0 < rv\<close> by (metis zero_less_imp_eq_int)
  with 5 d show ?case
    using rq_pop_data_ready [of q n n False] by (auto simp: rq_vtable_def)
next
  case (6 q recv len q' rv out recv')
  then have d: "q' = q" "rv \<le> int (length (rq_content q))"
    using rq_dummy_cases [of q recv len 0 q' rv out] by (simp_all add: rq_vtable_def)
  obtain n where n: "rv = int n" using \<open>0 < rv\<close> by (metis zero_less_imp_eq_int)
  with 6 d show ?case
    using rq_pop_data_ready [of q n n recv'] rq_pop_data_dummy_eq [of q recv' rv 0]
    by (auto simp: rq_vtable_def)
next
  case (7 q)
  then show ?case by (simp add: rq_vtable_def rq_get_data_len_ready)
qed

lemma rq_init_ready:
  assumes "rq_init os len q = Some (q', 0)" and "in_int32 len"
  shows "rq_ready q' \<and> rq_content q' = [] \<and> rq_capacity q' = nat len \<and> os = Mmap_ok \<and> 0 < len"
proof -
  let ?b = "wrap32 (len + 1)"
  from assms(1) have b: "1 < ?b" "?b < 1073741824" and os: "os = Mmap_ok"
    and q': "q' = q\<lparr>m_p_meta := Meta \<lparr>p_buffer = replicate (nat ?b) 0, buf_len = ?b,
                                read_index = 0, write_index = 0\<rparr>,
                   m_last_errno := E_NO_ERROR, m_inited := True\<rparr>"
    by (auto simp: rq_init_def Let_def split: if_splits mmap_result.splits)
  have "?b = len + 1"
  proof (cases "len = 2147483647")
    case True
    with b(1) show ?thesis by (simp add: wrap32_def)
  next
    case False
    with assms(2) have "in_int32 (len + 1)" by (auto simp: in_int32_def)
    then show ?thesis by simp
  qed
  with b os show ?thesis unfolding q'
    by (simp add: rq_ready_def rq_wf_def meta_wf_def rq_content_def rq_capacity_def
        meta_content_def)
qed

section \<open>Properties of the ring buffer\<close>

text \<open>
  C2: \<open>push_data\<close> on an initialised ring appends to the bytes it holds: all of the data when it
  fits; the part that fits when it does not and the push is not atomic; nothing (and -1 with
  \<open>E_IDLE_BUFFER\<close>) when it does not fit and the push is atomic. The wrap-around of the index, the
  split copy and the reserved byte are invisible in the content.
\<close>

theorem ring_push_refines:
  assumes "rq_ready q" and "1 \<le> n" and "n \<le> length src"
    and "rq_push_data (Some src) (int n) atomic q = (q', rv)"
  shows "rq_ready q' \<and> rq_capacity q' = rq_capacity q \<and>
    (if length (rq_content q) + n \<le> rq_capacity q then
       rv = int n \<and> rq_content q' = rq_content q @ take n src
     else if atomic then
       rv = -1 \<and> rq_content q' = rq_content q \<and> m_last_errno q' = E_IDLE_BUFFER
     else
       rv = int (rq_capacity q - length (rq_content q)) \<and>
       rq_content q' = rq_content q @ take (rq_capacity q - length (rq_content q)) src)"
proof -
  note push = rq_push_data_ready [OF assms(1-3) refl, of atomic]
  show ?thesis
  proof (cases "length (rq_content q) + n \<le> rq_capacity q")
    case True
    then have "min n (rq_free q) = n" by (simp add: rq_free_def)
    with push assms(4) True show ?thesis by auto
  next
    case False
    then have "min n (rq_free q) = rq_free q" "rq_free q < n"
      using rq_content_bound [OF assms(1)] by (auto simp: rq_free_def)
    with push assms(1,4) False show ?thesis by (auto simp: rq_free_def)
  qed
qed

definition ring_example :: ring_queue where
  "ring_example = \<lparr>m_inited = True, m_last_errno = E_NO_ERROR,
     m_p_meta = Meta \<lparr>p_buffer = [10, 20, 30, 40], buf_len = 4, read_index = 3, write_index = 1\<rparr>\<rparr>"

lemma ring_example_facts:
  "rq_ready ring_example" "rq_content ring_example = [40, 10]" "rq_capacity ring_example = 3"
  by (simp_all add: ring_example_def rq_ready_def rq_wf_def meta_wf_def rq_content_def rq_meta_def
      meta_content_def rq_capacity_def)

theorem ring_push_refines_witness:
  "\<exists>q'. rq_push_data (Some [50, 60]) 2 False ring_example = (q', 1) \<and> rq_content q' = [40, 10, 50]"
proof -
  obtain q' rv where e: "rq_push_data (Some [50, 60]) (int 2) False ring_example = (q', rv)"
    by (cases "rq_push_data (Some [50, 60]) (int 2) False ring_example")
  from ring_push_refines [OF ring_example_facts(1) _ _ e] ring_example_facts
  have "rv = 1 \<and> rq_content q' = [40, 10, 50]" by simp
  with e show ?thesis by simp
qed

text \<open>
  C15: \<open>pop_data\<close> with a positive length and no timeout on an initialised ring takes off the
  oldest bytes, as many as asked for or as there are, writes exactly these bytes to the caller's
  buffer (unless it is null) and leaves the rest in order; \<open>pop_data_dummy\<close> returns and writes
  the same and leaves the ring as it is.
\<close>

theorem ring_pop_refines:
  assumes "rq_ready q" and "1 \<le> n"
    and "rq_pop_data recv (int n) 0 q = (q', rv, out)"
  shows "rv = int (min n (length (rq_content q))) \<and>
    out = (if recv then take n (rq_content q) else []) \<and>
    rq_content q' = drop n (rq_content q) \<and> rq_ready q' \<and> rq_capacity q' = rq_capacity q \<and>
    rq_pop_data_dummy recv (int n) 0 q = (q, rv, out)"
proof -
  from rq_pop_data_ready [OF assms(1,2) refl, of recv] assms(3)
  have *: "rv = int (min n (length (rq_content q)))"
    "out = (if recv then take (min n (length (rq_content q))) (rq_content q) else [])"
    "rq_content q' = drop (min n (length (rq_content q))) (rq_content q)"
    "rq_ready q'" "rq_capacity q' = rq_capacity q" by auto
  moreover have "take (min n (length (rq_content q))) (rq_content q) = take n (rq_content q)"
    and "drop (min n (length (rq_content q))) (rq_content q) = drop n (rq_content q)"
    by (simp_all add: min_def)
  ultimately show ?thesis using rq_pop_data_dummy_eq [OF assms(1), of recv "int n" 0] assms(3) by auto
qed

theorem ring_pop_refines_witness:
  "\<exists>q'. rq_pop_data True 3 0 ring_example = (q', 2, [40, 10]) \<and> rq_content q' = []"
proof -
  obtain q' rv out where e: "rq_pop_data True (int 3) 0 ring_example = (q', rv, out)"
    by (cases "rq_pop_data True (int 3) 0 ring_example")
  from ring_pop_refines [OF ring_example_facts(1) _ e] ring_example_facts
  have "rv = 2 \<and> out = [40, 10] \<and> rq_content q' = []" by simp
  with e show ?thesis by simp
qed

text \<open>
  C16: from a successful \<open>init\<close> on, whatever sequence of pushes, pops and peeks a process makes,
  the bytes delivered are the bytes accepted, in order and without loss or duplication; what is
  not yet delivered is what the ring holds, never more than the length it was initialised with.
\<close>

theorem ring_run_fifo:
  assumes "in_int32 len" and "rq_init os len q0 = Some (q, 0)"
    and "run_queue (rq_vtable os') ops q = (q', accepted, delivered)"
  shows "accepted = delivered @ rq_content q' \<and> length (rq_content q') \<le> nat len"
proof -
  from rq_init_ready [OF assms(2,1)] have "rq_ready_cap (nat len) q" and e: "rq_content q = []"
    by (auto simp: rq_ready_cap_def)
  from rq.run_fifo [OF this(1) assms(3)] e rq_content_bound [of q'] show ?thesis
    by (auto simp: rq_ready_cap_def)
qed

lemma ring_init_3:
  "rq_init Mmap_ok 3 rq_new = Some (\<lparr>m_inited = True, m_last_errno = E_NO_ERROR,
     m_p_meta = Meta \<lparr>p_buffer = [0, 0, 0, 0], buf_len = 4, read_index = 0, write_index = 0\<rparr>\<rparr>, 0)"
  by (simp add: rq_init_def rq_new_def Let_def wrap32_def eval_nat_numeral)

theorem ring_run_fifo_witness:
  "\<exists>q q'. rq_init Mmap_ok 3 rq_new = Some (q, 0) \<and>
     run_queue (rq_vtable Mmap_ok) [Push [1, 2] True, Pop 1, Push [3, 4, 5] False, Pop 2] q =
       (q', [1, 2, 3, 4], [1, 2, 3]) \<and> rq_content q' = [4]"
proof -
  have "snd (run_queue (rq_vtable Mmap_ok)
      [Push [1, 2] True, Pop 1, Push [3, 4, 5] False, Pop 2] (fst (the (rq_init Mmap_ok 3 rq_new)))) =
      ([1, 2, 3, 4], [1, 2, 3])"
    by code_simp
  then obtain q' where run: "run_queue (rq_vtable Mmap_ok)
      [Push [1, 2] True, Pop 1, Push [3, 4, 5] False, Pop 2] (fst (the (rq_init Mmap_ok 3 rq_new))) =
      (q', [1, 2, 3, 4], [1, 2, 3])"
    by (metis prod.collapse)
  have "in_int32 3" by (simp add: in_int32_def)
  moreover have "rq_init Mmap_ok 3 rq_new = Some (fst (the (rq_init Mmap_ok 3 rq_new)), 0)"
    by (simp add: ring_init_3)
  ultimately have "rq_content q' = [4]" using ring_run_fifo [OF _ _ run] by fastforce
  with run ring_init_3 show ?thesis by auto
qed

text \<open>
  The three length queries of an initialised ring agree: used plus free is the whole, and the
  whole is the length given to \<open>init\<close>.
\<close>

lemma ring_lengths_agree:
  assumes "rq_ready q"
  shows "snd (rq_get_data_len q) = int (length (rq_content q)) \<and>
    snd (rq_get_data_len q) + snd (rq_get_empty_buffer_len q) = snd (rq_get_buffer_len q) \<and>
    snd (rq_get_buffer_len q) = int (rq_capacity q) \<and> 0 \<le> snd (rq_get_empty_buffer_len q)"
proof -
  obtain m where m: "m_inited q" "m_p_meta q = Meta m" "meta_wf m" using assms by (rule rq_readyE)
  with rq_content_bound [OF assms] show ?thesis
    by (auto simp: rq_get_data_len_ready [OF assms] rq_get_empty_buffer_len_def
        rq_get_buffer_len_def rq_capacity_def meta_wf_def)
qed

lemma ring_lengths_agree_witness:
  "snd (rq_get_data_len ring_example) = 2 \<and> snd (rq_get_empty_buffer_len ring_example) = 1"
  using ring_lengths_agree [OF ring_example_facts(1)] ring_example_facts by simp

text \<open>
  A queue whose \<open>mmap\<close> failed cannot be initialised again: \<open>init\<close> leaves \<open>MAP_FAILED\<close> in
  \<open>m_p_meta\<close>, and the next \<open>init\<close> with a valid length fails the assertion that the pointer is
  null, whatever the second \<open>mmap\<close> would have returned.
\<close>

lemma ring_init_retry_aborts:
  assumes "rq_init os len rq_new = Some (q, -1)" and "0 < len" and "len < 1073741823"
    and "0 < len'" and "len' < 1073741823"
  shows "m_p_meta q = Meta_failed \<and> (\<forall>os'. rq_init os' len' q = None)"
proof -
  have "in_int32 (len + 1)" "in_int32 (len' + 1)" using assms(2-5) by (auto simp: in_int32_def)
  with assms show ?thesis
    by (auto simp: rq_init_def rq_new_def Let_def split: mmap_result.splits)
qed

lemma ring_init_retry_aborts_witness:
  "\<exists>q. rq_init Mmap_enomem 100 rq_new = Some (q, -1) \<and> rq_init Mmap_ok 100 q = None"
proof -
  obtain q where q: "rq_init Mmap_enomem 100 rq_new = Some (q, -1)"
    by (simp add: rq_init_def rq_new_def Let_def wrap32_def)
  with ring_init_retry_aborts [OF q, of 100] show ?thesis by auto
qed

text \<open>
  The table of error texts is one entry out of step with the error codes: the text for
  \<open>E_SYSTEM\<close> is that of a full buffer and the text for \<open>E_IDLE_BUFFER\<close> that of a system error;
  the other codes have their own text.
\<close>

lemma ring_errstr_swapped:
  "get_errstr (err_code E_SYSTEM) = Some ''no enough idle buffer'' \<and>
   get_errstr (err_code E_IDLE_BUFFER) = Some ''system error'' \<and>
   get_errstr (err_code E_MEMORY) = Some ''out of memory'' \<and>
   get_errstr (err_code E_PARAM) = Some ''bad parameter'' \<and> get_errstr 7 = None"
  by (simp add: get_errstr_def g_errstr_def)

end
