(* ===== verification/PacketQueue.thy ===== *)
theory PacketQueue
  imports RingQueue
begin

text \<open>
  The two message queues built on the ring buffer: \<open>c_fixed_queue\<close> (\<open>fixed_queue.h/.cpp\<close>),
  whose messages all have the length given to the constructor, and \<open>c_variable_queue\<close>
  (\<open>variable_queue.h/.cpp\<close>), whose messages start with their own length in 2 or 4 bytes.
  A derived object is its \<open>c_ring_queue\<close> part and the field \<open>m_len\<close> it adds. The proofs show
  that messages go in and come out whole.
\<close>

section \<open>Messages of a fixed length\<close>

record fixed_queue =
  fq_base :: ring_queue
  fq_m_len :: int

abbreviation fq_fail :: "queue_err \<Rightarrow> fixed_queue \<Rightarrow> fixed_queue" where
  "fq_fail e q \<equiv> q\<lparr>fq_base := rq_fail e (fq_base q)\<rparr>"

definition create_fixed_queue_instance :: "int \<Rightarrow> fixed_queue option" where
  "create_fixed_queue_instance len =
     (if len \<le> 0 then None else Some \<lparr>fq_base = rq_new, fq_m_len = len\<rparr>)"

definition fq_init :: "mmap_result \<Rightarrow> int \<Rightarrow> fixed_queue \<Rightarrow> (fixed_queue \<times> int) option" where
  "fq_init os len q =
     (if fq_m_len q \<le> 0 then Some (fq_fail E_PARAM q, -1)
      else map_option (\<lambda>(b, rv). (q\<lparr>fq_base := b\<rparr>, rv)) (rq_init os len (fq_base q)))"

definition fq_push_data ::
    "byte list option \<Rightarrow> int \<Rightarrow> bool \<Rightarrow> fixed_queue \<Rightarrow> fixed_queue \<times> int" where
  "fq_push_data p_data data_len is_atomic q =
     (if \<not> m_inited (fq_base q) then (fq_fail E_NOT_INIT q, -1)
      else if p_data = None \<or> data_len mod fq_m_len q \<noteq> 0 then (fq_fail E_PARAM q, -1)
      else
        let (b, rv) = rq_push_data p_data data_len True (fq_base q) in (q\<lparr>fq_base := b\<rparr>, rv))"

definition fq_pop_data ::
    "bool \<Rightarrow> int \<Rightarrow> int \<Rightarrow> fixed_queue \<Rightarrow> fixed_queue \<times> int \<times> byte list" where
  "fq_pop_data recv len timeout q =
     (if \<not> m_inited (fq_base q) then (fq_fail E_NOT_INIT q, -1, [])
      else if len < fq_m_len q then (fq_fail E_PARAM q, -1, [])
      else
        let (b, rv, out) = rq_pop_data recv (fq_m_len q) timeout (fq_base q)
        in (q\<lparr>fq_base := b\<rparr>, rv, out))"

definition fq_pop_data_dummy ::
    "bool \<Rightarrow> int \<Rightarrow> int \<Rightarrow> fixed_queue \<Rightarrow> fixed_queue \<times> int \<times> byte list" where
  "fq_pop_data_dummy recv len timeout q =
     (if \<not> m_inited (fq_base q) then (fq_fail E_NOT_INIT q, -1, [])
      else if len < fq_m_len q then (fq_fail E_PARAM q, -1, [])
      else
        let (b, rv, out) = rq_pop_data_dummy recv (fq_m_len q) timeout (fq_base q)
        in (q\<lparr>fq_base := b\<rparr>, rv, out))"

text \<open>The methods the class inherits.\<close>

definition fq_vtable :: "mmap_result \<Rightarrow> fixed_queue i_ring_queue" where
  "fq_vtable os =
     \<lparr>vt_init = fq_init os,
      vt_push_data = fq_push_data,
      vt_pop_data = fq_pop_data,
      vt_pop_data_dummy = fq_pop_data_dummy,
      vt_get_buffer_len = (\<lambda>q. let (b, rv) = rq_get_buffer_len (fq_base q) in (q\<lparr>fq_base := b\<rparr>, rv)),
      vt_get_data_len = (\<lambda>q. let (b, rv) = rq_get_data_len (fq_base q) in (q\<lparr>fq_base := b\<rparr>, rv)),
      vt_get_empty_buffer_len =
        (\<lambda>q. let (b, rv) = rq_get_empty_buffer_len (fq_base q) in (q\<lparr>fq_base := b\<rparr>, rv)),
      vt_get_last_errno = (\<lambda>q. rq_get_last_errno (fq_base q)),
      vt_uninit = (\<lambda>q. let (b, rv) = rq_uninit (fq_base q) in (q\<lparr>fq_base := b\<rparr>, rv))\<rparr>"

definition fq_content :: "fixed_queue \<Rightarrow> byte list" where
  "fq_content q = rq_content (fq_base q)"

definition fq_ready :: "fixed_queue \<Rightarrow> bool" where
  "fq_ready q \<longleftrightarrow> rq_ready (fq_base q) \<and> 0 < fq_m_len q \<and>
     fq_m_len q dvd int (length (fq_content q))"

lemma rq_ready_inited: "rq_ready q \<Longrightarrow> m_inited q"
  by (simp add: rq_ready_def)

text \<open>A push of whole messages is all or nothing.\<close>

lemma fq_push_cases:
  assumes "fq_ready q" and "data_len \<le> int (length src)"
    and "fq_push_data (Some src) data_len atomic q = (q', rv)"
  shows "fq_ready q' \<and> (rv = -1 \<and> fq_content q' = fq_content q \<or>
           rv = data_len \<and> 0 < rv \<and> fq_m_len q dvd rv \<and>
           fq_content q' = fq_content q @ take (nat rv) src)"
proof (cases "data_len mod fq_m_len q \<noteq> 0 \<or> data_len < 1")
  case True
  have "rq_ready (fq_base q)" using assms(1) by (simp add: fq_ready_def)
  with True assms(1,3) rq_push_data_error [of "fq_base q" "Some src" data_len True] show ?thesis
    by (auto simp: fq_push_data_def rq_ready_inited fq_ready_def fq_content_def split: if_splits)
next
  case False
  then have "\<not> data_len < 1" by simp
  then obtain n where n: "data_len = int n" "1 \<le> n" by (rule pos_int_natE)
  have rdy: "rq_ready (fq_base q)" using assms(1) by (simp add: fq_ready_def)
  have "n \<le> length src" using assms(2) n by simp
  note push = rq_push_data_ready [OF rdy n(2) this refl, of True]
  show ?thesis
  proof (cases "min n (rq_free (fq_base q)) < n")
    case True
    with push n False assms(1,3) rdy show ?thesis
      by (auto simp: fq_push_data_def rq_ready_inited fq_ready_def fq_content_def)
  next
    case full: False
    then have k: "min n (rq_free (fq_base q)) = n" by simp
    from push [unfolded k] obtain b where
      b: "rq_push_data (Some src) (int n) True (fq_base q) = (b, int n)" "rq_ready b"
        "rq_content b = rq_content (fq_base q) @ take n src" by auto
    have "fq_m_len q dvd int n" using False n by (simp add: dvd_eq_mod_eq_0)
    moreover have "length (take n src) = n" using \<open>n \<le> length src\<close> by simp
    ultimately show ?thesis using b n False assms(1,3) rdy
      by (auto simp: fq_push_data_def rq_ready_inited fq_ready_def fq_content_def)
  qed
qed

lemma dvd_length_cases:
  assumes "m dvd int n" and "0 < m"
  shows "n = 0 \<or> m \<le> int n"
  using assms by (cases n) (auto dest: zdvd_imp_le)

text \<open>A pop delivers one whole message, or nothing when the queue is empty.\<close>

lemma fq_pop_cases:
  assumes "fq_ready q" and "fq_pop_data recv len timeout q = (q', rv, out)"
  shows "fq_ready q' \<and> fq_content q' = drop (nat rv) (fq_content q) \<and>
         fq_m_len q' = fq_m_len q \<and>
         out = (if recv then take (nat rv) (fq_content q) else []) \<and>
         (if len < fq_m_len q \<or> timeout \<noteq> 0 then rv = -1
          else rv = (if fq_content q = [] then 0 else fq_m_len q)) \<and>
         rv \<le> int (length (fq_content q))"
proof (cases "len < fq_m_len q")
  case True
  with assms show ?thesis by (auto simp: fq_pop_data_def rq_ready_inited fq_ready_def fq_content_def split: if_splits)
next
  case False
  from assms(1) have rdy: "rq_ready (fq_base q)" and pos: "0 < fq_m_len q"
    and dvd: "fq_m_len q dvd int (length (rq_content (fq_base q)))"
    by (auto simp: fq_ready_def fq_content_def)
  obtain b where pop: "rq_pop_data recv (fq_m_len q) timeout (fq_base q) = (b, rv, out)"
    and q': "q' = q\<lparr>fq_base := b\<rparr>"
    using assms False rdy by (auto simp: fq_pop_data_def rq_ready_inited split: prod.splits)
  note rq = rq_pop_cases [OF rdy pop]
  show ?thesis
  proof (cases "timeout = 0")
    case True
    from pos have "\<not> fq_m_len q < 1" by simp
    then obtain n where n: "fq_m_len q = int n" "1 \<le> n" by (rule pos_int_natE)
    from rq_pop_data_ready [OF rdy n(2) refl, of recv] pop True n
    have rv: "rv = min (fq_m_len q) (int (length (rq_content (fq_base q))))" by auto
    with dvd_length_cases [OF dvd pos] pos
    have "rv = (if rq_content (fq_base q) = [] then 0 else fq_m_len q)" by auto
    moreover have "fq_m_len q dvd int (length (drop (nat rv) (rq_content (fq_base q))))"
      using dvd rv pos dvd_length_cases [OF dvd pos] calculation
      by (auto simp: of_nat_diff dvd_diff)
    ultimately show ?thesis using rq q' True False pos
      by (auto simp: fq_ready_def fq_content_def)
  next
    case tm: False
    with rq have "rv < 0" by auto
    moreover from tm rq_pop_data_error [OF rdy, of "fq_m_len q" timeout recv] pop have "rv = -1" by simp
    ultimately show ?thesis using rq q' tm False pos dvd
      by (auto simp: fq_ready_def fq_content_def)
  qed
qed


lemma fq_pop_data_dummy_eq:
  assumes "fq_ready q"
  shows "fq_pop_data_dummy recv len t q =
    (let (q', rv, out) = fq_pop_data recv len t q in (if rv < 0 then q' else q, rv, out))"
proof -
  have "rq_ready (fq_base q)" using assms by (simp add: fq_ready_def)
  from rq_pop_data_dummy_eq [OF this, of recv "fq_m_len q" t] show ?thesis
    by (auto simp: fq_pop_data_dummy_def fq_pop_data_def Let_def split: prod.splits)
qed

interpretation fq: byte_queue "fq_vtable os" fq_ready fq_content
proof (unfold_locales, goal_cases)
  case (1 q data_len src atomic q' rv)
  then show ?case using fq_push_cases [of q data_len src atomic q' rv] by (auto simp: fq_vtable_def)
next
  case (2 q data_len atomic q' rv)
  then show ?case
    by (auto simp: fq_vtable_def fq_push_data_def fq_ready_def fq_content_def split: if_splits)
next
  case (3 q recv len timeout q' rv out)
  then show ?case using fq_pop_cases [of q recv len timeout q' rv out] by (simp add: fq_vtable_def)
next
  case (4 q recv len timeout q' rv out)
  then obtain q1 where "fq_pop_data recv len timeout q = (q1, rv, out)"
    and "q' = (if rv < 0 then q1 else q)"
    using fq_pop_data_dummy_eq [of q recv len timeout] by (auto simp: fq_vtable_def split: prod.splits)
  with fq_pop_cases [OF 4(1) this(1)] 4(1) show ?case by auto
next
  case (5 q recv len q' rv out)
  then obtain q1 where "fq_pop_data recv len 0 q = (q1, rv, out)" and q': "q' = q"
    using fq_pop_data_dummy_eq [of q recv len 0] by (auto simp: fq_vtable_def split: prod.splits)
  with fq_pop_cases [OF 5(1) this(1)] 5(3) have rv: "rv = fq_m_len q" "fq_content q \<noteq> []"
    by (auto split: if_splits)
  obtain q2 rv2 out2 where pop: "fq_pop_data False rv 0 q = (q2, rv2, out2)"
    by (cases "fq_pop_data False rv 0 q")
  from fq_pop_cases [OF 5(1) pop] rv q' pop show ?case by (auto simp: fq_vtable_def)
next
  case (6 q recv len q' rv out recv')
  then obtain q1 where "fq_pop_data recv len 0 q = (q1, rv, out)" and q': "q' = q"
    using fq_pop_data_dummy_eq [of q recv len 0] by (auto simp: fq_vtable_def split: prod.splits)
  with fq_pop_cases [OF 6(1) this(1)] 6(3) have rv: "rv = fq_m_len q" "fq_content q \<noteq> []"
    by (auto split: if_splits)
  obtain q2 rv2 out2 where pop: "fq_pop_data recv' rv 0 q = (q2, rv2, out2)"
    by (cases "fq_pop_data recv' rv 0 q")
  from fq_pop_cases [OF 6(1) pop] rv q' pop fq_pop_data_dummy_eq [OF 6(1), of recv' rv 0]
  show ?case by (auto simp: fq_vtable_def)
next
  case (7 q)
  then show ?case by (simp add: fq_vtable_def fq_ready_def fq_content_def rq_get_data_len_ready)
qed

section \<open>Messages that carry their length\<close>

text \<open>
  The length field is read by copying its 2 or 4 bytes to the start of a zeroed \<open>int\<close>: the low
  bytes of a little-endian signed 32-bit integer.
\<close>

fun le_value :: "byte list \<Rightarrow> int" where
  "le_value [] = 0"
| "le_value (b # bs) = uint b + 256 * le_value bs"

definition pack_len_of :: "byte list \<Rightarrow> int" where
  "pack_len_of bs = wrap32 (le_value bs)"

record variable_queue =
  vq_base :: ring_queue
  vq_m_len :: int

abbreviation vq_fail :: "queue_err \<Rightarrow> variable_queue \<Rightarrow> variable_queue" where
  "vq_fail e q \<equiv> q\<lparr>vq_base := rq_fail e (vq_base q)\<rparr>"

definition create_variable_queue_instance :: "int \<Rightarrow> variable_queue option" where
  "create_variable_queue_instance len =
     (if len \<noteq> 2 \<and> len \<noteq> 4 then None else Some \<lparr>vq_base = rq_new, vq_m_len = len\<rparr>)"

definition vq_init :: "mmap_result \<Rightarrow> int \<Rightarrow> variable_queue \<Rightarrow> (variable_queue \<times> int) option" where
  "vq_init os len q =
     (if vq_m_len q \<noteq> 2 \<and> vq_m_len q \<noteq> 4 then Some (vq_fail E_PARAM q, -1)
      else map_option (\<lambda>(b, rv). (q\<lparr>vq_base := b\<rparr>, rv)) (rq_init os len (vq_base q)))"

definition vq_push_data ::
    "byte list option \<Rightarrow> int \<Rightarrow> bool \<Rightarrow> variable_queue \<Rightarrow> variable_queue \<times> int" where
  "vq_push_data p_data data_len is_atomic q =
     (if \<not> m_inited (vq_base q) then (vq_fail E_NOT_INIT q, -1)
      else
        (case p_data of
           None \<Rightarrow> (vq_fail E_PARAM q, -1)
         | Some src \<Rightarrow>
             if data_len \<le> vq_m_len q then (vq_fail E_PARAM q, -1)
             else
               let pack_len = pack_len_of (take (nat (vq_m_len q)) src) in
               if pack_len \<le> vq_m_len q \<or> pack_len > data_len then (vq_fail E_PARAM q, -1)
               else
                 let (b, rv) = rq_push_data (Some src) pack_len True (vq_base q)
                 in (q\<lparr>vq_base := b\<rparr>, rv)))"

definition vq_pop_data ::
    "bool \<Rightarrow> int \<Rightarrow> int \<Rightarrow> variable_queue \<Rightarrow> variable_queue \<times> int \<times> byte list" where
  "vq_pop_data recv len timeout q =
     (if \<not> m_inited (vq_base q) then (vq_fail E_NOT_INIT q, -1, [])
      else if len < 1 then (vq_fail E_PARAM q, -1, [])
      else
        let (b, result, head) = rq_pop_data_dummy True (vq_m_len q) timeout (vq_base q);
            q1 = q\<lparr>vq_base := b\<rparr>; pack_len = pack_len_of head
        in if result < 0 then (q1, result, [])
           else if result \<noteq> vq_m_len q then (q1, 0, [])
           else if pack_len \<le> vq_m_len q \<or> pack_len > len then (vq_fail E_PARAM q1, -1, [])
           else
             let (b2, data_len) = rq_get_data_len b in
             if pack_len > data_len then (q1\<lparr>vq_base := b2\<rparr>, 0, [])
             else
               let (b3, rv, out) = rq_pop_data recv pack_len timeout b2
               in (q1\<lparr>vq_base := b3\<rparr>, rv, out))"

definition vq_pop_data_dummy ::
    "bool \<Rightarrow> int \<Rightarrow> int \<Rightarrow> variable_queue \<Rightarrow> variable_queue \<times> int \<times> byte list" where
  "vq_pop_data_dummy recv len timeout q =
     (if \<not> m_inited (vq_base q) then (vq_fail E_NOT_INIT q, -1, [])
      else
        let (b, result, head) = rq_pop_data_dummy True (vq_m_len q) timeout (vq_base q);
            q1 = q\<lparr>vq_base := b\<rparr>; pack_len = pack_len_of head
        in if result < 0 then (q1, result, [])
           else if result \<noteq> vq_m_len q then (q1, 0, [])
           else
             let (b2, data_len) = rq_get_data_len b; q2 = q1\<lparr>vq_base := b2\<rparr> in
             if pack_len > data_len \<or> pack_len < vq_m_len q then (q2, 0, [])
             else if \<not> recv then (q2, pack_len, [])
             else
               let (b3, rv, out) = rq_pop_data_dummy recv pack_len timeout b2
               in (q2\<lparr>vq_base := b3\<rparr>, rv, out))"

definition vq_vtable :: "mmap_result \<Rightarrow> variable_queue i_ring_queue" where
  "vq_vtable os =
     \<lparr>vt_init = vq_init os,
      vt_push_data = vq_push_data,
      vt_pop_data = vq_pop_data,
      vt_pop_data_dummy = vq_pop_data_dummy,
      vt_get_buffer_len = (\<lambda>q. let (b, rv) = rq_get_buffer_len (vq_base q) in (q\<lparr>vq_base := b\<rparr>, rv)),
      vt_get_data_len = (\<lambda>q. let (b, rv) = rq_get_data_len (vq_base q) in (q\<lparr>vq_base := b\<rparr>, rv)),
      vt_get_empty_buffer_len =
        (\<lambda>q. let (b, rv) = rq_get_empty_buffer_len (vq_base q) in (q\<lparr>vq_base := b\<rparr>, rv)),
      vt_get_last_errno = (\<lambda>q. rq_get_last_errno (vq_base q)),
      vt_uninit = (\<lambda>q. let (b, rv) = rq_uninit (vq_base q) in (q\<lparr>vq_base := b\<rparr>, rv))\<rparr>"

text \<open>
  A framed message: its length field is its length, and there is at least one byte behind it. A
  ready queue holds a sequence of framed messages.
\<close>

definition framed :: "int \<Rightarrow> byte list \<Rightarrow> bool" where
  "framed k p \<longleftrightarrow> k < int (length p) \<and> pack_len_of (take (nat k) p) = int (length p)"

definition vq_holds :: "variable_queue \<Rightarrow> byte list list \<Rightarrow> bool" where
  "vq_holds q ps \<longleftrightarrow>
     rq_ready (vq_base q) \<and> (vq_m_len q = 2 \<or> vq_m_len q = 4) \<and>
     rq_content (vq_base q) = concat ps \<and> (\<forall>p \<in> set ps. framed (vq_m_len q) p)"

definition vq_content :: "variable_queue \<Rightarrow> byte list" where
  "vq_content q = rq_content (vq_base q)"

definition vq_ready :: "variable_queue \<Rightarrow> bool" where
  "vq_ready q \<longleftrightarrow> (\<exists>ps. vq_holds q ps)"

lemma vq_holdsD:
  assumes "vq_holds q ps"
  shows "rq_ready (vq_base q)" "m_inited (vq_base q)" "0 < vq_m_len q"
    "rq_content (vq_base q) = concat ps" "\<And>p. p \<in> set ps \<Longrightarrow> framed (vq_m_len q) p"
  using assms by (auto simp: vq_holds_def rq_ready_def)

lemma vq_holds_base:
  "vq_holds q ps \<Longrightarrow> rq_ready b \<Longrightarrow> rq_content b = concat ps' \<Longrightarrow>
   (\<forall>p \<in> set ps'. framed (vq_m_len q) p) \<Longrightarrow> vq_holds (q\<lparr>vq_base := b\<rparr>) ps'"
  by (simp add: vq_holds_def)

lemma vq_push_cases:
  assumes "vq_holds q ps" and "data_len \<le> int (length src)"
    and "vq_push_data (Some src) data_len atomic q = (q', rv)"
  shows "vq_m_len q' = vq_m_len q \<and>
    (rv = -1 \<and> vq_holds q' ps \<or>
     0 < rv \<and> rv \<le> data_len \<and> framed (vq_m_len q) (take (nat rv) src) \<and>
     vq_holds q' (ps @ [take (nat rv) src]))"
proof -
  note h = vq_holdsD [OF assms(1)]
  let ?k = "vq_m_len q" and ?n = "pack_len_of (take (nat (vq_m_len q)) src)"
  show ?thesis
  proof (cases "data_len \<le> ?k \<or> ?n \<le> ?k \<or> ?n > data_len")
    case True
    then have "vq_push_data (Some src) data_len atomic q = (vq_fail E_PARAM q, -1)"
      using h(2) by (auto simp: vq_push_data_def Let_def)
    moreover have "vq_holds (vq_fail E_PARAM q) ps"
      by (rule vq_holds_base [OF assms(1)]) (use h in auto)
    ultimately show ?thesis using assms(3) by simp
  next
    case False
    then have "\<not> ?n < 1" using h(3) by simp
    then obtain n where n: "?n = int n" "1 \<le> n" by (rule pos_int_natE)
    with False assms(2) have len: "n \<le> length src" by simp
    have fr: "framed ?k (take n src)" using n len False h(3)
      by (auto simp: framed_def min_absorb2 min_absorb1)
    note push = rq_push_data_ready [OF h(1) n(2) len refl, of True]
    show ?thesis
    proof (cases "min n (rq_free (vq_base q)) < n")
      case True
      with push n False h(2)
      have "vq_push_data (Some src) data_len atomic q = (vq_fail E_IDLE_BUFFER q, -1)"
        by (simp add: vq_push_data_def Let_def)
      moreover have "vq_holds (vq_fail E_IDLE_BUFFER q) ps"
        by (rule vq_holds_base [OF assms(1)]) (use h in auto)
      ultimately show ?thesis using assms(3) by simp
    next
      case full: False
      then have k: "min n (rq_free (vq_base q)) = n" by simp
      from push [unfolded k] obtain b where
        b: "rq_push_data (Some src) (int n) True (vq_base q) = (b, int n)" "rq_ready b"
          "rq_content b = rq_content (vq_base q) @ take n src" by auto
      have "q' = q\<lparr>vq_base := b\<rparr>" and "rv = int n"
        using b(1) n False assms(3) h(2) by (auto simp: vq_push_data_def Let_def)
      moreover have "vq_holds (q\<lparr>vq_base := b\<rparr>) (ps @ [take n src])"
        by (rule vq_holds_base [OF assms(1) b(2)]) (use b(3) h fr in auto)
      ultimately show ?thesis using fr n False by simp
    qed
  qed
qed

text \<open>Reading the length field of the first message.\<close>

lemma vq_read_head:
  assumes "vq_holds q ps" and "timeout = 0"
  shows "rq_pop_data_dummy True (vq_m_len q) timeout (vq_base q) =
    (vq_base q, if ps = [] then 0 else vq_m_len q, take (nat (vq_m_len q)) (concat ps))"
proof -
  note h = vq_holdsD [OF assms(1)]
  have "\<not> vq_m_len q < 1" using h(3) by simp
  then obtain k where k: "vq_m_len q = int k" "1 \<le> k" by (rule pos_int_natE)
  from rq_pop_data_ready [OF h(1) k(2) refl, of True]
  have d: "rq_pop_data_dummy True (vq_m_len q) timeout (vq_base q) =
    (vq_base q, int (min k (length (concat ps))), take (min k (length (concat ps))) (concat ps))"
    using rq_pop_data_dummy_eq [OF h(1), of True "vq_m_len q" timeout] assms(2) k h(4) by auto
  show ?thesis
  proof (cases ps)
    case Nil
    with d show ?thesis by simp
  next
    case (Cons p ps')
    with h(5) [of p] have "k < length p" using k by (auto simp: framed_def)
    then have "min k (length (concat ps)) = k" using Cons by simp
    with d k Cons show ?thesis by simp
  qed
qed

lemma vq_read_head_timeout:
  assumes "vq_holds q ps" and "timeout \<noteq> 0"
  shows "rq_pop_data_dummy True (vq_m_len q) timeout (vq_base q) =
    (rq_fail E_PARAM (vq_base q), -1, [])"
  using rq_pop_data_dummy_eq [OF vq_holdsD(1) [OF assms(1)], of True "vq_m_len q" timeout]
    rq_pop_data_error [OF vq_holdsD(1) [OF assms(1)], of "vq_m_len q" timeout True] assms(2)
  by simp

lemma head_of_framed:
  "framed k p \<Longrightarrow> take (nat k) (concat (p # ps)) = take (nat k) p"
  by (auto simp: framed_def)

lemma vq_pop_cases:
  assumes "vq_holds q ps" and "vq_pop_data recv len timeout q = (q', rv, out)"
  shows "vq_m_len q' = vq_m_len q \<and>
    (if len < 1 \<or> timeout \<noteq> 0 then rv = -1 \<and> out = [] \<and> vq_holds q' ps
     else case ps of
       [] \<Rightarrow> rv = 0 \<and> out = [] \<and> vq_holds q' []
     | p # ps' \<Rightarrow>
         if len < int (length p) then rv = -1 \<and> out = [] \<and> vq_holds q' ps
         else rv = int (length p) \<and> out = (if recv then p else []) \<and> vq_holds q' ps')"
proof -
  note h = vq_holdsD [OF assms(1)]
  have fail: "vq_holds (vq_fail e q) ps" for e
    by (rule vq_holds_base [OF assms(1)]) (use h in auto)
  show ?thesis
  proof (cases "len < 1 \<or> timeout \<noteq> 0")
    case True
    with assms(2) h(2) vq_read_head_timeout [OF assms(1)] fail show ?thesis
      by (auto simp: vq_pop_data_def Let_def split: if_splits)
  next
    case ok: False
    note head = vq_read_head [OF assms(1), of timeout]
    show ?thesis
    proof (cases ps)
      case Nil
      with assms h(2,3) head ok show ?thesis
        by (auto simp: vq_pop_data_def Let_def)
    next
      case (Cons p ps')
      have fr: "framed (vq_m_len q) p" using h(5) Cons by simp
      have n: "pack_len_of (take (nat (vq_m_len q)) (concat ps)) = int (length p)"
        "vq_m_len q < int (length p)"
        using fr head_of_framed [OF fr, of ps'] Cons by (auto simp: framed_def)
      show ?thesis
      proof (cases "len < int (length p)")
        case True
        with assms(2) h(2,3) head n ok fail Cons show ?thesis
          by (auto simp: vq_pop_data_def Let_def)
      next
        case False
        have "1 \<le> length p" using n(2) h(3) by simp
        moreover have "length p = min (length p) (length (rq_content (vq_base q)))"
          using h(4) Cons by simp
        ultimately obtain b where
          pop: "rq_pop_data recv (int (length p)) 0 (vq_base q) =
                  (b, int (length p), if recv then take (length p) (concat ps) else [])"
          and b: "rq_ready b" "rq_content b = drop (length p) (concat ps)"
          using rq_pop_data_ready [OF h(1), of "length p" "length p" recv] h(4) by auto
        have "vq_holds (q\<lparr>vq_base := b\<rparr>) ps'"
          by (rule vq_holds_base [OF assms(1) b(1)]) (use b(2) h(5) Cons in auto)
        moreover have "rq_get_data_len (vq_base q) = (vq_base q, int (length (concat ps)))"
          using rq_get_data_len_ready [OF h(1)] h(4) by simp
        ultimately show ?thesis using assms(2) h(2,3) head n ok False pop Cons
          by (auto simp: vq_pop_data_def Let_def)
      qed
    qed
  qed
qed

lemma vq_dummy_cases:
  assumes "vq_holds q ps" and "vq_pop_data_dummy recv len timeout q = (q', rv, out)"
  shows "vq_m_len q' = vq_m_len q \<and> vq_holds q' ps \<and>
    (if timeout \<noteq> 0 then rv = -1 \<and> out = []
     else case ps of
       [] \<Rightarrow> rv = 0 \<and> out = []
     | p # ps' \<Rightarrow> rv = int (length p) \<and> out = (if recv then p else []))"
proof -
  note h = vq_holdsD [OF assms(1)]
  have fail: "vq_holds (vq_fail e q) ps" for e
    by (rule vq_holds_base [OF assms(1)]) (use h in auto)
  show ?thesis
  proof (cases "timeout \<noteq> 0")
    case True
    with assms(2) h(2) vq_read_head_timeout [OF assms(1)] fail show ?thesis
      by (auto simp: vq_pop_data_dummy_def Let_def)
  next
    case ok: False
    note head = vq_read_head [OF assms(1), of timeout]
    have q: "q\<lparr>vq_base := vq_base q\<rparr> = q" by simp
    show ?thesis
    proof (cases ps)
      case Nil
      with assms h(2,3) head ok show ?thesis
        by (auto simp: vq_pop_data_dummy_def Let_def)
    next
      case (Cons p ps')
      have fr: "framed (vq_m_len q) p" using h(5) Cons by simp
      have n: "pack_len_of (take (nat (vq_m_len q)) (concat ps)) = int (length p)"
        "vq_m_len q < int (length p)"
        using fr head_of_framed [OF fr, of ps'] Cons by (auto simp: framed_def)
      have "1 \<le> length p" using n(2) h(3) by simp
      moreover have "length p = min (length p) (length (rq_content (vq_base q)))"
        using h(4) Cons by simp
      ultimately have "rq_pop_data_dummy True (int (length p)) 0 (vq_base q) =
          (vq_base q, int (length p), p)"
        using rq_pop_data_ready [OF h(1), of "length p" "length p" True] h(4) Cons
          rq_pop_data_dummy_eq [OF h(1), of True "int (length p)" 0] by auto
      moreover have "rq_get_data_len (vq_base q) = (vq_base q, int (length (concat ps)))"
        using rq_get_data_len_ready [OF h(1)] h(4) by simp
      ultimately show ?thesis using assms h(2,3) head n ok Cons
        by (auto simp: vq_pop_data_dummy_def Let_def)
    qed
  qed
qed

lemma vq_ready_content: "vq_holds q ps \<Longrightarrow> vq_ready q \<and> vq_content q = concat ps"
  by (auto simp: vq_ready_def vq_content_def dest: vq_holdsD(4))

interpretation vq: byte_queue "vq_vtable os" vq_ready vq_content
proof (unfold_locales, goal_cases)
  case (1 q data_len src atomic q' rv)
  then obtain ps where ps: "vq_holds q ps" by (auto simp: vq_ready_def)
  from 1 vq_push_cases [OF ps, of data_len src atomic q' rv] vq_ready_content [OF ps]
  show ?case by (auto simp: vq_vtable_def dest: vq_ready_content)
next
  case (2 q data_len atomic q' rv)
  then obtain ps where ps: "vq_holds q ps" by (auto simp: vq_ready_def)
  have "vq_holds (vq_fail E_PARAM q) ps"
    by (rule vq_holds_base [OF ps]) (use vq_holdsD [OF ps] in auto)
  with 2 vq_holdsD(2) [OF ps] vq_ready_content [OF ps] show ?case
    by (auto simp: vq_vtable_def vq_push_data_def dest: vq_ready_content)
next
  case (3 q recv len timeout q' rv out)
  then obtain ps where ps: "vq_holds q ps" by (auto simp: vq_ready_def)
  have "vq_pop_data recv len timeout q = (q', rv, out)" using 3(2) by (simp add: vq_vtable_def)
  from vq_pop_cases [OF ps this] vq_ready_content [OF ps] show ?case
    by (cases ps) (auto split: if_splits dest: vq_ready_content)
next
  case (4 q recv len timeout q' rv out)
  then obtain ps where ps: "vq_holds q ps" by (auto simp: vq_ready_def)
  have "vq_pop_data_dummy recv len timeout q = (q', rv, out)" using 4(2) by (simp add: vq_vtable_def)
  from vq_dummy_cases [OF ps this] vq_ready_content [OF ps] show ?case
    by (cases ps) (auto split: if_splits dest: vq_ready_content)
next
  case (5 q recv len q' rv out)
  then obtain ps where ps: "vq_holds q ps" by (auto simp: vq_ready_def)
  have "vq_pop_data_dummy recv len 0 q = (q', rv, out)" using 5(2) by (simp add: vq_vtable_def)
  note d = vq_dummy_cases [OF ps this]
  then obtain p ps' where p: "ps = p # ps'" and rv: "rv = int (length p)" using 5(3)
    by (cases ps) auto
  obtain q2 rv2 out2 where pop: "vq_pop_data False rv 0 q' = (q2, rv2, out2)"
    by (cases "vq_pop_data False rv 0 q'")
  from d have "vq_holds q' ps" by simp
  from vq_pop_cases [OF this pop] p rv 5(3) have "rv2 = rv" by auto
  with pop show ?case by (simp add: vq_vtable_def)
next
  case (6 q recv len q' rv out recv')
  then obtain ps where ps: "vq_holds q ps" by (auto simp: vq_ready_def)
  have "vq_pop_data_dummy recv len 0 q = (q', rv, out)" using 6(2) by (simp add: vq_vtable_def)
  note d = vq_dummy_cases [OF ps this]
  then obtain p ps' where p: "ps = p # ps'" and rv: "rv = int (length p)" using 6(3)
    by (cases ps) auto
  obtain q2 rv2 out2 where dummy: "vq_pop_data_dummy recv' rv 0 q' = (q2, rv2, out2)"
    by (cases "vq_pop_data_dummy recv' rv 0 q'")
  from d have "vq_holds q' ps" by simp
  from vq_dummy_cases [OF this dummy] p rv have "rv2 = rv" by auto
  with dummy show ?case by (simp add: vq_vtable_def)
next
  case (7 q)
  then obtain ps where ps: "vq_holds q ps" by (auto simp: vq_ready_def)
  from rq_get_data_len_ready [OF vq_holdsD(1) [OF ps]] show ?case
    by (simp add: vq_vtable_def vq_content_def)
qed

section \<open>Properties of the message queues\<close>

text \<open>
  A client of a variable queue: pushes of buffers (framed or not) and pops into a buffer of
  \<open>len\<close> bytes. The run returns the messages accepted and the messages delivered.
\<close>

datatype msg_op = Push_msg "byte list" | Pop_msg int

fun vq_run :: "msg_op list \<Rightarrow> variable_queue \<Rightarrow> variable_queue \<times> byte list list \<times> byte list list" where
  "vq_run [] q = (q, [], [])"
| "vq_run (Push_msg src # ops) q =
     (let (q1, rv) = vq_push_data (Some src) (int (length src)) True q;
          (q2, acc, del) = vq_run ops q1
      in (q2, if 0 < rv then take (nat rv) src # acc else acc, del))"
| "vq_run (Pop_msg len # ops) q =
     (let (q1, rv, out) = vq_pop_data True len 0 q;
          (q2, acc, del) = vq_run ops q1
      in (q2, acc, if 0 < rv then out # del else del))"

lemma vq_run_holds:
  "vq_holds q ps \<Longrightarrow> vq_run ops q = (q', acc, del) \<Longrightarrow>
   \<exists>rest. vq_holds q' rest \<and> ps @ acc = del @ rest \<and> vq_m_len q' = vq_m_len q \<and>
     (\<forall>p \<in> set acc. framed (vq_m_len q) p)"
proof (induction ops arbitrary: q ps acc del)
  case Nil
  then show ?case by auto
next
  case (Cons opn ops)
  show ?case
  proof (cases opn)
    case (Push_msg src)
    obtain q1 rv where push: "vq_push_data (Some src) (int (length src)) True q = (q1, rv)"
      by (cases "vq_push_data (Some src) (int (length src)) True q")
    obtain q2 acc1 del1 where r: "vq_run ops q1 = (q2, acc1, del1)" by (metis prod.collapse)
    with Cons.prems(2) push Push_msg have run: "vq_run ops q1 = (q', acc1, del1)"
      and a: "acc = (if 0 < rv then take (nat rv) src # acc1 else acc1)" "del = del1"
      by simp_all
    note P = vq_push_cases [OF Cons.prems(1) order_refl push]
    show ?thesis
    proof (cases "0 < rv")
      case True
      with P have h: "vq_holds q1 (ps @ [take (nat rv) src])" "framed (vq_m_len q) (take (nat rv) src)"
        and "vq_m_len q1 = vq_m_len q" by auto
      with Cons.IH [OF h(1) run] a True show ?thesis by auto
    next
      case False
      with P have "vq_holds q1 ps" "vq_m_len q1 = vq_m_len q" by auto
      with Cons.IH [OF this(1) run] a False show ?thesis by auto
    qed
  next
    case (Pop_msg len)
    obtain q1 rv out where pop: "vq_pop_data True len 0 q = (q1, rv, out)"
      by (cases "vq_pop_data True len 0 q")
    obtain q2 acc1 del1 where r: "vq_run ops q1 = (q2, acc1, del1)" by (metis prod.collapse)
    with Cons.prems(2) pop Pop_msg have run: "vq_run ops q1 = (q', acc1, del1)"
      and a: "del = (if 0 < rv then out # del1 else del1)" "acc = acc1"
      by simp_all
    note P = vq_pop_cases [OF Cons.prems(1) pop]
    show ?thesis
    proof (cases "0 < rv")
      case True
      with P have "ps \<noteq> []" by (auto split: if_splits)
      then obtain p ps' where ps: "ps = p # ps'" by (cases ps) auto
      with P True have "p = out" "vq_holds q1 ps'" "vq_m_len q1 = vq_m_len q"
        by (simp_all split: if_splits)
      with Cons.IH [OF this(2) run] a True ps show ?thesis by auto
    next
      case False
      have ne: "p \<noteq> []" if "p \<in> set ps" for p
        using vq_holdsD(3,5) [OF Cons.prems(1)] that by (fastforce simp: framed_def)
      have "vq_m_len q1 = vq_m_len q \<and> vq_holds q1 ps"
      proof (cases ps)
        case Nil
        with P show ?thesis by (simp split: if_splits)
      next
        case (Cons p ps')
        with P False ne [of p] show ?thesis by (simp split: if_splits)
      qed
      then have "vq_holds q1 ps" "vq_m_len q1 = vq_m_len q" by simp_all
      with Cons.IH [OF this(1) run] a False show ?thesis by auto
    qed
  qed
qed

lemma vq_init_holds:
  assumes "vq_init os len q = Some (q', 0)" and "in_int32 len" and "vq_m_len q = 2 \<or> vq_m_len q = 4"
  shows "vq_holds q' [] \<and> vq_m_len q' = vq_m_len q"
  using assms rq_init_ready [of os len "vq_base q"]
  by (auto simp: vq_init_def vq_holds_def split: if_splits)

text \<open>
  C17: message boundaries survive the byte ring: whatever buffers a client pushes and whatever
  buffers it pops into, every message a variable queue accepts is framed (its own length is in
  its first bytes), messages are delivered whole, in order and each once, and what is left in the
  ring is exactly the messages not yet delivered.
\<close>

theorem vq_run_whole_messages:
  assumes "create_variable_queue_instance k = Some q0" and "in_int32 len"
    and "vq_init os len q0 = Some (q, 0)" and "vq_run ops q = (q', accepted, delivered)"
  shows "\<exists>rest. accepted = delivered @ rest \<and> vq_content q' = concat rest \<and>
    (\<forall>p \<in> set accepted. framed k p)"
proof -
  from assms(1) have k: "vq_m_len q0 = k" "k = 2 \<or> k = 4"
    by (auto simp: create_variable_queue_instance_def split: if_splits)
  with vq_init_holds [OF assms(3,2)] have h: "vq_holds q []" "vq_m_len q = k" by auto
  from vq_run_holds [OF h(1) assms(4)] h(2) show ?thesis
    by (auto simp: vq_content_def dest: vq_holdsD(4))
qed

theorem vq_run_whole_messages_witness:
  "\<exists>q q'. vq_init Mmap_ok 9 \<lparr>vq_base = rq_new, vq_m_len = 2\<rparr> = Some (q, 0) \<and>
     vq_run [Push_msg [3, 0, 7], Push_msg [9, 9], Push_msg [4, 0, 1, 2, 99], Pop_msg 8, Push_msg [4, 0, 5, 6]] q =
       (q', [[3, 0, 7], [4, 0, 1, 2], [4, 0, 5, 6]], [[3, 0, 7]]) \<and>
     vq_content q' = [4, 0, 1, 2, 4, 0, 5, 6]"
proof -
  let ?i = "vq_init Mmap_ok 9 \<lparr>vq_base = rq_new, vq_m_len = 2\<rparr>"
  let ?ops = "[Push_msg [3, 0, 7], Push_msg [9, 9], Push_msg [4, 0, 1, 2, 99], Pop_msg 8, Push_msg [4, 0, 5, 6]]"
  have i: "?i = Some (fst (the ?i), 0)"
    by (simp add: vq_init_def rq_init_def rq_new_def Let_def wrap32_def)
  have "snd (vq_run ?ops (fst (the ?i))) = ([[3, 0, 7], [4, 0, 1, 2], [4, 0, 5, 6]], [[3, 0, 7]])"
    by code_simp
  then obtain q' where run: "vq_run ?ops (fst (the ?i)) =
      (q', [[3, 0, 7], [4, 0, 1, 2], [4, 0, 5, 6]], [[3, 0, 7]])"
    by (metis prod.collapse)
  have "create_variable_queue_instance 2 = Some \<lparr>vq_base = rq_new, vq_m_len = 2\<rparr>" "in_int32 9"
    by (simp_all add: create_variable_queue_instance_def in_int32_def)
  from vq_run_whole_messages [OF this i run] have "vq_content q' = [4, 0, 1, 2, 4, 0, 5, 6]" by auto
  with i run show ?thesis by blast
qed

text \<open>
  C25: \<open>c_variable_queue::pop_data_dummy\<close> never looks at the length of the caller's buffer: the
  peek at a non-empty queue writes the whole first message whatever \<open>buffer_len\<close> is, also when
  the message is longer than the buffer, while \<open>pop_data\<close> refuses such a buffer.
\<close>

theorem vq_peek_ignores_buffer_len:
  assumes "vq_holds q (p # ps)" and "1 \<le> buffer_len" and "buffer_len < int (length p)"
  shows "(\<exists>q'. vq_pop_data_dummy True buffer_len 0 q = (q', int (length p), p)) \<and>
    (\<exists>q'. vq_pop_data True buffer_len 0 q = (q', -1, []) \<and> vq_holds q' (p # ps))"
proof -
  obtain q1 rv1 out1 where d: "vq_pop_data_dummy True buffer_len 0 q = (q1, rv1, out1)"
    by (cases "vq_pop_data_dummy True buffer_len 0 q")
  obtain q2 rv2 out2 where p: "vq_pop_data True buffer_len 0 q = (q2, rv2, out2)"
    by (cases "vq_pop_data True buffer_len 0 q")
  from vq_dummy_cases [OF assms(1) d] vq_pop_cases [OF assms(1) p] assms(2,3) d p show ?thesis
    by auto
qed

definition vq_example :: variable_queue where
  "vq_example = \<lparr>vq_base = \<lparr>m_inited = True, m_last_errno = E_NO_ERROR,
     m_p_meta = Meta \<lparr>p_buffer = [0, 5, 6, 7, 4], buf_len = 5, read_index = 4, write_index = 3\<rparr>\<rparr>,
     vq_m_len = 2\<rparr>"

lemma vq_example_holds: "vq_holds vq_example [[4, 0, 5, 6]]"
proof -
  have "rq_content (vq_base vq_example) = [4, 0, 5, 6]" by code_simp
  moreover have "framed 2 [4, 0, 5, 6]" by code_simp
  moreover have "rq_ready (vq_base vq_example)"
    by (simp add: vq_example_def rq_ready_def rq_wf_def meta_wf_def)
  ultimately show ?thesis by (simp add: vq_holds_def) (simp add: vq_example_def)
qed

theorem vq_peek_ignores_buffer_len_witness:
  "\<exists>q'. vq_pop_data_dummy True 3 0 vq_example = (q', 4, [4, 0, 5, 6])"
  using vq_peek_ignores_buffer_len [OF vq_example_holds, of 3] by auto

text \<open>
  C24: a fixed queue of messages of length \<open>k\<close>, holding \<open>ms\<close>, takes a push exactly when it is one or
  more whole messages and all of it fits, and then appends all of it; otherwise it answers -1 with
  \<open>E_PARAM\<close> or \<open>E_IDLE_BUFFER\<close> and keeps what it held. A pop with room for a message takes off the first
  one and delivers it, or answers 0 on an empty queue; with less room it is refused.
\<close>

theorem fq_whole_messages:
  assumes "fq_ready q" and "fq_m_len q = int k" and "fq_content q = concat ms" and "\<forall>m \<in> set ms. length m = k"
    and "fq_push_data (Some src) (int (length src)) atomic q = (q1, rv1)"
    and "fq_pop_data recv len 0 q = (q2, rv2, out)"
  shows "(if src = [] \<or> \<not> k dvd length src
      then rv1 = -1 \<and> fq_content q1 = concat ms \<and> m_last_errno (fq_base q1) = E_PARAM
      else if rq_capacity (fq_base q) < length (concat ms) + length src
      then rv1 = -1 \<and> fq_content q1 = concat ms \<and> m_last_errno (fq_base q1) = E_IDLE_BUFFER
      else rv1 = int (length src) \<and> fq_content q1 = concat ms @ src) \<and>
    (if len < int k then rv2 = -1 \<and> out = [] \<and> fq_content q2 = concat ms \<and> m_last_errno (fq_base q2) = E_PARAM
     else case ms of
       [] \<Rightarrow> rv2 = 0 \<and> out = [] \<and> fq_content q2 = []
     | m # ms' \<Rightarrow> rv2 = int k \<and> out = (if recv then m else []) \<and> fq_content q2 = concat ms')"
proof
  have rdy: "rq_ready (fq_base q)" and pos: "0 < k" using assms(1,2) by (simp_all add: fq_ready_def)
  have dvd: "int (length src) mod int k = 0 \<longleftrightarrow> k dvd length src"
    by (simp add: dvd_eq_mod_eq_0 flip: of_nat_mod)
  show "if src = [] \<or> \<not> k dvd length src
      then rv1 = -1 \<and> fq_content q1 = concat ms \<and> m_last_errno (fq_base q1) = E_PARAM
      else if rq_capacity (fq_base q) < length (concat ms) + length src
      then rv1 = -1 \<and> fq_content q1 = concat ms \<and> m_last_errno (fq_base q1) = E_IDLE_BUFFER
      else rv1 = int (length src) \<and> fq_content q1 = concat ms @ src"
  proof (cases "src = [] \<or> \<not> k dvd length src")
    case True
    have "fq_push_data (Some src) (int (length src)) atomic q = (fq_fail E_PARAM q, -1)"
      using True rq_push_data_error [OF rdy, of "Some src" 0 True] rdy assms(2) dvd
      by (auto simp: fq_push_data_def rq_ready_inited)
    with True assms(3,5) show ?thesis by (auto simp: fq_content_def)
  next
    case False
    let ?n = "length src" and ?b = "fq_base q"
    have "1 \<le> ?n" using False by (cases src) auto
    note P = rq_push_data_ready [OF rdy this order_refl refl, of True]
    have fit: "min ?n (rq_free ?b) = ?n \<longleftrightarrow> length (concat ms) + ?n \<le> rq_capacity ?b"
      using rq_content_bound [OF rdy] assms(3) by (auto simp: rq_free_def fq_content_def)
    have "fq_push_data (Some src) (int ?n) atomic q = (let (b, rv) = rq_push_data (Some src) (int ?n) True ?b in (q\<lparr>fq_base := b\<rparr>, rv))"
      using False assms(2) rdy dvd by (auto simp: fq_push_data_def rq_ready_inited)
    with False P fit assms(3,5) show ?thesis by (auto simp: fq_content_def split: if_splits)
  qed
  show "if len < int k then rv2 = -1 \<and> out = [] \<and> fq_content q2 = concat ms \<and> m_last_errno (fq_base q2) = E_PARAM
     else case ms of
       [] \<Rightarrow> rv2 = 0 \<and> out = [] \<and> fq_content q2 = []
     | m # ms' \<Rightarrow> rv2 = int k \<and> out = (if recv then m else []) \<and> fq_content q2 = concat ms'"
  proof (cases "len < int k")
    case True
    with assms(2,3,6) rdy show ?thesis by (auto simp: fq_pop_data_def rq_ready_inited fq_content_def)
  next
    case False
    with fq_pop_cases [OF assms(1,6)] assms(2,3,4) pos show ?thesis by (cases ms) auto
  qed
qed

definition fq_example :: fixed_queue where
  "fq_example = \<lparr>fq_base = \<lparr>m_inited = True, m_last_errno = E_NO_ERROR,
         m_p_meta = Meta \<lparr>p_buffer = [5, 6, 0, 0, 0, 0], buf_len = 6, read_index = 0, write_index = 2\<rparr>\<rparr>,
       fq_m_len = 2\<rparr>"

lemma fq_example_facts:
  "fq_ready (fq_example)" "fq_m_len fq_example = int 2" "fq_content fq_example = concat [[5, 6]]"
  "rq_capacity (fq_base fq_example) = 5"
  by (simp_all add: fq_example_def fq_ready_def rq_ready_def rq_wf_def meta_wf_def fq_content_def rq_content_def
      rq_meta_def meta_content_def seg_def rq_capacity_def eval_nat_numeral)

theorem fq_whole_messages_witness:
  "\<exists>q1 q2. fq_push_data (Some [7, 8]) 2 False fq_example = (q1, 2) \<and> fq_content q1 = [5, 6, 7, 8] \<and>
    fq_pop_data True 9 0 fq_example = (q2, 2, [5, 6]) \<and> fq_content q2 = []"
proof -
  obtain q1 rv1 where push: "fq_push_data (Some [7, 8]) (int (length [7, 8 :: byte])) False fq_example = (q1, rv1)"
    by (metis prod.collapse)
  obtain q2 rv2 out where pop: "fq_pop_data True 9 0 fq_example = (q2, rv2, out)"
    by (metis prod.collapse)
  from fq_whole_messages [OF fq_example_facts(1-3) _ push pop] push pop fq_example_facts(4) show ?thesis by simp
qed

end
