(* ===== verification/SharedQueue.thy ===== *)
theory SharedQueue
  imports PacketQueue
begin

text \<open>
  The two decorators of the queue library: \<open>c_multipopable_queue\<close>
  (\<open>multipopable_queue.h/.cpp\<close>), which puts a process-shared semaphore around the wrapped queue,
  and \<open>c_waitable_queue\<close> (\<open>waitable_queue.h/.cpp\<close>), which adds a pipe on which a consumer waits.
  Both work on any implementation of \<open>i_ring_queue\<close>: their methods take its virtual methods as
  an argument, and their lemmas are proved in the locale \<open>byte_queue\<close>. The results of the
  system calls (\<open>mmap\<close>, \<open>sem_init\<close>, \<open>sem_wait\<close>, \<open>pipe\<close>, \<open>select\<close>, ...) are arguments.
\<close>

section \<open>The queue with a mutex\<close>

datatype mutex_ptr = Mutex_null | Mutex_map_failed | Mutex_unmapped | Mutex_mapped

record 'q multipopable_queue =
  mq_inited :: bool
  mq_mutex :: mutex_ptr
  mq_inner :: 'q

definition mq_new :: "'q \<Rightarrow> 'q multipopable_queue" where
  "mq_new p_ring_queue = \<lparr>mq_inited = False, mq_mutex = Mutex_null, mq_inner = p_ring_queue\<rparr>"

definition mq_init ::
    "'q i_ring_queue \<Rightarrow> bool \<Rightarrow> bool \<Rightarrow> int \<Rightarrow> 'q multipopable_queue \<Rightarrow>
     ('q multipopable_queue \<times> int) option" where
  "mq_init vt mmap_ok sem_init_ok len q =
     (if mq_inited q then Some (q, -1)
      else if \<not> mmap_ok then Some (q\<lparr>mq_mutex := Mutex_map_failed\<rparr>, -1)
      else if \<not> sem_init_ok then Some (q\<lparr>mq_mutex := Mutex_unmapped\<rparr>, -1)
      else
        (case vt_init vt len (mq_inner q) of
           None \<Rightarrow> None
         | Some (i, rv) \<Rightarrow>
             Some (q\<lparr>mq_mutex := Mutex_mapped, mq_inner := i, mq_inited := (rv = 0)\<rparr>, rv)))"

text \<open>\<open>sem\<close> says whether \<open>sem_wait\<close> and whether \<open>sem_post\<close> succeed.\<close>

definition mq_push_data ::
    "'q i_ring_queue \<Rightarrow> bool \<times> bool \<Rightarrow> byte list option \<Rightarrow> int \<Rightarrow> bool \<Rightarrow>
     'q multipopable_queue \<Rightarrow> 'q multipopable_queue \<times> int" where
  "mq_push_data vt sem p_data data_len is_atomic q =
     (if \<not> mq_inited q then (q, -1)
      else if \<not> fst sem then (q, -1)
      else
        let (i, rv) = vt_push_data vt p_data data_len is_atomic (mq_inner q);
            q1 = q\<lparr>mq_inner := i\<rparr>
        in if \<not> snd sem then (q1, -1) else (q1, rv))"

text \<open>
  \<open>others\<close> is what the other processes do to the wrapped queue between the look without the lock and
  the return of \<open>sem_wait\<close>.
\<close>

definition mq_pop_data ::
    "'q i_ring_queue \<Rightarrow> ('q \<Rightarrow> 'q) \<Rightarrow> bool \<times> bool \<Rightarrow> bool \<Rightarrow> int \<Rightarrow> int \<Rightarrow>
     'q multipopable_queue \<Rightarrow> 'q multipopable_queue \<times> int \<times> byte list" where
  "mq_pop_data vt others sem recv len timeout q =
     (if \<not> mq_inited q then (q, -1, [])
      else
        let (i, rv, out) = vt_pop_data_dummy vt False len timeout (mq_inner q);
            q1 = q\<lparr>mq_inner := i\<rparr>
        in if rv > 0 then
             if \<not> fst sem then (q1, -1, [])
             else
               let (i2, rv2, out2) = vt_pop_data vt recv len 0 (others (mq_inner q1));
                   q2 = q1\<lparr>mq_inner := i2\<rparr>
               in if \<not> snd sem then (q2, -1, out2) else (q2, rv2, out2)
           else (q1, rv, out))"

definition mq_pop_data_dummy ::
    "'q i_ring_queue \<Rightarrow> bool \<Rightarrow> int \<Rightarrow> int \<Rightarrow>
     'q multipopable_queue \<Rightarrow> 'q multipopable_queue \<times> int \<times> byte list" where
  "mq_pop_data_dummy vt recv len timeout q =
     (if \<not> mq_inited q then (q, -1, [])
      else
        let (i, rv, out) = vt_pop_data_dummy vt recv len timeout (mq_inner q)
        in (q\<lparr>mq_inner := i\<rparr>, rv, out))"

definition mq_get_buffer_len ::
    "'q i_ring_queue \<Rightarrow> 'q multipopable_queue \<Rightarrow> 'q multipopable_queue \<times> int" where
  "mq_get_buffer_len vt q =
     (if \<not> mq_inited q then (q, -1)
      else let (i, rv) = vt_get_buffer_len vt (mq_inner q) in (q\<lparr>mq_inner := i\<rparr>, rv))"

definition mq_get_data_len ::
    "'q i_ring_queue \<Rightarrow> 'q multipopable_queue \<Rightarrow> 'q multipopable_queue \<times> int" where
  "mq_get_data_len vt q =
     (if \<not> mq_inited q then (q, -1)
      else let (i, rv) = vt_get_data_len vt (mq_inner q) in (q\<lparr>mq_inner := i\<rparr>, rv))"

definition mq_get_empty_buffer_len ::
    "'q i_ring_queue \<Rightarrow> 'q multipopable_queue \<Rightarrow> 'q multipopable_queue \<times> int" where
  "mq_get_empty_buffer_len vt q =
     (if \<not> mq_inited q then (q, -1)
      else let (i, rv) = vt_get_empty_buffer_len vt (mq_inner q) in (q\<lparr>mq_inner := i\<rparr>, rv))"

definition mq_get_last_errno :: "'q i_ring_queue \<Rightarrow> 'q multipopable_queue \<Rightarrow> queue_err" where
  "mq_get_last_errno vt q = vt_get_last_errno vt (mq_inner q)"

definition mq_uninit ::
    "'q i_ring_queue \<Rightarrow> bool \<Rightarrow> bool \<Rightarrow> 'q multipopable_queue \<Rightarrow> 'q multipopable_queue \<times> int" where
  "mq_uninit vt sem_destroy_ok munmap_ok q =
     (if \<not> mq_inited q then (q, -1)
      else if \<not> sem_destroy_ok then (q, -1)
      else if \<not> munmap_ok then (q, -1)
      else
        let (i, rv) = vt_uninit vt (mq_inner q); q1 = q\<lparr>mq_mutex := Mutex_unmapped, mq_inner := i\<rparr>
        in (if rv = 0 then q1\<lparr>mq_inited := False\<rparr> else q1, rv))"

text \<open>
  The virtual methods of the decorator when its system calls succeed, with what the other processes do
  in \<open>pop_data\<close>, and when they do nothing there. \<open>QueueProcesses\<close> takes the methods apart into the
  steps other processes may come between, and lets the semaphore calls fail.
\<close>

definition mq_vtable_among :: "('q \<Rightarrow> 'q) \<Rightarrow> 'q i_ring_queue \<Rightarrow> 'q multipopable_queue i_ring_queue" where
  "mq_vtable_among others vt =
     \<lparr>vt_init = mq_init vt True True,
      vt_push_data = mq_push_data vt (True, True),
      vt_pop_data = mq_pop_data vt others (True, True),
      vt_pop_data_dummy = mq_pop_data_dummy vt,
      vt_get_buffer_len = mq_get_buffer_len vt,
      vt_get_data_len = mq_get_data_len vt,
      vt_get_empty_buffer_len = mq_get_empty_buffer_len vt,
      vt_get_last_errno = mq_get_last_errno vt,
      vt_uninit = mq_uninit vt True True\<rparr>"

definition mq_vtable :: "'q i_ring_queue \<Rightarrow> 'q multipopable_queue i_ring_queue" where
  "mq_vtable vt = mq_vtable_among id vt"

definition mq_ready :: "('q \<Rightarrow> bool) \<Rightarrow> 'q multipopable_queue \<Rightarrow> bool" where
  "mq_ready ready q \<longleftrightarrow> mq_inited q \<and> ready (mq_inner q)"

definition mq_content :: "('q \<Rightarrow> byte list) \<Rightarrow> 'q multipopable_queue \<Rightarrow> byte list" where
  "mq_content content q = content (mq_inner q)"

section \<open>The queue a consumer can wait on\<close>

record 'q waitable_queue =
  wq_inited :: bool
  wq_read_fd :: int
  wq_write_fd :: int
  wq_pipe :: nat
  wq_inner :: 'q

definition wq_new :: "'q \<Rightarrow> 'q waitable_queue" where
  "wq_new p_ring_queue =
     \<lparr>wq_inited = False, wq_read_fd = -1, wq_write_fd = -1, wq_pipe = 0, wq_inner = p_ring_queue\<rparr>"

text \<open>
  \<open>pipe_fds\<close> is what \<open>pipe\<close> returns, \<open>None\<close> when it fails. A fresh pipe is empty; \<open>wq_pipe\<close>
  counts the bytes in it.
\<close>

definition wq_init ::
    "'q i_ring_queue \<Rightarrow> (int \<times> int) option \<Rightarrow> int \<Rightarrow> 'q waitable_queue \<Rightarrow>
     ('q waitable_queue \<times> int) option" where
  "wq_init vt pipe_fds len q =
     (if wq_inited q then Some (q, -1)
      else
        (case pipe_fds of
           None \<Rightarrow> Some (q, -1)
         | Some (rfd, wfd) \<Rightarrow>
             (case vt_init vt len (wq_inner q) of
                None \<Rightarrow> None
              | Some (i, rv) \<Rightarrow>
                  Some (q\<lparr>wq_read_fd := rfd, wq_write_fd := wfd, wq_pipe := 0, wq_inner := i,
                          wq_inited := (rv = 0)\<rparr>, rv))))"

text \<open>The write to the non-blocking pipe of capacity \<open>cap\<close> is dropped when the pipe is full.\<close>

definition wq_push_data ::
    "'q i_ring_queue \<Rightarrow> nat \<Rightarrow> byte list option \<Rightarrow> int \<Rightarrow> bool \<Rightarrow>
     'q waitable_queue \<Rightarrow> 'q waitable_queue \<times> int" where
  "wq_push_data vt cap p_data data_len is_atomic q =
     (if \<not> wq_inited q then (q, -1)
      else
        let (i, rv) = vt_push_data vt p_data data_len is_atomic (wq_inner q);
            q1 = q\<lparr>wq_inner := i\<rparr>
        in if rv > 0 then (q1\<lparr>wq_pipe := min cap (wq_pipe q1 + 1)\<rparr>, rv) else (q1, rv))"

text \<open>
  What can end a \<open>select\<close> on the empty pipe: a peer that has changed the shared queue (to
  \<open>i\<close>) and written \<open>Suc k\<close> bytes, the timeout, or a failure of the call. The list holds the
  events of the wait in order; \<open>None\<close> is the result while the caller is still blocked.
\<close>

datatype 'q wait_event = Woken 'q nat | Timed_out | Select_failed

function wq_pop_data_dummy ::
    "'q i_ring_queue \<Rightarrow> 'q wait_event list \<Rightarrow> bool \<Rightarrow> int \<Rightarrow> int \<Rightarrow>
     'q waitable_queue \<Rightarrow> ('q waitable_queue \<times> int \<times> byte list) option" where
  "wq_pop_data_dummy vt evs recv len timeout q =
     (if \<not> wq_inited q then Some (q, -1, [])
      else
        let (i, rv, out) = vt_pop_data_dummy vt recv len 0 (wq_inner q);
            q1 = q\<lparr>wq_inner := i\<rparr>
        in if rv \<noteq> 0 \<or> timeout = 0 then Some (q1, rv, out)
           else if 0 < wq_pipe q then
             wq_pop_data_dummy vt evs recv len timeout (q1\<lparr>wq_pipe := wq_pipe q - min 1024 (wq_pipe q)\<rparr>)
           else
             (case evs of
                [] \<Rightarrow> None
              | Woken i' k # evs' \<Rightarrow>
                  wq_pop_data_dummy vt evs' recv len timeout
                    (q1\<lparr>wq_inner := i', wq_pipe := Suc k - min 1024 (Suc k)\<rparr>)
              | Timed_out # evs' \<Rightarrow>
                  if timeout < 0 then wq_pop_data_dummy vt evs' recv len timeout q1
                  else Some (q1, 0, [])
              | Select_failed # evs' \<Rightarrow> Some (q1, -1, [])))"
  by pat_completeness auto
termination
  by (relation "measures [\<lambda>(vt, evs, recv, len, timeout, q). length evs,
                          \<lambda>(vt, evs, recv, len, timeout, q). wq_pipe q]") auto

declare wq_pop_data_dummy.simps [simp del]


definition wq_get_buffer_len ::
    "'q i_ring_queue \<Rightarrow> 'q waitable_queue \<Rightarrow> 'q waitable_queue \<times> int" where
  "wq_get_buffer_len vt q =
     (if \<not> wq_inited q then (q, -1)
      else let (i, rv) = vt_get_buffer_len vt (wq_inner q) in (q\<lparr>wq_inner := i\<rparr>, rv))"

definition wq_get_data_len ::
    "'q i_ring_queue \<Rightarrow> 'q waitable_queue \<Rightarrow> 'q waitable_queue \<times> int" where
  "wq_get_data_len vt q =
     (if \<not> wq_inited q then (q, -1)
      else let (i, rv) = vt_get_data_len vt (wq_inner q) in (q\<lparr>wq_inner := i\<rparr>, rv))"

definition wq_get_empty_buffer_len ::
    "'q i_ring_queue \<Rightarrow> 'q waitable_queue \<Rightarrow> 'q waitable_queue \<times> int" where
  "wq_get_empty_buffer_len vt q =
     (if \<not> wq_inited q then (q, -1)
      else let (i, rv) = vt_get_empty_buffer_len vt (wq_inner q) in (q\<lparr>wq_inner := i\<rparr>, rv))"

definition wq_get_last_errno :: "'q i_ring_queue \<Rightarrow> 'q waitable_queue \<Rightarrow> queue_err" where
  "wq_get_last_errno vt q = vt_get_last_errno vt (wq_inner q)"

definition wq_uninit ::
    "'q i_ring_queue \<Rightarrow> 'q waitable_queue \<Rightarrow> 'q waitable_queue \<times> int" where
  "wq_uninit vt q =
     (if \<not> wq_inited q then (q, -1)
      else
        let (i, rv) = vt_uninit vt (wq_inner q);
            q1 = q\<lparr>wq_read_fd := -1, wq_write_fd := -1, wq_inner := i\<rparr>
        in (if rv = 0 then q1\<lparr>wq_inited := False\<rparr> else q1, rv))"

section \<open>Both decorators keep the contract of the queue they wrap\<close>

definition wake_ok :: "('q \<Rightarrow> bool) \<Rightarrow> 'q wait_event \<Rightarrow> bool" where
  "wake_ok ready e = (case e of Woken i k \<Rightarrow> ready i | _ \<Rightarrow> True)"

lemma wake_ok_simps [simp]:
  "wake_ok ready (Woken i k) = ready i" "wake_ok ready Timed_out" "wake_ok ready Select_failed"
  by (simp_all add: wake_ok_def)

text \<open>One round of the waiting loop.\<close>

lemma wq_dummy_step:
  assumes "wq_inited q" and "vt_pop_data_dummy vt recv len 0 (wq_inner q) = (i, rv, out)"
  shows "wq_pop_data_dummy vt evs recv len timeout q =
    (if rv \<noteq> 0 \<or> timeout = 0 then Some (q\<lparr>wq_inner := i\<rparr>, rv, out)
     else if 0 < wq_pipe q then
       wq_pop_data_dummy vt evs recv len timeout
         (q\<lparr>wq_inner := i, wq_pipe := wq_pipe q - min 1024 (wq_pipe q)\<rparr>)
     else
       (case evs of
          [] \<Rightarrow> None
        | Woken i' k # evs' \<Rightarrow>
            wq_pop_data_dummy vt evs' recv len timeout
              (q\<lparr>wq_inner := i', wq_pipe := Suc k - min 1024 (Suc k)\<rparr>)
        | Timed_out # evs' \<Rightarrow>
            if timeout < 0 then wq_pop_data_dummy vt evs' recv len timeout (q\<lparr>wq_inner := i\<rparr>)
            else Some (q\<lparr>wq_inner := i\<rparr>, 0, [])
        | Select_failed # evs' \<Rightarrow> Some (q\<lparr>wq_inner := i\<rparr>, -1, [])))"
  using assms
  by (subst wq_pop_data_dummy.simps) (simp add: Let_def split: list.split wait_event.split)

context byte_queue begin

lemma mq_queue: "byte_queue (mq_vtable vt) (mq_ready ready) (mq_content content)"
proof (unfold_locales, goal_cases)
  case (1 q data_len src atomic q' rv)
  then show ?case using push_law [of "mq_inner q" data_len src atomic]
    by (auto simp: mq_vtable_def mq_vtable_among_def mq_push_data_def mq_ready_def mq_content_def split: prod.splits)
next
  case (2 q data_len atomic q' rv)
  then show ?case using push_null_law [of "mq_inner q" data_len atomic]
    by (auto simp: mq_vtable_def mq_vtable_among_def mq_push_data_def mq_ready_def mq_content_def split: prod.splits)
next
  case (3 q recv len timeout q' rv out)
  have r: "mq_inited q" "ready (mq_inner q)" using 3(1) by (auto simp: mq_ready_def)
  obtain i rv1 out1 where d: "vt_pop_data_dummy vt False len timeout (mq_inner q) = (i, rv1, out1)"
    by (cases "vt_pop_data_dummy vt False len timeout (mq_inner q)")
  obtain i2 rv2 out2 where p: "vt_pop_data vt recv len 0 i = (i2, rv2, out2)"
    by (cases "vt_pop_data vt recv len 0 i")
  note D = dummy_law [OF r(2) d]
  then have "ready i" by simp
  note P = pop_law [OF this p]
  from 3(2) r d p have "q' = q\<lparr>mq_inner := if 0 < rv1 then i2 else i\<rparr> \<and>
      rv = (if 0 < rv1 then rv2 else rv1) \<and> out = (if 0 < rv1 then out2 else out1)"
    by (auto simp: mq_vtable_def mq_vtable_among_def mq_pop_data_def split: if_splits)
  with D P r show ?case by (auto simp: mq_ready_def mq_content_def)
next
  case (4 q recv len timeout q' rv out)
  then show ?case using dummy_law [of "mq_inner q" recv len timeout]
    by (auto simp: mq_vtable_def mq_vtable_among_def mq_pop_data_dummy_def mq_ready_def mq_content_def split: prod.splits)
next
  case (5 q recv len q' rv out)
  have r: "mq_inited q" "ready (mq_inner q)" using 5(1) by (auto simp: mq_ready_def)
  obtain i where d: "vt_pop_data_dummy vt recv len 0 (mq_inner q) = (i, rv, out)"
    and q': "q' = q\<lparr>mq_inner := i\<rparr>"
    using 5(2) r by (auto simp: mq_vtable_def mq_vtable_among_def mq_pop_data_dummy_def split: prod.splits)
  have ri: "ready i" using dummy_law [OF r(2) d] by simp
  note P = dummy_pop_law [OF r(2) d 5(3)]
  obtain i3 rv3 out3 where d2: "vt_pop_data_dummy vt False rv 0 i = (i3, rv3, out3)"
    by (cases "vt_pop_data_dummy vt False rv 0 i")
  then have rv3: "rv3 = rv" using dummy_again_law [OF r(2) d 5(3), of False] by simp
  with dummy_pop_law [OF ri d2] 5(3) have "fst (snd (vt_pop_data vt False rv 0 i3)) = rv" by simp
  then show ?case using d2 rv3 q' r 5(3)
    by (auto simp: mq_vtable_def mq_vtable_among_def mq_pop_data_def split: prod.splits)
next
  case (6 q recv len q' rv out recv')
  have r: "mq_inited q" "ready (mq_inner q)" using 6(1) by (auto simp: mq_ready_def)
  obtain i where d: "vt_pop_data_dummy vt recv len 0 (mq_inner q) = (i, rv, out)"
    and q': "q' = q\<lparr>mq_inner := i\<rparr>"
    using 6(2) r by (auto simp: mq_vtable_def mq_vtable_among_def mq_pop_data_dummy_def split: prod.splits)
  from dummy_again_law [OF r(2) d 6(3), of recv'] q' r show ?case
    by (auto simp: mq_vtable_def mq_vtable_among_def mq_pop_data_dummy_def split: prod.splits)
next
  case (7 q)
  then show ?case using data_len_law [of "mq_inner q"]
    by (simp add: mq_vtable_def mq_vtable_among_def mq_get_data_len_def mq_ready_def mq_content_def)
qed

text \<open>
  A waiting consumer: whatever wakes it, the bytes it gets are the first bytes of the queue it
  sees then, and the pop that follows takes exactly these bytes off.
\<close>

lemma wq_dummy_last:
  "wq_inited q \<Longrightarrow> ready (wq_inner q) \<Longrightarrow> list_all (wake_ok ready) evs \<Longrightarrow>
   wq_pop_data_dummy vt evs recv len timeout q = Some (q', rv, out) \<Longrightarrow>
   wq_inited q' \<and>
   ((\<exists>i0. ready i0 \<and> vt_pop_data_dummy vt recv len 0 i0 = (wq_inner q', rv, out)) \<or>
    rv \<le> 0 \<and> out = [] \<and> ready (wq_inner q'))"
proof (induction evs arbitrary: q)
  case Nil
  then show ?case
  proof (induction "wq_pipe q" arbitrary: q rule: less_induct)
    case less
    obtain i rv1 out1 where d: "vt_pop_data_dummy vt recv len 0 (wq_inner q) = (i, rv1, out1)"
      by (cases "vt_pop_data_dummy vt recv len 0 (wq_inner q)")
    have E: "\<exists>i0. ready i0 \<and> vt_pop_data_dummy vt recv len 0 i0 = (i, rv1, out1)"
      using less.prems(2) d by blast
    have D: "ready i" using dummy_law [OF less.prems(2) d] by simp
    note run = less.prems(4) [unfolded wq_dummy_step [OF less.prems(1) d]]
    show ?case
    proof (cases "rv1 \<noteq> 0 \<or> timeout = 0")
      case True
      with run have "q' = q\<lparr>wq_inner := i\<rparr>" "rv = rv1" "out = out1" by auto
      with E less.prems(1) show ?thesis by simp
    next
      case False
      with run have "0 < wq_pipe q" by (auto split: if_splits)
      with run False less.hyps [of "q\<lparr>wq_inner := i, wq_pipe := wq_pipe q - min 1024 (wq_pipe q)\<rparr>"]
        less.prems(1) D show ?thesis by simp
    qed
  qed
next
  case (Cons e evs)
  note IH = Cons.IH
  from Cons.prems show ?case
  proof (induction "wq_pipe q" arbitrary: q rule: less_induct)
    case less
    obtain i rv1 out1 where d: "vt_pop_data_dummy vt recv len 0 (wq_inner q) = (i, rv1, out1)"
      by (cases "vt_pop_data_dummy vt recv len 0 (wq_inner q)")
    have E: "\<exists>i0. ready i0 \<and> vt_pop_data_dummy vt recv len 0 i0 = (i, rv1, out1)"
      using less.prems(2) d by blast
    have D: "ready i" using dummy_law [OF less.prems(2) d] by simp
    note run = less.prems(4) [unfolded wq_dummy_step [OF less.prems(1) d]]
    show ?case
    proof (cases "rv1 \<noteq> 0 \<or> timeout = 0")
      case True
      with run have "q' = q\<lparr>wq_inner := i\<rparr>" "rv = rv1" "out = out1" by auto
      with E less.prems(1) show ?thesis by simp
    next
      case again: False
      show ?thesis
      proof (cases "0 < wq_pipe q")
        case True
        with run again less.hyps [of "q\<lparr>wq_inner := i, wq_pipe := wq_pipe q - min 1024 (wq_pipe q)\<rparr>"]
          less.prems(1,3) D show ?thesis by simp
      next
        case False
        show ?thesis
        proof (cases e)
          case (Woken i' k)
          with run again False have "wq_pop_data_dummy vt evs recv len timeout
              (q\<lparr>wq_inner := i', wq_pipe := Suc k - min 1024 (Suc k)\<rparr>) = Some (q', rv, out)"
            by simp
          from IH [OF _ _ _ this] less.prems(1,3) Woken show ?thesis by simp
        next
          case Timed_out
          show ?thesis
          proof (cases "timeout < 0")
            case True
            with run again False Timed_out
            have "wq_pop_data_dummy vt evs recv len timeout (q\<lparr>wq_inner := i\<rparr>) = Some (q', rv, out)"
              by simp
            from IH [OF _ _ _ this] less.prems(1,3) D show ?thesis by simp
          next
            case False
            with run again \<open>\<not> 0 < wq_pipe q\<close> Timed_out less.prems(1) D show ?thesis by auto
          qed
        next
          case Select_failed
          with run again False less.prems(1) D show ?thesis by auto
        qed
      qed
    qed
  qed
qed

text \<open>No lost wake-up: a consumer that finds data never waits, whatever is in the pipe.\<close>

lemma wq_no_wait:
  assumes "wq_inited q" and "vt_pop_data_dummy vt recv len 0 (wq_inner q) = (i, rv, out)"
    and "rv \<noteq> 0"
  shows "wq_pop_data_dummy vt evs recv len timeout q = Some (q\<lparr>wq_inner := i\<rparr>, rv, out)"
  using wq_dummy_step [OF assms(1,2), of evs timeout] assms(3) by simp

end


interpretation mq_rq: byte_queue "mq_vtable (rq_vtable os)" "mq_ready (rq_ready_cap c)"
    "mq_content rq_content"
  by (rule rq.mq_queue)

interpretation mq_fq: byte_queue "mq_vtable (fq_vtable os)" "mq_ready fq_ready" "mq_content fq_content"
  by (rule fq.mq_queue)


section \<open>Properties of the decorators\<close>

text \<open>
  When \<open>sem_post\<close> fails after a pop, a multipopable queue answers -1 although the bytes have
  left the queue: the caller that takes -1 for "nothing popped" loses them.
\<close>

lemma mq_pop_post_failure_loses:
  assumes "mq_inited q" and "rq_ready (mq_inner q)" and "1 \<le> n"
    and "rq_content (mq_inner q) \<noteq> []"
    and "mq_pop_data (rq_vtable os) id (True, False) recv (int n) 0 q = (q', rv, out)"
  shows "rv = -1 \<and> rq_content (mq_inner q') = drop n (rq_content (mq_inner q))"
proof -
  let ?i = "mq_inner q" and ?k = "min n (length (rq_content (mq_inner q)))"
  have d: "rq_pop_data_dummy False (int n) 0 ?i = (?i, int ?k, [])"
    using rq_pop_data_ready [OF assms(2,3) refl, of False]
      rq_pop_data_dummy_eq [OF assms(2), of False "int n" 0] by auto
  obtain i' where "rq_pop_data recv (int n) 0 ?i = (i', int ?k, if recv then take ?k (rq_content ?i) else [])"
    and c: "rq_content i' = drop ?k (rq_content ?i)"
    using rq_pop_data_ready [OF assms(2,3) refl, of recv] by blast
  moreover have "0 < ?k" using assms(3,4) by auto
  moreover have "drop ?k (rq_content ?i) = drop n (rq_content ?i)" by (simp add: min_def)
  ultimately show ?thesis using assms(1,5) d
    by (auto simp: mq_pop_data_def rq_vtable_def)
qed

lemma mq_pop_post_failure_loses_witness:
  "\<exists>q' out. mq_pop_data (rq_vtable Mmap_ok) id (True, False) True 1 0
     \<lparr>mq_inited = True, mq_mutex = Mutex_mapped, mq_inner = ring_example\<rparr> = (q', -1, out) \<and>
     rq_content (mq_inner q') = [10]"
proof -
  let ?q = "\<lparr>mq_inited = True, mq_mutex = Mutex_mapped, mq_inner = ring_example\<rparr>"
  obtain q' rv out where p: "mq_pop_data (rq_vtable Mmap_ok) id (True, False) True (int 1) 0 ?q = (q', rv, out)"
    by (metis prod.collapse)
  from mq_pop_post_failure_loses [OF _ _ _ _ p] ring_example_facts
  have "rv = -1 \<and> rq_content (mq_inner q') = [10]" by simp
  with p show ?thesis by auto
qed


















end
