(* ===== verification/QueueProcesses.thy ===== *)
theory QueueProcesses
  imports SharedQueue
begin

text \<open>
  Several processes on one multipopable queue around a ring buffer. After \<open>init\<close> and \<open>fork\<close> every
  process has its own objects, which all point to the same mapping and the same semaphore. A call of
  \<open>push_data\<close> or \<open>pop_data\<close> (\<open>multipopable_queue.cpp\<close>) is taken apart into the steps between which
  other processes may act; what the ring does under the lock reads the mapping in one step and stores
  in a later one, so that two processes there at once would undo each other's work. The look without the
  lock reads the two indices at one moment; only whether it finds something counts.
\<close>

section \<open>Processes\<close>

text \<open>
  Where a process is: outside of the queue, with the result of its last call, or in one of the
  statements of \<open>push_data\<close> and \<open>pop_data\<close>.
\<close>

datatype qpc =
    Returned int "byte list"
  | Push_wait "byte list" bool
  | Push_call "byte list" bool
  | Push_store "byte list" bool ring_meta
  | Push_post int
  | Pop_look int int
  | Pop_wait int
  | Pop_call int
  | Pop_store int ring_meta
  | Pop_post int "byte list"

text \<open>\<open>qs_in\<close> and \<open>qs_out\<close> keep who put which bytes in and whose buffer got which.\<close>

record qsys =
  qs_meta :: ring_meta
  qs_sem :: nat
  qs_errno :: "nat \<Rightarrow> queue_err"
  qs_pc :: "nat \<Rightarrow> qpc"
  qs_in :: "(nat \<times> byte list) list"
  qs_out :: "(nat \<times> byte list) list"

text \<open>\<open>Step ok\<close> is the next statement; \<open>ok\<close> is whether its semaphore call, if it is one, succeeds.\<close>

datatype qact = Push_begin "byte list" bool | Pop_begin int int | Step bool

definition goto :: "nat \<Rightarrow> qpc \<Rightarrow> qsys \<Rightarrow> qsys" where
  "goto p pc s = s\<lparr>qs_pc := (qs_pc s)(p := pc)\<rparr>"

definition ring_of :: "nat \<Rightarrow> ring_meta \<Rightarrow> qsys \<Rightarrow> ring_queue" where
  "ring_of p m s = \<lparr>m_inited = True, m_last_errno = qs_errno s p, m_p_meta = Meta m\<rparr>"

definition put_ring :: "nat \<Rightarrow> ring_queue \<Rightarrow> qsys \<Rightarrow> qsys" where
  "put_ring p i s = s\<lparr>qs_meta := rq_meta i, qs_errno := (qs_errno s)(p := m_last_errno i)\<rparr>"

text \<open>\<open>sem_wait\<close> blocks while the semaphore is 0.\<close>

definition wait_lock :: "nat \<Rightarrow> bool \<Rightarrow> qpc \<Rightarrow> qsys \<Rightarrow> qsys option" where
  "wait_lock p ok pc s =
     (if \<not> ok then Some (goto p (Returned (-1) []) s)
      else if qs_sem s = 0 then None
      else Some (goto p pc (s\<lparr>qs_sem := qs_sem s - 1\<rparr>)))"

definition post_lock :: "nat \<Rightarrow> bool \<Rightarrow> int \<Rightarrow> byte list \<Rightarrow> qsys \<Rightarrow> qsys" where
  "post_lock p ok rv out s =
     (if \<not> ok then goto p (Returned (-1) out) s
      else goto p (Returned rv out) (s\<lparr>qs_sem := qs_sem s + 1\<rparr>))"

definition proc_step :: "nat \<Rightarrow> qact \<Rightarrow> qsys \<Rightarrow> qsys option" where
  "proc_step p a s =
     (case a of
        Push_begin data atomic \<Rightarrow>
          (case qs_pc s p of Returned rv out \<Rightarrow> Some (goto p (Push_wait data atomic) s) | _ \<Rightarrow> None)
      | Pop_begin len timeout \<Rightarrow>
          (case qs_pc s p of Returned rv out \<Rightarrow> Some (goto p (Pop_look len timeout) s) | _ \<Rightarrow> None)
      | Step ok \<Rightarrow>
          (case qs_pc s p of
             Returned rv out \<Rightarrow> None
           | Push_wait data atomic \<Rightarrow> wait_lock p ok (Push_call data atomic) s
           | Push_call data atomic \<Rightarrow> Some (goto p (Push_store data atomic (qs_meta s)) s)
           | Push_store data atomic m \<Rightarrow>
               (let (i, rv) = rq_push_data (Some data) (int (length data)) atomic (ring_of p m s);
                    s1 = put_ring p i s
                in Some (goto p (Push_post rv) (s1\<lparr>qs_in := qs_in s1 @ [(p, take (nat rv) data)]\<rparr>)))
           | Push_post rv \<Rightarrow> Some (post_lock p ok rv [] s)
           | Pop_look len timeout \<Rightarrow>
               (let (i, rv, out) = rq_pop_data_dummy False len timeout (ring_of p (qs_meta s) s)
                in Some (goto p (if 0 < rv then Pop_wait len else Returned rv out)
                     (s\<lparr>qs_errno := (qs_errno s)(p := m_last_errno i)\<rparr>)))
           | Pop_wait len \<Rightarrow> wait_lock p ok (Pop_call len) s
           | Pop_call len \<Rightarrow> Some (goto p (Pop_store len (qs_meta s)) s)
           | Pop_store len m \<Rightarrow>
               (let (i, rv, out) = rq_pop_data True len 0 (ring_of p m s);
                    s1 = put_ring p i s
                in Some (goto p (Pop_post rv out) (s1\<lparr>qs_out := qs_out s1 @ [(p, out)]\<rparr>)))
           | Pop_post rv out \<Rightarrow> Some (post_lock p ok rv out s)))"

fun proc_run :: "(nat \<times> qact) list \<Rightarrow> qsys \<Rightarrow> qsys option" where
  "proc_run [] s = Some s"
| "proc_run ((p, a) # as) s = (case proc_step p a s of None \<Rightarrow> None | Some s1 \<Rightarrow> proc_run as s1)"

text \<open>All processes are outside, the semaphore has the value \<open>init\<close> gave it.\<close>

definition proc_start :: "ring_queue multipopable_queue \<Rightarrow> qsys" where
  "proc_start q =
     \<lparr>qs_meta = rq_meta (mq_inner q), qs_sem = 1, qs_errno = (\<lambda>_. m_last_errno (mq_inner q)), qs_pc = (\<lambda>_. Returned 0 []),
      qs_in = [], qs_out = []\<rparr>"

section \<open>One call without interruption\<close>

text \<open>The steps of a process on its own add up to the methods of \<open>c_multipopable_queue\<close>.\<close>

abbreviation mq_view :: "nat \<Rightarrow> qsys \<Rightarrow> ring_queue multipopable_queue" where
  "mq_view p s \<equiv> \<lparr>mq_inited = True, mq_mutex = Mutex_mapped, mq_inner = ring_of p (qs_meta s) s\<rparr>"

lemma goto_fields [simp]:
  "qs_meta (goto p pc s) = qs_meta s" "qs_sem (goto p pc s) = qs_sem s" "qs_errno (goto p pc s) = qs_errno s"
  "qs_pc (goto p pc s) = (qs_pc s)(p := pc)" "qs_in (goto p pc s) = qs_in s" "qs_out (goto p pc s) = qs_out s"
  "ring_of r m (goto p pc s) = ring_of r m s"
  by (simp_all add: goto_def ring_of_def)

lemma put_ring_fields [simp]:
  "qs_meta (put_ring p i s) = rq_meta i" "qs_sem (put_ring p i s) = qs_sem s" "qs_pc (put_ring p i s) = qs_pc s"
  "qs_in (put_ring p i s) = qs_in s" "qs_out (put_ring p i s) = qs_out s"
  "qs_errno (put_ring p i s) = (qs_errno s)(p := m_last_errno i)"
  by (simp_all add: put_ring_def)

lemma ring_of_update [simp]:
  "ring_of p m (s\<lparr>qs_sem := x\<rparr>) = ring_of p m s" "ring_of p m (s\<lparr>qs_in := y\<rparr>) = ring_of p m s" "ring_of p m (s\<lparr>qs_out := z\<rparr>) = ring_of p m s"
  by (simp_all add: ring_of_def)

lemma push_alone:
  assumes "qs_pc s p = Returned rv0 out0" and "0 < qs_sem s"
    and "mq_push_data (rq_vtable os) (True, ok) (Some data) (int (length data)) atomic (mq_view p s) = (q', rv)"
  shows "\<exists>s'. proc_run [(p, Push_begin data atomic), (p, Step True), (p, Step True), (p, Step True), (p, Step ok)] s = Some s' \<and>
    qs_pc s' p = Returned rv [] \<and> qs_meta s' = rq_meta (mq_inner q')"
  using assms
  by (auto simp: proc_step_def wait_lock_def post_lock_def mq_push_data_def rq_vtable_def split: prod.splits)

lemma pop_alone:
  assumes "qs_pc s p = Returned rv0 out0" and "0 < qs_sem s"
    and "rq_pop_data_dummy False len 0 (ring_of p (qs_meta s) s) = (ring_of p (qs_meta s) s, k, [])" and "0 < k"
    and "mq_pop_data (rq_vtable os) id (True, ok) True len 0 (mq_view p s) = (q', rv, out)"
  shows "\<exists>s'. proc_run [(p, Pop_begin len 0), (p, Step True), (p, Step True), (p, Step True), (p, Step True), (p, Step ok)] s = Some s' \<and>
    qs_pc s' p = Returned rv out \<and> qs_meta s' = rq_meta (mq_inner q')"
  using assms
  by (auto simp: proc_step_def wait_lock_def post_lock_def mq_pop_data_def rq_vtable_def ring_of_def split: prod.splits)

section \<open>The lock and the bytes\<close>

fun inside :: "qpc \<Rightarrow> bool" where
  "inside (Push_call data atomic) = True"
| "inside (Push_store data atomic m) = True"
| "inside (Push_post rv) = True"
| "inside (Pop_call len) = True"
| "inside (Pop_store len m) = True"
| "inside (Pop_post rv out) = True"
| "inside pc = False"

fun has_read :: "qpc \<Rightarrow> ring_meta option" where
  "has_read (Push_store data atomic m) = Some m"
| "has_read (Pop_store len m) = Some m"
| "has_read pc = None"

definition proc_inv :: "qsys \<Rightarrow> bool" where
  "proc_inv s \<longleftrightarrow> meta_wf (qs_meta s) \<and>
     concat (map snd (qs_in s)) = concat (map snd (qs_out s)) @ meta_content (qs_meta s) \<and>
     (\<forall>p. inside (qs_pc s p) \<longrightarrow> qs_sem s = 0) \<and> qs_sem s \<le> 1 \<and>
     (\<forall>p r. inside (qs_pc s p) \<and> inside (qs_pc s r) \<longrightarrow> p = r) \<and>
     (\<forall>p m. has_read (qs_pc s p) = Some m \<longrightarrow> m = qs_meta s)"

lemma ring_of_ready: "meta_wf m \<Longrightarrow> rq_ready (ring_of p m s) \<and> rq_content (ring_of p m s) = meta_content m"
  by (simp add: ring_of_def rq_ready_def rq_wf_def rq_content_def rq_meta_def)

lemma ready_meta: "rq_ready i \<Longrightarrow> meta_wf (rq_meta i) \<and> rq_content i = meta_content (rq_meta i)"
  by (auto simp: rq_ready_def rq_wf_def rq_content_def rq_meta_def)

lemma has_read_inside: "has_read pc = Some m \<Longrightarrow> inside pc"
  by (cases pc) simp_all

text \<open>A step that stays outside, or one that takes or gives back the lock, keeps the mapping.\<close>

lemma keep_inv:
  assumes "proc_inv s" and "qs_meta s' = qs_meta s" and "qs_in s' = qs_in s" and "qs_out s' = qs_out s"
    and "qs_pc s' = (qs_pc s)(p := pc)"
    and "inside pc \<Longrightarrow> inside (qs_pc s p) \<and> qs_sem s' = qs_sem s \<or> 0 < qs_sem s \<and> qs_sem s' = qs_sem s - 1"
    and "\<not> inside pc \<Longrightarrow> qs_sem s' = qs_sem s \<or> inside (qs_pc s p) \<and> qs_sem s' = qs_sem s + 1"
    and "\<And>m. has_read pc = Some m \<Longrightarrow> m = qs_meta s"
  shows "proc_inv s'"
proof -
  have in_p: "inside (qs_pc s' r) \<longleftrightarrow> (if r = p then inside pc else inside (qs_pc s r))" for r using assms(5) by simp
  have I: "\<And>r. inside (qs_pc s r) \<Longrightarrow> qs_sem s = 0" "qs_sem s \<le> 1" "\<And>r q. inside (qs_pc s r) \<Longrightarrow> inside (qs_pc s q) \<Longrightarrow> r = q"
    "\<And>r m. has_read (qs_pc s r) = Some m \<Longrightarrow> m = qs_meta s"
    using assms(1) unfolding proc_inv_def by blast+
  have "inside (qs_pc s' r) \<Longrightarrow> qs_sem s' = 0" for r
    using in_p [of r] I(1) [of r] I(1) [of p] I(2) I(3) [of r p] assms(6,7) by (cases "r = p"; cases "inside pc") auto
  moreover have "qs_sem s' \<le> 1" using I(1) [of p] I(2) assms(6,7) by (cases "inside pc") auto
  moreover have "r = q" if "inside (qs_pc s' r)" "inside (qs_pc s' q)" for r q
    using that in_p [of r] in_p [of q] I(1) [of r] I(1) [of q] I(3) [of r q] I(3) [of r p] I(3) [of q p] assms(6)
    by (auto split: if_splits)
  moreover have "m = qs_meta s'" if "has_read (qs_pc s' r) = Some m" for r m
    using that assms(2,5,8) I(4) [of r m] by (cases "r = p") auto
  ultimately show ?thesis using assms(1-4) unfolding proc_inv_def by auto
qed

text \<open>What the ring does under the lock.\<close>

lemma store_inv:
  assumes "proc_inv s" and "has_read (qs_pc s p) = Some m" and "meta_wf (qs_meta s')"
    and "concat (map snd (qs_in s')) = concat (map snd (qs_out s')) @ meta_content (qs_meta s')"
    and "qs_pc s' = (qs_pc s)(p := pc)" and "inside pc" and "has_read pc = None" and "qs_sem s' = qs_sem s"
  shows "proc_inv s'"
proof -
  have p: "inside (qs_pc s p)" by (rule has_read_inside [OF assms(2)])
  have I: "\<And>r. inside (qs_pc s r) \<Longrightarrow> qs_sem s = 0" "\<And>r. inside (qs_pc s r) \<Longrightarrow> r = p"
    using assms(1) p unfolding proc_inv_def by blast+
  have "has_read (qs_pc s' r) = None" for r
  proof (cases "r = p")
    case False
    then have "\<not> inside (qs_pc s r)" using I(2) by blast
    with has_read_inside [of "qs_pc s r"] have "has_read (qs_pc s r) = None" by (cases "has_read (qs_pc s r)") simp_all
    then show ?thesis using assms(5) False by simp
  qed (simp add: assms(5,7))
  moreover have "r = p" if "inside (qs_pc s' r)" for r
  proof (rule ccontr)
    assume "r \<noteq> p"
    with that assms(5) have "inside (qs_pc s r)" by simp
    with I(2) \<open>r \<noteq> p\<close> show False by blast
  qed
  ultimately show ?thesis using assms(3,4,8) I(1) [OF p] unfolding proc_inv_def by (metis option.discI zero_le)
qed

lemma begin_inv: "proc_inv s \<Longrightarrow> qs_pc s p = Returned rv out \<Longrightarrow> \<not> inside pc \<Longrightarrow> proc_inv (goto p pc s)"
  using has_read_inside by (fastforce intro!: keep_inv [of s "goto p pc s" p pc])

lemma wait_inv:
  assumes "proc_inv s" and "wait_lock p ok pc s = Some s'" and "inside pc" and "has_read pc = None"
    and "\<not> inside (qs_pc s p)"
  shows "proc_inv s'"
  using assms(2-5) by (intro keep_inv [OF assms(1), of s' p "if ok then pc else Returned (-1) []"])
    (auto simp: wait_lock_def split: if_splits)

lemma post_inv: "proc_inv s \<Longrightarrow> inside (qs_pc s p) \<Longrightarrow> proc_inv (post_lock p ok rv out s)"
  by (rule keep_inv [of s _ p "Returned (if ok then rv else -1) out"]) (auto simp: post_lock_def)

lemma proc_step_inv:
  assumes i: "proc_inv s" and s': "proc_step p a s = Some s'"
  shows "proc_inv s'"
proof -
  have wf: "meta_wf (qs_meta s)" and fifo: "concat (map snd (qs_in s)) = concat (map snd (qs_out s)) @ meta_content (qs_meta s)"
    and read: "\<And>m. has_read (qs_pc s p) = Some m \<Longrightarrow> m = qs_meta s"
    using i by (auto simp: proc_inv_def)
  note ready = ring_of_ready [OF wf, of p s]
  show ?thesis
  proof (cases a)
    case (Push_begin data atomic)
    then show ?thesis using s' begin_inv [OF i, of p] by (auto simp: proc_step_def split: qpc.splits)
  next
    case (Pop_begin len timeout)
    then show ?thesis using s' begin_inv [OF i, of p] by (auto simp: proc_step_def split: qpc.splits)
  next
    case (Step ok)
    show ?thesis
    proof (cases "qs_pc s p")
      case (Returned rv out)
      then show ?thesis using s' Step by (simp add: proc_step_def)
    next
      case (Push_wait data atomic)
      then show ?thesis using s' Step wait_inv [OF i, of p ok "Push_call data atomic"] by (simp add: proc_step_def)
    next
      case (Pop_wait len)
      then show ?thesis using s' Step wait_inv [OF i, of p ok "Pop_call len"] by (simp add: proc_step_def)
    next
      case (Push_post rv)
      then show ?thesis using s' Step post_inv [OF i, of p] by (auto simp: proc_step_def)
    next
      case (Pop_post rv out)
      then show ?thesis using s' Step post_inv [OF i, of p] by (auto simp: proc_step_def)
    next
      case (Push_call data atomic)
      then show ?thesis using s' Step keep_inv [OF i, of s' p "Push_store data atomic (qs_meta s)"] by (auto simp: proc_step_def)
    next
      case (Pop_call len)
      then show ?thesis using s' Step keep_inv [OF i, of s' p "Pop_store len (qs_meta s)"] by (auto simp: proc_step_def)
    next
      case (Pop_look len timeout)
      obtain j rv out where d: "rq_pop_data_dummy False len timeout (ring_of p (qs_meta s) s) = (j, rv, out)" by (metis prod.collapse)
      show ?thesis using s' Step Pop_look d keep_inv [OF i, of s' p "if 0 < rv then Pop_wait len else Returned rv out"]
        by (auto simp: proc_step_def split: if_splits)
    next
      case (Push_store data atomic m)
      then have m: "m = qs_meta s" using read by simp
      obtain j rv where d: "rq_push_data (Some data) (int (length data)) atomic (ring_of p m s) = (j, rv)" by (metis prod.collapse)
      from rq_push_cases [OF _ order_refl d] ready m
      have "meta_wf (rq_meta j)" "meta_content (rq_meta j) = meta_content (qs_meta s) @ take (nat rv) data"
        using ready_meta [of j] by auto
      with s' Step Push_store d fifo show ?thesis by (intro store_inv [OF i, of p m]) (auto simp: proc_step_def)
    next
      case (Pop_store len m)
      then have m: "m = qs_meta s" using read by simp
      obtain j rv out where d: "rq_pop_data True len 0 (ring_of p m s) = (j, rv, out)" by (metis prod.collapse)
      from rq_pop_cases [OF _ d] ready m
      have j: "rq_ready j" "rq_content j = drop (nat rv) (meta_content (qs_meta s))" "out = take (nat rv) (meta_content (qs_meta s))"
        by auto
      then have "meta_wf (rq_meta j)" "meta_content (qs_meta s) = out @ meta_content (rq_meta j)"
        using ready_meta [OF j(1)] append_take_drop_id [of "nat rv" "meta_content (qs_meta s)"] by simp_all
      with s' Step Pop_store d fifo show ?thesis by (intro store_inv [OF i, of p m]) (auto simp: proc_step_def)
    qed
  qed
qed

lemma proc_run_inv: "proc_inv s \<Longrightarrow> proc_run as s = Some s' \<Longrightarrow> proc_inv s'"
  by (induction as s rule: proc_run.induct) (auto intro: proc_step_inv split: option.splits)

lemma proc_start_inv:
  assumes "rq_ready (mq_inner q)" and "rq_content (mq_inner q) = []"
  shows "proc_inv (proc_start q)"
proof -
  have "\<not> inside (qs_pc (proc_start q) p)" "has_read (qs_pc (proc_start q) p) = None" for p
    by (simp_all add: proc_start_def)
  then show ?thesis using ready_meta [OF assms(1)] assms(2) unfolding proc_inv_def by (simp add: proc_start_def)
qed

text \<open>A process that is not interrupted puts in all that fits, and takes off the oldest bytes.\<close>

lemma push_progress:
  assumes "meta_wf (qs_meta s)" and "qs_pc s p = Returned rv0 out0" and "0 < qs_sem s" and "data \<noteq> []"
    and "length (meta_content (qs_meta s)) + length data \<le> nat (buf_len (qs_meta s) - 1)"
  shows "\<exists>s'. proc_run ((p, Push_begin data atomic) # replicate 4 (p, Step True)) s = Some s' \<and>
    qs_pc s' p = Returned (int (length data)) [] \<and> qs_in s' = qs_in s @ [(p, data)] \<and> qs_sem s' = qs_sem s"
proof -
  let ?q = "ring_of p (qs_meta s) s"
  note R = ring_of_ready [OF assms(1), of p s]
  have "rq_capacity ?q = nat (buf_len (qs_meta s) - 1)" by (simp add: ring_of_def rq_capacity_def rq_meta_def)
  then have "min (length data) (rq_free ?q) = length data" using R assms(5) by (simp add: rq_free_def)
  moreover have "1 \<le> length data" using assms(4) by (cases data) auto
  ultimately obtain i where "rq_push_data (Some data) (int (length data)) atomic ?q = (i, int (length data))"
    using rq_push_data_ready [of ?q "length data" data "length data" atomic] R by auto
  then show ?thesis using assms(2,3) by (simp add: proc_step_def wait_lock_def post_lock_def eval_nat_numeral)
qed

lemma pop_progress:
  assumes "meta_wf (qs_meta s)" and "qs_pc s p = Returned rv0 out0" and "0 < qs_sem s" and "1 \<le> n" and "meta_content (qs_meta s) \<noteq> []"
  shows "\<exists>s' out. proc_run ((p, Pop_begin (int n) 0) # replicate 5 (p, Step True)) s = Some s' \<and>
    out = take n (meta_content (qs_meta s)) \<and> qs_pc s' p = Returned (int (length out)) out \<and>
    qs_out s' = qs_out s @ [(p, out)] \<and> qs_sem s' = qs_sem s"
proof -
  let ?q = "ring_of p (qs_meta s) s" and ?k = "min n (length (meta_content (qs_meta s)))"
  note R = ring_of_ready [OF assms(1), of p s]
  have k: "0 < ?k" using assms(4,5) by auto
  obtain i0 where "rq_pop_data False (int n) 0 ?q = (i0, int ?k, [])"
    using rq_pop_data_ready [of ?q n ?k False] R assms(4) by auto
  then have d: "rq_pop_data_dummy False (int n) 0 ?q = (?q, int ?k, [])"
    using rq_pop_data_dummy_eq [of ?q False "int n" 0] R by simp
  obtain i where i: "rq_pop_data True (int n) 0 ?q = (i, int ?k, take ?k (meta_content (qs_meta s)))"
    using rq_pop_data_ready [of ?q n ?k True] R assms(4) by auto
  have e: "(qs_errno s)(p := m_last_errno ?q) = qs_errno s" by (simp add: ring_of_def fun_upd_idem)
  have g: "ring_of p (qs_meta s) ((goto p c s)\<lparr>qs_errno := qs_errno s\<rparr>) = ?q" for c by (simp add: ring_of_def goto_def)
  have "take ?k (meta_content (qs_meta s)) = take n (meta_content (qs_meta s))" by (simp add: min_def)
  then show ?thesis using assms(2,3) k d i
    by (simp add: proc_step_def wait_lock_def post_lock_def eval_nat_numeral e g min.commute)
qed

text \<open>
  C23: any number of processes push to and pop from a multipopable queue around a ring buffer, their steps
  interleaved in any order and their semaphore calls failing at any time. From a successful \<open>init\<close> on, no
  two of them are between \<open>sem_wait\<close> and \<open>sem_post\<close> at once, and the bytes that came into the buffers of
  the consumers, in the order in which they were taken off, followed by what the ring holds, are the
  bytes the producers put in, each once and in order. A call that finds the lock free and is not
  interrupted puts in all its bytes when they fit, or takes off the oldest ones.
\<close>

theorem mq_processes_fifo:
  assumes "in_int32 len" and "mq_init (rq_vtable os) True True len (mq_new rq_new) = Some (q, 0)"
    and "proc_run as (proc_start q) = Some s"
  shows "(\<forall>p r. inside (qs_pc s p) \<and> inside (qs_pc s r) \<longrightarrow> p = r) \<and>
    concat (map snd (qs_in s)) = concat (map snd (qs_out s)) @ meta_content (qs_meta s) \<and>
    (\<forall>p rv out data atomic. qs_pc s p = Returned rv out \<and> 0 < qs_sem s \<and> data \<noteq> [] \<and>
       length (meta_content (qs_meta s)) + length data \<le> nat (buf_len (qs_meta s) - 1) \<longrightarrow>
       (\<exists>s'. proc_run ((p, Push_begin data atomic) # replicate 4 (p, Step True)) s = Some s' \<and>
          qs_pc s' p = Returned (int (length data)) [] \<and> qs_in s' = qs_in s @ [(p, data)] \<and> qs_sem s' = qs_sem s)) \<and>
    (\<forall>p rv out n. qs_pc s p = Returned rv out \<and> 0 < qs_sem s \<and> 1 \<le> n \<and> meta_content (qs_meta s) \<noteq> [] \<longrightarrow>
       (\<exists>s' got. proc_run ((p, Pop_begin (int n) 0) # replicate 5 (p, Step True)) s = Some s' \<and>
          got = take n (meta_content (qs_meta s)) \<and> qs_pc s' p = Returned (int (length got)) got \<and>
          qs_out s' = qs_out s @ [(p, got)] \<and> qs_sem s' = qs_sem s))"
proof -
  from assms(2) obtain i where i: "rq_init os len rq_new = Some (i, 0)" and q: "mq_inner q = i"
    by (auto simp: mq_init_def mq_new_def rq_vtable_def split: option.splits)
  from rq_init_ready [OF i assms(1)] q have "proc_inv (proc_start q)" by (intro proc_start_inv) simp_all
  note I = proc_run_inv [OF this assms(3)]
  have wf: "meta_wf (qs_meta s)" using I by (simp add: proc_inv_def)
  show ?thesis
  proof (intro conjI)
    show "\<forall>p r. inside (qs_pc s p) \<and> inside (qs_pc s r) \<longrightarrow> p = r" using I unfolding proc_inv_def by blast
    show "concat (map snd (qs_in s)) = concat (map snd (qs_out s)) @ meta_content (qs_meta s)" using I by (simp add: proc_inv_def)
  qed (use push_progress [OF wf] pop_progress [OF wf] in blast)+
qed

text \<open>
  Two consumers see the one byte there is; the second is refused the lock while the first has it, and
  then finds the byte that was pushed behind.
\<close>

definition two_consumers :: "(nat \<times> qact) list" where
  "two_consumers =
     (0, Push_begin [7] True) # replicate 4 (0, Step True) @
     [(1, Pop_begin 1 0), (2, Pop_begin 1 0), (1, Step True), (2, Step True), (1, Step True), (1, Step True), (1, Step True)]"

definition two_more :: "(nat \<times> qact) list" where
  "two_more = (1, Step True) # (0, Push_begin [8, 9] True) # replicate 4 (0, Step True) @ replicate 4 (2, Step True)"

theorem mq_processes_fifo_witness:
  "\<exists>q s s'. mq_init (rq_vtable Mmap_ok) True True 3 (mq_new rq_new) = Some (q, 0) \<and>
     proc_run two_consumers (proc_start q) = Some s \<and> inside (qs_pc s 1) \<and> proc_step 2 (Step True) s = None \<and>
     proc_run (two_consumers @ two_more) (proc_start q) = Some s' \<and>
     qs_out s' = [(1, [7]), (2, [8])] \<and> qs_pc s' 2 = Returned 1 [8] \<and> meta_content (qs_meta s') = [9]"
proof -
  let ?i = "mq_init (rq_vtable Mmap_ok) True True 3 (mq_new rq_new)"
  let ?q = "fst (the ?i)"
  have i: "?i = Some (?q, 0)" by (simp add: mq_init_def mq_new_def rq_vtable_def ring_init_3)
  have "case proc_run two_consumers (proc_start ?q) of None \<Rightarrow> False
      | Some s \<Rightarrow> inside (qs_pc s 1) \<and> (case proc_step 2 (Step True) s of None \<Rightarrow> True | Some _ \<Rightarrow> False)"
    by code_simp
  then obtain s where s: "proc_run two_consumers (proc_start ?q) = Some s" "inside (qs_pc s 1)" "proc_step 2 (Step True) s = None"
    by (auto split: option.splits)
  have "case proc_run (two_consumers @ two_more) (proc_start ?q) of None \<Rightarrow> False
      | Some s \<Rightarrow> qs_in s = [(0, [7]), (0, [8, 9])] \<and> qs_out s = [(1, [7]), (2, [8])] \<and> qs_pc s 2 = Returned 1 [8]"
    by code_simp
  then obtain s' where s': "proc_run (two_consumers @ two_more) (proc_start ?q) = Some s'" "qs_in s' = [(0, [7]), (0, [8, 9])]"
      "qs_out s' = [(1, [7]), (2, [8])]" "qs_pc s' 2 = Returned 1 [8]"
    by (auto split: option.splits)
  have "in_int32 3" by (simp add: in_int32_def)
  from mq_processes_fifo [OF this i s'(1)] s'(2,3) have "meta_content (qs_meta s') = [9]" by simp
  with i s s' show ?thesis by blast
qed

end
