(* ===== verification/MmTree.thy ===== *)
theory MmTree
  imports Prelude
begin

text \<open>
  The memory-mapped counter tree \<open>c_mmtree\<close> of \<open>src/c/library/mmtree-1.0.0\<close>
  (\<open>mmtree.h\<close>, \<open>mmtree.cpp\<close>): a file of fixed-size nodes linked by their index, index 0
  standing for "no node", and a header with the root, the counters and the queue of recycled
  nodes. The file is the function \<open>mm_map\<close> from indices to nodes; slot 0 exists and is read and
  written by the code like the others.
  The \<open>while\<close> loops follow links in the file, so nothing in their text makes them end: they are
  partial functions, \<open>None\<close> while they run. \<open>MmTreeShape\<close> and \<open>MmTreeMap\<close> show that they end
  and what they compute on a well-formed file.
\<close>

section \<open>The file\<close>

datatype mmt_color = Black | Red

record mt_node =
  nd_key :: int
  nd_data :: int
  nd_left :: nat
  nd_right :: nat
  nd_parent :: nat
  nd_color :: mmt_color

text \<open>What \<open>memset(node, 0, sizeof)\<close> and a fresh page of the file hold (black is 0).\<close>

definition null_node :: mt_node where
  "null_node = \<lparr>nd_key = 0, nd_data = 0, nd_left = 0, nd_right = 0, nd_parent = 0, nd_color = Black\<rparr>"

record mt_state =
  st_root_id :: nat
  st_left :: int
  st_current :: nat
  st_nonzero :: int
  st_total :: nat
  st_qleft :: int
  st_qfirst :: nat
  st_qlast :: nat

definition zero_state :: mt_state where
  "zero_state = \<lparr>st_root_id = 0, st_left = 0, st_current = 0, st_nonzero = 0, st_total = 0,
                 st_qleft = 0, st_qfirst = 0, st_qlast = 0\<rparr>"

type_synonym mt_map = "nat \<Rightarrow> mt_node"

text \<open>Assignments to one field of a node.\<close>

definition set_left :: "nat \<Rightarrow> nat \<Rightarrow> mt_map \<Rightarrow> mt_map" where
  "set_left i v m = m(i := (m i)\<lparr>nd_left := v\<rparr>)"

definition set_right :: "nat \<Rightarrow> nat \<Rightarrow> mt_map \<Rightarrow> mt_map" where
  "set_right i v m = m(i := (m i)\<lparr>nd_right := v\<rparr>)"

definition set_parent :: "nat \<Rightarrow> nat \<Rightarrow> mt_map \<Rightarrow> mt_map" where
  "set_parent i v m = m(i := (m i)\<lparr>nd_parent := v\<rparr>)"

definition set_color :: "nat \<Rightarrow> mmt_color \<Rightarrow> mt_map \<Rightarrow> mt_map" where
  "set_color i c m = m(i := (m i)\<lparr>nd_color := c\<rparr>)"

section \<open>The object\<close>

text \<open>
  \<open>mm_mapped\<close> says whether \<open>m_state\<close> and \<open>m_map\<close> are non-null (the file is mapped),
  \<open>mm_p_mtree\<close> whether \<open>m_p_mtree\<close> is. The texts of the error messages are not modelled.
\<close>

record c_mmtree =
  mm_inited :: bool
  mm_size :: nat
  mm_mapped :: bool
  mm_state :: mt_state
  mm_map :: mt_map
  mm_fd :: int
  mm_increment_num :: nat
  mm_p_mtree :: bool
  mm_errno :: int

definition MMT_IFACE_EINIT :: int where "MMT_IFACE_EINIT = 1"
definition MMT_IFACE_EMMAP :: int where "MMT_IFACE_EMMAP = 2"
definition MMT_IFACE_EINSERT :: int where "MMT_IFACE_EINSERT = 3"
definition MMT_IFACE_EFIND :: int where "MMT_IFACE_EFIND = 4"
definition MMT_IFACE_EOP :: int where "MMT_IFACE_EOP = 5"

definition INITIAL_INCREMENT_SIZE :: nat where "INITIAL_INCREMENT_SIZE = 100"
definition MAX_INCREMENT_SIZE :: nat where "MAX_INCREMENT_SIZE = 102300"

definition sizeof_mt_state :: nat where "sizeof_mt_state = 68"
definition sizeof_mt_node :: nat where "sizeof_mt_node = 24"

abbreviation set_err :: "int \<Rightarrow> c_mmtree \<Rightarrow> c_mmtree" where
  "set_err e s \<equiv> s\<lparr>mm_errno := e\<rparr>"

definition c_mmtree_new :: c_mmtree where
  "c_mmtree_new =
     \<lparr>mm_inited = False, mm_size = 0, mm_mapped = False, mm_state = zero_state,
      mm_map = (\<lambda>_. null_node), mm_fd = -1, mm_increment_num = INITIAL_INCREMENT_SIZE,
      mm_p_mtree = False, mm_errno = 0\<rparr>"

definition mmtree_munmap :: "c_mmtree \<Rightarrow> c_mmtree \<times> int" where
  "mmtree_munmap s =
     (if mm_p_mtree s then (if 0 < mm_size s then s\<lparr>mm_mapped := False\<rparr> else s, 0)
      else (set_err MMT_IFACE_EINIT s, -1))"

text \<open>\<open>mmap_ok\<close> is whether \<open>mmap\<close> succeeds.\<close>

definition mmtree_mmap :: "bool \<Rightarrow> c_mmtree \<Rightarrow> c_mmtree \<times> int" where
  "mmtree_mmap mmap_ok s =
     (if mm_p_mtree s then
        let s1 = fst (mmtree_munmap s) in
        if mmap_ok then (s1\<lparr>mm_mapped := True\<rparr>, 0) else (set_err MMT_IFACE_EMMAP s1, -1)
      else (set_err MMT_IFACE_EINIT s, -1))"

text \<open>\<open>ftruncate\<close> fills the new part of the file with zeros.\<close>

definition mmtree_increment :: "bool \<Rightarrow> c_mmtree \<Rightarrow> c_mmtree \<times> int" where
  "mmtree_increment mmap_ok s =
     (if mm_p_mtree s then
        let inc = mm_increment_num s;
            s1 = s\<lparr>mm_mapped := False, mm_size := mm_size s + inc * sizeof_mt_node\<rparr>
        in if mmap_ok then
             let st = mm_state s1;
                 st1 = st\<lparr>st_left := st_left st + int inc\<rparr>;
                 st2 = (if st_total st = 0 then st1\<lparr>st_left := st_left st1 - 1\<rparr> else st1);
                 st3 = st2\<lparr>st_total := st_total st2 + inc\<rparr>;
                 inc2 = inc * 2
             in (s1\<lparr>mm_mapped := True, mm_state := st3,
                    mm_map := (\<lambda>i. if st_total st \<le> i \<and> i < st_total st3 then null_node
                                    else mm_map s1 i),
                    mm_increment_num :=
                      (if inc2 > MAX_INCREMENT_SIZE then INITIAL_INCREMENT_SIZE else inc2)\<rparr>, 0)
           else (set_err MMT_IFACE_EMMAP s1, -1)
      else (set_err MMT_IFACE_EINIT s, -1))"

text \<open>
  What \<open>init\<close> meets in the file system: whether the file exists, the descriptor \<open>open\<close> returns,
  whether \<open>calloc\<close> succeeds, the size \<open>fstat\<close> reports, the header and nodes in the file, and
  whether \<open>mmap\<close> succeeds.
\<close>

record mm_env =
  env_exists :: bool
  env_fd :: int
  env_calloc :: bool
  env_fstat :: "nat option"
  env_state :: mt_state
  env_map :: mt_map
  env_mmap :: bool

definition mmt_init :: "mm_env \<Rightarrow> bool \<Rightarrow> bool \<Rightarrow> c_mmtree \<Rightarrow> c_mmtree \<times> int" where
  "mmt_init env o_creat check_create_flag s =
     (if mm_inited s then (set_err MMT_IFACE_EINIT s, -1)
      else if \<not> env_exists env \<and> \<not> o_creat then (set_err MMT_IFACE_EINIT s, -1)
      else if env_exists env \<and> check_create_flag then (set_err MMT_IFACE_EINIT s, -1)
      else
        let s1 = s\<lparr>mm_fd := env_fd env\<rparr> in
        if mm_fd s1 < 0 then (set_err MMT_IFACE_EINIT s1, -1)
        else if \<not> env_calloc env then
          (set_err MMT_IFACE_EINIT (s1\<lparr>mm_p_mtree := False\<rparr>), -1)
        else
          let s2 = s1\<lparr>mm_p_mtree := True\<rparr> in
          (case env_fstat env of
             None \<Rightarrow> (set_err MMT_IFACE_EINIT (s2\<lparr>mm_p_mtree := False\<rparr>), -1)
           | Some fsize \<Rightarrow>
               if fsize = 0 then
                 let s3 = s2\<lparr>mm_size := sizeof_mt_state, mm_state := zero_state,
                             mm_map := (\<lambda>_. null_node)\<rparr>;
                     (s4, rv) = mmtree_increment (env_mmap env) s3
                 in if rv \<noteq> 0 then (s4, -1)
                    else (s4\<lparr>mm_state := (mm_state s4)\<lparr>st_root_id := 0, st_current := 0,
                                                        st_nonzero := 0\<rparr>,
                             mm_inited := True\<rparr>, 0)
               else
                 let s3 = s2\<lparr>mm_size := fsize, mm_state := env_state env, mm_map := env_map env\<rparr>;
                     (s4, rv) = mmtree_mmap (env_mmap env) s3
                 in if rv \<noteq> 0 then (s4, -1) else (s4\<lparr>mm_inited := True\<rparr>, 0)))"

definition mmt_uninit :: "c_mmtree \<Rightarrow> c_mmtree \<times> int" where
  "mmt_uninit s =
     (if \<not> mm_inited s then (s, -1)
      else
        let s1 = (if mm_p_mtree s then
                    let u = fst (mmtree_munmap s);
                        v = (if mm_fd u > 0 then u\<lparr>mm_fd := 0\<rparr> else u)
                    in v\<lparr>mm_p_mtree := False\<rparr>
                  else s)
        in (s1\<lparr>mm_inited := False\<rparr>, 0))"

section \<open>Links and colours\<close>

text \<open>
  The arguments \<open>lid\<close>, \<open>rid\<close>, \<open>uid\<close>, \<open>ppid\<close> of the C++ functions are scratch variables, written
  before they are read. \<open>pm\<close> is \<open>m_p_mtree\<close>, \<open>root\<close> the reference parameter \<open>*p_rootid\<close>.
\<close>

definition mmtree_rotate_left :: "bool \<Rightarrow> nat \<Rightarrow> mt_map \<Rightarrow> nat \<Rightarrow> nat \<times> mt_map" where
  "mmtree_rotate_left pm root m nid =
     (let rid = nd_right (m nid) in
      if pm \<and> 0 < rid then
        let lid = nd_left (m rid);
            m1 = set_right nid lid m;
            m2 = (if 0 < lid then set_parent lid nid m1 else m1);
            ppid = nd_parent (m2 nid);
            m3 = set_parent rid ppid m2;
            (root4, m4) =
              (if 0 < ppid then
                 (root, if nd_left (m3 ppid) = nid then set_left ppid rid m3 else set_right ppid rid m3)
               else (rid, m3));
            m5 = set_left rid nid m4;
            m6 = set_parent nid rid m5
        in (root4, m6)
      else (root, m))"

definition mmtree_rotate_right :: "bool \<Rightarrow> nat \<Rightarrow> mt_map \<Rightarrow> nat \<Rightarrow> nat \<times> mt_map" where
  "mmtree_rotate_right pm root m nid =
     (let lid = nd_left (m nid) in
      if pm \<and> 0 < lid then
        let rid = nd_right (m lid);
            m1 = set_left nid rid m;
            m2 = (if 0 < rid then set_parent rid nid m1 else m1);
            ppid = nd_parent (m2 nid);
            m3 = set_parent lid ppid m2;
            (root4, m4) =
              (if 0 < ppid then
                 (root, if nd_left (m3 ppid) = nid then set_left ppid lid m3 else set_right ppid lid m3)
               else (lid, m3));
            m5 = set_right lid nid m4;
            m6 = set_parent nid lid m5
        in (root4, m6)
      else (root, m))"

text \<open>
  One round of the loop of \<open>mmtree_insert_color\<close>, entered with the parent \<open>pid\<close> of the red node
  \<open>nid\<close> red as well: the file after it and the next \<open>id\<close>.
\<close>

definition mmt_insert_round :: "bool \<Rightarrow> nat \<Rightarrow> mt_map \<Rightarrow> nat \<Rightarrow> nat \<Rightarrow> nat \<times> mt_map \<times> nat" where
  "mmt_insert_round pm root m nid pid =
     (let gpid = nd_parent (m pid) in
      if pid = nd_left (m gpid) then
        let uid = nd_right (m gpid) in
        if 0 < uid \<and> nd_color (m uid) = Red then
          (root, set_color gpid Red (set_color pid Black (set_color uid Black m)), gpid)
        else
          let (root1, m1, pid1, nid1) =
                (if nd_right (m pid) = nid then
                   let (r, m0) = mmtree_rotate_left pm root m pid in (r, m0, nid, pid)
                 else (root, m, pid, nid));
              m2 = set_color gpid Red (set_color pid1 Black m1);
              (root3, m3) = mmtree_rotate_right pm root1 m2 gpid
          in (root3, m3, nid1)
      else
        let uid = nd_left (m gpid) in
        if 0 < uid \<and> nd_color (m uid) = Red then
          (root, set_color gpid Red (set_color pid Black (set_color uid Black m)), gpid)
        else
          let (root1, m1, pid1, nid1) =
                (if nd_left (m pid) = nid then
                   let (r, m0) = mmtree_rotate_right pm root m pid in (r, m0, nid, pid)
                 else (root, m, pid, nid));
              m2 = set_color gpid Red (set_color pid1 Black m1);
              (root3, m3) = mmtree_rotate_left pm root1 m2 gpid
          in (root3, m3, nid1))"

partial_function (option) mmtree_insert_color ::
    "bool \<Rightarrow> nat \<Rightarrow> mt_map \<Rightarrow> nat \<Rightarrow> (nat \<times> mt_map) option" where
  "mmtree_insert_color pm root m nid =
     (if 0 < nd_parent (m nid) \<and> nd_color (m (nd_parent (m nid))) = Red then
        (case mmt_insert_round pm root m nid (nd_parent (m nid)) of
           (root1, m1, nid1) \<Rightarrow> mmtree_insert_color pm root1 m1 nid1)
      else Some (root, if 0 < root then set_color root Black m else m))"

declare mmtree_insert_color.simps [code]

text \<open>
  One round of the loop of \<open>mmt_remove_color\<close>: the file after it and the next \<open>id\<close> and \<open>pid\<close>,
  \<open>None\<close> at the \<open>break\<close>.
\<close>

definition mmt_remove_round ::
    "bool \<Rightarrow> nat \<Rightarrow> mt_map \<Rightarrow> nat \<Rightarrow> nat \<Rightarrow> nat \<times> mt_map \<times> (nat \<times> nat) option" where
  "mmt_remove_round pm root m nid pid =
     (if nd_left (m pid) = nid then
        let uid = nd_right (m pid);
            (root1, m1, uid1) =
              (if nd_color (m uid) = Red then
                 let (r, m0) = mmtree_rotate_left pm root (set_color pid Red (set_color uid Black m)) pid
                 in (r, m0, nd_right (m0 pid))
               else (root, m, uid))
        in if (nd_left (m1 uid1) = 0 \<or> nd_color (m1 uid1) = Black) \<and>
              (nd_right (m1 uid1) = 0 \<or> nd_color (m1 uid1) = Black) then
             let m2 = set_color uid1 Red m1
             in (root1, m2, Some (pid, nd_parent (m2 pid)))
           else
             let rid = nd_right (m1 uid1);
                 lid = nd_left (m1 uid1);
                 (root3, m3, uid3) =
                   (if rid = 0 \<or> nd_color (m1 rid) = Black then
                      let (r, m0) = mmtree_rotate_right pm root1
                                      (set_color uid1 Red (set_color lid Black m1)) uid1
                      in (r, m0, nd_right (m0 pid))
                    else (root1, m1, uid1));
                 m4 = set_color pid Black (set_color uid3 (nd_color (m3 pid)) m3);
                 rid4 = nd_right (m4 uid3);
                 m5 = (if 0 < rid4 then set_color rid4 Black m4 else m4);
                 (root6, m6) = mmtree_rotate_left pm root3 m5 pid
             in (root6, m6, None)
      else
        let uid = nd_left (m pid);
            (root1, m1, uid1) =
              (if nd_color (m uid) = Red then
                 let (r, m0) = mmtree_rotate_right pm root (set_color pid Red (set_color uid Black m)) pid
                 in (r, m0, nd_left (m0 pid))
               else (root, m, uid))
        in if (nd_left (m1 uid1) = 0 \<or> nd_color (m1 uid1) = Black) \<and>
              (nd_right (m1 uid1) = 0 \<or> nd_color (m1 uid1) = Black) then
             let m2 = set_color uid1 Red m1
             in (root1, m2, Some (pid, nd_parent (m2 pid)))
           else
             let rid = nd_right (m1 uid1);
                 lid = nd_left (m1 uid1);
                 (root3, m3, uid3) =
                   (if lid = 0 \<or> nd_color (m1 lid) = Black then
                      let (r, m0) = mmtree_rotate_left pm root1
                                      (set_color uid1 Red (set_color rid Black m1)) uid1
                      in (r, m0, nd_left (m0 pid))
                    else (root1, m1, uid1));
                 m4 = set_color pid Black (set_color uid3 (nd_color (m3 pid)) m3);
                 lid4 = nd_left (m4 uid3);
                 m5 = (if 0 < lid4 then set_color lid4 Black m4 else m4);
                 (root6, m6) = mmtree_rotate_right pm root3 m5 pid
             in (root6, m6, None))"

partial_function (option) mmt_remove_color ::
    "bool \<Rightarrow> nat \<Rightarrow> mt_map \<Rightarrow> nat \<Rightarrow> nat \<Rightarrow> (nat \<times> mt_map) option" where
  "mmt_remove_color pm root m nid pid =
     (if (nid = 0 \<or> nd_color (m nid) = Black) \<and> nid \<noteq> root then
        (case mmt_remove_round pm root m nid pid of
           (root1, m1, Some (nid1, pid1)) \<Rightarrow> mmt_remove_color pm root1 m1 nid1 pid1
         | (root1, m1, None) \<Rightarrow> Some (root1, if 0 < root1 then set_color root1 Black m1 else m1))
      else Some (root, if 0 < nid then set_color nid Black m else m))"

declare mmt_remove_color.simps [code]

section \<open>Searching\<close>

text \<open>
  The descent that \<open>insert\<close>, \<open>update\<close>, \<open>set\<close>, \<open>get\<close> and \<open>find\<close> all spell out: it stops at the
  node with the key, or at the last node before a missing child (or at an index outside the
  file).
\<close>

datatype mt_probe = Found nat | Stopped nat

partial_function (option) mmt_descend ::
    "nat \<Rightarrow> mt_map \<Rightarrow> int \<Rightarrow> nat \<Rightarrow> mt_probe option" where
  "mmt_descend ntotal m key node_id =
     (if 0 < node_id \<and> node_id < ntotal then
        if key = nd_key (m node_id) then Some (Found node_id)
        else if key > nd_key (m node_id) then
          if nd_right (m node_id) = 0 then Some (Stopped node_id)
          else mmt_descend ntotal m key (nd_right (m node_id))
        else
          if nd_left (m node_id) = 0 then Some (Stopped node_id)
          else mmt_descend ntotal m key (nd_left (m node_id))
      else Some (Stopped node_id))"

declare mmt_descend.simps [code]

definition mmt_get :: "bool \<Rightarrow> int \<Rightarrow> c_mmtree \<Rightarrow> (c_mmtree \<times> int \<times> int option) option" where
  "mmt_get p_data key s =
     (if \<not> mm_inited s then Some (set_err MMT_IFACE_EINIT s, -1, None)
      else if \<not> p_data then Some (set_err MMT_IFACE_EFIND s, -1, None)
      else if mm_mapped s then
        (case mmt_descend (st_total (mm_state s)) (mm_map s) key (st_root_id (mm_state s)) of
           None \<Rightarrow> None
         | Some (Found nid) \<Rightarrow> Some (s, 0, Some (nd_data (mm_map s nid)))
         | Some (Stopped nid) \<Rightarrow> Some (set_err MMT_IFACE_EFIND s, -1, None))
      else Some (set_err MMT_IFACE_EINSERT s, -1, None))"

definition mmt_find_id :: "int \<Rightarrow> c_mmtree \<Rightarrow> (c_mmtree \<times> int \<times> nat) option" where
  "mmt_find_id key s =
     (if mm_mapped s then
        (case mmt_descend (st_total (mm_state s)) (mm_map s) key (st_root_id (mm_state s)) of
           None \<Rightarrow> None
         | Some (Found nid) \<Rightarrow> Some (s, 0, nid)
         | Some (Stopped nid) \<Rightarrow> Some (set_err MMT_IFACE_EFIND s, 1, 0))
      else Some (set_err MMT_IFACE_EINSERT s, -1, 0))"

definition mmt_find :: "int \<Rightarrow> c_mmtree \<Rightarrow> (c_mmtree \<times> int) option" where
  "mmt_find key s =
     (if \<not> mm_inited s then Some (set_err MMT_IFACE_EINIT s, -1)
      else map_option (\<lambda>(s1, rv, nid). (s1, rv)) (mmt_find_id key s))"

section \<open>Inserting and updating\<close>

definition insert_root_node :: "int \<Rightarrow> int \<Rightarrow> c_mmtree \<Rightarrow> c_mmtree \<times> int" where
  "insert_root_node key data s =
     (let st = mm_state s;
          nid = Suc (st_current st);
          st1 = st\<lparr>st_current := nid, st_root_id := nid, st_left := st_left st - 1\<rparr>;
          st2 = (if data \<noteq> 0 then st1\<lparr>st_nonzero := st_nonzero st1 + 1\<rparr> else st1)
      in (s\<lparr>mm_state := st2,
            mm_map := (mm_map s)(nid := null_node\<lparr>nd_key := key, nd_data := data, nd_color := Black\<rparr>)\<rparr>, 0))"

definition insert_new_node ::
    "bool \<Rightarrow> nat \<Rightarrow> int \<Rightarrow> int \<Rightarrow> c_mmtree \<Rightarrow> (c_mmtree \<times> int) option" where
  "insert_new_node mmap_ok node_id key data s =
     (let (s0, rv) = (if st_left (mm_state s) = 0 then mmtree_increment mmap_ok s else (s, 0)) in
      if rv \<noteq> 0 then Some (s0, -1)
      else
        let st = mm_state s0;
            (nid, st1) =
              (if 0 < st_qleft st then
                 (st_qfirst st, st\<lparr>st_qfirst := nd_parent (mm_map s0 (st_qfirst st)),
                                   st_qleft := st_qleft st - 1\<rparr>)
               else (Suc (st_current st), st\<lparr>st_current := Suc (st_current st)\<rparr>));
            st2 = st1\<lparr>st_left := st_left st1 - 1\<rparr>;
            m1 = (mm_map s0)(nid := (mm_map s0 nid)\<lparr>nd_parent := node_id, nd_key := key, nd_data := data\<rparr>);
            m2 = (if key > nd_key (m1 node_id) then set_right node_id nid m1
                  else set_left node_id nid m1);
            m3 = set_color nid Red m2
        in (case mmtree_insert_color (mm_p_mtree s0) (st_root_id st2) m3 nid of
              None \<Rightarrow> None
            | Some (root, m4) \<Rightarrow>
                let st3 = st2\<lparr>st_root_id := root\<rparr>;
                    st4 = (if data \<noteq> 0 then st3\<lparr>st_nonzero := st_nonzero st3 + 1\<rparr> else st3)
                in Some (s0\<lparr>mm_state := st4, mm_map := m4\<rparr>, 0)))"

definition mmt_insert :: "bool \<Rightarrow> int \<Rightarrow> int \<Rightarrow> c_mmtree \<Rightarrow> (c_mmtree \<times> int) option" where
  "mmt_insert mmap_ok key data s =
     (if \<not> mm_inited s then Some (set_err MMT_IFACE_EINIT s, -1)
      else if mm_mapped s then
        if st_root_id (mm_state s) = 0 then Some (fst (insert_root_node key data s), 0)
        else if st_root_id (mm_state s) < st_total (mm_state s) then
          (case mmt_descend (st_total (mm_state s)) (mm_map s) key (st_root_id (mm_state s)) of
             None \<Rightarrow> None
           | Some (Found nid) \<Rightarrow> Some (set_err MMT_IFACE_EINSERT s, -1)
           | Some (Stopped nid) \<Rightarrow>
               (case insert_new_node mmap_ok nid key data s of
                  None \<Rightarrow> None
                | Some (s1, rv) \<Rightarrow> if rv \<noteq> 0 then Some (s1, -1) else Some (s1, 0)))
        else Some (set_err MMT_IFACE_EINSERT s, -1)
      else Some (set_err MMT_IFACE_EINSERT s, -1))"

datatype mmt_op =
    MMT_OP_ADD | MMT_OP_SUB | MMT_OP_MUL | MMT_OP_DIV | MMT_OP_MAX | MMT_OP_MIN | MMT_OP_SET
  | MMT_OP_unknown

text \<open>The new value of a node, \<open>None\<close> where the code refuses.\<close>

fun mmt_apply_op :: "mmt_op \<Rightarrow> int \<Rightarrow> int \<Rightarrow> int option" where
  "mmt_apply_op MMT_OP_ADD old data = Some (wrap32 (old + data))"
| "mmt_apply_op MMT_OP_SUB old data = Some (wrap32 (old - data))"
| "mmt_apply_op MMT_OP_MUL old data = Some (wrap32 (old * data))"
| "mmt_apply_op MMT_OP_DIV old data = (if data = 0 then None else Some (wrap32 (quot32 old data)))"
| "mmt_apply_op MMT_OP_MAX old data = Some (if data > old then data else old)"
| "mmt_apply_op MMT_OP_MIN old data = Some (if data < old then data else old)"
| "mmt_apply_op MMT_OP_SET old data = Some data"
| "mmt_apply_op MMT_OP_unknown old data = None"

definition update_node_value :: "nat \<Rightarrow> int \<Rightarrow> mmt_op \<Rightarrow> c_mmtree \<Rightarrow> c_mmtree \<times> int" where
  "update_node_value node_id data op s =
     (let prev = nd_data (mm_map s node_id); st = mm_state s in
      (case mmt_apply_op op prev data of
         None \<Rightarrow> (set_err MMT_IFACE_EOP s, -1)
       | Some v \<Rightarrow>
           (s\<lparr>mm_map := (mm_map s)(node_id := (mm_map s node_id)\<lparr>nd_data := v\<rparr>),
              mm_state :=
                (if prev = 0 \<and> v \<noteq> 0 then st\<lparr>st_nonzero := st_nonzero st + 1\<rparr>
                 else if prev \<noteq> 0 \<and> v = 0 then st\<lparr>st_nonzero := st_nonzero st - 1\<rparr>
                 else st)\<rparr>, 0)))"

definition mmt_update :: "int \<Rightarrow> int \<Rightarrow> mmt_op \<Rightarrow> c_mmtree \<Rightarrow> (c_mmtree \<times> int) option" where
  "mmt_update key data op s =
     (if \<not> mm_inited s then Some (set_err MMT_IFACE_EINIT s, -1)
      else if mm_mapped s then
        if st_root_id (mm_state s) = 0 \<or> st_root_id (mm_state s) \<ge> st_total (mm_state s) then
          Some (set_err MMT_IFACE_EINSERT s, -1)
        else
          (case mmt_descend (st_total (mm_state s)) (mm_map s) key (st_root_id (mm_state s)) of
             None \<Rightarrow> None
           | Some (Found nid) \<Rightarrow> Some (update_node_value nid data op s)
           | Some (Stopped nid) \<Rightarrow> Some (set_err MMT_IFACE_EINSERT s, -1))
      else Some (set_err MMT_IFACE_EINSERT s, -1))"

definition mmt_set :: "bool \<Rightarrow> int \<Rightarrow> int \<Rightarrow> mmt_op \<Rightarrow> c_mmtree \<Rightarrow> (c_mmtree \<times> int) option" where
  "mmt_set mmap_ok key data op s =
     (if \<not> mm_inited s then Some (set_err MMT_IFACE_EINIT s, -1)
      else if mm_mapped s then
        if st_root_id (mm_state s) = 0 then Some (fst (insert_root_node key data s), 0)
        else
          (case mmt_descend (st_total (mm_state s)) (mm_map s) key (st_root_id (mm_state s)) of
             None \<Rightarrow> None
           | Some (Found nid) \<Rightarrow> Some (update_node_value nid data op s)
           | Some (Stopped nid) \<Rightarrow> insert_new_node mmap_ok nid key data s)
      else Some (set_err MMT_IFACE_EINSERT s, -1))"

section \<open>Removing\<close>

partial_function (option) mmt_leftmost :: "mt_map \<Rightarrow> nat \<Rightarrow> nat option" where
  "mmt_leftmost m nid = (if 0 < nd_left (m nid) then mmt_leftmost m (nd_left (m nid)) else Some nid)"

declare mmt_leftmost.simps [code]

text \<open>
  \<open>mmt_relink\<close> is the step that \<open>remove_node\<close> repeats: the parent of \<open>x\<close> (or the root reference)
  gets \<open>y\<close> in its place.
\<close>

definition mmt_relink :: "nat \<Rightarrow> mt_map \<Rightarrow> nat \<Rightarrow> nat \<Rightarrow> nat \<times> mt_map" where
  "mmt_relink root m x y =
     (let pid = nd_parent (m x) in
      if 0 < pid then
        (root, if nd_left (m pid) = x then set_left pid y m else set_right pid y m)
      else (y, m))"

text \<open>
  The first half of \<open>remove_node\<close>: the node, or its successor moved to its place, leaves the
  tree. The result holds the root, the nodes, and \<open>child\<close>, \<open>parent\<close> and \<open>color\<close> as they stand
  at the label \<open>color_move\<close>.
\<close>

definition unlink_node :: "nat \<Rightarrow> mt_map \<Rightarrow> nat \<Rightarrow> (nat \<times> mt_map \<times> nat \<times> nat \<times> mmt_color) option" where
  "unlink_node root m node_id =
     (if nd_left (m node_id) = 0 \<or> nd_right (m node_id) = 0 then
        let child = (if nd_left (m node_id) = 0 then nd_right (m node_id) else nd_left (m node_id));
            parent = nd_parent (m node_id);
            color = nd_color (m node_id);
            m1 = (if 0 < child then set_parent child parent m else m);
            (root2, m2) = mmt_relink root m1 node_id child
        in Some (root2, m2, child, parent, color)
      else
        (case mmt_leftmost m (nd_right (m node_id)) of
           None \<Rightarrow> None
         | Some nid \<Rightarrow>
             let parent = nd_parent (m nid);
                 color = nd_color (m nid);
                 child = nd_right (m nid);
                 m1 = (if 0 < child then set_parent child parent m else m);
                 (root2, m2) = mmt_relink root m1 nid child;
                 parent2 = (if nd_parent (m2 nid) = node_id then nid else parent);
                 m3 = set_color nid (nd_color (m2 node_id)) m2;
                 m4 = set_parent nid (nd_parent (m3 node_id)) m3;
                 m5 = set_left nid (nd_left (m4 node_id)) m4;
                 m6 = set_right nid (nd_right (m5 node_id)) m5;
                 (root7, m7) = mmt_relink root2 m6 node_id nid;
                 m8 = set_parent (nd_left (m7 node_id)) nid m7;
                 rid = nd_right (m8 node_id);
                 m9 = (if 0 < rid then set_parent rid nid m8 else m8)
             in Some (root7, m9, child, parent2, color)))"

definition remove_node ::
    "nat \<Rightarrow> nat \<Rightarrow> c_mmtree \<Rightarrow> (nat \<times> c_mmtree \<times> int) option" where
  "remove_node root node_id s =
     (if node_id < st_total (mm_state s) then
        (case unlink_node root (mm_map s) node_id of
              None \<Rightarrow> None
            | Some (root1, m1, child, parent, color) \<Rightarrow>
                (case (if color = Black then mmt_remove_color (mm_p_mtree s) root1 m1 child parent
                       else Some (root1, m1)) of
                   None \<Rightarrow> None
                 | Some (root2, m2) \<Rightarrow>
                     let m3 = m2(node_id := null_node);
                         st = mm_state s;
                         (m4, st1) =
                           (if st_qleft st = 0 then
                              (m3, st\<lparr>st_qfirst := node_id, st_qlast := node_id\<rparr>)
                            else (set_parent (st_qlast st) node_id m3, st\<lparr>st_qlast := node_id\<rparr>))
                     in Some (root2,
                              s\<lparr>mm_map := m4,
                                mm_state := st1\<lparr>st_qleft := st_qleft st1 + 1,
                                                st_left := st_left st1 + 1\<rparr>\<rparr>, 0)))
      else Some (root, set_err MMT_IFACE_EINSERT s, -1))"

definition mmt_remove :: "int \<Rightarrow> c_mmtree \<Rightarrow> (c_mmtree \<times> int) option" where
  "mmt_remove key s =
     (if \<not> mm_inited s then Some (set_err MMT_IFACE_EINIT s, -1)
      else
        (case mmt_find_id key s of
           None \<Rightarrow> None
         | Some (s1, rv, node_id) \<Rightarrow>
             if rv \<noteq> 0 then Some (s1, -1)
             else if 0 < st_root_id (mm_state s1) then
               (case remove_node (st_root_id (mm_state s1)) node_id s1 of
                  None \<Rightarrow> None
                | Some (root, s2, rv2) \<Rightarrow>
                    if rv2 \<noteq> 0 then Some (s2, -1)
                    else Some (s2\<lparr>mm_state := (mm_state s2)\<lparr>st_root_id := root\<rparr>\<rparr>, 0))
             else Some (set_err MMT_IFACE_EINSERT s1, -1)))"

definition get_nonzero_num :: "bool \<Rightarrow> c_mmtree \<Rightarrow> int \<times> int option" where
  "get_nonzero_num p s = (if p then (0, Some (st_nonzero (mm_state s))) else (-1, None))"

definition get_node_num :: "bool \<Rightarrow> c_mmtree \<Rightarrow> int \<times> int option" where
  "get_node_num p s =
     (if p then (0, Some (int (st_current (mm_state s)) - st_qleft (mm_state s))) else (-1, None))"

section \<open>Traversal and combination\<close>

text \<open>The climb of \<open>next\<close> from a node without a right child.\<close>

partial_function (option) mmt_climb :: "mt_map \<Rightarrow> nat \<Rightarrow> nat option" where
  "mmt_climb m nid =
     (if 0 < nid then
        let parent_id = nd_parent (m nid) in
        if nd_key (m nid) < nd_key (m parent_id) then Some parent_id
        else mmt_climb m parent_id
      else Some nid)"

declare mmt_climb.simps [code]

definition mmt_next :: "nat \<Rightarrow> mt_map \<Rightarrow> nat \<Rightarrow> int option" where
  "mmt_next ntotal m node_id =
     (if 0 < node_id \<and> node_id < ntotal then
        if 0 < nd_right (m node_id) then map_option int (mmt_leftmost m (nd_right (m node_id)))
        else map_option int (mmt_climb m node_id)
      else Some (-1))"

partial_function (option) mmt_visit ::
    "nat \<Rightarrow> mt_map \<Rightarrow> int \<Rightarrow> (int \<times> int) list option" where
  "mmt_visit ntotal m nid =
     (if 0 < nid then
        (case mmt_next ntotal m (nat nid) of
           None \<Rightarrow> None
         | Some id2 \<Rightarrow>
             Option.bind (mmt_visit ntotal m id2)
               (\<lambda>rest. Some ((nd_key (m (nat nid)), nd_data (m (nat nid))) # rest)))
      else Some [])"

declare mmt_visit.simps [code]

text \<open>
  The calls \<open>traversal\<close> makes to its callback, in order, as the list of their key and data
  arguments; the callback's own effect is folded over it by the caller.
\<close>

definition mmt_traversal :: "c_mmtree \<Rightarrow> (c_mmtree \<times> int \<times> (int \<times> int) list) option" where
  "mmt_traversal s =
     (if \<not> mm_inited s then Some (set_err MMT_IFACE_EINIT s, -1, [])
      else if mm_mapped s then
        let nid = st_root_id (mm_state s) in
        if nid = 0 then Some (s, 0, [])
        else
          (case mmt_leftmost (mm_map s) nid of
             None \<Rightarrow> None
           | Some first \<Rightarrow>
               (case mmt_visit (st_total (mm_state s)) (mm_map s) (int first) of
                  None \<Rightarrow> None
                | Some calls \<Rightarrow> Some (s, 0, calls)))
      else Some (set_err MMT_IFACE_EINSERT s, -1, []))"

text \<open>
  \<open>combine_tree\<close>: the flag bits select \<open>set\<close> or \<open>update\<close> as the callback and its operation
  (0, no operation, for none of the four data bits); \<open>other\<close> is the result of \<open>init\<close> on the other
  file, which is not the file of this object. The callbacks' results are ignored.
\<close>

definition combine_key_add :: "int \<Rightarrow> bool" where
  "combine_key_add flag = bit flag 0"

definition combine_op :: "int \<Rightarrow> mmt_op" where
  "combine_op flag =
     (if bit flag 1 then MMT_OP_ADD
      else if bit flag 2 then MMT_OP_SUB
      else if bit flag 3 then MMT_OP_MUL
      else if bit flag 4 then MMT_OP_DIV
      else MMT_OP_unknown)"

definition mmt_callback ::
    "bool \<Rightarrow> bool \<Rightarrow> mmt_op \<Rightarrow> int \<Rightarrow> int \<Rightarrow> c_mmtree \<Rightarrow> (c_mmtree \<times> int) option" where
  "mmt_callback mmap_ok key_add op key data =
     (if key_add then mmt_set mmap_ok key data op else mmt_update key data op)"

fun run_callbacks ::
    "(int \<Rightarrow> int \<Rightarrow> 's \<Rightarrow> ('s \<times> int) option) \<Rightarrow> (int \<times> int) list \<Rightarrow> 's \<Rightarrow> 's option" where
  "run_callbacks cb [] s = Some s"
| "run_callbacks cb ((key, data) # calls) s =
     (case cb key data s of
        None \<Rightarrow> None
      | Some (s1, rv) \<Rightarrow> run_callbacks cb calls s1)"

definition combine_tree ::
    "bool \<Rightarrow> int \<Rightarrow> c_mmtree \<times> int \<Rightarrow> c_mmtree \<Rightarrow> (c_mmtree \<times> int) option" where
  "combine_tree mmap_ok flag other s =
     (if \<not> mm_inited s then Some (set_err MMT_IFACE_EINIT s, -1)
      else
        let op = combine_op flag;
            s1 = (if op = MMT_OP_unknown then set_err MMT_IFACE_EOP s else s)
        in if snd other \<noteq> 0 then Some (set_err MMT_IFACE_EOP s1, -1)
        else
          (case mmt_traversal (fst other) of
             None \<Rightarrow> None
           | Some (_, rv, calls) \<Rightarrow>
               if rv \<noteq> 0 then Some (s1, -1)
               else map_option (\<lambda>s2. (s2, 0))
                      (run_callbacks (mmt_callback mmap_ok (combine_key_add flag) op) calls s1)))"

end
