(* ===== verification/MmTreeShape.thy ===== *)
theory MmTreeShape
  imports MmTree "HOL-Library.Tree"
begin

text \<open>
  The shape of a well-linked file: \<open>linked m p nid t\<close> says that the nodes reachable from \<open>nid\<close>
  form the tree \<open>t\<close> of indices, with the parent links the code relies on. The link surgery of
  \<open>mmtree.cpp\<close> (rotations, relinking a node's parent, handing a node's place to another) is
  described once as the replacement of a subtree, and the colouring loops are shown to end and to
  keep the sequence of the nodes.
\<close>

section \<open>Fields after an assignment\<close>

lemma set_left_fields [simp]:
  "nd_left (set_left i v m j) = (if j = i then v else nd_left (m j))"
  "nd_right (set_left i v m j) = nd_right (m j)"
  "nd_parent (set_left i v m j) = nd_parent (m j)"
  "nd_color (set_left i v m j) = nd_color (m j)"
  "nd_key (set_left i v m j) = nd_key (m j)"
  "nd_data (set_left i v m j) = nd_data (m j)"
  by (simp_all add: set_left_def)

lemma set_right_fields [simp]:
  "nd_left (set_right i v m j) = nd_left (m j)"
  "nd_right (set_right i v m j) = (if j = i then v else nd_right (m j))"
  "nd_parent (set_right i v m j) = nd_parent (m j)"
  "nd_color (set_right i v m j) = nd_color (m j)"
  "nd_key (set_right i v m j) = nd_key (m j)"
  "nd_data (set_right i v m j) = nd_data (m j)"
  by (simp_all add: set_right_def)

lemma set_parent_fields [simp]:
  "nd_left (set_parent i v m j) = nd_left (m j)"
  "nd_right (set_parent i v m j) = nd_right (m j)"
  "nd_parent (set_parent i v m j) = (if j = i then v else nd_parent (m j))"
  "nd_color (set_parent i v m j) = nd_color (m j)"
  "nd_key (set_parent i v m j) = nd_key (m j)"
  "nd_data (set_parent i v m j) = nd_data (m j)"
  by (simp_all add: set_parent_def)

lemma set_color_fields [simp]:
  "nd_left (set_color i c m j) = nd_left (m j)"
  "nd_right (set_color i c m j) = nd_right (m j)"
  "nd_parent (set_color i c m j) = nd_parent (m j)"
  "nd_color (set_color i c m j) = (if j = i then c else nd_color (m j))"
  "nd_key (set_color i c m j) = nd_key (m j)"
  "nd_data (set_color i c m j) = nd_data (m j)"
  by (simp_all add: set_color_def)

section \<open>Linked trees\<close>

fun linked :: "mt_map \<Rightarrow> nat \<Rightarrow> nat \<Rightarrow> nat tree \<Rightarrow> bool" where
  "linked m p nid Leaf \<longleftrightarrow> nid = 0"
| "linked m p nid (Node l a r) \<longleftrightarrow>
     nid = a \<and> a \<noteq> 0 \<and> nd_parent (m a) = p \<and> linked m a (nd_left (m a)) l \<and>
     linked m a (nd_right (m a)) r"

definition same_links :: "nat set \<Rightarrow> mt_map \<Rightarrow> mt_map \<Rightarrow> bool" where
  "same_links A m m' \<longleftrightarrow> (\<forall>i \<in> A. nd_left (m' i) = nd_left (m i) \<and>
     nd_right (m' i) = nd_right (m i) \<and> nd_parent (m' i) = nd_parent (m i))"

lemma same_links_mono: "same_links A m m' \<Longrightarrow> B \<subseteq> A \<Longrightarrow> same_links B m m'"
  by (auto simp: same_links_def)

lemma linked_same: "linked m p nid t \<Longrightarrow> same_links (set_tree t) m m' \<Longrightarrow> linked m' p nid t"
  by (induction t arbitrary: p nid) (auto simp: same_links_def)

lemma linked_Leaf_iff: "linked m p nid t \<Longrightarrow> t = Leaf \<longleftrightarrow> nid = 0"
  by (cases t) auto

lemma linked_root: "linked m p nid t \<Longrightarrow> nid \<noteq> 0 \<Longrightarrow> nid \<in> set_tree t"
  by (cases t) auto

lemma linked_nonzero: "linked m p nid t \<Longrightarrow> i \<in> set_tree t \<Longrightarrow> i \<noteq> 0"
  by (induction t arbitrary: p nid) auto

lemma linked_cases:
  assumes "linked m p nid t" and "nid \<noteq> 0"
  obtains l r where "t = Node l nid r" "nd_parent (m nid) = p"
    "linked m nid (nd_left (m nid)) l" "linked m nid (nd_right (m nid)) r"
  using assms by (cases t) auto

text \<open>What a link to \<open>x\<close> in the node \<open>px\<close> becomes when it is redirected to \<open>y\<close>.\<close>

definition redirected :: "mt_map \<Rightarrow> mt_map \<Rightarrow> nat \<Rightarrow> nat \<Rightarrow> nat \<Rightarrow> bool" where
  "redirected m m' px x y \<longleftrightarrow>
     nd_parent (m' px) = nd_parent (m px) \<and>
     nd_left (m' px) = (if nd_left (m px) = x then y else nd_left (m px)) \<and>
     nd_right (m' px) = (if nd_left (m px) = x then nd_right (m px) else y)"

text \<open>
  Replacing a subtree: every node \<open>x\<close> of a linked tree is the root of a linked subtree \<open>tx\<close>; if
  that subtree is replaced by another one with the same parent, the parent's link to it
  redirected, and the other nodes left alone, the whole is linked again.
\<close>

lemma linked_split:
  assumes "linked m p nid t" and "distinct (inorder t)" and "x \<in> set_tree t"
  shows "\<exists>xs tx zs. linked m (nd_parent (m x)) x tx \<and> inorder t = xs @ inorder tx @ zs \<and>
    (if nid = x then nd_parent (m x) = p \<and> tx = t else nd_parent (m x) \<in> set_tree t - set_tree tx) \<and>
    size tx \<le> size t \<and>
    (\<forall>m' y ty. linked m' (nd_parent (m x)) y ty \<longrightarrow>
       same_links (set_tree t - set_tree tx - {nd_parent (m x)}) m m' \<longrightarrow>
       (nid \<noteq> x \<longrightarrow> redirected m m' (nd_parent (m x)) x y) \<longrightarrow>
       (\<exists>t'. linked m' p (if nid = x then y else nid) t' \<and> inorder t' = xs @ inorder ty @ zs))"
  using assms
proof (induction t arbitrary: p nid)
  case Leaf
  then show ?case by simp
next
  case (Node l a r)
  have nid: "nid = a" and a: "a \<noteq> 0" "nd_parent (m a) = p"
    and l: "linked m a (nd_left (m a)) l" and r: "linked m a (nd_right (m a)) r"
    using Node.prems(1) by auto
  have d: "distinct (inorder l)" "distinct (inorder r)" "a \<notin> set_tree l" "a \<notin> set_tree r"
    "set_tree l \<inter> set_tree r = {}"
    using Node.prems(2) by auto
  consider (root) "x = a" | (left) "x \<in> set_tree l" "x \<noteq> a" | (right) "x \<in> set_tree r" "x \<noteq> a"
    using Node.prems(3) by auto
  then show ?case
  proof cases
    case root
    then show ?thesis using Node.prems(1) nid
      by (intro exI [of _ "[]"] exI [of _ "Node l a r"]) auto
  next
    case left
    from Node.IH(1) [OF l d(1) left(1)] obtain xs tx zs where
      tx: "linked m (nd_parent (m x)) x tx" and i: "inorder l = xs @ inorder tx @ zs"
      and px: "if nd_left (m a) = x then nd_parent (m x) = a \<and> tx = l
               else nd_parent (m x) \<in> set_tree l - set_tree tx"
      and sz: "size tx \<le> size l"
      and repl: "\<forall>m' y ty. linked m' (nd_parent (m x)) y ty \<longrightarrow>
       same_links (set_tree l - set_tree tx - {nd_parent (m x)}) m m' \<longrightarrow>
       (nd_left (m a) \<noteq> x \<longrightarrow> redirected m m' (nd_parent (m x)) x y) \<longrightarrow>
       (\<exists>t'. linked m' a (if nd_left (m a) = x then y else nd_left (m a)) t' \<and>
             inorder t' = xs @ inorder ty @ zs)"
      by blast
    have sub: "set_tree tx \<subseteq> set_tree l" using arg_cong [OF i, of set] by auto
    have "\<exists>t'. linked m' p a t' \<and> inorder t' = xs @ inorder ty @ (zs @ a # inorder r)"
      if ty: "linked m' (nd_parent (m x)) y ty"
        and same: "same_links (set_tree (Node l a r) - set_tree tx - {nd_parent (m x)}) m m'"
        and red: "redirected m m' (nd_parent (m x)) x y" for m' y ty
    proof -
      have "same_links (set_tree l - set_tree tx - {nd_parent (m x)}) m m'"
        by (rule same_links_mono [OF same]) auto
      with repl ty red obtain l' where
        l': "linked m' a (if nd_left (m a) = x then y else nd_left (m a)) l'"
          "inorder l' = xs @ inorder ty @ zs" by blast
      have "same_links (set_tree r) m m'"
        by (rule same_links_mono [OF same]) (use d sub px in \<open>auto split: if_splits\<close>)
      then have r': "linked m' a (nd_right (m a)) r" by (rule linked_same [OF r])
      have "nd_parent (m' a) = p \<and> nd_right (m' a) = nd_right (m a) \<and>
        nd_left (m' a) = (if nd_left (m a) = x then y else nd_left (m a))"
      proof (cases "nd_left (m a) = x")
        case True
        with px red a show ?thesis by (auto simp: redirected_def)
      next
        case False
        with px d(3) sub same a show ?thesis by (auto simp: same_links_def)
      qed
      with l' r' a show ?thesis by (intro exI [of _ "Node l' a r"]) auto
    qed
    then show ?thesis using tx i px sz sub nid left d(3)
      by (intro exI [of _ xs] exI [of _ tx] exI [of _ "zs @ a # inorder r"]) (auto split: if_splits)
  next
    case right
    from Node.IH(2) [OF r d(2) right(1)] obtain xs tx zs where
      tx: "linked m (nd_parent (m x)) x tx" and i: "inorder r = xs @ inorder tx @ zs"
      and px: "if nd_right (m a) = x then nd_parent (m x) = a \<and> tx = r
               else nd_parent (m x) \<in> set_tree r - set_tree tx"
      and sz: "size tx \<le> size r"
      and repl: "\<forall>m' y ty. linked m' (nd_parent (m x)) y ty \<longrightarrow>
       same_links (set_tree r - set_tree tx - {nd_parent (m x)}) m m' \<longrightarrow>
       (nd_right (m a) \<noteq> x \<longrightarrow> redirected m m' (nd_parent (m x)) x y) \<longrightarrow>
       (\<exists>t'. linked m' a (if nd_right (m a) = x then y else nd_right (m a)) t' \<and>
             inorder t' = xs @ inorder ty @ zs)"
      by blast
    have sub: "set_tree tx \<subseteq> set_tree r" using arg_cong [OF i, of set] by auto
    have "nd_left (m a) \<noteq> x" using linked_root [OF l] linked_nonzero [OF r right(1)] d(5) right by auto
    have "\<exists>t'. linked m' p a t' \<and> inorder t' = (inorder l @ a # xs) @ inorder ty @ zs"
      if ty: "linked m' (nd_parent (m x)) y ty"
        and same: "same_links (set_tree (Node l a r) - set_tree tx - {nd_parent (m x)}) m m'"
        and red: "redirected m m' (nd_parent (m x)) x y" for m' y ty
    proof -
      have "same_links (set_tree r - set_tree tx - {nd_parent (m x)}) m m'"
        by (rule same_links_mono [OF same]) auto
      with repl ty red obtain r' where
        r': "linked m' a (if nd_right (m a) = x then y else nd_right (m a)) r'"
          "inorder r' = xs @ inorder ty @ zs" by blast
      have "same_links (set_tree l) m m'"
        by (rule same_links_mono [OF same]) (use d sub px in \<open>auto split: if_splits\<close>)
      then have l': "linked m' a (nd_left (m a)) l" by (rule linked_same [OF l])
      have "nd_parent (m' a) = p \<and> nd_left (m' a) = nd_left (m a) \<and>
        nd_right (m' a) = (if nd_right (m a) = x then y else nd_right (m a))"
      proof (cases "nd_right (m a) = x")
        case True
        with px red a \<open>nd_left (m a) \<noteq> x\<close> show ?thesis by (auto simp: redirected_def)
      next
        case False
        with px d(4) sub same a show ?thesis by (auto simp: same_links_def)
      qed
      with l' r' a show ?thesis by (intro exI [of _ "Node l a r'"]) auto
    qed
    then show ?thesis using tx i px sz sub nid right d(4)
      by (intro exI [of _ "inorder l @ a # xs"] exI [of _ tx] exI [of _ zs]) (auto split: if_splits)
  qed
qed

lemma linked_replace:
  assumes "linked m 0 root t" and "distinct (inorder t)" and "x \<in> set_tree t"
  obtains xs tx zs where "linked m (nd_parent (m x)) x tx" "inorder t = xs @ inorder tx @ zs"
    "nd_parent (m x) = 0 \<longleftrightarrow> root = x" "nd_parent (m x) \<notin> set_tree tx" "set_tree tx \<subseteq> set_tree t"
    "nd_parent (m x) \<noteq> 0 \<Longrightarrow> nd_parent (m x) \<in> set_tree t"
    "\<And>root' m' y ty. linked m' (nd_parent (m x)) y ty \<Longrightarrow>
       same_links (set_tree t - set_tree tx - {nd_parent (m x)}) m m' \<Longrightarrow>
       (nd_parent (m x) \<noteq> 0 \<Longrightarrow> redirected m m' (nd_parent (m x)) x y) \<Longrightarrow>
       root' = (if nd_parent (m x) = 0 then y else root) \<Longrightarrow>
       \<exists>t'. linked m' 0 root' t' \<and> inorder t' = xs @ inorder ty @ zs"
proof -
  from linked_split [OF assms] obtain xs tx zs where
    tx: "linked m (nd_parent (m x)) x tx" and i: "inorder t = xs @ inorder tx @ zs"
    and px: "if root = x then nd_parent (m x) = 0 \<and> tx = t
             else nd_parent (m x) \<in> set_tree t - set_tree tx"
    and repl: "\<forall>m' y ty. linked m' (nd_parent (m x)) y ty \<longrightarrow>
       same_links (set_tree t - set_tree tx - {nd_parent (m x)}) m m' \<longrightarrow>
       (root \<noteq> x \<longrightarrow> redirected m m' (nd_parent (m x)) x y) \<longrightarrow>
       (\<exists>t'. linked m' 0 (if root = x then y else root) t' \<and> inorder t' = xs @ inorder ty @ zs)"
    by blast
  have p0: "nd_parent (m x) = 0 \<longleftrightarrow> root = x"
    using px linked_nonzero [OF assms(1)] by (auto split: if_splits)
  have pt: "nd_parent (m x) \<notin> set_tree tx"
    using px linked_nonzero [OF assms(1)] by (auto split: if_splits)
  have sub: "set_tree tx \<subseteq> set_tree t" using arg_cong [OF i, of set] by auto
  show thesis
  proof (rule that [OF tx i p0 pt sub], goal_cases)
    case 1
    then show ?case using px p0 by (auto split: if_splits)
  next
    case (2 root' m' y ty)
    then show ?case using repl p0 by auto
  qed
qed

section \<open>Rotations\<close>

definition same_entries :: "mt_map \<Rightarrow> mt_map \<Rightarrow> bool" where
  "same_entries m m' \<longleftrightarrow> (\<forall>i. nd_key (m' i) = nd_key (m i) \<and> nd_data (m' i) = nd_data (m i))"

definition frame :: "nat set \<Rightarrow> mt_map \<Rightarrow> mt_map \<Rightarrow> bool" where
  "frame A m m' \<longleftrightarrow> (\<forall>i. i \<notin> A \<longrightarrow> m' i = m i)"

lemma same_entries_refl [simp]: "same_entries m m" by (simp add: same_entries_def)

lemma same_entries_trans [trans]: "same_entries m m' \<Longrightarrow> same_entries m' m'' \<Longrightarrow> same_entries m m''"
  by (simp add: same_entries_def)

lemma same_entries_set [simp]:
  "same_entries m (set_left i v m') = same_entries m m'"
  "same_entries m (set_right i v m') = same_entries m m'"
  "same_entries m (set_parent i v m') = same_entries m m'"
  "same_entries m (set_color i c m') = same_entries m m'"
  by (auto simp: same_entries_def)

lemma frame_refl [simp]: "frame A m m" by (simp add: frame_def)

lemma frame_trans [trans]: "frame A m m' \<Longrightarrow> frame A m' m'' \<Longrightarrow> frame A m m''"
  by (simp add: frame_def)

lemma frame_set [simp]:
  "i \<in> A \<Longrightarrow> frame A m (set_left i v m') = frame A m m'"
  "i \<in> A \<Longrightarrow> frame A m (set_right i v m') = frame A m m'"
  "i \<in> A \<Longrightarrow> frame A m (set_parent i v m') = frame A m m'"
  "i \<in> A \<Longrightarrow> frame A m (set_color i c m') = frame A m m'"
  by (auto simp: frame_def set_left_def set_right_def set_parent_def set_color_def)

lemma same_links_set_color [simp]: "same_links A m (set_color i c m') = same_links A m m'"
  by (auto simp: same_links_def)

lemma same_links_refl [simp]: "same_links A m m" by (simp add: same_links_def)

lemma linked_set_color [simp]: "linked (set_color i c m) p nid t = linked m p nid t"
  by (induction t arbitrary: p nid) auto

text \<open>A rotation without a child to lift does nothing.\<close>

lemma rotate_left_none: "nd_right (m nid) = 0 \<Longrightarrow> mmtree_rotate_left pm root m nid = (root, m)"
  by (simp add: mmtree_rotate_left_def)

lemma rotate_right_none: "nd_left (m nid) = 0 \<Longrightarrow> mmtree_rotate_right pm root m nid = (root, m)"
  by (simp add: mmtree_rotate_right_def)

lemma rotate_left_linked:
  assumes "linked m 0 root t" and "distinct (inorder t)" and "nid \<in> set_tree t"
    and "mmtree_rotate_left pm root m nid = (root', m')"
  shows "\<exists>t'. linked m' 0 root' t' \<and> inorder t' = inorder t \<and> frame (set_tree t) m m' \<and>
    same_entries m m' \<and> (\<forall>i. nd_color (m' i) = nd_color (m i)) \<and>
    (if pm \<and> nd_right (m nid) \<noteq> 0 then
       nd_parent (m' nid) = nd_right (m nid) \<and>
       root' = (if root = nid then nd_right (m nid) else root) \<and>
       nd_parent (m' (nd_right (m nid))) = nd_parent (m nid) \<and>
       nd_left (m' (nd_right (m nid))) = nid \<and>
       nd_right (m' (nd_right (m nid))) = nd_right (m (nd_right (m nid))) \<and>
       nd_right (m' nid) = nd_left (m (nd_right (m nid))) \<and> nd_left (m' nid) = nd_left (m nid) \<and>
       (\<forall>i. i \<noteq> nid \<longrightarrow> i \<noteq> nd_right (m nid) \<longrightarrow> i \<noteq> nd_left (m (nd_right (m nid))) \<longrightarrow>
            nd_parent (m' i) = nd_parent (m i)) \<and>
       (nd_parent (m nid) \<noteq> 0 \<longrightarrow>
          redirected m m' (nd_parent (m nid)) nid (nd_right (m nid)))
     else root' = root \<and> m' = m)"
proof (cases "pm \<and> nd_right (m nid) \<noteq> 0")
  case False
  then show ?thesis using assms by (auto simp: mmtree_rotate_left_def)
next
  case True
  let ?px = "nd_parent (m nid)" and ?r = "nd_right (m nid)"
  let ?l = "nd_left (m ?r)"
  obtain xs tx zs where tx: "linked m ?px nid tx" and i: "inorder t = xs @ inorder tx @ zs"
    and p0: "?px = 0 \<longleftrightarrow> root = nid" and pt: "?px \<notin> set_tree tx" and sub: "set_tree tx \<subseteq> set_tree t"
    and pin: "?px \<noteq> 0 \<Longrightarrow> ?px \<in> set_tree t"
    and repl: "\<And>root' m' y ty. linked m' ?px y ty \<Longrightarrow> same_links (set_tree t - set_tree tx - {?px}) m m' \<Longrightarrow>
       (?px \<noteq> 0 \<Longrightarrow> redirected m m' ?px nid y) \<Longrightarrow> root' = (if ?px = 0 then y else root) \<Longrightarrow>
       \<exists>t'. linked m' 0 root' t' \<and> inorder t' = xs @ inorder ty @ zs"
    using linked_replace [OF assms(1-3)] by metis
  have n0: "nid \<noteq> 0" using linked_nonzero [OF assms(1,3)] .
  obtain A R where A: "tx = Node A nid R" "linked m nid (nd_left (m nid)) A" "linked m nid ?r R"
    using linked_cases [OF tx n0] by metis
  from True have "?r \<noteq> 0" by simp
  then obtain B C where B: "R = Node B ?r C" "nd_parent (m ?r) = nid"
    "linked m ?r ?l B" "linked m ?r (nd_right (m ?r)) C"
    using linked_cases [OF A(3)] by metis
  have dtx: "distinct (inorder tx)" using assms(2) i by auto
  then have d: "nid \<noteq> ?r" "nid \<notin> set_tree A" "nid \<notin> set_tree B" "nid \<notin> set_tree C"
    "?r \<notin> set_tree A" "?r \<notin> set_tree B" "?r \<notin> set_tree C" "set_tree A \<inter> set_tree B = {}"
    "set_tree A \<inter> set_tree C = {}" "set_tree B \<inter> set_tree C = {}"
    using A(1) B(1) by auto
  have px: "?px \<noteq> nid" "?px \<noteq> ?r" "?px \<notin> set_tree A" "?px \<notin> set_tree B" "?px \<notin> set_tree C"
    using pt A(1) B(1) by auto
  have l: "?l \<noteq> 0 \<Longrightarrow> ?l \<in> set_tree B" using linked_root [OF B(3)] .
  then have lne: "?l \<noteq> nid" "?l \<noteq> ?r" "?l \<noteq> 0 \<Longrightarrow> ?l \<noteq> ?px" "?l \<notin> set_tree A" "?l \<notin> set_tree C"
    using d px n0 \<open>?r \<noteq> 0\<close> linked_nonzero [OF B(3)] linked_nonzero [OF A(2)] linked_nonzero [OF B(4)]
    by (auto dest: linked_nonzero [OF A(2)] linked_nonzero [OF B(4)])
  let ?m1 = "set_right nid ?l m"
  let ?m2 = "if 0 < ?l then set_parent ?l nid ?m1 else ?m1"
  let ?m3 = "set_parent ?r ?px ?m2"
  let ?m4 = "if 0 < ?px then (if nd_left (m ?px) = nid then set_left ?px ?r ?m3 else set_right ?px ?r ?m3) else ?m3"
  let ?m6 = "set_parent nid ?r (set_left ?r nid ?m4)"
  have e: "root' = (if 0 < ?px then root else ?r)" "m' = ?m6"
    using assms(4) True px lne by (auto simp: mmtree_rotate_left_def Let_def split: if_splits)
  have F: "nd_parent (m' nid) = ?r" "nd_parent (m' ?r) = ?px" "nd_left (m' ?r) = nid"
    "nd_right (m' ?r) = nd_right (m ?r)" "nd_right (m' nid) = ?l" "nd_left (m' nid) = nd_left (m nid)"
    "?l \<noteq> 0 \<Longrightarrow> nd_parent (m' ?l) = nid" "?l \<noteq> 0 \<Longrightarrow> nd_left (m' ?l) = nd_left (m ?l)"
    "?l \<noteq> 0 \<Longrightarrow> nd_right (m' ?l) = nd_right (m ?l)"
    using e d px lne by auto
  have G: "i \<noteq> nid \<Longrightarrow> i \<noteq> ?r \<Longrightarrow> i \<noteq> ?l \<Longrightarrow> nd_parent (m' i) = nd_parent (m i)" for i
    using e by auto
  have H: "i \<noteq> nid \<Longrightarrow> i \<noteq> ?r \<Longrightarrow> i \<noteq> ?px \<Longrightarrow> nd_left (m' i) = nd_left (m i) \<and> nd_right (m' i) = nd_right (m i)" for i
    using e by auto
  have red: "?px \<noteq> 0 \<Longrightarrow> redirected m m' ?px nid ?r"
    using e px lne by (auto simp: redirected_def)
  have K: "same_links S m m'" if "nid \<notin> S" "?r \<notin> S" "?l \<notin> S" "?px \<notin> S" for S
    unfolding same_links_def
  proof
    fix i assume "i \<in> S"
    with that have "i \<noteq> nid" "i \<noteq> ?r" "i \<noteq> ?l" "i \<noteq> ?px" by auto
    with G H show "nd_left (m' i) = nd_left (m i) \<and> nd_right (m' i) = nd_right (m i) \<and>
      nd_parent (m' i) = nd_parent (m i)" by blast
  qed
  have "linked m' nid (nd_left (m nid)) A"
    by (rule linked_same [OF A(2) K]) (use d px lne in auto)
  moreover have "linked m' ?r (nd_right (m ?r)) C"
    by (rule linked_same [OF B(4) K]) (use d px lne in auto)
  moreover have "linked m' nid ?l B"
  proof (cases "?l = 0")
    case True
    with linked_Leaf_iff [OF B(3)] show ?thesis by simp
  next
    case False
    obtain D E where D: "B = Node D ?l E" "linked m ?l (nd_left (m ?l)) D" "linked m ?l (nd_right (m ?l)) E"
      using linked_cases [OF B(3) False] by metis
    have "?l \<notin> set_tree D" "?l \<notin> set_tree E" using dtx A(1) B(1) D(1) by auto
    then have "linked m' ?l (nd_left (m ?l)) D" "linked m' ?l (nd_right (m ?l)) E"
      using D(1) d px by (auto intro!: linked_same [OF D(2) K] linked_same [OF D(3) K])
    with D(1) F False show ?thesis by simp
  qed
  ultimately have "linked m' ?px ?r (Node (Node A nid B) ?r C)"
    using F n0 \<open>?r \<noteq> 0\<close> by simp
  moreover have "same_links (set_tree t - set_tree tx - {?px}) m m'"
  proof (rule K)
    show "?l \<notin> set_tree t - set_tree tx - {?px}"
      using A(1) B(1) l linked_nonzero [OF assms(1), of ?l] by (cases "?l = 0") auto
  qed (use A(1) B(1) in auto)
  ultimately have "\<exists>t'. linked m' 0 root' t' \<and> inorder t' = xs @ inorder (Node (Node A nid B) ?r C) @ zs"
    by (rule repl) (use red e in auto)
  moreover have "xs @ inorder (Node (Node A nid B) ?r C) @ zs = inorder t"
    using i A(1) B(1) by simp
  moreover have "frame (set_tree t) m m'"
    using e sub A(1) B(1) l pin n0 by auto
  moreover have "same_entries m m'" "\<forall>i. nd_color (m' i) = nd_color (m i)" using e by auto
  ultimately show ?thesis using True F G red e(1) p0 by auto
qed

lemma rotate_right_linked:
  assumes "linked m 0 root t" and "distinct (inorder t)" and "nid \<in> set_tree t"
    and "mmtree_rotate_right pm root m nid = (root', m')"
  shows "\<exists>t'. linked m' 0 root' t' \<and> inorder t' = inorder t \<and> frame (set_tree t) m m' \<and>
    same_entries m m' \<and> (\<forall>i. nd_color (m' i) = nd_color (m i)) \<and>
    (if pm \<and> nd_left (m nid) \<noteq> 0 then
       nd_parent (m' nid) = nd_left (m nid) \<and>
       root' = (if root = nid then nd_left (m nid) else root) \<and>
       nd_parent (m' (nd_left (m nid))) = nd_parent (m nid) \<and>
       nd_right (m' (nd_left (m nid))) = nid \<and>
       nd_left (m' (nd_left (m nid))) = nd_left (m (nd_left (m nid))) \<and>
       nd_left (m' nid) = nd_right (m (nd_left (m nid))) \<and> nd_right (m' nid) = nd_right (m nid) \<and>
       (\<forall>i. i \<noteq> nid \<longrightarrow> i \<noteq> nd_left (m nid) \<longrightarrow> i \<noteq> nd_right (m (nd_left (m nid))) \<longrightarrow>
            nd_parent (m' i) = nd_parent (m i)) \<and>
       (nd_parent (m nid) \<noteq> 0 \<longrightarrow>
          redirected m m' (nd_parent (m nid)) nid (nd_left (m nid)))
     else root' = root \<and> m' = m)"
proof (cases "pm \<and> nd_left (m nid) \<noteq> 0")
  case False
  then show ?thesis using assms by (auto simp: mmtree_rotate_right_def)
next
  case True
  let ?px = "nd_parent (m nid)" and ?r = "nd_left (m nid)"
  let ?l = "nd_right (m ?r)"
  obtain xs tx zs where tx: "linked m ?px nid tx" and i: "inorder t = xs @ inorder tx @ zs"
    and p0: "?px = 0 \<longleftrightarrow> root = nid" and pt: "?px \<notin> set_tree tx" and sub: "set_tree tx \<subseteq> set_tree t"
    and pin: "?px \<noteq> 0 \<Longrightarrow> ?px \<in> set_tree t"
    and repl: "\<And>root' m' y ty. linked m' ?px y ty \<Longrightarrow> same_links (set_tree t - set_tree tx - {?px}) m m' \<Longrightarrow>
       (?px \<noteq> 0 \<Longrightarrow> redirected m m' ?px nid y) \<Longrightarrow> root' = (if ?px = 0 then y else root) \<Longrightarrow>
       \<exists>t'. linked m' 0 root' t' \<and> inorder t' = xs @ inorder ty @ zs"
    using linked_replace [OF assms(1-3)] by metis
  have n0: "nid \<noteq> 0" using linked_nonzero [OF assms(1,3)] .
  obtain A R where A: "tx = Node R nid A" "linked m nid (nd_right (m nid)) A" "linked m nid ?r R"
    using linked_cases [OF tx n0] by metis
  from True have "?r \<noteq> 0" by simp
  then obtain B C where B: "R = Node C ?r B" "nd_parent (m ?r) = nid"
    "linked m ?r ?l B" "linked m ?r (nd_left (m ?r)) C"
    using linked_cases [OF A(3)] by metis
  have dtx: "distinct (inorder tx)" using assms(2) i by auto
  then have d: "nid \<noteq> ?r" "nid \<notin> set_tree A" "nid \<notin> set_tree B" "nid \<notin> set_tree C"
    "?r \<notin> set_tree A" "?r \<notin> set_tree B" "?r \<notin> set_tree C" "set_tree A \<inter> set_tree B = {}"
    "set_tree A \<inter> set_tree C = {}" "set_tree B \<inter> set_tree C = {}"
    using A(1) B(1) by auto
  have px: "?px \<noteq> nid" "?px \<noteq> ?r" "?px \<notin> set_tree A" "?px \<notin> set_tree B" "?px \<notin> set_tree C"
    using pt A(1) B(1) by auto
  have l: "?l \<noteq> 0 \<Longrightarrow> ?l \<in> set_tree B" using linked_root [OF B(3)] .
  then have lne: "?l \<noteq> nid" "?l \<noteq> ?r" "?l \<noteq> 0 \<Longrightarrow> ?l \<noteq> ?px" "?l \<notin> set_tree A" "?l \<notin> set_tree C"
    using d px n0 \<open>?r \<noteq> 0\<close> linked_nonzero [OF B(3)] linked_nonzero [OF A(2)] linked_nonzero [OF B(4)]
    by (auto dest: linked_nonzero [OF A(2)] linked_nonzero [OF B(4)])
  let ?m1 = "set_left nid ?l m"
  let ?m2 = "if 0 < ?l then set_parent ?l nid ?m1 else ?m1"
  let ?m3 = "set_parent ?r ?px ?m2"
  let ?m4 = "if 0 < ?px then (if nd_left (m ?px) = nid then set_left ?px ?r ?m3 else set_right ?px ?r ?m3) else ?m3"
  let ?m6 = "set_parent nid ?r (set_right ?r nid ?m4)"
  have e: "root' = (if 0 < ?px then root else ?r)" "m' = ?m6"
    using assms(4) True px lne by (auto simp: mmtree_rotate_right_def Let_def split: if_splits)
  have F: "nd_parent (m' nid) = ?r" "nd_parent (m' ?r) = ?px" "nd_right (m' ?r) = nid"
    "nd_left (m' ?r) = nd_left (m ?r)" "nd_left (m' nid) = ?l" "nd_right (m' nid) = nd_right (m nid)"
    "?l \<noteq> 0 \<Longrightarrow> nd_parent (m' ?l) = nid" "?l \<noteq> 0 \<Longrightarrow> nd_right (m' ?l) = nd_right (m ?l)"
    "?l \<noteq> 0 \<Longrightarrow> nd_left (m' ?l) = nd_left (m ?l)"
    using e d px lne by auto
  have G: "i \<noteq> nid \<Longrightarrow> i \<noteq> ?r \<Longrightarrow> i \<noteq> ?l \<Longrightarrow> nd_parent (m' i) = nd_parent (m i)" for i
    using e by auto
  have H: "i \<noteq> nid \<Longrightarrow> i \<noteq> ?r \<Longrightarrow> i \<noteq> ?px \<Longrightarrow> nd_right (m' i) = nd_right (m i) \<and> nd_left (m' i) = nd_left (m i)" for i
    using e by auto
  have red: "?px \<noteq> 0 \<Longrightarrow> redirected m m' ?px nid ?r"
    using e px lne by (auto simp: redirected_def)
  have K: "same_links S m m'" if "nid \<notin> S" "?r \<notin> S" "?l \<notin> S" "?px \<notin> S" for S
    unfolding same_links_def
  proof
    fix i assume "i \<in> S"
    with that have "i \<noteq> nid" "i \<noteq> ?r" "i \<noteq> ?l" "i \<noteq> ?px" by auto
    with G H show "nd_left (m' i) = nd_left (m i) \<and> nd_right (m' i) = nd_right (m i) \<and>
      nd_parent (m' i) = nd_parent (m i)" by blast
  qed
  have "linked m' nid (nd_right (m nid)) A"
    by (rule linked_same [OF A(2) K]) (use d px lne in auto)
  moreover have "linked m' ?r (nd_left (m ?r)) C"
    by (rule linked_same [OF B(4) K]) (use d px lne in auto)
  moreover have "linked m' nid ?l B"
  proof (cases "?l = 0")
    case True
    with linked_Leaf_iff [OF B(3)] show ?thesis by simp
  next
    case False
    obtain D E where D: "B = Node D ?l E" "linked m ?l (nd_left (m ?l)) D" "linked m ?l (nd_right (m ?l)) E"
      using linked_cases [OF B(3) False] by metis
    have "?l \<notin> set_tree D" "?l \<notin> set_tree E" using dtx A(1) B(1) D(1) by auto
    then have "linked m' ?l (nd_left (m ?l)) D" "linked m' ?l (nd_right (m ?l)) E"
      using D(1) d px by (auto intro!: linked_same [OF D(2) K] linked_same [OF D(3) K])
    with D(1) F False show ?thesis by simp
  qed
  ultimately have "linked m' ?px ?r (Node C ?r (Node B nid A))"
    using F n0 \<open>?r \<noteq> 0\<close> by simp
  moreover have "same_links (set_tree t - set_tree tx - {?px}) m m'"
  proof (rule K)
    show "?l \<notin> set_tree t - set_tree tx - {?px}"
      using A(1) B(1) l linked_nonzero [OF assms(1), of ?l] by (cases "?l = 0") auto
  qed (use A(1) B(1) in auto)
  ultimately have "\<exists>t'. linked m' 0 root' t' \<and> inorder t' = xs @ inorder (Node C ?r (Node B nid A)) @ zs"
    by (rule repl) (use red e in auto)
  moreover have "xs @ inorder (Node C ?r (Node B nid A)) @ zs = inorder t"
    using i A(1) B(1) by simp
  moreover have "frame (set_tree t) m m'"
    using e sub A(1) B(1) l pin n0 by auto
  moreover have "same_entries m m'" "\<forall>i. nd_color (m' i) = nd_color (m i)" using e by auto
  ultimately show ?thesis using True F G red e(1) p0 by auto
qed

end
