(* ===== verification/MmTreeColor.thy ===== *)
theory MmTreeColor
  imports MmTreeShape
begin

text \<open>
  The loops of \<open>mmtree.cpp\<close> that follow links end on a well-linked file. The recolouring loops
  of insertion and removal keep the sequence of nodes (\<open>inorder\<close>), their keys and data, and
  touch no node outside the tree but slot 0, whose links they leave alone. The loops climb: their
  measure is the depth of the node they stand on.
\<close>

section \<open>Depth\<close>

fun depth_in :: "nat tree \<Rightarrow> nat \<Rightarrow> nat" where
  "depth_in Leaf x = 0"
| "depth_in (Node l a r) x =
     (if x = a then 0 else if x \<in> set_tree l then Suc (depth_in l x) else Suc (depth_in r x))"

lemma parent_depth:
  assumes "linked m p nid t" and "distinct (inorder t)" and "x \<in> set_tree t" and "x \<noteq> nid"
  shows "nd_parent (m x) \<in> set_tree t \<and> depth_in t x = Suc (depth_in t (nd_parent (m x))) \<and>
    (nd_left (m (nd_parent (m x))) = x \<or> nd_right (m (nd_parent (m x))) = x)"
  using assms
proof (induction t arbitrary: p nid)
  case Leaf
  then show ?case by simp
next
  case (Node l a r)
  have l: "linked m a (nd_left (m a)) l" and r: "linked m a (nd_right (m a)) r" and a: "nid = a"
    using Node.prems(1) by auto
  have d: "distinct (inorder l)" "distinct (inorder r)" "a \<notin> set_tree l" "a \<notin> set_tree r"
    "set_tree l \<inter> set_tree r = {}"
    using Node.prems(2) by auto
  consider (left) "x \<in> set_tree l" | (right) "x \<in> set_tree r" using Node.prems(3,4) a by auto
  then show ?case
  proof cases
    case left
    show ?thesis
    proof (cases "x = nd_left (m a)")
      case True
      then have "nd_parent (m x) = a" "depth_in l x = 0" using l left by (cases l; auto)+
      with left True d show ?thesis by auto
    next
      case False
      from Node.IH(1) [OF l d(1) left False] left d show ?thesis by auto
    qed
  next
    case right
    show ?thesis
    proof (cases "x = nd_right (m a)")
      case True
      then have "nd_parent (m x) = a" "depth_in r x = 0" using r right by (cases r; auto)+
      with right True d show ?thesis by auto
    next
      case False
      from Node.IH(2) [OF r d(2) right False] right d show ?thesis by auto
    qed
  qed
qed

lemma root_parent: "linked m p nid t \<Longrightarrow> nid \<noteq> 0 \<Longrightarrow> nd_parent (m nid) = p"
  by (cases t) auto

text \<open>In a whole tree: only the root has no parent, every other parent is a node above.\<close>

lemma parent_cases:
  assumes "linked m 0 root t" and "distinct (inorder t)" and "x \<in> set_tree t"
  shows "(nd_parent (m x) = 0 \<longleftrightarrow> x = root) \<and>
    (x \<noteq> root \<longrightarrow> nd_parent (m x) \<in> set_tree t \<and> nd_parent (m x) \<noteq> x \<and>
       depth_in t (nd_parent (m x)) < depth_in t x \<and>
       (nd_left (m (nd_parent (m x))) = x \<or> nd_right (m (nd_parent (m x))) = x))"
proof (cases "x = root")
  case True
  with root_parent [OF assms(1)] linked_nonzero [OF assms(1,3)] show ?thesis by auto
next
  case False
  from parent_depth [OF assms False] linked_nonzero [OF assms(1)] False show ?thesis by fastforce
qed

lemma child_cases:
  assumes "linked m p nid t" and "distinct (inorder t)" and "x \<in> set_tree t"
  shows "(nd_left (m x) \<noteq> 0 \<longrightarrow> nd_left (m x) \<in> set_tree t \<and> nd_parent (m (nd_left (m x))) = x) \<and>
    (nd_right (m x) \<noteq> 0 \<longrightarrow> nd_right (m x) \<in> set_tree t \<and> nd_parent (m (nd_right (m x))) = x) \<and>
    (nd_left (m x) \<noteq> 0 \<longrightarrow> nd_left (m x) \<noteq> nd_right (m x)) \<and> nd_left (m x) \<noteq> x \<and> nd_right (m x) \<noteq> x"
  using assms
proof (induction t arbitrary: p nid)
  case Leaf
  then show ?case by simp
next
  case (Node l a r)
  have l: "linked m a (nd_left (m a)) l" and r: "linked m a (nd_right (m a)) r" and a: "a \<noteq> 0"
    using Node.prems(1) by auto
  have d: "distinct (inorder l)" "distinct (inorder r)" "a \<notin> set_tree l" "a \<notin> set_tree r"
    "set_tree l \<inter> set_tree r = {}"
    using Node.prems(2) by auto
  consider "x = a" | "x \<in> set_tree l" | "x \<in> set_tree r" using Node.prems(3) by auto
  then show ?case
  proof cases
    case 1
    with l r d a linked_root [OF l] linked_root [OF r] root_parent [OF l] root_parent [OF r]
    show ?thesis by (cases "nd_left (m a) = 0"; cases "nd_right (m a) = 0") auto
  next
    case 2
    with Node.IH(1) [OF l d(1)] show ?thesis by auto
  next
    case 3
    with Node.IH(2) [OF r d(2)] show ?thesis by auto
  qed
qed

section \<open>Recolouring after an insertion\<close>

lemma insert_color_step:
  "0 < nd_parent (m nid) \<Longrightarrow> nd_color (m (nd_parent (m nid))) = Red \<Longrightarrow>
   mmt_insert_round pm root m nid (nd_parent (m nid)) = (root1, m1, nid1) \<Longrightarrow>
   mmtree_insert_color pm root m nid = mmtree_insert_color pm root1 m1 nid1"
  by (subst mmtree_insert_color.simps) simp

lemma insert_color_stop:
  "nd_parent (m nid) = 0 \<or> nd_color (m (nd_parent (m nid))) = Black \<Longrightarrow>
   mmtree_insert_color pm root m nid = Some (root, if 0 < root then set_color root Black m else m)"
  by (subst mmtree_insert_color.simps) auto

text \<open>
  One round: either two nodes are recoloured and the loop goes on two levels up, or the rotations
  end it.
\<close>

lemma insert_round:
  assumes "linked m 0 root t" and "distinct (inorder t)" and "nid \<in> set_tree t"
    and "pid = nd_parent (m nid)" and "pid \<noteq> 0" and "nd_parent (m pid) \<noteq> 0"
    and "mmt_insert_round True root m nid pid = (root1, m1, nid1)"
  shows "\<exists>t1. linked m1 0 root1 t1 \<and> inorder t1 = inorder t \<and> frame (set_tree t) m m1 \<and>
    same_entries m m1 \<and>
    (t1 = t \<and> root1 = root \<and> nid1 = nd_parent (m pid) \<and>
       (\<forall>i. i \<noteq> nid1 \<longrightarrow> nd_color (m1 i) = nd_color (m i) \<or> nd_color (m1 i) = Black)
     \<or> nd_parent (m1 nid1) \<noteq> 0 \<and> nd_color (m1 (nd_parent (m1 nid1))) = Black)"
proof -
  let ?g = "nd_parent (m pid)"
  have n: "nid \<noteq> root" using parent_cases [OF assms(1-3)] assms(4,5) by simp
  have p: "pid \<in> set_tree t" "pid \<noteq> nid" "nd_left (m pid) = nid \<or> nd_right (m pid) = nid"
    using parent_cases [OF assms(1-3)] assms(4) n by auto
  have pr: "pid \<noteq> root" using parent_cases [OF assms(1,2) p(1)] assms(6) by simp
  have g: "?g \<in> set_tree t" "?g \<noteq> pid" "nd_left (m ?g) = pid \<or> nd_right (m ?g) = pid"
    using parent_cases [OF assms(1,2) p(1)] pr by auto
  have gn: "?g \<noteq> nid"
    using parent_cases [OF assms(1-3)] parent_cases [OF assms(1,2) p(1)] n pr assms(4) by fastforce
  have n0: "nid \<noteq> 0" using linked_nonzero [OF assms(1,3)] .
  note ch = child_cases [OF assms(1,2)]
  have kids: "nd_left (m pid) \<noteq> nd_right (m pid)" using ch [OF p(1)] p(3) n0 by auto
  consider
    (recolor) u where "u \<in> set_tree t" "u \<noteq> 0"
      "root1 = root" "m1 = set_color ?g Red (set_color pid Black (set_color u Black m))" "nid1 = ?g"
  | (left) "pid = nd_left (m ?g)" "nd_right (m pid) \<noteq> nid" "nid1 = nid"
      "mmtree_rotate_right True root (set_color ?g Red (set_color pid Black m)) ?g = (root1, m1)"
  | (left2) r0 m0 where "pid = nd_left (m ?g)" "nd_right (m pid) = nid" "nid1 = pid"
      "mmtree_rotate_left True root m pid = (r0, m0)"
      "mmtree_rotate_right True r0 (set_color ?g Red (set_color nid Black m0)) ?g = (root1, m1)"
  | (right) "pid \<noteq> nd_left (m ?g)" "nd_left (m pid) \<noteq> nid" "nid1 = nid"
      "mmtree_rotate_left True root (set_color ?g Red (set_color pid Black m)) ?g = (root1, m1)"
  | (right2) r0 m0 where "pid \<noteq> nd_left (m ?g)" "nd_left (m pid) = nid" "nid1 = pid"
      "mmtree_rotate_right True root m pid = (r0, m0)"
      "mmtree_rotate_left True r0 (set_color ?g Red (set_color nid Black m0)) ?g = (root1, m1)"
  proof (cases "pid = nd_left (m ?g)")
    case True
    let ?u = "nd_right (m ?g)"
    show thesis
    proof (cases "0 < ?u \<and> nd_color (m ?u) = Red")
      case red: True
      with True have "mmt_insert_round True root m nid pid =
          (root, set_color ?g Red (set_color pid Black (set_color ?u Black m)), ?g)"
        by (simp add: mmt_insert_round_def Let_def)
      with assms(7) have "root1 = root" "m1 = set_color ?g Red (set_color pid Black (set_color ?u Black m))"
        "nid1 = ?g" by auto
      moreover have "?u \<in> set_tree t" "?u \<noteq> 0" using ch [OF g(1)] red by simp_all
      ultimately show thesis using recolor by metis
    next
      case black: False
      show thesis
      proof (cases "nd_right (m pid) = nid")
        case double: True
        obtain r0 m0 where "mmtree_rotate_left True root m pid = (r0, m0)" by (metis prod.collapse)
        with assms(7) True black double show thesis
          by (intro left2 [of r0 m0]) (simp_all add: mmt_insert_round_def Let_def split: prod.splits)
      next
        case single: False
        with assms(7) True black show thesis
          by (intro left) (simp_all add: mmt_insert_round_def Let_def split: prod.splits)
      qed
    qed
  next
    case False
    let ?u = "nd_left (m ?g)"
    show thesis
    proof (cases "0 < ?u \<and> nd_color (m ?u) = Red")
      case red: True
      with False have "mmt_insert_round True root m nid pid =
          (root, set_color ?g Red (set_color pid Black (set_color ?u Black m)), ?g)"
        by (simp add: mmt_insert_round_def Let_def)
      with assms(7) have "root1 = root" "m1 = set_color ?g Red (set_color pid Black (set_color ?u Black m))"
        "nid1 = ?g" by auto
      moreover have "?u \<in> set_tree t" "?u \<noteq> 0" using ch [OF g(1)] red by simp_all
      ultimately show thesis using recolor by metis
    next
      case black: False
      show thesis
      proof (cases "nd_left (m pid) = nid")
        case double: True
        obtain r0 m0 where "mmtree_rotate_right True root m pid = (r0, m0)" by (metis prod.collapse)
        with assms(7) False black double show thesis
          by (intro right2 [of r0 m0]) (simp_all add: mmt_insert_round_def Let_def split: prod.splits)
      next
        case single: False
        with assms(7) False black show thesis
          by (intro right) (simp_all add: mmt_insert_round_def Let_def split: prod.splits)
      qed
    qed
  qed
  then show ?thesis
  proof cases
    case recolor
    then show ?thesis using assms(1) g(1) p(1) by (intro exI [of _ t]) auto
  next
    case left
    let ?m = "set_color ?g Red (set_color pid Black m)"
    have "linked ?m 0 root t" using assms(1) by simp
    from rotate_right_linked [OF this assms(2) g(1) left(4)] left(1) assms(5)
    obtain t1 where t1: "linked m1 0 root1 t1" "inorder t1 = inorder t" "frame (set_tree t) ?m m1"
      "same_entries ?m m1" "\<forall>i. nd_color (m1 i) = nd_color (?m i)"
      "\<And>i. i \<noteq> ?g \<Longrightarrow> i \<noteq> pid \<Longrightarrow> i \<noteq> nd_right (m pid) \<Longrightarrow> nd_parent (m1 i) = nd_parent (m i)"
      by auto
    have "nd_parent (m1 nid) = pid" using t1(6) [of nid] gn p(2) left(2) assms(4) by auto
    moreover have "frame (set_tree t) m m1" by (rule frame_trans [OF _ t1(3)]) (use g(1) p(1) in auto)
    moreover have "same_entries m m1" by (rule same_entries_trans [OF _ t1(4)]) simp
    ultimately show ?thesis using t1 left(3) g(2) assms(5)
      by (intro exI [of _ t1]) auto
  next
    case left2
    from rotate_left_linked [OF assms(1,2) p(1) left2(4)] left2(2) n0 pr assms(5)
    obtain t0 where t0: "linked m0 0 r0 t0" "inorder t0 = inorder t" "frame (set_tree t) m m0"
      "same_entries m m0" "\<forall>i. nd_color (m0 i) = nd_color (m i)" "nd_parent (m0 pid) = nid"
      "r0 = root" "nd_parent (m0 nid) = ?g" "redirected m m0 ?g pid nid" "nd_left (m0 nid) = pid"
      using assms(6) by auto
    have s: "set_tree t0 = set_tree t" using arg_cong [OF t0(2), of set] by simp
    let ?m = "set_color ?g Red (set_color nid Black m0)"
    have l: "linked ?m 0 r0 t0" "distinct (inorder t0)" "?g \<in> set_tree t0"
      using t0(1,2) s assms(2) g(1) by auto
    have lg: "nd_left (m0 ?g) = nid" using t0(9) left2(1) by (simp add: redirected_def)
    have k0: "nd_right (m0 nid) \<noteq> pid"
      using child_cases [OF t0(1) l(2), of nid] t0(10) s assms(3,5) by auto
    from rotate_right_linked [OF l left2(5)] lg n0
    obtain t1 where t1: "linked m1 0 root1 t1" "inorder t1 = inorder t0" "frame (set_tree t0) ?m m1"
      "same_entries ?m m1" "\<forall>i. nd_color (m1 i) = nd_color (?m i)"
      "\<And>i. i \<noteq> ?g \<Longrightarrow> i \<noteq> nid \<Longrightarrow> i \<noteq> nd_right (m0 nid) \<Longrightarrow> nd_parent (m1 i) = nd_parent (m0 i)"
      by auto
    have "nd_parent (m1 pid) = nid" using t1(6) [of pid] g(2) p(2) k0 t0(6) by auto
    moreover have "frame (set_tree t) m m1"
      by (rule frame_trans [OF frame_trans [OF t0(3)] t1(3) [unfolded s]]) (use g(1) assms(3) in auto)
    moreover have "same_entries m m1"
      by (rule same_entries_trans [OF same_entries_trans [OF t0(4)] t1(4)]) simp
    ultimately show ?thesis using t1 t0 s left2(3) gn n0
      by (intro exI [of _ t1]) auto
  next
    case right
    then have rg: "nd_right (m ?g) = pid" using g(3) by auto
    let ?m = "set_color ?g Red (set_color pid Black m)"
    have "linked ?m 0 root t" using assms(1) by simp
    from rotate_left_linked [OF this assms(2) g(1) right(4)] rg assms(5)
    obtain t1 where t1: "linked m1 0 root1 t1" "inorder t1 = inorder t" "frame (set_tree t) ?m m1"
      "same_entries ?m m1" "\<forall>i. nd_color (m1 i) = nd_color (?m i)"
      "\<And>i. i \<noteq> ?g \<Longrightarrow> i \<noteq> pid \<Longrightarrow> i \<noteq> nd_left (m pid) \<Longrightarrow> nd_parent (m1 i) = nd_parent (m i)"
      by auto
    have "nd_parent (m1 nid) = pid" using t1(6) [of nid] gn p(2) right(2) assms(4) by auto
    moreover have "frame (set_tree t) m m1" by (rule frame_trans [OF _ t1(3)]) (use g(1) p(1) in auto)
    moreover have "same_entries m m1" by (rule same_entries_trans [OF _ t1(4)]) simp
    ultimately show ?thesis using t1 right(3) g(2) assms(5)
      by (intro exI [of _ t1]) auto
  next
    case right2
    then have rg: "nd_right (m ?g) = pid" using g(3) by auto
    from rotate_right_linked [OF assms(1,2) p(1) right2(4)] right2(2) n0 pr assms(5)
    obtain t0 where t0: "linked m0 0 r0 t0" "inorder t0 = inorder t" "frame (set_tree t) m m0"
      "same_entries m m0" "\<forall>i. nd_color (m0 i) = nd_color (m i)" "nd_parent (m0 pid) = nid"
      "r0 = root" "nd_parent (m0 nid) = ?g" "redirected m m0 ?g pid nid" "nd_right (m0 nid) = pid"
      using assms(6) by auto
    have s: "set_tree t0 = set_tree t" using arg_cong [OF t0(2), of set] by simp
    let ?m = "set_color ?g Red (set_color nid Black m0)"
    have l: "linked ?m 0 r0 t0" "distinct (inorder t0)" "?g \<in> set_tree t0"
      using t0(1,2) s assms(2) g(1) by auto
    have lg: "nd_right (m0 ?g) = nid" using t0(9) right2(1) by (auto simp: redirected_def)
    have k0: "nd_left (m0 nid) \<noteq> pid"
      using child_cases [OF t0(1) l(2), of nid] t0(10) s assms(3,5) by auto
    from rotate_left_linked [OF l right2(5)] lg n0
    obtain t1 where t1: "linked m1 0 root1 t1" "inorder t1 = inorder t0" "frame (set_tree t0) ?m m1"
      "same_entries ?m m1" "\<forall>i. nd_color (m1 i) = nd_color (?m i)"
      "\<And>i. i \<noteq> ?g \<Longrightarrow> i \<noteq> nid \<Longrightarrow> i \<noteq> nd_left (m0 nid) \<Longrightarrow> nd_parent (m1 i) = nd_parent (m0 i)"
      by auto
    have "nd_parent (m1 pid) = nid" using t1(6) [of pid] g(2) p(2) k0 t0(6) by auto
    moreover have "frame (set_tree t) m m1"
      by (rule frame_trans [OF frame_trans [OF t0(3)] t1(3) [unfolded s]]) (use g(1) assms(3) in auto)
    moreover have "same_entries m m1"
      by (rule same_entries_trans [OF same_entries_trans [OF t0(4)] t1(4)]) simp
    ultimately show ?thesis using t1 t0 s right2(3) gn n0
      by (intro exI [of _ t1]) auto
  qed
qed

lemma insert_color_total:
  assumes "linked m 0 root t" and "distinct (inorder t)" and "nid \<in> set_tree t"
    and "nd_color (m root) = Black \<or> nid = root"
  shows "\<exists>root' m' t'. mmtree_insert_color True root m nid = Some (root', m') \<and>
    linked m' 0 root' t' \<and> inorder t' = inorder t \<and> frame (set_tree t) m m' \<and>
    same_entries m m' \<and> nd_color (m' root') = Black"
  using assms
proof (induction "depth_in t nid" arbitrary: m nid rule: less_induct)
  case less
  let ?p = "nd_parent (m nid)"
  have stop: ?case if "mmtree_insert_color True root m nid = Some (root, if 0 < root then set_color root Black m else m)"
  proof -
    have "root \<noteq> 0" using less.prems(1,3) linked_Leaf_iff [OF less.prems(1)] by auto
    then have "root \<in> set_tree t" using linked_root [OF less.prems(1)] by simp
    with that less.prems(1) \<open>root \<noteq> 0\<close> show ?thesis
      by (intro exI [of _ root] exI [of _ "set_color root Black m"] exI [of _ t]) auto
  qed
  show ?case
  proof (cases "?p = 0 \<or> nd_color (m ?p) = Black")
    case True
    then show ?thesis by (intro stop insert_color_stop)
  next
    case False
    then have red: "0 < ?p" "nd_color (m ?p) = Red" by (auto intro: mmt_color.exhaust)
    note pc = parent_cases [OF less.prems(1-3)]
    have n: "nid \<noteq> root" using pc red by auto
    with less.prems(4) red have pr: "?p \<noteq> root" and pin: "?p \<in> set_tree t" using pc by auto
    then have g: "nd_parent (m ?p) \<noteq> 0" "nd_parent (m ?p) \<in> set_tree t"
      "depth_in t (nd_parent (m ?p)) < depth_in t nid"
      using parent_cases [OF less.prems(1,2) pin] pc n by auto
    obtain root1 m1 nid1 where rd: "mmt_insert_round True root m nid ?p = (root1, m1, nid1)"
      by (metis prod.collapse)
    note eq = insert_color_step [OF red rd]
    from insert_round [OF less.prems(1-3) refl _ g(1) rd] red
    obtain t1 where t1: "linked m1 0 root1 t1" "inorder t1 = inorder t" "frame (set_tree t) m m1"
      "same_entries m m1" and
      c: "t1 = t \<and> root1 = root \<and> nid1 = nd_parent (m ?p) \<and>
         (\<forall>i. i \<noteq> nid1 \<longrightarrow> nd_color (m1 i) = nd_color (m i) \<or> nd_color (m1 i) = Black)
       \<or> nd_parent (m1 nid1) \<noteq> 0 \<and> nd_color (m1 (nd_parent (m1 nid1))) = Black"
      by auto
    show ?thesis
    proof (cases "nd_parent (m1 nid1) \<noteq> 0 \<and> nd_color (m1 (nd_parent (m1 nid1))) = Black")
      case True
      then have e: "mmtree_insert_color True root m nid =
          Some (root1, if 0 < root1 then set_color root1 Black m1 else m1)"
        using eq insert_color_stop [of m1 nid1 True root1] by simp
      have s: "set_tree t1 = set_tree t" using arg_cong [OF t1(2), of set] by simp
      have "t1 \<noteq> Leaf" using s less.prems(3) by auto
      then have "root1 \<noteq> 0" using linked_Leaf_iff [OF t1(1)] by simp
      then have "root1 \<in> set_tree t" using linked_root [OF t1(1)] s by simp
      with e t1 \<open>root1 \<noteq> 0\<close> show ?thesis
        by (intro exI [of _ root1] exI [of _ "set_color root1 Black m1"] exI [of _ t1]) auto
    next
      case False
      with c have k: "t1 = t" "root1 = root" "nid1 = nd_parent (m ?p)"
        "\<forall>i. i \<noteq> nid1 \<longrightarrow> nd_color (m1 i) = nd_color (m i) \<or> nd_color (m1 i) = Black" by auto
      have "nd_color (m1 root) = Black \<or> nid1 = root" using k(4) less.prems(4) n by metis
      with less.hyps [of nid1 m1] k g t1 less.prems(2) obtain root' m' t' where
        "mmtree_insert_color True root m1 nid1 = Some (root', m')" "linked m' 0 root' t'"
        "inorder t' = inorder t" "frame (set_tree t) m1 m'" "same_entries m1 m'"
        "nd_color (m' root') = Black" by auto
      with eq k t1 frame_trans same_entries_trans show ?thesis by metis
    qed
  qed
qed

section \<open>Files that hold a tree\<close>

text \<open>\<open>tree_file xs root m\<close>: the nodes linked below \<open>root\<close> are \<open>xs\<close>, in order, and slot 0 has no links.\<close>

definition tree_file :: "nat list \<Rightarrow> nat \<Rightarrow> mt_map \<Rightarrow> bool" where
  "tree_file xs root m \<longleftrightarrow> (\<exists>t. linked m 0 root t \<and> inorder t = xs) \<and>
     nd_left (m 0) = 0 \<and> nd_right (m 0) = 0 \<and> nd_parent (m 0) = 0"

definition kept :: "nat list \<Rightarrow> nat \<times> mt_map \<Rightarrow> nat \<times> mt_map \<Rightarrow> bool" where
  "kept xs = (\<lambda>(root, m) (root', m'). tree_file xs root' m' \<and> frame (insert 0 (set xs)) m m' \<and> same_entries m m')"

lemma kept_trans [trans]: "kept xs a b \<Longrightarrow> kept xs b c \<Longrightarrow> kept xs a c"
  by (auto simp: kept_def intro: frame_trans same_entries_trans)

lemma kept_refl: "tree_file xs root m \<Longrightarrow> kept xs (root, m) (root, m)"
  by (simp add: kept_def)

lemma kept_file: "kept xs a (root', m') \<Longrightarrow> tree_file xs root' m'"
  by (cases a) (simp add: kept_def)

lemma tree_file_set_color [simp]: "tree_file xs root (set_color i c m) = tree_file xs root m"
  by (simp add: tree_file_def)

lemma kept_set_color:
  "i \<in> insert 0 (set xs) \<Longrightarrow> kept xs a (root, m) \<Longrightarrow> kept xs a (root, set_color i c m)"
  by (cases a) (auto simp: kept_def)

lemma frame_mono: "frame A m m' \<Longrightarrow> A \<subseteq> B \<Longrightarrow> frame B m m'"
  by (auto simp: frame_def)

lemma tree_file_links:
  assumes "tree_file xs root m" and "distinct xs" and "x \<in> insert 0 (set xs)"
  shows "nd_left (m x) \<in> insert 0 (set xs)" "nd_right (m x) \<in> insert 0 (set xs)"
    "nd_parent (m x) \<in> insert 0 (set xs)"
proof -
  from assms(1) obtain t where t: "linked m 0 root t" "inorder t = xs"
    and z: "nd_left (m 0) = 0" "nd_right (m 0) = 0" "nd_parent (m 0) = 0"
    by (auto simp: tree_file_def)
  have s: "set_tree t = set xs" using t(2) by auto
  show "nd_left (m x) \<in> insert 0 (set xs)" "nd_right (m x) \<in> insert 0 (set xs)"
    "nd_parent (m x) \<in> insert 0 (set xs)"
    using child_cases [OF t(1), of x] parent_cases [OF t(1), of x] assms(2,3) t(2) s z
    by (cases "x = 0"; auto)+
qed

lemma tree_file_nonzero: "tree_file xs root m \<Longrightarrow> x \<in> set xs \<Longrightarrow> x \<noteq> 0"
  using linked_nonzero by (auto simp: tree_file_def)

lemma kept_rotate_left:
  assumes "kept xs a (root, m)" and "distinct xs" and "nid \<in> insert 0 (set xs)"
    and "mmtree_rotate_left True root m nid = (root', m')"
  shows "kept xs a (root', m') \<and> (\<forall>i. nd_color (m' i) = nd_color (m i))"
proof -
  have f: "tree_file xs root m" using kept_file [OF assms(1)] .
  have "kept xs (root, m) (root', m') \<and> (\<forall>i. nd_color (m' i) = nd_color (m i))"
  proof (cases "nid = 0")
    case True
    with f assms(4) have "root' = root" "m' = m"
      using rotate_left_none [of m nid True root] by (auto simp: tree_file_def)
    with f kept_refl show ?thesis by simp
  next
    case False
    from f obtain t where t: "linked m 0 root t" "inorder t = xs"
      and z: "nd_left (m 0) = 0" "nd_right (m 0) = 0" "nd_parent (m 0) = 0"
      by (auto simp: tree_file_def)
    have s: "set_tree t = set xs" using t(2) by auto
    have "0 \<notin> set_tree t" using linked_nonzero [OF t(1)] by blast
    moreover from rotate_left_linked [OF t(1) _ _ assms(4)] assms(2,3) False t(2) s
    obtain t' where "linked m' 0 root' t'" "inorder t' = xs" "frame (set xs) m m'" "same_entries m m'"
      "\<forall>i. nd_color (m' i) = nd_color (m i)" by auto
    moreover from this(3) have "frame (insert 0 (set xs)) m m'" by (rule frame_mono) auto
    ultimately show ?thesis using z s by (auto simp: kept_def tree_file_def frame_def)
  qed
  with assms(1) kept_trans show ?thesis by blast
qed

lemma kept_rotate_right:
  assumes "kept xs a (root, m)" and "distinct xs" and "nid \<in> insert 0 (set xs)"
    and "mmtree_rotate_right True root m nid = (root', m')"
  shows "kept xs a (root', m') \<and> (\<forall>i. nd_color (m' i) = nd_color (m i))"
proof -
  have f: "tree_file xs root m" using kept_file [OF assms(1)] .
  have "kept xs (root, m) (root', m') \<and> (\<forall>i. nd_color (m' i) = nd_color (m i))"
  proof (cases "nid = 0")
    case True
    with f assms(4) have "root' = root" "m' = m"
      using rotate_right_none [of m nid True root] by (auto simp: tree_file_def)
    with f kept_refl show ?thesis by simp
  next
    case False
    from f obtain t where t: "linked m 0 root t" "inorder t = xs"
      and z: "nd_left (m 0) = 0" "nd_right (m 0) = 0" "nd_parent (m 0) = 0"
      by (auto simp: tree_file_def)
    have s: "set_tree t = set xs" using t(2) by auto
    have "0 \<notin> set_tree t" using linked_nonzero [OF t(1)] by blast
    moreover from rotate_right_linked [OF t(1) _ _ assms(4)] assms(2,3) False t(2) s
    obtain t' where "linked m' 0 root' t'" "inorder t' = xs" "frame (set xs) m m'" "same_entries m m'"
      "\<forall>i. nd_color (m' i) = nd_color (m i)" by auto
    moreover from this(3) have "frame (insert 0 (set xs)) m m'" by (rule frame_mono) auto
    ultimately show ?thesis using z s by (auto simp: kept_def tree_file_def frame_def)
  qed
  with assms(1) kept_trans show ?thesis by blast
qed

section \<open>Recolouring after a removal\<close>

lemma kept_links:
  assumes "kept xs a (root, m)" and "distinct xs" and "x \<in> insert 0 (set xs)"
  shows "nd_left (m x) \<in> insert 0 (set xs)" "nd_right (m x) \<in> insert 0 (set xs)"
    "nd_parent (m x) \<in> insert 0 (set xs)"
  using tree_file_links [OF kept_file [OF assms(1)] assms(2,3)] by auto

text \<open>The middle of a round: the sibling \<open>u1\<close> is recoloured or lifted.\<close>

lemma remove_round_first:
  assumes "tree_file xs root m" and "distinct xs" and "pid \<in> set xs" and "uid \<in> insert 0 (set xs)"
    and "(root1, m1, uid1) = (if nd_color (m uid) = Red then
            let (r, m0) = rot True root (set_color pid Red (set_color uid Black m)) pid
            in (r, m0, lnk (m0 pid))
          else (root, m, uid))"
    and "rot = mmtree_rotate_left \<and> lnk = nd_right \<or> rot = mmtree_rotate_right \<and> lnk = nd_left"
  shows "kept xs (root, m) (root1, m1) \<and> uid1 \<in> insert 0 (set xs) \<and>
    (root1 = root \<and> m1 = m \<or> nd_color (m1 pid) = Red)"
proof (cases "nd_color (m uid) = Red")
  case False
  with assms(1,4,5) kept_refl show ?thesis by auto
next
  case True
  let ?m = "set_color pid Red (set_color uid Black m)"
  have k: "kept xs (root, m) (root, ?m)"
    using assms(1,3,4) by (auto intro!: kept_set_color kept_refl)
  obtain r m0 where rot: "rot True root ?m pid = (r, m0)" by (metis prod.collapse)
  with assms(5) True have e: "root1 = r" "m1 = m0" "uid1 = lnk (m0 pid)" by auto
  have p: "pid \<in> insert 0 (set xs)" using assms(3) by simp
  have K: "kept xs (root, m) (r, m0) \<and> (\<forall>i. nd_color (m0 i) = nd_color (?m i))"
    using assms(6) rot kept_rotate_left [OF k assms(2) p] kept_rotate_right [OF k assms(2) p] by auto
  with kept_links [OF _ assms(2) p, of "(root, m)" r m0] e assms(6) show ?thesis by auto
qed

lemma remove_round_last:
  assumes "kept xs a (root1, m1)" and "distinct xs" and "pid \<in> set xs" and "uid1 \<in> insert 0 (set xs)"
    and "w \<in> insert 0 (set xs)"
    and "(root3, m3, uid3) = (if c then
            let (r, m0) = rot1 True root1 (set_color uid1 Red (set_color w Black m1)) uid1
            in (r, m0, lnk (m0 pid))
          else (root1, m1, uid1))"
    and "m4 = set_color pid Black (set_color uid3 (nd_color (m3 pid)) m3)"
    and "m5 = (if 0 < lnk (m4 uid3) then set_color (lnk (m4 uid3)) Black m4 else m4)"
    and "rot2 True root3 m5 pid = (root6, m6)"
    and "rot1 = mmtree_rotate_right \<and> rot2 = mmtree_rotate_left \<and> lnk = nd_right \<or>
         rot1 = mmtree_rotate_left \<and> rot2 = mmtree_rotate_right \<and> lnk = nd_left"
  shows "kept xs a (root6, m6)"
proof -
  have p: "pid \<in> insert 0 (set xs)" using assms(3) by simp
  have "kept xs a (root3, m3) \<and> uid3 \<in> insert 0 (set xs)"
  proof (cases c)
    case False
    with assms(1,4,6) show ?thesis by simp
  next
    case True
    let ?m = "set_color uid1 Red (set_color w Black m1)"
    have k: "kept xs a (root1, ?m)" using assms(1,4,5) by (auto intro!: kept_set_color)
    obtain r m0 where rot: "rot1 True root1 ?m uid1 = (r, m0)" by (metis prod.collapse)
    with assms(6) True have e: "root3 = r" "m3 = m0" "uid3 = lnk (m0 pid)" by auto
    have "kept xs a (r, m0)"
      using assms(10) rot kept_rotate_left [OF k assms(2,4)] kept_rotate_right [OF k assms(2,4)] by auto
    with kept_links [OF this assms(2) p] e assms(10) show ?thesis by auto
  qed
  then have k3: "kept xs a (root3, m3)" and u3: "uid3 \<in> insert 0 (set xs)" by auto
  then have k4: "kept xs a (root3, m4)" using assms(7) p by (auto intro!: kept_set_color)
  have "lnk (m4 uid3) \<in> insert 0 (set xs)"
    using assms(10) kept_links [OF k4 assms(2) u3] by auto
  then have k5: "kept xs a (root3, m5)" using assms(8) k4 by (auto intro!: kept_set_color)
  show ?thesis
    using assms(9,10) kept_rotate_left [OF k5 assms(2) p] kept_rotate_right [OF k5 assms(2) p] by auto
qed

lemma remove_round:
  assumes "tree_file xs root m" and "distinct xs" and "pid \<in> set xs"
    and "mmt_remove_round True root m nid pid = (root1, m1, nxt)"
  shows "kept xs (root, m) (root1, m1) \<and>
    (\<forall>nid1 pid1. nxt = Some (nid1, pid1) \<longrightarrow> nid1 = pid \<and> pid1 = nd_parent (m1 pid) \<and>
       (nd_color (m1 pid) = Red \<or> root1 = root \<and> same_links UNIV m m1))"
proof (cases "nd_left (m pid) = nid")
  case True
  have u: "nd_right (m pid) \<in> insert 0 (set xs)" using tree_file_links [OF assms(1,2)] assms(3) by blast
  obtain r1 a1 u1 where f0: "(if nd_color (m (nd_right (m pid))) = Red then
      let (r, m0) = mmtree_rotate_left True root (set_color pid Red (set_color (nd_right (m pid)) Black m)) pid
      in (r, m0, nd_right (m0 pid)) else (root, m, nd_right (m pid))) = (r1, a1, u1)"
    by (rule prod_cases3)
  note f = f0 [symmetric]
  note F = remove_round_first [OF assms(1-3) u f disjI1 [OF conjI [OF refl refl]]]
  have k: "kept xs (root, m) (r1, a1)" using F by (rule conjunct1)
  have u1: "u1 \<in> insert 0 (set xs)" using F [THEN conjunct2] by (rule conjunct1)
  have c: "r1 = root \<and> a1 = m \<or> nd_color (a1 pid) = Red" using F [THEN conjunct2] by (rule conjunct2)
  show ?thesis
  proof (cases "(nd_left (a1 u1) = 0 \<or> nd_color (a1 u1) = Black) \<and> (nd_right (a1 u1) = 0 \<or> nd_color (a1 u1) = Black)")
    case again: True
    with assms(4) True f [symmetric] have "root1 = r1" "m1 = set_color u1 Red a1"
      "nxt = Some (pid, nd_parent (a1 pid))"
      by (simp_all add: mmt_remove_round_def Let_def)
    with k u1 c show ?thesis by (auto intro: kept_set_color)
  next
    case False
    obtain r3 a3 u3 where g0: "(if nd_right (a1 u1) = 0 \<or> nd_color (a1 (nd_right (a1 u1))) = Black then
      let (r, m0) = mmtree_rotate_right True r1 (set_color u1 Red (set_color (nd_left (a1 u1)) Black a1)) u1
      in (r, m0, nd_right (m0 pid)) else (r1, a1, u1)) = (r3, a3, u3)"
      by (rule prod_cases3)
    note g = g0 [symmetric]
    let ?m4 = "set_color pid Black (set_color u3 (nd_color (a3 pid)) a3)"
    let ?m5 = "if 0 < nd_right (?m4 u3) then set_color (nd_right (?m4 u3)) Black ?m4 else ?m4"
    obtain r6 a6 where h: "mmtree_rotate_left True r3 ?m5 pid = (r6, a6)" by (metis prod.collapse)
    have w: "nd_left (a1 u1) \<in> insert 0 (set xs)" using kept_links [OF k assms(2) u1] by simp
    from remove_round_last [OF k assms(2,3) u1 w g refl refl h disjI1 [OF conjI [OF refl conjI [OF refl refl]]]]
    have "kept xs (root, m) (r6, a6)" .
    moreover have "root1 = r6" "m1 = a6" "nxt = None"
      using assms(4) True f [symmetric] False g [symmetric] h by (simp_all add: mmt_remove_round_def Let_def)
    ultimately show ?thesis by simp
  qed
next
  case other: False
  have u: "nd_left (m pid) \<in> insert 0 (set xs)" using tree_file_links [OF assms(1,2)] assms(3) by blast
  obtain r1 a1 u1 where f0: "(if nd_color (m (nd_left (m pid))) = Red then
      let (r, m0) = mmtree_rotate_right True root (set_color pid Red (set_color (nd_left (m pid)) Black m)) pid
      in (r, m0, nd_left (m0 pid)) else (root, m, nd_left (m pid))) = (r1, a1, u1)"
    by (rule prod_cases3)
  note f = f0 [symmetric]
  note F = remove_round_first [OF assms(1-3) u f disjI2 [OF conjI [OF refl refl]]]
  have k: "kept xs (root, m) (r1, a1)" using F by (rule conjunct1)
  have u1: "u1 \<in> insert 0 (set xs)" using F [THEN conjunct2] by (rule conjunct1)
  have c: "r1 = root \<and> a1 = m \<or> nd_color (a1 pid) = Red" using F [THEN conjunct2] by (rule conjunct2)
  show ?thesis
  proof (cases "(nd_left (a1 u1) = 0 \<or> nd_color (a1 u1) = Black) \<and> (nd_right (a1 u1) = 0 \<or> nd_color (a1 u1) = Black)")
    case again: True
    with assms(4) other f [symmetric] have "root1 = r1" "m1 = set_color u1 Red a1"
      "nxt = Some (pid, nd_parent (a1 pid))"
      by (simp_all add: mmt_remove_round_def Let_def)
    with k u1 c show ?thesis by (auto intro: kept_set_color)
  next
    case False
    obtain r3 a3 u3 where g0: "(if nd_left (a1 u1) = 0 \<or> nd_color (a1 (nd_left (a1 u1))) = Black then
      let (r, m0) = mmtree_rotate_left True r1 (set_color u1 Red (set_color (nd_right (a1 u1)) Black a1)) u1
      in (r, m0, nd_left (m0 pid)) else (r1, a1, u1)) = (r3, a3, u3)"
      by (rule prod_cases3)
    note g = g0 [symmetric]
    let ?m4 = "set_color pid Black (set_color u3 (nd_color (a3 pid)) a3)"
    let ?m5 = "if 0 < nd_left (?m4 u3) then set_color (nd_left (?m4 u3)) Black ?m4 else ?m4"
    obtain r6 a6 where h: "mmtree_rotate_right True r3 ?m5 pid = (r6, a6)" by (metis prod.collapse)
    have w: "nd_right (a1 u1) \<in> insert 0 (set xs)" using kept_links [OF k assms(2) u1] by simp
    from remove_round_last [OF k assms(2,3) u1 w g refl refl h disjI2 [OF conjI [OF refl conjI [OF refl refl]]]]
    have "kept xs (root, m) (r6, a6)" .
    moreover have "root1 = r6" "m1 = a6" "nxt = None"
      using assms(4) other f [symmetric] False g [symmetric] h by (simp_all add: mmt_remove_round_def Let_def)
    ultimately show ?thesis by simp
  qed
qed

lemma remove_color_stop:
  "\<not> ((nid = 0 \<or> nd_color (m nid) = Black) \<and> nid \<noteq> root) \<Longrightarrow>
   mmt_remove_color pm root m nid pid = Some (root, if 0 < nid then set_color nid Black m else m)"
  by (subst mmt_remove_color.simps) (simp only: if_False if_not_P)

lemma remove_color_step:
  "(nid = 0 \<or> nd_color (m nid) = Black) \<and> nid \<noteq> root \<Longrightarrow>
   mmt_remove_round pm root m nid pid = (root1, m1, nxt) \<Longrightarrow>
   mmt_remove_color pm root m nid pid =
     (case nxt of Some (nid1, pid1) \<Rightarrow> mmt_remove_color pm root1 m1 nid1 pid1
      | None \<Rightarrow> Some (root1, if 0 < root1 then set_color root1 Black m1 else m1))"
  by (subst mmt_remove_color.simps) (simp split: option.split)

lemma kept_root: "kept xs a (root, m) \<Longrightarrow> root \<in> insert 0 (set xs)"
  using linked_root by (cases a) (fastforce simp: kept_def tree_file_def)

text \<open>The root is black after a round, or it is the node the loop climbed to.\<close>

lemma child_not_root:
  assumes "tree_file xs root m" and "distinct xs" and "pid \<in> set xs" and "root \<noteq> 0"
  shows "nd_left (m pid) \<noteq> root" "nd_right (m pid) \<noteq> root"
proof -
  from assms(1) obtain t where t: "linked m 0 root t" "inorder t = xs" by (auto simp: tree_file_def)
  have s: "set_tree t = set xs" "distinct (inorder t)" using t(2) assms(2) by auto
  have "root \<in> set_tree t" using linked_root [OF t(1)] assms(4) by simp
  then have r: "nd_parent (m root) = 0" using parent_cases [OF t(1) s(2)] by simp
  have p: "pid \<in> set_tree t" "pid \<noteq> 0" using assms(3) s linked_nonzero [OF t(1)] by auto
  from child_cases [OF t(1) s(2) p(1)] r p(2) assms(4)
  show "nd_left (m pid) \<noteq> root" "nd_right (m pid) \<noteq> root" by auto
qed

lemma remove_round_first_root:
  assumes "tree_file xs root m" and "distinct xs" and "pid \<in> set xs" and "root \<noteq> 0"
    and "nd_color (m root) = Black"
    and "rot = mmtree_rotate_left \<and> uid = nd_right (m pid) \<or> rot = mmtree_rotate_right \<and> uid = nd_left (m pid)"
    and "rot True root (set_color pid Red (set_color uid Black m)) pid = (r, m0)"
  shows "r \<noteq> 0 \<and> (r = pid \<or> nd_color (m0 r) = Black)"
proof -
  let ?m = "set_color pid Red (set_color uid Black m)"
  from assms(1) obtain t where t: "linked m 0 root t" "inorder t = xs" by (auto simp: tree_file_def)
  have l: "linked ?m 0 root t" "distinct (inorder t)" "pid \<in> set_tree t" using t assms(2,3) by auto
  have u: "uid \<noteq> root" using child_not_root [OF assms(1-4)] assms(6) by auto
  have "(\<forall>i. nd_color (m0 i) = nd_color (?m i)) \<and>
    (r = root \<or> root = pid \<and> r = uid \<and> uid \<noteq> 0)"
    using assms(6)
  proof
    assume "rot = mmtree_rotate_left \<and> uid = nd_right (m pid)"
    with rotate_left_linked [OF l, of True r m0] assms(7) show ?thesis by (auto split: if_splits)
  next
    assume "rot = mmtree_rotate_right \<and> uid = nd_left (m pid)"
    with rotate_right_linked [OF l, of True r m0] assms(7) show ?thesis by (auto split: if_splits)
  qed
  with u assms(4,5) show ?thesis by auto
qed

lemma remove_round_root:
  assumes "tree_file xs root m" and "distinct xs" and "pid \<in> set xs" and "root \<noteq> 0"
    and "nd_color (m root) = Black"
    and "mmt_remove_round True root m nid pid = (root1, m1, Some (nid1, pid1))"
  shows "root1 \<noteq> 0 \<and> (root1 = pid \<or> nd_color (m1 root1) = Black)"
proof -
  note cr = child_not_root [OF assms(1-4)]
  obtain rot lnk where rot: "rot = mmtree_rotate_left \<and> lnk = nd_right \<or> rot = mmtree_rotate_right \<and> lnk = nd_left"
    and rd: "(if nd_color (m (lnk (m pid))) = Red
        then (case rot True root (set_color pid Red (set_color (lnk (m pid)) Black m)) pid of (r, m0) \<Rightarrow> root1 = r \<and> m1 = set_color (lnk (m0 pid)) Red m0)
        else root1 = root \<and> m1 = set_color (lnk (m pid)) Red m)"
  proof (cases "nd_left (m pid) = nid")
    case True
    show thesis
      by (rule that [of mmtree_rotate_left nd_right])
         (use assms(6) True in \<open>auto simp: mmt_remove_round_def Let_def split: if_splits prod.splits\<close>)
  next
    case False
    show thesis
      by (rule that [of mmtree_rotate_right nd_left])
         (use assms(6) False in \<open>auto simp: mmt_remove_round_def Let_def split: if_splits prod.splits\<close>)
  qed
  show ?thesis
  proof (cases "nd_color (m (lnk (m pid))) = Red")
    case False
    with rd rot cr assms(4,5) show ?thesis by auto
  next
    case True
    obtain r m0 where r: "rot True root (set_color pid Red (set_color (lnk (m pid)) Black m)) pid = (r, m0)"
      by (metis prod.collapse)
    with rd True have e: "root1 = r" "m1 = set_color (lnk (m0 pid)) Red m0" by auto
    have R: "r \<noteq> 0 \<and> (r = pid \<or> nd_color (m0 r) = Black)"
      by (rule remove_round_first_root [where rot = rot and uid = "lnk (m pid)", OF assms(1-5) _ r]) (use rot in auto)
    have u: "lnk (m pid) \<in> insert 0 (set xs)"
      using rot tree_file_links [OF assms(1,2)] assms(3) by auto
    have k: "kept xs (root, m) (root, set_color pid Red (set_color (lnk (m pid)) Black m))"
      using assms(1,3) u by (auto intro!: kept_set_color kept_refl)
    have p: "pid \<in> insert 0 (set xs)" using assms(3) by simp
    have "tree_file xs r m0"
      using rot r kept_rotate_left [OF k assms(2) p] kept_rotate_right [OF k assms(2) p] kept_file by blast
    from child_not_root [OF this assms(2,3)] R rot e show ?thesis by auto
  qed
qed

text \<open>
  Where \<open>mmt_remove_color\<close> starts: at a node of the tree with its parent, or at the missing child
  0 of a node of the tree, or at the missing root.
\<close>

lemma remove_color_total:
  assumes "linked m 0 root t" and "xs = inorder t" and "tree_file xs root m" and "distinct xs"
    and "nid \<in> set xs \<and> pid = nd_parent (m nid) \<or> nid = 0 \<and> (pid \<in> set xs \<or> root = 0)"
    and "nid = root \<or> nd_color (m root) = Black"
  shows "\<exists>root' m'. mmt_remove_color True root m nid pid = Some (root', m') \<and>
    kept xs (root, m) (root', m') \<and> (root' = 0 \<or> nd_color (m' root') = Black)"
  using assms
proof (induction "if nid = 0 then Suc (depth_in t pid) else depth_in t nid" arbitrary: m nid pid rule: less_induct)
  case less
  have nid: "nid \<in> insert 0 (set xs)" using less.prems(5) by auto
  show ?case
  proof (cases "(nid = 0 \<or> nd_color (m nid) = Black) \<and> nid \<noteq> root")
    case False
    with remove_color_stop [of nid m root True pid] nid less.prems(3,6) show ?thesis
      by (auto intro: kept_set_color kept_refl)
  next
    case loop: True
    have s: "set_tree t = set xs" and d: "distinct (inorder t)" using less.prems(2,4) by auto
    have p: "pid \<in> set xs" and dp: "nid \<noteq> 0 \<Longrightarrow> depth_in t pid < depth_in t nid"
      using less.prems(5) parent_cases [OF less.prems(1) d, of nid] loop s
        linked_nonzero [OF less.prems(1), of nid] by (auto simp del: set_inorder)
    obtain root1 m1 nxt where rd: "mmt_remove_round True root m nid pid = (root1, m1, nxt)"
      by (metis prod.collapse)
    have r0: "root \<noteq> 0" using less.prems(1) p s by (cases t) auto
    have bl: "nd_color (m root) = Black" using less.prems(6) loop by blast
    note R = remove_round [OF less.prems(3,4) p rd]
    then have k: "kept xs (root, m) (root1, m1)" by simp
    show ?thesis
    proof (cases nxt)
      case None
      with remove_color_step [OF loop rd] k kept_root [OF k] show ?thesis
        by (auto intro: kept_set_color)
    next
      case (Some np)
      with R have n: "nxt = Some (pid, nd_parent (m1 pid))"
        and c: "nd_color (m1 pid) = Red \<or> root1 = root \<and> same_links UNIV m m1" by (cases np; auto)+
      have e: "mmt_remove_color True root m nid pid = mmt_remove_color True root1 m1 pid (nd_parent (m1 pid))"
        using remove_color_step [OF loop rd] n by simp
      have p0: "pid \<noteq> 0" using tree_file_nonzero [OF less.prems(3) p] .
      have r1: "root1 \<noteq> 0 \<and> (root1 = pid \<or> nd_color (m1 root1) = Black)"
        by (rule remove_round_root [OF less.prems(3,4) p r0 bl]) (use rd n in simp)
      show ?thesis
      proof (cases "nd_color (m1 pid) = Red")
        case True
        then have "mmt_remove_color True root1 m1 pid (nd_parent (m1 pid)) =
            Some (root1, if 0 < pid then set_color pid Black m1 else m1)"
          using p0 by (intro remove_color_stop) simp
        with e k p r1 p0 show ?thesis by (auto intro: kept_set_color)
      next
        case False
        with c have r: "root1 = root" and sl: "same_links UNIV m m1" by auto
        have l1: "linked m1 0 root t"
          by (rule linked_same [OF less.prems(1) same_links_mono [OF sl]]) simp
        have "(if pid = 0 then Suc (depth_in t (nd_parent (m1 pid))) else depth_in t pid) <
              (if nid = 0 then Suc (depth_in t pid) else depth_in t nid)"
          using dp p0 by simp
        from less.hyps [OF this l1 less.prems(2) _ less.prems(4)] p kept_file [OF k] r r1
        obtain root' m' where "mmt_remove_color True root m1 pid (nd_parent (m1 pid)) = Some (root', m')"
          "kept xs (root, m1) (root', m')" "root' = 0 \<or> nd_color (m' root') = Black" by auto
        with e r k kept_trans show ?thesis by metis
      qed
    qed
  qed
qed

end
