(* ===== verification/MmTreeMap.thy ===== *)
theory MmTreeMap
  imports MmTreeColor
begin

text \<open>
  \<open>c_mmtree\<close> as a map from keys to counters: the invariant of the file (\<open>mm_inv\<close>: a search tree,
  the queue of recycled nodes, the counters of the header), the entries in key order, and what
  every operation of the class does to them.
\<close>

section \<open>The descent\<close>

lemma descend_linked:
  assumes "linked m p nid t" and "nid \<noteq> 0" and "distinct (inorder t)"
    and "sorted_wrt (<) (map (\<lambda>i. nd_key (m i)) (inorder t))" and "\<forall>i \<in> set_tree t. i < n"
  shows "(\<exists>i \<in> set_tree t. nd_key (m i) = k \<and> mmt_descend n m k nid = Some (Found i)) \<or>
    (\<exists>i as bs. inorder t = as @ i # bs \<and> mmt_descend n m k nid = Some (Stopped i) \<and>
       (\<forall>j \<in> set_tree t. nd_key (m j) \<noteq> k) \<and>
       (if k > nd_key (m i) then nd_right (m i) = 0 \<and> (\<forall>j \<in> set bs. k < nd_key (m j))
        else k < nd_key (m i) \<and> nd_left (m i) = 0 \<and> (\<forall>j \<in> set as. nd_key (m j) < k)))"
  using assms
proof (induction t arbitrary: p nid)
  case Leaf
  then show ?case by simp
next
  case (Node l a r)
  have nid: "nid = a" and a: "a \<noteq> 0" "a < n"
    and l: "linked m a (nd_left (m a)) l" and r: "linked m a (nd_right (m a)) r"
    using Node.prems by auto
  have d: "distinct (inorder l)" "distinct (inorder r)" using Node.prems(3) by auto
  have so: "sorted_wrt (<) (map (\<lambda>i. nd_key (m i)) (inorder l))"
    "sorted_wrt (<) (map (\<lambda>i. nd_key (m i)) (inorder r))"
    "\<forall>i \<in> set_tree l. nd_key (m i) < nd_key (m a)" "\<forall>i \<in> set_tree r. nd_key (m a) < nd_key (m i)"
    using Node.prems(4) by (auto simp: sorted_wrt_append)
  have b: "\<forall>i \<in> set_tree l. i < n" "\<forall>i \<in> set_tree r. i < n" using Node.prems(5) by auto
  note step = mmt_descend.simps [of n m k nid]
  consider (eq) "k = nd_key (m a)" | (gt) "k > nd_key (m a)" | (lt) "k < nd_key (m a)" by linarith
  then show ?case
  proof cases
    case eq
    with step nid a show ?thesis by auto
  next
    case gt
    have notl: "nd_key (m j) \<noteq> k" if "j \<in> set_tree l" for j using so(3) that gt by fastforce
    show ?thesis
    proof (cases "nd_right (m a) = 0")
      case True
      with r have "r = Leaf" using linked_Leaf_iff by blast
      with step nid a gt True notl show ?thesis
        by (intro disjI2 exI [of _ a] exI [of _ "inorder l"] exI [of _ "[]"]) auto
    next
      case False
      have e: "mmt_descend n m k nid = mmt_descend n m k (nd_right (m a))"
        using step nid a gt False by simp
      from Node.IH(2) [OF r False d(2) so(2) b(2)] show ?thesis
      proof (elim disjE bexE exE conjE, goal_cases)
        case (1 i)
        then show ?thesis using e by auto
      next
        case (2 i as bs)
        have "inorder (Node l a r) = (inorder l @ a # as) @ i # bs" using 2(1) by simp
        moreover have "\<forall>j \<in> set_tree (Node l a r). nd_key (m j) \<noteq> k" using 2(3) notl gt by auto
        moreover have "if k > nd_key (m i) then nd_right (m i) = 0 \<and> (\<forall>j \<in> set bs. k < nd_key (m j))
            else k < nd_key (m i) \<and> nd_left (m i) = 0 \<and> (\<forall>j \<in> set (inorder l @ a # as). nd_key (m j) < k)"
          using 2(4) so(3) gt by (fastforce split: if_splits)
        moreover have "mmt_descend n m k nid = Some (Stopped i)" using e 2(2) by simp
        ultimately show ?case by blast
      qed
    qed
  next
    case lt
    have notr: "nd_key (m j) \<noteq> k" if "j \<in> set_tree r" for j using so(4) that lt by fastforce
    show ?thesis
    proof (cases "nd_left (m a) = 0")
      case True
      with l have "l = Leaf" using linked_Leaf_iff by blast
      with step nid a lt True notr show ?thesis
        by (intro disjI2 exI [of _ a] exI [of _ "[]"] exI [of _ "inorder r"]) auto
    next
      case False
      have e: "mmt_descend n m k nid = mmt_descend n m k (nd_left (m a))"
        using step nid a lt False by simp
      from Node.IH(1) [OF l False d(1) so(1) b(1)] show ?thesis
      proof (elim disjE bexE exE conjE, goal_cases)
        case (1 i)
        then show ?thesis using e by auto
      next
        case (2 i as bs)
        have "inorder (Node l a r) = as @ i # (bs @ a # inorder r)" using 2(1) by simp
        moreover have "\<forall>j \<in> set_tree (Node l a r). nd_key (m j) \<noteq> k" using 2(3) notr lt by auto
        moreover have "if k > nd_key (m i) then nd_right (m i) = 0 \<and> (\<forall>j \<in> set (bs @ a # inorder r). k < nd_key (m j))
            else k < nd_key (m i) \<and> nd_left (m i) = 0 \<and> (\<forall>j \<in> set as. nd_key (m j) < k)"
          using 2(4) so(4) lt by (fastforce split: if_splits)
        moreover have "mmt_descend n m k nid = Some (Stopped i)" using e 2(2) by simp
        ultimately show ?case by blast
      qed
    qed
  qed
qed

section \<open>Attaching a node\<close>

lemma distinct_split_unique:
  assumes "xs @ x # ys = as @ x # bs" and "distinct (as @ x # bs)"
  shows "xs = as" "ys = bs"
proof -
  have "x \<notin> set as" using assms(2) by auto
  moreover from assms have "distinct (xs @ x # ys)" by simp
  then have "x \<notin> set xs" "x \<notin> set ys" by auto
  ultimately have "xs = as \<and> ys = bs" using assms(1) append_Cons_eq_iff [of x xs ys as bs] by simp
  then show "xs = as" "ys = bs" by simp_all
qed

lemma redirected_same:
  assumes "linked m 0 root t" and "distinct (inorder t)" and "x \<in> set_tree t" and "x \<noteq> root"
    and "same_links {nd_parent (m x)} m m'"
  shows "redirected m m' (nd_parent (m x)) x x"
  using parent_cases [OF assms(1-3)] assms(4,5) by (auto simp: redirected_def same_links_def)

lemma attach_right:
  assumes "linked m 0 root t" and "distinct (inorder t)" and "inorder t = as @ i # bs"
    and "nd_right (m i) = 0" and "v \<noteq> 0" and "v \<notin> set_tree t"
    and "nd_parent (m' v) = i" "nd_left (m' v) = 0" "nd_right (m' v) = 0"
    and "nd_parent (m' i) = nd_parent (m i)" "nd_left (m' i) = nd_left (m i)" "nd_right (m' i) = v"
    and "same_links (set_tree t - {i}) m m'"
  shows "\<exists>t'. linked m' 0 root t' \<and> inorder t' = as @ i # v # bs"
proof -
  let ?px = "nd_parent (m i)"
  have it: "i \<in> set_tree t" using arg_cong [OF assms(3), of set] by simp
  obtain xs tx zs where tx: "linked m ?px i tx" and io: "inorder t = xs @ inorder tx @ zs"
    and p0: "?px = 0 \<longleftrightarrow> root = i" and pt: "?px \<notin> set_tree tx" and sx: "set_tree tx \<subseteq> set_tree t"
    and repl: "\<And>root' m' y ty. linked m' ?px y ty \<Longrightarrow> same_links (set_tree t - set_tree tx - {?px}) m m' \<Longrightarrow>
       (?px \<noteq> 0 \<Longrightarrow> redirected m m' ?px i y) \<Longrightarrow> root' = (if ?px = 0 then y else root) \<Longrightarrow>
       \<exists>t'. linked m' 0 root' t' \<and> inorder t' = xs @ inorder ty @ zs"
    using linked_replace [OF assms(1,2) it] by metis
  obtain A where A: "tx = Node A i Leaf" "linked m i (nd_left (m i)) A"
    using linked_cases [OF tx linked_nonzero [OF assms(1) it]] linked_Leaf_iff assms(4) by metis
  have sub: "set_tree A \<subseteq> set_tree t" and iA: "i \<notin> set_tree A" and i0: "i \<noteq> 0"
    using sx A(1) assms(2) io linked_nonzero [OF assms(1) it] by auto
  have ne: "?px \<noteq> i" using pt A(1) by auto
  have "linked m' i (nd_left (m i)) A"
    by (rule linked_same [OF A(2) same_links_mono [OF assms(13)]]) (use sub iA in auto)
  then have "linked m' ?px i (Node A i (Node Leaf v Leaf))" using assms(5-12) i0 by simp
  moreover have "same_links (set_tree t - set_tree tx - {?px}) m m'"
    by (rule same_links_mono [OF assms(13)]) (use A(1) in auto)
  moreover have "redirected m m' ?px i i" if "?px \<noteq> 0"
  proof (rule redirected_same [OF assms(1,2) it])
    show "i \<noteq> root" using p0 that by auto
    then show "same_links {?px} m m'"
      using parent_cases [OF assms(1,2) it] ne
      by (intro same_links_mono [OF assms(13)]) auto
  qed
  ultimately obtain t' where t': "linked m' 0 root t'"
    "inorder t' = xs @ inorder (Node A i (Node Leaf v Leaf)) @ zs"
    using repl [of m' i "Node A i (Node Leaf v Leaf)" root] p0 by fastforce
  have "(xs @ inorder A) @ i # zs = as @ i # bs" using io A(1) assms(3) by simp
  then have "xs @ inorder A = as" "zs = bs"
    using assms(2,3) by (metis distinct_split_unique)+
  with t' show ?thesis by auto
qed

lemma attach_left:
  assumes "linked m 0 root t" and "distinct (inorder t)" and "inorder t = as @ i # bs"
    and "nd_left (m i) = 0" and "v \<noteq> 0" and "v \<notin> set_tree t"
    and "nd_parent (m' v) = i" "nd_right (m' v) = 0" "nd_left (m' v) = 0"
    and "nd_parent (m' i) = nd_parent (m i)" "nd_right (m' i) = nd_right (m i)" "nd_left (m' i) = v"
    and "same_links (set_tree t - {i}) m m'"
  shows "\<exists>t'. linked m' 0 root t' \<and> inorder t' = as @ v # i # bs"
proof -
  let ?px = "nd_parent (m i)"
  have it: "i \<in> set_tree t" using arg_cong [OF assms(3), of set] by simp
  obtain xs tx zs where tx: "linked m ?px i tx" and io: "inorder t = xs @ inorder tx @ zs"
    and p0: "?px = 0 \<longleftrightarrow> root = i" and pt: "?px \<notin> set_tree tx" and sx: "set_tree tx \<subseteq> set_tree t"
    and repl: "\<And>root' m' y ty. linked m' ?px y ty \<Longrightarrow> same_links (set_tree t - set_tree tx - {?px}) m m' \<Longrightarrow>
       (?px \<noteq> 0 \<Longrightarrow> redirected m m' ?px i y) \<Longrightarrow> root' = (if ?px = 0 then y else root) \<Longrightarrow>
       \<exists>t'. linked m' 0 root' t' \<and> inorder t' = xs @ inorder ty @ zs"
    using linked_replace [OF assms(1,2) it] by metis
  obtain A where A: "tx = Node Leaf i A" "linked m i (nd_right (m i)) A"
    using linked_cases [OF tx linked_nonzero [OF assms(1) it]] linked_Leaf_iff assms(4) by metis
  have sub: "set_tree A \<subseteq> set_tree t" and iA: "i \<notin> set_tree A" and i0: "i \<noteq> 0"
    using sx A(1) assms(2) io linked_nonzero [OF assms(1) it] by auto
  have ne: "?px \<noteq> i" using pt A(1) by auto
  have "linked m' i (nd_right (m i)) A"
    by (rule linked_same [OF A(2) same_links_mono [OF assms(13)]]) (use sub iA in auto)
  then have "linked m' ?px i (Node (Node Leaf v Leaf) i A)" using assms(5-12) i0 by simp
  moreover have "same_links (set_tree t - set_tree tx - {?px}) m m'"
    by (rule same_links_mono [OF assms(13)]) (use A(1) in auto)
  moreover have "redirected m m' ?px i i" if "?px \<noteq> 0"
  proof (rule redirected_same [OF assms(1,2) it])
    show "i \<noteq> root" using p0 that by auto
    then show "same_links {?px} m m'"
      using parent_cases [OF assms(1,2) it] ne
      by (intro same_links_mono [OF assms(13)]) auto
  qed
  ultimately obtain t' where t': "linked m' 0 root t'"
    "inorder t' = xs @ inorder (Node (Node Leaf v Leaf) i A) @ zs"
    using repl [of m' i "Node (Node Leaf v Leaf) i A" root] p0 by fastforce
  have "xs @ i # (inorder A @ zs) = as @ i # bs" using io A(1) assms(3) by simp
  then have "xs = as" "inorder A @ zs = bs"
    using assms(2,3) by (metis distinct_split_unique)+
  with t' show ?thesis by auto
qed

section \<open>The invariant of the file\<close>

fun chain :: "mt_map \<Rightarrow> nat list \<Rightarrow> bool" where
  "chain m [] = True"
| "chain m [a] = True"
| "chain m (a # b # r) = (nd_parent (m a) = b \<and> chain m (b # r))"

definition keys_sorted :: "mt_map \<Rightarrow> nat list \<Rightarrow> bool" where
  "keys_sorted m xs = sorted_wrt (<) (map (\<lambda>i. nd_key (m i)) xs)"

definition entries :: "mt_map \<Rightarrow> nat list \<Rightarrow> (int \<times> int) list" where
  "entries m xs = map (\<lambda>i. (nd_key (m i), nd_data (m i))) xs"

text \<open>\<open>xs\<close> are the nodes of the tree in key order, \<open>fl\<close> the recycled nodes, oldest first.\<close>

definition mm_inv :: "c_mmtree \<Rightarrow> nat list \<Rightarrow> nat list \<Rightarrow> bool" where
  "mm_inv s xs fl \<longleftrightarrow>
     mm_inited s \<and> mm_mapped s \<and> mm_p_mtree s \<and> 0 < mm_increment_num s \<and>
     tree_file xs (st_root_id (mm_state s)) (mm_map s) \<and>
     distinct (xs @ fl) \<and> set (xs @ fl) = {1..st_current (mm_state s)} \<and>
     keys_sorted (mm_map s) xs \<and>
     st_current (mm_state s) < st_total (mm_state s) \<and>
     chain (mm_map s) fl \<and> (fl \<noteq> [] \<longrightarrow> st_qfirst (mm_state s) = hd fl \<and> st_qlast (mm_state s) = last fl) \<and>
     st_qleft (mm_state s) = int (length fl) \<and>
     st_left (mm_state s) = int (st_total (mm_state s)) - 1 - int (st_current (mm_state s)) + int (length fl) \<and>
     (\<forall>i. i \<notin> set xs \<longrightarrow> nd_left (mm_map s i) = 0 \<and> nd_right (mm_map s i) = 0) \<and>
     (xs \<noteq> [] \<longrightarrow> nd_color (mm_map s (st_root_id (mm_state s))) = Black)"

definition mm_abs :: "c_mmtree \<Rightarrow> int \<Rightarrow> int option" where
  "mm_abs s k = (case mmt_get True k s of Some (_, _, v) \<Rightarrow> v | None \<Rightarrow> None)"

lemma mm_invD:
  assumes "mm_inv s xs fl"
  shows "mm_inited s" "mm_mapped s" "mm_p_mtree s" "0 < mm_increment_num s"
    "tree_file xs (st_root_id (mm_state s)) (mm_map s)" "distinct xs" "distinct fl" "set xs \<inter> set fl = {}"
    "set xs \<union> set fl = {1..st_current (mm_state s)}" "keys_sorted (mm_map s) xs"
    "st_current (mm_state s) < st_total (mm_state s)" "chain (mm_map s) fl"
    "fl \<noteq> [] \<Longrightarrow> st_qfirst (mm_state s) = hd fl \<and> st_qlast (mm_state s) = last fl"
    "st_qleft (mm_state s) = int (length fl)"
    "st_left (mm_state s) = int (st_total (mm_state s)) - 1 - int (st_current (mm_state s)) + int (length fl)"
    "\<And>i. i \<notin> set xs \<Longrightarrow> nd_left (mm_map s i) = 0 \<and> nd_right (mm_map s i) = 0"
    "xs \<noteq> [] \<Longrightarrow> nd_color (mm_map s (st_root_id (mm_state s))) = Black"
  using assms by (auto simp: mm_inv_def)

lemma mm_inv_set_err [simp]: "mm_inv (set_err e s) xs fl = mm_inv s xs fl"
  by (simp add: mm_inv_def)

lemma mm_inv_tree:
  assumes "mm_inv s xs fl"
  obtains t where "linked (mm_map s) 0 (st_root_id (mm_state s)) t" "inorder t = xs" "set_tree t = set xs"
proof -
  from mm_invD(5) [OF assms] obtain t where "linked (mm_map s) 0 (st_root_id (mm_state s)) t" "inorder t = xs"
    by (auto simp: tree_file_def)
  moreover from this(2) have "set_tree t = set xs" by auto
  ultimately show thesis by (rule that)
qed

lemma mm_inv_root: "mm_inv s xs fl \<Longrightarrow> st_root_id (mm_state s) = 0 \<longleftrightarrow> xs = []"
proof (erule mm_inv_tree)
  fix t assume "linked (mm_map s) 0 (st_root_id (mm_state s)) t" "inorder t = xs"
  with linked_Leaf_iff [OF this(1)] show ?thesis by (cases t) auto
qed

lemma mm_inv_range:
  assumes "mm_inv s xs fl"
  shows "i \<in> set xs \<or> i \<in> set fl \<longleftrightarrow> 1 \<le> i \<and> i \<le> st_current (mm_state s)"
  using arg_cong [OF mm_invD(9) [OF assms], of "\<lambda>A. i \<in> A"] by simp

lemma mm_inv_bound: "mm_inv s xs fl \<Longrightarrow> i \<in> set xs \<Longrightarrow> 0 < i \<and> i < st_total (mm_state s)"
  using mm_inv_range [of s xs fl i] mm_invD(11) [of s xs fl] by simp

text \<open>The descent from the root on a well-formed file.\<close>

lemma mm_inv_descend:
  assumes "mm_inv s xs fl" and "xs \<noteq> []"
  shows "(\<exists>i \<in> set xs. nd_key (mm_map s i) = k \<and>
       mmt_descend (st_total (mm_state s)) (mm_map s) k (st_root_id (mm_state s)) = Some (Found i)) \<or>
    (\<exists>i as bs. xs = as @ i # bs \<and>
       mmt_descend (st_total (mm_state s)) (mm_map s) k (st_root_id (mm_state s)) = Some (Stopped i) \<and>
       (\<forall>j \<in> set xs. nd_key (mm_map s j) \<noteq> k) \<and>
       (if k > nd_key (mm_map s i) then nd_right (mm_map s i) = 0 \<and> (\<forall>j \<in> set bs. k < nd_key (mm_map s j))
        else k < nd_key (mm_map s i) \<and> nd_left (mm_map s i) = 0 \<and> (\<forall>j \<in> set as. nd_key (mm_map s j) < k)))"
proof -
  obtain t where t: "linked (mm_map s) 0 (st_root_id (mm_state s)) t" "inorder t = xs" "set_tree t = set xs"
    using mm_inv_tree [OF assms(1)] .
  have "st_root_id (mm_state s) \<noteq> 0" using mm_inv_root [OF assms(1)] assms(2) by simp
  from descend_linked [OF t(1) this, of "st_total (mm_state s)" k] t(2,3) mm_invD(6,10) [OF assms(1)]
    mm_inv_bound [OF assms(1)] show ?thesis by (simp add: keys_sorted_def)
qed

lemma mm_inv_descend_empty:
  "mm_inv s [] fl \<Longrightarrow> mmt_descend (st_total (mm_state s)) (mm_map s) k (st_root_id (mm_state s)) = Some (Stopped 0)"
  using mm_inv_root [of s "[]" fl] by (subst mmt_descend.simps) simp

lemma keys_sorted_distinct: "keys_sorted m xs \<Longrightarrow> distinct (map (\<lambda>i. nd_key (m i)) xs)"
  unfolding keys_sorted_def by (induction xs) auto

lemma map_fst_entries [simp]: "map fst (entries m xs) = map (\<lambda>i. nd_key (m i)) xs"
  by (simp add: entries_def)

lemma map_of_entries:
  assumes "keys_sorted m xs" and "i \<in> set xs"
  shows "map_of (entries m xs) (nd_key (m i)) = Some (nd_data (m i))"
  by (rule map_of_is_SomeI) (use assms keys_sorted_distinct in \<open>auto simp: entries_def comp_def\<close>)

lemma map_of_entries_None:
  "(\<forall>i \<in> set xs. nd_key (m i) \<noteq> k) \<longleftrightarrow> map_of (entries m xs) k = None"
  by (auto simp: map_of_eq_None_iff entries_def image_image)

lemma mm_inv_get:
  assumes "mm_inv s xs fl"
  shows "mmt_get True k s = Some (case map_of (entries (mm_map s) xs) k of
      Some v \<Rightarrow> (s, 0, Some v) | None \<Rightarrow> (set_err MMT_IFACE_EFIND s, -1, None))"
proof (cases "xs = []")
  case True
  with assms mm_inv_descend_empty [of s fl k] show ?thesis
    by (simp add: mmt_get_def entries_def mm_invD)
next
  case False
  from mm_inv_descend [OF assms False, of k] show ?thesis
  proof (elim disjE bexE exE conjE, goal_cases)
    case (1 i)
    with map_of_entries [OF mm_invD(10) [OF assms], of i] show ?case
      by (auto simp: mmt_get_def mm_invD [OF assms])
  next
    case (2 i as bs)
    with map_of_entries_None [of xs "mm_map s" k] show ?case
      by (auto simp: mmt_get_def mm_invD [OF assms])
  qed
qed

lemma mm_inv_abs: "mm_inv s xs fl \<Longrightarrow> mm_abs s = map_of (entries (mm_map s) xs)"
  by (rule ext) (simp add: mm_abs_def mm_inv_get split: option.split)

section \<open>Inserting\<close>

text \<open>What \<open>insert_new_node\<close> does below a well-formed file that has room.\<close>

lemma keys_sorted_insert:
  assumes "keys_sorted m (as @ bs)" and "\<forall>j \<in> set as. nd_key (m j) < nd_key (m v)"
    and "\<forall>j \<in> set bs. nd_key (m v) < nd_key (m j)"
  shows "keys_sorted m (as @ v # bs)"
  using assms by (auto simp: keys_sorted_def sorted_wrt_append)

lemma map_of_insert:
  assumes "distinct (map fst (as @ (k, d) # bs))"
  shows "map_of (as @ (k, d) # bs) = (map_of (as @ bs))(k \<mapsto> d)"
proof -
  have "k \<notin> fst ` set as" using assms by auto
  then have "map_of as k = None" by (simp add: map_of_eq_None_iff)
  then show ?thesis by (auto simp: map_add_def fun_eq_iff split: option.splits)
qed

lemma chain_frame: "chain m fl \<Longrightarrow> \<forall>i \<in> set fl. nd_parent (m' i) = nd_parent (m i) \<Longrightarrow> chain m' fl"
  by (induction fl rule: induct_list012) auto

lemma chain_tl: "chain m (a # fl) \<Longrightarrow> chain m fl"
  by (cases fl) auto

lemma increment_inv:
  assumes "mm_inv s xs fl"
  shows "\<exists>s0. mmtree_increment True s = (s0, 0) \<and> mm_inv s0 xs fl \<and> 0 < st_left (mm_state s0) \<and>
    st_root_id (mm_state s0) = st_root_id (mm_state s) \<and> st_nonzero (mm_state s0) = st_nonzero (mm_state s) \<and>
    (\<forall>i \<in> set xs. mm_map s0 i = mm_map s i)"
proof -
  note D = mm_invD [OF assms]
  let ?m = "\<lambda>i. if st_total (mm_state s) \<le> i \<and> i < st_total (mm_state s) + mm_increment_num s
            then null_node else mm_map s i"
  have t0: "st_total (mm_state s) \<noteq> 0" using D(11) by simp
  have low: "?m i = mm_map s i" if "i \<in> set xs \<or> i \<in> set fl \<or> i = 0" for i
    using that mm_inv_range [OF assms, of i] D(11) t0 by auto
  have "tree_file xs (st_root_id (mm_state s)) ?m"
  proof -
    obtain t where t: "linked (mm_map s) 0 (st_root_id (mm_state s)) t" "inorder t = xs" "set_tree t = set xs"
      using mm_inv_tree [OF assms] .
    have "linked ?m 0 (st_root_id (mm_state s)) t"
      by (rule linked_same [OF t(1)]) (use low t(3) in \<open>simp add: same_links_def\<close>)
    with t(2) D(5) low [of 0] show ?thesis by (auto simp: tree_file_def)
  qed
  moreover have "keys_sorted ?m xs" using D(10) low by (simp add: keys_sorted_def cong: map_cong)
  moreover have "chain ?m fl" by (rule chain_frame [OF D(12)]) (use low in simp)
  moreover have "xs \<noteq> [] \<Longrightarrow> nd_color (?m (st_root_id (mm_state s))) = Black"
  proof -
    assume "xs \<noteq> []"
    moreover from this have "st_root_id (mm_state s) \<in> set xs"
      using mm_inv_root [OF assms] mm_inv_tree [OF assms] linked_root by metis
    ultimately show ?thesis using low D(17) by simp
  qed
  ultimately have inv: "tree_file xs (st_root_id (mm_state s)) ?m \<and> keys_sorted ?m xs \<and> chain ?m fl \<and>
    (xs \<noteq> [] \<longrightarrow> nd_color (?m (st_root_id (mm_state s))) = Black) \<and>
    (\<forall>i. i \<notin> set xs \<longrightarrow> nd_left (?m i) = 0 \<and> nd_right (?m i) = 0)"
    using D(16) by (simp add: null_node_def)
  let ?n = "mm_increment_num s"
  let ?s0 = "s\<lparr>mm_size := mm_size s + ?n * sizeof_mt_node, mm_mapped := True,
    mm_state := (mm_state s)\<lparr>st_left := st_left (mm_state s) + int ?n, st_total := st_total (mm_state s) + ?n\<rparr>,
    mm_map := ?m,
    mm_increment_num := if ?n * 2 > MAX_INCREMENT_SIZE then INITIAL_INCREMENT_SIZE else ?n * 2\<rparr>"
  have "mmtree_increment True s = (?s0, 0)"
    using D(3) t0 by (simp add: mmtree_increment_def Let_def cong: if_cong)
  moreover have "mm_inv ?s0 xs fl"
    using D(1-4,6-9,11,13-15) inv unfolding mm_inv_def by (simp add: INITIAL_INCREMENT_SIZE_def)
  moreover have "0 < st_left (mm_state ?s0)" using D(4,11,15) by simp
  moreover have "\<forall>i \<in> set xs. mm_map ?s0 i = mm_map s i" using low by simp
  ultimately show ?thesis by (intro exI [of _ ?s0]) simp
qed

text \<open>
  The slot \<open>insert_new_node\<close> takes: the oldest recycled one, or the next fresh one. It is not in
  use, and the queue that is left is well formed.
\<close>

lemma insert_slot:
  assumes "mm_inv s xs fl" and "0 < st_left (mm_state s)"
    and "(v, st1) = (if 0 < st_qleft (mm_state s) then
           (st_qfirst (mm_state s), (mm_state s)\<lparr>st_qfirst := nd_parent (mm_map s (st_qfirst (mm_state s))),
                                                 st_qleft := st_qleft (mm_state s) - 1\<rparr>)
         else (Suc (st_current (mm_state s)), (mm_state s)\<lparr>st_current := Suc (st_current (mm_state s))\<rparr>))"
  obtains fl' where "v \<notin> set xs" "v \<noteq> 0" "v \<notin> set fl'" "distinct fl'" "set xs \<inter> set fl' = {}"
    "insert v (set xs) \<union> set fl' = {1..st_current st1}" "st_current st1 < st_total st1"
    "chain (mm_map s) fl'" "fl' \<noteq> [] \<longrightarrow> st_qfirst st1 = hd fl' \<and> st_qlast st1 = last fl'"
    "st_qleft st1 = int (length fl')"
    "st_left st1 = int (st_total st1) - int (st_current st1) + int (length fl')"
    "st_root_id st1 = st_root_id (mm_state s)" "st_nonzero st1 = st_nonzero (mm_state s)"
proof (cases fl)
  case Nil
  note D = mm_invD [OF assms(1)]
  have e: "v = Suc (st_current (mm_state s))" "st1 = (mm_state s)\<lparr>st_current := Suc (st_current (mm_state s))\<rparr>"
    using assms(3) D(14) Nil by auto
  have "v \<notin> set xs" using mm_inv_range [OF assms(1), of v] e by auto
  moreover have "insert v (set xs) \<union> set [] = {1..st_current st1}"
    using D(9) Nil e by (auto simp: atLeastAtMostSuc_conv)
  moreover have "st_current st1 < st_total st1" using assms(2) D(15) Nil e by simp
  ultimately show thesis using that [of "[]"] e D(14,15) Nil by simp
next
  case (Cons w ws)
  note D = mm_invD [OF assms(1)]
  have w: "st_qfirst (mm_state s) = w" using D(13) Cons by simp
  then have e: "v = w" "st1 = (mm_state s)\<lparr>st_qfirst := nd_parent (mm_map s w), st_qleft := st_qleft (mm_state s) - 1\<rparr>"
    using assms(3) D(14) Cons by auto
  have v: "v \<notin> set xs" "v \<noteq> 0" "v \<notin> set ws" "distinct ws" "set xs \<inter> set ws = {}"
    using D(7,8) Cons e mm_inv_range [OF assms(1), of v] by auto
  have "insert v (set xs) \<union> set ws = {1..st_current st1}"
    using D(9) Cons e by auto
  moreover have "chain (mm_map s) ws" using D(12) Cons chain_tl by simp
  moreover have "ws \<noteq> [] \<longrightarrow> st_qfirst st1 = hd ws \<and> st_qlast st1 = last ws"
    using D(12,13) Cons e by (cases ws) auto
  ultimately show thesis using that [of ws] v e D(11,14,15) Cons by simp
qed

lemma keys_sorted_cong:
  assumes "\<forall>i \<in> set xs. nd_key (m' i) = nd_key (m i)"
  shows "keys_sorted m' xs = keys_sorted m xs"
proof -
  have "map (\<lambda>i. nd_key (m' i)) xs = map (\<lambda>i. nd_key (m i)) xs" using assms by simp
  then show ?thesis by (simp only: keys_sorted_def)
qed

text \<open>Linking the new node below the node where the descent stopped.\<close>

lemma insert_place:
  assumes "mm_inv s xs fl" and "xs = as @ i # bs" and "v \<notin> set xs" and "v \<noteq> 0"
    and "\<forall>j \<in> set xs. nd_key (mm_map s j) \<noteq> k"
    and "if k > nd_key (mm_map s i) then nd_right (mm_map s i) = 0 \<and> (\<forall>j \<in> set bs. k < nd_key (mm_map s j))
         else k < nd_key (mm_map s i) \<and> nd_left (mm_map s i) = 0 \<and> (\<forall>j \<in> set as. nd_key (mm_map s j) < k)"
    and "m1 = (mm_map s)(v := (mm_map s v)\<lparr>nd_parent := i, nd_key := k, nd_data := d\<rparr>)"
    and "m2 = (if k > nd_key (m1 i) then set_right i v m1 else set_left i v m1)"
    and "m3 = set_color v Red m2"
  shows "\<exists>t ys zs. linked m3 0 (st_root_id (mm_state s)) t \<and> inorder t = ys @ v # zs \<and> xs = ys @ zs \<and>
    keys_sorted m3 (ys @ v # zs) \<and>
    (\<forall>j. j \<noteq> v \<longrightarrow> nd_key (m3 j) = nd_key (mm_map s j) \<and> nd_data (m3 j) = nd_data (mm_map s j) \<and>
      nd_parent (m3 j) = nd_parent (mm_map s j) \<and> nd_color (m3 j) = nd_color (mm_map s j)) \<and>
    (\<forall>j. j \<noteq> v \<longrightarrow> j \<noteq> i \<longrightarrow> m3 j = mm_map s j) \<and>
    nd_key (m3 v) = k \<and> nd_data (m3 v) = d \<and> i \<noteq> v"
proof -
  note D = mm_invD [OF assms(1)]
  let ?m = "mm_map s"
  obtain t where t: "linked ?m 0 (st_root_id (mm_state s)) t" "inorder t = xs" "set_tree t = set xs"
    using mm_inv_tree [OF assms(1)] .
  have iv: "i \<noteq> v" using assms(2,3) by auto
  have z: "nd_left (?m v) = 0" "nd_right (?m v) = 0" using D(16) assms(3) by auto
  have d: "distinct (inorder t)" using t(2) D(6) by simp
  have io: "inorder t = as @ i # bs" using t(2) assms(2) by simp
  have vt: "v \<notin> set_tree t" using t(3) assms(3) by simp
  have F: "nd_key (m3 j) = (if j = v then k else nd_key (?m j))"
    "nd_data (m3 j) = (if j = v then d else nd_data (?m j))"
    "nd_parent (m3 j) = (if j = v then i else nd_parent (?m j))"
    "nd_color (m3 j) = (if j = v then Red else nd_color (?m j))"
    "j \<noteq> v \<Longrightarrow> j \<noteq> i \<Longrightarrow> m3 j = ?m j" for j
    using assms(7-9) iv by (auto simp: set_left_def set_right_def set_color_def)
  have "\<forall>j \<in> set xs. nd_key (m3 j) = nd_key (?m j)" using assms(3) F(1) by auto
  then have so: "keys_sorted m3 xs" using D(10) keys_sorted_cong by blast
  have same: "same_links (set_tree t - {i}) ?m m3"
    unfolding same_links_def
  proof
    fix j assume "j \<in> set_tree t - {i}"
    with vt have "j \<noteq> v" "j \<noteq> i" by auto
    then show "nd_left (m3 j) = nd_left (?m j) \<and> nd_right (m3 j) = nd_right (?m j) \<and>
      nd_parent (m3 j) = nd_parent (?m j)" by (simp add: F(5))
  qed
  show ?thesis
  proof (cases "k > nd_key (?m i)")
    case True
    then have m2: "m2 = set_right i v m1" using assms(7,8) iv by simp
    have ri: "nd_right (?m i) = 0" "\<forall>j \<in> set bs. k < nd_key (?m j)" using True assms(6) by auto
    have G: "nd_parent (m3 v) = i" "nd_left (m3 v) = 0" "nd_right (m3 v) = 0"
      "nd_parent (m3 i) = nd_parent (?m i)" "nd_left (m3 i) = nd_left (?m i)" "nd_right (m3 i) = v"
      using assms(7,9) m2 iv z by auto
    from attach_right [OF t(1) d io ri(1) assms(4) vt G same] obtain t' where
      t': "linked m3 0 (st_root_id (mm_state s)) t'" "inorder t' = (as @ [i]) @ v # bs" by auto
    moreover have "keys_sorted m3 ((as @ [i]) @ v # bs)"
    proof (rule keys_sorted_insert)
      show "keys_sorted m3 ((as @ [i]) @ bs)" using so assms(2) by simp
      have "\<forall>j \<in> set as. nd_key (?m j) < nd_key (?m i)"
        using D(10) assms(2) by (auto simp: keys_sorted_def sorted_wrt_append)
      then show "\<forall>j \<in> set (as @ [i]). nd_key (m3 j) < nd_key (m3 v)"
        using True assms(2,3) F(1) by auto
      show "\<forall>j \<in> set bs. nd_key (m3 v) < nd_key (m3 j)" using ri(2) assms(2,3) F(1) by auto
    qed
    ultimately show ?thesis using assms(2) iv F
      by (intro exI [of _ t'] exI [of _ "as @ [i]"] exI [of _ bs]) auto
  next
    case False
    then have m2: "m2 = set_left i v m1" using assms(7,8) iv by simp
    have li: "nd_left (?m i) = 0" "k < nd_key (?m i)" "\<forall>j \<in> set as. nd_key (?m j) < k"
      using False assms(6) by auto
    have G: "nd_parent (m3 v) = i" "nd_right (m3 v) = 0" "nd_left (m3 v) = 0"
      "nd_parent (m3 i) = nd_parent (?m i)" "nd_right (m3 i) = nd_right (?m i)" "nd_left (m3 i) = v"
      using assms(7,9) m2 iv z by auto
    from attach_left [OF t(1) d io li(1) assms(4) vt G same] obtain t' where
      t': "linked m3 0 (st_root_id (mm_state s)) t'" "inorder t' = as @ v # (i # bs)" by auto
    moreover have "keys_sorted m3 (as @ v # (i # bs))"
    proof (rule keys_sorted_insert)
      show "keys_sorted m3 (as @ i # bs)" using so assms(2) by simp
      show "\<forall>j \<in> set as. nd_key (m3 j) < nd_key (m3 v)" using li(3) assms(2,3) F(1) by auto
      have "\<forall>j \<in> set bs. nd_key (?m i) < nd_key (?m j)"
        using D(10) assms(2) by (auto simp: keys_sorted_def sorted_wrt_append)
      then show "\<forall>j \<in> set (i # bs). nd_key (m3 v) < nd_key (m3 j)"
        using li(2) assms(2,3) F(1) by fastforce
    qed
    ultimately show ?thesis using assms(2) iv F
      by (intro exI [of _ t'] exI [of _ as] exI [of _ "i # bs"]) auto
  qed
qed

text \<open>The number of entries with a non-zero value, which the header counts.\<close>

definition nz :: "(int \<times> int) list \<Rightarrow> nat" where
  "nz es = length (filter (\<lambda>e. snd e \<noteq> 0) es)"

lemma entries_insert:
  assumes "keys_sorted m' (ys @ v # zs)" and "nd_key (m' v) = k" and "nd_data (m' v) = d"
    and "\<forall>j. j \<noteq> v \<longrightarrow> nd_key (m' j) = nd_key (m j) \<and> nd_data (m' j) = nd_data (m j)" and "v \<notin> set (ys @ zs)"
  shows "map_of (entries m' (ys @ v # zs)) = (map_of (entries m (ys @ zs)))(k \<mapsto> d) \<and>
    nz (entries m' (ys @ v # zs)) = nz (entries m (ys @ zs)) + (if d \<noteq> 0 then 1 else 0)"
proof -
  have e: "entries m' zs' = entries m zs'" if "v \<notin> set zs'" for zs'
    using assms(4) that by (auto simp: entries_def)
  have 1: "entries m' (ys @ v # zs) = entries m ys @ (k, d) # entries m zs"
    using assms(2,3,5) e [of ys] e [of zs] by (simp add: entries_def)
  have "distinct (map fst (entries m' (ys @ v # zs)))"
    using keys_sorted_distinct [OF assms(1)] by (simp only: map_fst_entries)
  moreover have "entries m (ys @ zs) = entries m ys @ entries m zs" by (simp add: entries_def)
  ultimately have "map_of (entries m' (ys @ v # zs)) = (map_of (entries m (ys @ zs)))(k \<mapsto> d)"
    using map_of_insert [of "entries m ys" k d "entries m zs"] by (simp only: 1)
  moreover have "nz (entries m' (ys @ v # zs)) = nz (entries m (ys @ zs)) + (if d \<noteq> 0 then 1 else 0)"
    unfolding 1 by (simp add: nz_def entries_def)
  ultimately show ?thesis by blast
qed

lemma insert_new_node_inv:
  assumes "mm_inv s xs fl" and "xs = as @ i # bs"
    and "\<forall>j \<in> set xs. nd_key (mm_map s j) \<noteq> k"
    and "if k > nd_key (mm_map s i) then nd_right (mm_map s i) = 0 \<and> (\<forall>j \<in> set bs. k < nd_key (mm_map s j))
         else k < nd_key (mm_map s i) \<and> nd_left (mm_map s i) = 0 \<and> (\<forall>j \<in> set as. nd_key (mm_map s j) < k)"
    and "mmap_ok \<or> st_left (mm_state s) \<noteq> 0"
  shows "\<exists>s' xs' fl'. insert_new_node mmap_ok i k d s = Some (s', 0) \<and> mm_inv s' xs' fl' \<and>
    map_of (entries (mm_map s') xs') = (map_of (entries (mm_map s) xs))(k \<mapsto> d) \<and>
    nz (entries (mm_map s') xs') = nz (entries (mm_map s) xs) + (if d \<noteq> 0 then 1 else 0) \<and>
    st_nonzero (mm_state s') = st_nonzero (mm_state s) + (if d \<noteq> 0 then 1 else 0)"
proof -
  have "st_left (mm_state s) \<ge> 0" using mm_invD(11,15) [OF assms(1)] by simp
  then obtain s0 where s0: "(if st_left (mm_state s) = 0 then mmtree_increment mmap_ok s else (s, 0)) = (s0, 0)"
    "mm_inv s0 xs fl" "0 < st_left (mm_state s0)" "st_root_id (mm_state s0) = st_root_id (mm_state s)"
    "st_nonzero (mm_state s0) = st_nonzero (mm_state s)" "\<forall>i \<in> set xs. mm_map s0 i = mm_map s i"
    using increment_inv [OF assms(1)] assms(1,5) by (cases "st_left (mm_state s) = 0") auto
  have en: "entries (mm_map s0) xs = entries (mm_map s) xs" using s0(6) by (simp add: entries_def)
  have i: "i \<in> set xs" using assms(2) by simp
  obtain v st1 where slot: "(v, st1) = (if 0 < st_qleft (mm_state s0) then
           (st_qfirst (mm_state s0), (mm_state s0)\<lparr>st_qfirst := nd_parent (mm_map s0 (st_qfirst (mm_state s0))),
                                                 st_qleft := st_qleft (mm_state s0) - 1\<rparr>)
         else (Suc (st_current (mm_state s0)), (mm_state s0)\<lparr>st_current := Suc (st_current (mm_state s0))\<rparr>))"
    by (metis prod.collapse)
  obtain fl' where v: "v \<notin> set xs" "v \<noteq> 0" "v \<notin> set fl'" and f: "distinct fl'" "set xs \<inter> set fl' = {}"
    "insert v (set xs) \<union> set fl' = {1..st_current st1}" "st_current st1 < st_total st1"
    "chain (mm_map s0) fl'" "fl' \<noteq> [] \<longrightarrow> st_qfirst st1 = hd fl' \<and> st_qlast st1 = last fl'"
    "st_qleft st1 = int (length fl')"
    "st_left st1 = int (st_total st1) - int (st_current st1) + int (length fl')"
    "st_root_id st1 = st_root_id (mm_state s0)" "st_nonzero st1 = st_nonzero (mm_state s0)"
    using insert_slot [OF s0(2,3) slot] .
  define m1 where "m1 = (mm_map s0)(v := (mm_map s0 v)\<lparr>nd_parent := i, nd_key := k, nd_data := d\<rparr>)"
  define m2 where "m2 = (if k > nd_key (m1 i) then set_right i v m1 else set_left i v m1)"
  define m3 where "m3 = set_color v Red m2"
  have key: "\<forall>j \<in> set xs. nd_key (mm_map s0 j) \<noteq> k"
    "if k > nd_key (mm_map s0 i) then nd_right (mm_map s0 i) = 0 \<and> (\<forall>j \<in> set bs. k < nd_key (mm_map s0 j))
     else k < nd_key (mm_map s0 i) \<and> nd_left (mm_map s0 i) = 0 \<and> (\<forall>j \<in> set as. nd_key (mm_map s0 j) < k)"
    using assms(2-4) s0(6) by simp_all
  from insert_place [OF s0(2) assms(2) v(1,2) key m1_def m2_def m3_def]
  obtain t ys zs where t: "linked m3 0 (st_root_id (mm_state s0)) t" "inorder t = ys @ v # zs" "xs = ys @ zs"
    and so: "keys_sorted m3 (ys @ v # zs)"
    and F: "\<And>j. j \<noteq> v \<Longrightarrow> nd_key (m3 j) = nd_key (mm_map s0 j) \<and> nd_data (m3 j) = nd_data (mm_map s0 j) \<and>
      nd_parent (m3 j) = nd_parent (mm_map s0 j) \<and> nd_color (m3 j) = nd_color (mm_map s0 j)"
      "\<And>j. j \<noteq> v \<Longrightarrow> j \<noteq> i \<Longrightarrow> m3 j = mm_map s0 j" "nd_key (m3 v) = k" "nd_data (m3 v) = d" "i \<noteq> v"
    by blast
  note D = mm_invD [OF s0(2)]
  have dt: "distinct (inorder t)" using t(2,3) D(6) v(1) by auto
  have st: "set_tree t = insert v (set xs)" using arg_cong [OF t(2), of set] t(3) by simp
  have rt: "st_root_id (mm_state s0) \<noteq> v"
  proof
    assume r: "st_root_id (mm_state s0) = v"
    obtain t0 where "linked (mm_map s0) 0 (st_root_id (mm_state s0)) t0" "set_tree t0 = set xs"
      using mm_inv_tree [OF s0(2)] .
    with linked_root [of "mm_map s0" 0 v t0] r v show False by auto
  qed
  have "nd_color (m3 (st_root_id (mm_state s0))) = Black"
    using F(1) [OF rt] D(17) assms(2) by simp
  with insert_color_total [OF t(1) dt, of v] st obtain root' m4 t' where
    c: "mmtree_insert_color True (st_root_id (mm_state s0)) m3 v = Some (root', m4)"
    and t': "linked m4 0 root' t'" "inorder t' = inorder t" and fr: "frame (set_tree t) m3 m4"
    and se: "same_entries m3 m4" and bl: "nd_color (m4 root') = Black"
    by auto
  have zero: "m4 0 = mm_map s0 0" 
  proof -
    have "0 \<notin> set_tree t" using linked_nonzero [OF t(1)] by blast
    moreover have "i \<noteq> 0" using mm_inv_bound [OF s0(2) i] by simp
    ultimately show ?thesis using fr F(2) [of 0] v(2) by (simp add: frame_def)
  qed
  let ?xs = "ys @ v # zs"
  let ?s = "s0\<lparr>mm_state := (if d \<noteq> 0 then st1\<lparr>st_left := st_left st1 - 1, st_root_id := root', st_nonzero := st_nonzero st1 + 1\<rparr>
                            else st1\<lparr>st_left := st_left st1 - 1, st_root_id := root'\<rparr>), mm_map := m4\<rparr>"
  have e: "insert_new_node mmap_ok i k d s = Some (?s, 0)"
    by (simp only: insert_new_node_def Let_def s0(1) slot [symmetric] prod.case
        m1_def [symmetric] m2_def [symmetric] m3_def [symmetric]) (simp add: c D(3) f(9))
  have tf: "tree_file ?xs root' m4" using t' t(2) zero D(5) by (auto simp: tree_file_def)
  have ks: "keys_sorted m4 ?xs" using so keys_sorted_cong [of ?xs m4 m3] se by (simp add: same_entries_def)
  have out: "nd_left (m4 j) = 0 \<and> nd_right (m4 j) = 0" if "j \<notin> set ?xs" for j
  proof -
    from that t(3) have "j \<notin> set_tree t" "j \<noteq> v" "j \<noteq> i" "j \<notin> set xs" using st i by auto
    then show ?thesis using fr F(2) [of j] D(16) [of j] by (simp add: frame_def)
  qed
  have ch: "chain m4 fl'"
  proof (rule chain_frame [OF f(5)], rule)
    fix j assume j: "j \<in> set fl'"
    then have "j \<notin> set_tree t" "j \<noteq> v" "j \<noteq> i" using st v(3) f(2) i by auto
    then show "nd_parent (m4 j) = nd_parent (mm_map s0 j)" using fr F(2) [of j] by (simp add: frame_def)
  qed
  have "mm_inv ?s ?xs fl'"
    using D(1-4) tf ks ch out bl f v t(3) D(6) unfolding mm_inv_def by auto
  moreover have "map_of (entries m4 ?xs) = (map_of (entries (mm_map s0) (ys @ zs)))(k \<mapsto> d) \<and>
      nz (entries m4 ?xs) = nz (entries (mm_map s0) (ys @ zs)) + (if d \<noteq> 0 then 1 else 0)"
    by (rule entries_insert [OF ks]) (use F se v(1) t(3) in \<open>auto simp: same_entries_def\<close>)
  ultimately show ?thesis using e en t(3) s0(5) f(10) by (intro exI [of _ ?s] exI [of _ ?xs] exI [of _ fl']) auto
qed

lemma insert_root_inv:
  assumes "mm_inv s [] fl" and "Suc (st_current (mm_state s)) < st_total (mm_state s)"
  shows "mm_inv (fst (insert_root_node k d s)) [Suc (st_current (mm_state s))] fl \<and>
    entries (mm_map (fst (insert_root_node k d s))) [Suc (st_current (mm_state s))] = [(k, d)] \<and>
    st_nonzero (mm_state (fst (insert_root_node k d s))) = st_nonzero (mm_state s) + (if d \<noteq> 0 then 1 else 0)"
proof -
  note D = mm_invD [OF assms(1)]
  let ?v = "Suc (st_current (mm_state s))"
  let ?m = "(mm_map s)(?v := null_node\<lparr>nd_key := k, nd_data := d, nd_color := Black\<rparr>)"
  have v: "?v \<notin> set fl" using mm_inv_range [OF assms(1), of ?v] by auto
  have "linked ?m 0 ?v (Node Leaf ?v Leaf)" by (simp add: null_node_def)
  then have "tree_file [?v] ?v ?m" using D(5) unfolding tree_file_def
    by (intro conjI exI [of _ "Node Leaf ?v Leaf"]) auto
  moreover have "chain ?m fl" by (rule chain_frame [OF D(12)]) (use v in auto)
  moreover have "insert ?v (set fl) = {1..?v}" using D(9) by (auto simp: atLeastAtMostSuc_conv)
  ultimately show ?thesis using D assms(2) v
    by (auto simp: insert_root_node_def Let_def mm_inv_def keys_sorted_def null_node_def entries_def)
qed

lemma insert_inv:
  assumes "mm_inv s xs fl" and "xs = [] \<longrightarrow> Suc (st_current (mm_state s)) < st_total (mm_state s)"
    and "mmap_ok \<or> st_left (mm_state s) \<noteq> 0"
  shows "if mm_abs s k \<noteq> None then mmt_insert mmap_ok k d s = Some (set_err MMT_IFACE_EINSERT s, -1)
    else \<exists>s' xs' fl'. mmt_insert mmap_ok k d s = Some (s', 0) \<and> mm_inv s' xs' fl' \<and>
      mm_abs s' = (mm_abs s)(k \<mapsto> d) \<and>
      nz (entries (mm_map s') xs') = nz (entries (mm_map s) xs) + (if d \<noteq> 0 then 1 else 0) \<and>
      st_nonzero (mm_state s') = st_nonzero (mm_state s) + (if d \<noteq> 0 then 1 else 0)"
proof (cases "xs = []")
  case True
  let ?s = "fst (insert_root_node k d s)" and ?v = "Suc (st_current (mm_state s))"
  have r: "st_root_id (mm_state s) = 0" using mm_inv_root [OF assms(1)] True by simp
  from insert_root_inv [of s fl k d] assms(1,2) True have I: "mm_inv ?s [?v] fl"
    "entries (mm_map ?s) [?v] = [(k, d)]"
    "st_nonzero (mm_state ?s) = st_nonzero (mm_state s) + (if d \<noteq> 0 then 1 else 0)" by auto
  have e: "mm_abs s = Map.empty" using mm_inv_abs [OF assms(1)] True by (simp add: entries_def)
  have "mm_abs ?s = (mm_abs s)(k \<mapsto> d)" unfolding e using mm_inv_abs [OF I(1)] I(2) by simp
  moreover have "mmt_insert mmap_ok k d s = Some (?s, 0)"
    using r mm_invD(1,2) [OF assms(1)] by (simp add: mmt_insert_def)
  moreover have "nz (entries (mm_map ?s) [?v]) = nz (entries (mm_map s) xs) + (if d \<noteq> 0 then 1 else 0)"
    unfolding I(2) by (simp add: nz_def entries_def True)
  ultimately have "\<exists>s' xs' fl'. mmt_insert mmap_ok k d s = Some (s', 0) \<and> mm_inv s' xs' fl' \<and>
      mm_abs s' = (mm_abs s)(k \<mapsto> d) \<and>
      nz (entries (mm_map s') xs') = nz (entries (mm_map s) xs) + (if d \<noteq> 0 then 1 else 0) \<and>
      st_nonzero (mm_state s') = st_nonzero (mm_state s) + (if d \<noteq> 0 then 1 else 0)"
    using I(1,3) by blast
  then show ?thesis using e by simp
next
  case False
  note D = mm_invD [OF assms(1)]
  have r: "st_root_id (mm_state s) \<noteq> 0" using mm_inv_root [OF assms(1)] False by simp
  obtain t where "linked (mm_map s) 0 (st_root_id (mm_state s)) t" "set_tree t = set xs"
    using mm_inv_tree [OF assms(1)] .
  then have "st_root_id (mm_state s) < st_total (mm_state s)"
    using linked_root r mm_inv_bound [OF assms(1)] by metis
  note pre = this r D(1,2)
  from mm_inv_descend [OF assms(1) False, of k] show ?thesis
  proof (elim disjE bexE exE conjE, goal_cases)
    case (1 i)
    have "mm_abs s k \<noteq> None"
      using mm_inv_abs [OF assms(1)] map_of_entries [OF D(10) 1(1)] 1(2) by auto
    moreover have "mmt_insert mmap_ok k d s = Some (set_err MMT_IFACE_EINSERT s, -1)"
      using 1(3) pre by (simp add: mmt_insert_def)
    ultimately show ?case by simp
  next
    case (2 i as bs)
    have a: "mm_abs s k = None"
      using mm_inv_abs [OF assms(1)] map_of_entries_None [of xs "mm_map s" k] 2(3) by simp
    from insert_new_node_inv [OF assms(1) 2(1,3,4) assms(3), of d] obtain s' xs' fl' where
      n: "insert_new_node mmap_ok i k d s = Some (s', 0)" and I: "mm_inv s' xs' fl'"
      "map_of (entries (mm_map s') xs') = (map_of (entries (mm_map s) xs))(k \<mapsto> d)"
      "nz (entries (mm_map s') xs') = nz (entries (mm_map s) xs) + (if d \<noteq> 0 then 1 else 0)"
      "st_nonzero (mm_state s') = st_nonzero (mm_state s) + (if d \<noteq> 0 then 1 else 0)" by blast
    have "mmt_insert mmap_ok k d s = Some (s', 0)" using 2(2) pre n by (simp add: mmt_insert_def)
    moreover have "mm_abs s' = (mm_abs s)(k \<mapsto> d)"
      using mm_inv_abs [OF assms(1)] mm_inv_abs [OF I(1)] I(2) by simp
    ultimately show ?case using a I(1,3,4) by auto
  qed
qed

section \<open>Updating\<close>

lemma nz_update:
  assumes "distinct xs" and "i \<in> set xs" and "m' = m(i := (m i)\<lparr>nd_data := v\<rparr>)"
  shows "int (nz (entries m' xs)) = int (nz (entries m xs)) +
    (if nd_data (m i) = 0 \<and> v \<noteq> 0 then 1 else if nd_data (m i) \<noteq> 0 \<and> v = 0 then -1 else 0)"
proof -
  obtain ys zs where xs: "xs = ys @ i # zs" using split_list [OF assms(2)] by blast
  with assms(1) have n: "i \<notin> set ys" "i \<notin> set zs" by auto
  have e: "entries m' ws = entries m ws" if "i \<notin> set ws" for ws
    using that assms(3) by (auto simp: entries_def)
  have "entries m' xs = entries m ys @ (nd_key (m i), v) # entries m zs"
    using xs e [OF n(1)] e [OF n(2)] assms(3) by (simp add: entries_def)
  moreover have "entries m xs = entries m ys @ (nd_key (m i), nd_data (m i)) # entries m zs"
    using xs by (simp add: entries_def)
  ultimately show ?thesis by (simp add: nz_def)
qed

lemma update_node_value_inv:
  assumes "mm_inv s xs fl" and "i \<in> set xs" and "nd_key (mm_map s i) = k"
    and "mmt_apply_op opn (nd_data (mm_map s i)) d = Some v"
  shows "\<exists>s'. update_node_value i d opn s = (s', 0) \<and> mm_inv s' xs fl \<and> mm_abs s' = (mm_abs s)(k \<mapsto> v) \<and>
    st_nonzero (mm_state s') - int (nz (entries (mm_map s') xs)) =
    st_nonzero (mm_state s) - int (nz (entries (mm_map s) xs)) \<and> st_current (mm_state s') = st_current (mm_state s)"
proof -
  note D = mm_invD [OF assms(1)]
  let ?m = "(mm_map s)(i := (mm_map s i)\<lparr>nd_data := v\<rparr>)"
  obtain s' where s': "update_node_value i d opn s = (s', 0)" "mm_map s' = ?m"
    "mm_state s' = (let st = mm_state s in
       if nd_data (mm_map s i) = 0 \<and> v \<noteq> 0 then st\<lparr>st_nonzero := st_nonzero st + 1\<rparr>
       else if nd_data (mm_map s i) \<noteq> 0 \<and> v = 0 then st\<lparr>st_nonzero := st_nonzero st - 1\<rparr> else st)"
    "mm_inited s' = mm_inited s" "mm_mapped s' = mm_mapped s" "mm_p_mtree s' = mm_p_mtree s"
    "mm_increment_num s' = mm_increment_num s"
    using assms(4) by (simp add: update_node_value_def Let_def)
  have F: "nd_left (?m j) = nd_left (mm_map s j)" "nd_right (?m j) = nd_right (mm_map s j)"
    "nd_parent (?m j) = nd_parent (mm_map s j)" "nd_color (?m j) = nd_color (mm_map s j)"
    "nd_key (?m j) = nd_key (mm_map s j)" for j by auto
  obtain t where t: "linked (mm_map s) 0 (st_root_id (mm_state s)) t" "inorder t = xs"
    using mm_inv_tree [OF assms(1)] .
  have "linked ?m 0 (st_root_id (mm_state s)) t"
    by (rule linked_same [OF t(1)]) (use F in \<open>simp add: same_links_def\<close>)
  then have tf: "tree_file xs (st_root_id (mm_state s)) ?m" using t(2) D(5) F by (auto simp: tree_file_def)
  have ks: "keys_sorted ?m xs" using keys_sorted_cong [of xs ?m "mm_map s"] D(10) F(5) by simp
  have ch: "chain ?m fl" by (rule chain_frame [OF D(12)]) (use F in simp)
  have st: "st_root_id (mm_state s') = st_root_id (mm_state s)" "st_current (mm_state s') = st_current (mm_state s)"
    "st_total (mm_state s') = st_total (mm_state s)" "st_qleft (mm_state s') = st_qleft (mm_state s)"
    "st_qfirst (mm_state s') = st_qfirst (mm_state s)" "st_qlast (mm_state s') = st_qlast (mm_state s)"
    "st_left (mm_state s') = st_left (mm_state s)"
    using s'(3) by (simp_all add: Let_def)
  have I: "mm_inv s' xs fl" unfolding mm_inv_def
    using s'(2,4-) st tf ks ch D(1-4,6-9,11,13-17) F by simp
  have en: "entries ?m xs = map (\<lambda>j. (nd_key (mm_map s j), if j = i then v else nd_data (mm_map s j))) xs"
    by (auto simp: entries_def)
  have "mm_abs s' = (mm_abs s)(k \<mapsto> v)"
  proof
    fix q
    show "mm_abs s' q = ((mm_abs s)(k \<mapsto> v)) q"
    proof (cases "\<exists>j \<in> set xs. nd_key (mm_map s j) = q")
      case True
      then obtain j where j: "j \<in> set xs" "nd_key (mm_map s j) = q" by blast
      have "inj_on (\<lambda>j. nd_key (mm_map s j)) (set xs)"
        using keys_sorted_distinct [OF D(10)] by (simp add: distinct_map)
      then have "q = k \<longleftrightarrow> j = i" using j assms(2,3) by (auto dest: inj_onD)
      moreover have "mm_abs s' q = Some (nd_data (?m j))"
        using map_of_entries [OF ks j(1)] mm_inv_abs [OF I] s'(2) j(2) F(5) by simp
      moreover have "mm_abs s q = Some (nd_data (mm_map s j))"
        using map_of_entries [OF D(10) j(1)] mm_inv_abs [OF assms(1)] j(2) by simp
      ultimately show ?thesis by auto
    next
      case False
      then have "q \<noteq> k" using assms(2,3) by auto
      moreover have "mm_abs s' q = None"
        using map_of_entries_None [of xs ?m q] mm_inv_abs [OF I] s'(2) False F(5) by auto
      moreover have "mm_abs s q = None"
        using map_of_entries_None [of xs "mm_map s" q] mm_inv_abs [OF assms(1)] False by auto
      ultimately show ?thesis by simp
    qed
  qed
  moreover have "st_nonzero (mm_state s') - int (nz (entries (mm_map s') xs)) =
    st_nonzero (mm_state s) - int (nz (entries (mm_map s) xs))"
    using nz_update [OF D(6) assms(2) refl, of "mm_map s" v] s'(2,3) by (simp add: Let_def)
  ultimately show ?thesis using s'(1) I st(2) by blast
qed

text \<open>The node of a key that is present.\<close>

lemma mm_inv_found:
  assumes "mm_inv s xs fl" and "mm_abs s k = Some old"
  obtains i where "i \<in> set xs" "nd_key (mm_map s i) = k" "nd_data (mm_map s i) = old" "xs \<noteq> []"
    "mmt_descend (st_total (mm_state s)) (mm_map s) k (st_root_id (mm_state s)) = Some (Found i)"
    "0 < st_root_id (mm_state s)" "st_root_id (mm_state s) < st_total (mm_state s)"
proof -
  note D = mm_invD [OF assms(1)]
  have ne: "xs \<noteq> []" using assms mm_inv_abs [OF assms(1)] by (auto simp: entries_def)
  then have r: "st_root_id (mm_state s) \<noteq> 0" using mm_inv_root [OF assms(1)] by simp
  obtain t where "linked (mm_map s) 0 (st_root_id (mm_state s)) t" "set_tree t = set xs"
    using mm_inv_tree [OF assms(1)] .
  then have rt: "st_root_id (mm_state s) < st_total (mm_state s)"
    using linked_root r mm_inv_bound [OF assms(1)] by metis
  from mm_inv_descend [OF assms(1) ne, of k] show thesis
  proof (elim disjE bexE exE conjE, goal_cases)
    case (1 i)
    have "nd_data (mm_map s i) = old"
      using map_of_entries [OF D(10) 1(1)] mm_inv_abs [OF assms(1)] assms(2) 1(2) by simp
    with 1 ne r rt show ?case by (intro that [of i]) auto
  next
    case (2 i as bs)
    with map_of_entries_None [of xs "mm_map s" k] mm_inv_abs [OF assms(1)] assms(2) show ?case by simp
  qed
qed

lemma mm_inv_absent:
  assumes "mm_inv s xs fl" and "mm_abs s k = None" and "xs \<noteq> []"
  obtains i as bs where "xs = as @ i # bs" "\<forall>j \<in> set xs. nd_key (mm_map s j) \<noteq> k"
    "mmt_descend (st_total (mm_state s)) (mm_map s) k (st_root_id (mm_state s)) = Some (Stopped i)"
    "if k > nd_key (mm_map s i) then nd_right (mm_map s i) = 0 \<and> (\<forall>j \<in> set bs. k < nd_key (mm_map s j))
     else k < nd_key (mm_map s i) \<and> nd_left (mm_map s i) = 0 \<and> (\<forall>j \<in> set as. nd_key (mm_map s j) < k)"
proof -
  have n: "\<forall>j \<in> set xs. nd_key (mm_map s j) \<noteq> k"
    using map_of_entries_None [of xs "mm_map s" k] mm_inv_abs [OF assms(1)] assms(2) by simp
  from mm_inv_descend [OF assms(1,3), of k] show thesis
  proof (elim disjE bexE exE conjE, goal_cases)
    case (1 i)
    with n show ?case by simp
  next
    case (2 i as bs)
    then show ?case by (intro that [of as i bs])
  qed
qed

lemma update_inv:
  assumes "mm_inv s xs fl"
  shows "case mm_abs s k of
      None \<Rightarrow> mmt_update k d opn s = Some (set_err MMT_IFACE_EINSERT s, -1)
    | Some old \<Rightarrow>
        (case mmt_apply_op opn old d of
           None \<Rightarrow> mmt_update k d opn s = Some (set_err MMT_IFACE_EOP s, -1)
         | Some v \<Rightarrow> \<exists>s'. mmt_update k d opn s = Some (s', 0) \<and> mm_inv s' xs fl \<and>
             mm_abs s' = (mm_abs s)(k \<mapsto> v) \<and>
             st_nonzero (mm_state s') - int (nz (entries (mm_map s') xs)) =
             st_nonzero (mm_state s) - int (nz (entries (mm_map s) xs)))"
proof (cases "mm_abs s k")
  case None
  note D = mm_invD [OF assms]
  show ?thesis
  proof (cases "xs = []")
    case True
    with None D(1,2) mm_inv_root [OF assms] show ?thesis by (simp add: mmt_update_def)
  next
    case False
    obtain i where "mmt_descend (st_total (mm_state s)) (mm_map s) k (st_root_id (mm_state s)) = Some (Stopped i)"
      using mm_inv_absent [OF assms None False] by metis
    with None D(1,2) show ?thesis by (simp add: mmt_update_def)
  qed
next
  case (Some old)
  obtain i where i: "i \<in> set xs" "nd_key (mm_map s i) = k" "nd_data (mm_map s i) = old"
    and m: "mmt_descend (st_total (mm_state s)) (mm_map s) k (st_root_id (mm_state s)) = Some (Found i)"
    "0 < st_root_id (mm_state s)" "st_root_id (mm_state s) < st_total (mm_state s)"
    using mm_inv_found [OF assms Some] by metis
  from m have e: "mmt_update k d opn s = Some (update_node_value i d opn s)"
    using mm_invD(1,2) [OF assms] by (simp add: mmt_update_def)
  show ?thesis
  proof (cases "mmt_apply_op opn old d")
    case None
    with e Some i(3) show ?thesis by (simp add: update_node_value_def Let_def)
  next
    case (Some v)
    with update_node_value_inv [OF assms i(1,2), of opn d v] i(3) e \<open>mm_abs s k = Some old\<close>
    show ?thesis by auto
  qed
qed

lemma set_inv:
  assumes "mm_inv s xs fl" and "xs = [] \<longrightarrow> Suc (st_current (mm_state s)) < st_total (mm_state s)"
    and "mmap_ok \<or> st_left (mm_state s) \<noteq> 0"
  shows "mmt_set mmap_ok k d opn s =
    (if mm_abs s k = None then mmt_insert mmap_ok k d s else mmt_update k d opn s)"
proof (cases "mm_abs s k")
  case None
  note D = mm_invD [OF assms(1)]
  show ?thesis
  proof (cases "xs = []")
    case True
    with None D(1,2) mm_inv_root [OF assms(1)] show ?thesis by (simp add: mmt_set_def mmt_insert_def)
  next
    case False
    obtain i as bs where i: "xs = as @ i # bs" "\<forall>j \<in> set xs. nd_key (mm_map s j) \<noteq> k"
      "mmt_descend (st_total (mm_state s)) (mm_map s) k (st_root_id (mm_state s)) = Some (Stopped i)"
      "if k > nd_key (mm_map s i) then nd_right (mm_map s i) = 0 \<and> (\<forall>j \<in> set bs. k < nd_key (mm_map s j))
       else k < nd_key (mm_map s i) \<and> nd_left (mm_map s i) = 0 \<and> (\<forall>j \<in> set as. nd_key (mm_map s j) < k)"
      using mm_inv_absent [OF assms(1) None False] .
    from insert_new_node_inv [OF assms(1) i(1,2,4) assms(3), of d] obtain s' where
      n: "insert_new_node mmap_ok i k d s = Some (s', 0)" by blast
    have r: "st_root_id (mm_state s) \<noteq> 0" using mm_inv_root [OF assms(1)] False by simp
    obtain t where "linked (mm_map s) 0 (st_root_id (mm_state s)) t" "set_tree t = set xs"
      using mm_inv_tree [OF assms(1)] .
    then have "st_root_id (mm_state s) < st_total (mm_state s)"
      using linked_root r mm_inv_bound [OF assms(1)] by metis
    with r n i(3) None D(1,2) show ?thesis by (simp add: mmt_set_def mmt_insert_def)
  qed
next
  case (Some old)
  obtain i where "mmt_descend (st_total (mm_state s)) (mm_map s) k (st_root_id (mm_state s)) = Some (Found i)"
    "0 < st_root_id (mm_state s)" "st_root_id (mm_state s) < st_total (mm_state s)"
    using mm_inv_found [OF assms(1) Some] by metis
  with Some mm_invD(1,2) [OF assms(1)] show ?thesis by (simp add: mmt_set_def mmt_update_def)
qed

end
