(* ===== verification/MmTreeRemove.thy ===== *)
theory MmTreeRemove
  imports MmTreeMap
begin

text \<open>
  \<open>remove\<close> on a well-formed file: the node, or its successor in its place, is unlinked, the tree
  is recoloured, and the slot joins the queue of recycled nodes.
\<close>

section \<open>Unlinking and replacing a node\<close>

lemma relink_redirected:
  assumes "nd_parent (m x) = px" and "mmt_relink root m x y = (root', m')" 
  shows "root' = (if px = 0 then y else root) \<and> (px \<noteq> 0 \<longrightarrow> redirected m m' px x y) \<and>
    (\<forall>i. i \<noteq> px \<longrightarrow> m' i = m i) \<and> (px = 0 \<longrightarrow> m' = m) \<and>
    same_entries m m' \<and> (\<forall>i. nd_color (m' i) = nd_color (m i) \<and> nd_parent (m' i) = nd_parent (m i))"
  using assms by (auto simp: mmt_relink_def Let_def redirected_def set_left_def set_right_def
      same_entries_def split: if_splits)

lemma unlink_linked:
  assumes "linked m 0 root t" and "distinct (inorder t)" and "x \<in> set_tree t"
    and "nd_left (m x) = 0 \<and> c = nd_right (m x) \<or> nd_right (m x) = 0 \<and> c = nd_left (m x)"
    and "m1 = (if 0 < c then set_parent c (nd_parent (m x)) m else m)"
    and "mmt_relink root m1 x c = (root', m')"
  shows "\<exists>t' as bs. linked m' 0 root' t' \<and> inorder t = as @ x # bs \<and> inorder t' = as @ bs \<and>
    frame (set_tree t) m m' \<and> same_entries m m' \<and> (\<forall>i. nd_color (m' i) = nd_color (m i)) \<and>
    m' x = m x \<and> (\<forall>i. nd_parent (m' i) = (if i = c \<and> c \<noteq> 0 then nd_parent (m x) else nd_parent (m i))) \<and>
    (\<forall>i. i \<noteq> nd_parent (m x) \<longrightarrow> nd_left (m' i) = nd_left (m i) \<and> nd_right (m' i) = nd_right (m i)) \<and>
    root' = (if nd_parent (m x) = 0 then c else root) \<and>
    (nd_parent (m x) \<noteq> 0 \<longrightarrow> redirected m m' (nd_parent (m x)) x c)"
proof -
  let ?px = "nd_parent (m x)"
  obtain xs tx zs where tx: "linked m ?px x tx" and i: "inorder t = xs @ inorder tx @ zs"
    and p0: "?px = 0 \<longleftrightarrow> root = x" and pt: "?px \<notin> set_tree tx" and sub: "set_tree tx \<subseteq> set_tree t"
    and pin: "?px \<noteq> 0 \<Longrightarrow> ?px \<in> set_tree t"
    and repl: "\<And>root' m' y ty. linked m' ?px y ty \<Longrightarrow> same_links (set_tree t - set_tree tx - {?px}) m m' \<Longrightarrow>
       (?px \<noteq> 0 \<Longrightarrow> redirected m m' ?px x y) \<Longrightarrow> root' = (if ?px = 0 then y else root) \<Longrightarrow>
       \<exists>t'. linked m' 0 root' t' \<and> inorder t' = xs @ inorder ty @ zs"
    using linked_replace [OF assms(1-3)] by metis
  have x0: "x \<noteq> 0" using linked_nonzero [OF assms(1,3)] .
  obtain A B where A: "tx = Node A x B" "linked m x (nd_left (m x)) A" "linked m x (nd_right (m x)) B"
    using linked_cases [OF tx x0] by metis
  obtain C where C: "linked m x c C" "set_tree C \<subseteq> set_tree tx" "x \<notin> set_tree C"
    and io: "inorder tx = inorder A @ x # inorder B" "inorder C = inorder A @ inorder B"
  proof (cases "nd_left (m x) = 0 \<and> c = nd_right (m x)")
    case True
    then have "A = Leaf" using A(2) linked_Leaf_iff by metis
    with True A i assms(2) show thesis by (intro that [of B]) auto
  next
    case False
    with assms(4) have "B = Leaf" "c = nd_left (m x)" using A(3) linked_Leaf_iff by metis+
    with A i assms(2) show thesis by (intro that [of A]) auto
  qed
  have c: "c \<noteq> 0 \<Longrightarrow> c \<in> set_tree C" using linked_root [OF C(1)] .
  then have cne: "c \<noteq> x" "c \<noteq> 0 \<Longrightarrow> c \<noteq> ?px" using C(2,3) pt x0 by (cases "c = 0"; auto)+
  have pne: "?px \<noteq> x" using pt A(1) by auto
  have p1: "nd_parent (m1 x) = ?px" using assms(5) cne by auto
  note R = relink_redirected [OF p1 assms(6)]
  have red: "?px \<noteq> 0 \<Longrightarrow> redirected m m' ?px x c"
    using R assms(5) cne by (auto simp: redirected_def)
  have K: "same_links S m m'" if "c \<notin> S \<or> c = 0" "?px \<notin> S" for S
    unfolding same_links_def
  proof
    fix i assume "i \<in> S"
    with that have "i \<noteq> ?px" "i \<noteq> c \<or> c = 0" by auto
    with R assms(5) show "nd_left (m' i) = nd_left (m i) \<and> nd_right (m' i) = nd_right (m i) \<and>
      nd_parent (m' i) = nd_parent (m i)" by auto
  qed
  have "linked m' ?px c C"
  proof (cases "c = 0")
    case True
    with linked_Leaf_iff [OF C(1)] show ?thesis by simp
  next
    case False
    obtain D E where D: "C = Node D c E" "linked m c (nd_left (m c)) D" "linked m c (nd_right (m c)) E"
      using linked_cases [OF C(1) False] by metis
    have "distinct (inorder C)" using assms(2) i io by auto
    then have "c \<notin> set_tree D" "c \<notin> set_tree E" using D(1) by auto
    moreover have "?px \<notin> set_tree D" "?px \<notin> set_tree E" using pt C(2) D(1) by auto
    ultimately have "linked m' c (nd_left (m c)) D" "linked m' c (nd_right (m c)) E"
      by (auto intro!: linked_same [OF D(2) K] linked_same [OF D(3) K])
    with D(1) False R assms(5) cne show ?thesis by auto
  qed
  moreover have "same_links (set_tree t - set_tree tx - {?px}) m m'"
    by (rule K) (use c C(2) in auto)
  ultimately obtain t' where t': "linked m' 0 root' t'" "inorder t' = xs @ inorder C @ zs"
    using repl [of m' c C root'] red R by auto
  have "frame (set_tree t) m m'" unfolding frame_def
  proof (intro allI impI)
    fix j assume "j \<notin> set_tree t"
    then have "j \<noteq> ?px \<or> ?px = 0" "j \<noteq> c \<or> c = 0" using pin c C(2) sub by auto
    with R assms(5) show "m' j = m j" by (auto simp: set_parent_def)
  qed
  moreover have "m' x = m x" using R pne assms(5) cne by (auto simp: set_parent_def)
  moreover have "same_entries m m'" using R assms(5) by (auto simp: same_entries_def)
  moreover have "inorder t = (xs @ inorder A) @ x # (inorder B @ zs)"
    "inorder t' = (xs @ inorder A) @ (inorder B @ zs)" using i io t'(2) by auto
  ultimately show ?thesis using t'(1) R red assms(5)
    by (intro exI [of _ t'] exI [of _ "xs @ inorder A"] exI [of _ "inorder B @ zs"]) auto
qed

lemma replace_linked:
  assumes "linked m 0 root t" and "distinct (inorder t)" and "x \<in> set_tree t"
    and "y \<notin> set_tree t" and "y \<noteq> 0" and "nd_left (m x) \<noteq> 0"
    and "m6 = set_right y (nd_right (m x)) (set_left y (nd_left (m x)) (set_parent y (nd_parent (m x)) m))"
    and "mmt_relink root m6 x y = (root', m7)"
    and "m8 = set_parent (nd_left (m7 x)) y m7"
    and "m' = (if 0 < nd_right (m8 x) then set_parent (nd_right (m8 x)) y m8 else m8)"
  shows "\<exists>t' as bs. linked m' 0 root' t' \<and> inorder t = as @ x # bs \<and> inorder t' = as @ y # bs \<and>
    frame (insert y (set_tree t)) m m' \<and> same_entries m m' \<and> (\<forall>i. nd_color (m' i) = nd_color (m i)) \<and>
    (\<forall>i. nd_parent (m' i) = (if i = nd_left (m x) \<or> i = nd_right (m x) \<and> i \<noteq> 0 then y
                             else if i = y then nd_parent (m x) else nd_parent (m i))) \<and>
    root' = (if nd_parent (m x) = 0 then y else root)"
proof -
  let ?px = "nd_parent (m x)" and ?l = "nd_left (m x)" and ?r = "nd_right (m x)"
  obtain xs tx zs where tx: "linked m ?px x tx" and i: "inorder t = xs @ inorder tx @ zs"
    and p0: "?px = 0 \<longleftrightarrow> root = x" and pt: "?px \<notin> set_tree tx" and sub: "set_tree tx \<subseteq> set_tree t"
    and pin: "?px \<noteq> 0 \<Longrightarrow> ?px \<in> set_tree t"
    and repl: "\<And>root' m' y ty. linked m' ?px y ty \<Longrightarrow> same_links (set_tree t - set_tree tx - {?px}) m m' \<Longrightarrow>
       (?px \<noteq> 0 \<Longrightarrow> redirected m m' ?px x y) \<Longrightarrow> root' = (if ?px = 0 then y else root) \<Longrightarrow>
       \<exists>t'. linked m' 0 root' t' \<and> inorder t' = xs @ inorder ty @ zs"
    using linked_replace [OF assms(1-3)] by metis
  have x0: "x \<noteq> 0" using linked_nonzero [OF assms(1,3)] .
  obtain A B where A: "tx = Node A x B" "linked m x ?l A" "linked m x ?r B"
    using linked_cases [OF tx x0] by metis
  have dt: "distinct (inorder tx)" using i assms(2) by auto
  then have d: "x \<notin> set_tree A" "x \<notin> set_tree B" "set_tree A \<inter> set_tree B = {}"
    "distinct (inorder A)" "distinct (inorder B)" using A(1) by auto
  have l: "?l \<in> set_tree A" using linked_root [OF A(2) assms(6)] .
  have r: "?r \<noteq> 0 \<Longrightarrow> ?r \<in> set_tree B" using linked_root [OF A(3)] .
  have yt: "y \<noteq> x" "y \<noteq> ?l" "y \<noteq> ?r" "y \<notin> set_tree A" "y \<notin> set_tree B" "?px \<noteq> y"
    using assms(3-5) l r A(1) sub pin by auto
  have pA: "?px \<notin> set_tree A" "?px \<notin> set_tree B" "?px \<noteq> x" using pt A(1) by auto
  have p1: "nd_parent (m6 x) = ?px" using assms(7) yt by auto
  note R = relink_redirected [OF p1 assms(8)]
  have m7x: "m7 x = m x" using R pA(3) assms(7) yt(1)
    by (simp add: set_right_def set_left_def set_parent_def)
  then have e8: "m8 = set_parent ?l y m7" and e: "m' = (if 0 < ?r then set_parent ?r y m8 else m8)"
    using assms(9,10) l d(1) by auto
  have F: "nd_left (m' i) = nd_left (m7 i)" "nd_right (m' i) = nd_right (m7 i)"
    "nd_parent (m' i) = (if i = ?l \<or> i = ?r \<and> i \<noteq> 0 then y else if i = y then ?px else nd_parent (m i))"
    "nd_color (m' i) = nd_color (m i)" for i
    using e e8 R assms(7) by auto
  have L: "i \<noteq> y \<Longrightarrow> i \<noteq> ?px \<Longrightarrow> nd_left (m7 i) = nd_left (m i) \<and> nd_right (m7 i) = nd_right (m i)" for i
    using R assms(7) by simp
  have Y: "nd_left (m7 y) = ?l" "nd_right (m7 y) = ?r" using R yt(6) assms(7) by auto
  have red: "redirected m m' ?px x y" if "?px \<noteq> 0"
  proof -
    have "?px \<noteq> ?l" "?px \<noteq> ?r" using that l r pA by auto
    with R that F yt(6) assms(7) show ?thesis by (simp add: redirected_def)
  qed
  have K: "same_links S m m'" if "?l \<notin> S" "?r \<notin> S \<or> ?r = 0" "?px \<notin> S" "y \<notin> S" for S
    unfolding same_links_def
  proof
    fix i assume "i \<in> S"
    with that have "i \<noteq> ?px" "i \<noteq> y" "i \<noteq> ?l" "i \<noteq> ?r \<or> ?r = 0" by auto
    with F L show "nd_left (m' i) = nd_left (m i) \<and> nd_right (m' i) = nd_right (m i) \<and>
      nd_parent (m' i) = nd_parent (m i)" by auto
  qed
  obtain D E where D: "A = Node D ?l E" "linked m ?l (nd_left (m ?l)) D" "linked m ?l (nd_right (m ?l)) E"
    using linked_cases [OF A(2) assms(6)] by metis
  have "linked m' ?l (nd_left (m ?l)) D" "linked m' ?l (nd_right (m ?l)) E"
    using D(1) d(3,4) pA yt r by (auto intro!: linked_same [OF D(2) K] linked_same [OF D(3) K])
  then have "linked m' y ?l A"
    using D(1) F L [of ?l] yt(2) l pA(1) assms(6) by auto
  moreover have "linked m' y ?r B"
  proof (cases "?r = 0")
    case True
    with linked_Leaf_iff [OF A(3)] show ?thesis by simp
  next
    case False
    obtain G H where G: "B = Node G ?r H" "linked m ?r (nd_left (m ?r)) G" "linked m ?r (nd_right (m ?r)) H"
      using linked_cases [OF A(3) False] by metis
    have "linked m' ?r (nd_left (m ?r)) G" "linked m' ?r (nd_right (m ?r)) H"
      using G(1) d(3,5) pA yt l by (auto intro!: linked_same [OF G(2) K] linked_same [OF G(3) K])
    then show ?thesis using G(1) F L [of ?r] yt(3) r pA(2) False by auto
  qed
  moreover have "nd_parent (m' y) = ?px" using F yt by auto
  ultimately have ty: "linked m' ?px y (Node A y B)" using assms(5) F Y by simp
  have "same_links (set_tree t - set_tree tx - {?px}) m m'"
    by (rule K) (use A(1) l r assms(4) in auto)
  from repl [OF ty this red] R obtain t' where
    t': "linked m' 0 root' t'" "inorder t' = xs @ inorder (Node A y B) @ zs" by auto
  have "frame (insert y (set_tree t)) m m'" unfolding frame_def
  proof (intro allI impI)
    fix j assume "j \<notin> insert y (set_tree t)"
    then have "j \<noteq> y" "j \<noteq> ?px \<or> ?px = 0" "j \<noteq> ?l" "j \<noteq> ?r \<or> ?r = 0"
      using pin l r A(1) sub by auto
    with e e8 R assms(7) show "m' j = m j"
      by (auto simp: set_parent_def set_left_def set_right_def)
  qed
  moreover have "same_entries m m'" using e e8 R assms(7) by (auto simp: same_entries_def)
  moreover have "inorder t = (xs @ inorder A) @ x # (inorder B @ zs)"
    "inorder t' = (xs @ inorder A) @ y # (inorder B @ zs)" using i A(1) t'(2) by auto
  ultimately show ?thesis using t'(1) R F
    by (intro exI [of _ t'] exI [of _ "xs @ inorder A"] exI [of _ "inorder B @ zs"]) auto
qed

lemma leftmost_linked:
  assumes "linked m p nid t" and "nid \<noteq> 0"
  shows "\<exists>v rest. inorder t = v # rest \<and> mmt_leftmost m nid = Some v \<and> nd_left (m v) = 0"
  using assms
proof (induction t arbitrary: p nid)
  case Leaf
  then show ?case by simp
next
  case (Node l a r)
  note step = mmt_leftmost.simps [of m nid]
  show ?case
  proof (cases "nd_left (m a) = 0")
    case True
    with Node.prems have "l = Leaf" using linked_Leaf_iff by fastforce
    with True Node.prems step show ?thesis by auto
  next
    case False
    with Node.IH(1) [of a "nd_left (m a)"] Node.prems step show ?thesis by auto
  qed
qed

section \<open>The node and its slot\<close>

lemma unlink_node_one:
  assumes "tree_file xs root m" and "distinct xs" and "x \<in> set xs" and "nd_color (m root) = Black"
    and "nd_left (m x) = 0 \<or> nd_right (m x) = 0"
  shows "\<exists>root1 m1 child parent color as bs. unlink_node root m x = Some (root1, m1, child, parent, color) \<and>
    xs = as @ x # bs \<and> tree_file (as @ bs) root1 m1 \<and> frame (set xs) m m1 \<and> same_entries m m1 \<and>
    (child \<in> set (as @ bs) \<and> parent = nd_parent (m1 child) \<or>
     child = 0 \<and> (parent \<in> set (as @ bs) \<or> root1 = 0)) \<and>
    (color = Black \<and> child = root1 \<or> nd_color (m1 root1) = Black)"
proof -
  from assms(1) obtain t where t: "linked m 0 root t" "inorder t = xs"
    and z: "nd_left (m 0) = 0" "nd_right (m 0) = 0" "nd_parent (m 0) = 0" by (auto simp: tree_file_def)
  have s: "set_tree t = set xs" "distinct (inorder t)" "x \<in> set_tree t" using t(2) assms(2,3) by auto
  have x0: "x \<noteq> 0" using linked_nonzero [OF t(1) s(3)] .
  define c where "c = (if nd_left (m x) = 0 then nd_right (m x) else nd_left (m x))"
  let ?p = "nd_parent (m x)"
  let ?m1 = "if 0 < c then set_parent c ?p m else m"
  obtain root1 m1 where r: "mmt_relink root ?m1 x c = (root1, m1)" by (metis prod.collapse)
  have e: "unlink_node root m x = Some (root1, m1, c, ?p, nd_color (m x))"
    by (simp only: unlink_node_def Let_def if_P [OF assms(5)] c_def [symmetric] r prod.case)
  have c: "nd_left (m x) = 0 \<and> c = nd_right (m x) \<or> nd_right (m x) = 0 \<and> c = nd_left (m x)"
    using assms(5) by (auto simp: c_def)
  note U = unlink_linked [OF t(1) s(2,3) c refl r]
  then obtain t' as bs where
    t': "linked m1 0 root1 t'" "inorder t = as @ x # bs" "inorder t' = as @ bs" and
    F: "frame (set_tree t) m m1" "same_entries m m1" "\<forall>i. nd_color (m1 i) = nd_color (m i)"
    "\<forall>i. nd_parent (m1 i) = (if i = c \<and> c \<noteq> 0 then ?p else nd_parent (m i))"
    "root1 = (if ?p = 0 then c else root)" by (elim exE conjE)
  have "0 \<notin> set_tree t" using linked_nonzero [OF t(1)] by blast
  then have "m1 0 = m 0" using F(1) by (simp add: frame_def)
  then have tf: "tree_file (as @ bs) root1 m1" using t'(1,3) z by (auto simp: tree_file_def)
  have xs: "xs = as @ x # bs" using t(2) t'(2) by simp
  have cin: "c \<in> set (as @ bs)" if "c \<noteq> 0"
    using child_cases [OF t(1) s(2,3)] that s(1) xs by (auto simp: c_def split: if_splits)
  have pc: "(?p = 0) = (x = root)" "x \<noteq> root \<Longrightarrow> ?p \<in> set xs \<and> ?p \<noteq> x"
    using parent_cases [OF t(1) s(2,3)] s(1) by auto
  have root1: "?p \<in> set (as @ bs) \<or> root1 = c" using pc xs F(5) by auto
  have start: "c \<in> set (as @ bs) \<and> ?p = nd_parent (m1 c) \<or> c = 0 \<and> (?p \<in> set (as @ bs) \<or> root1 = 0)"
  proof (cases "c = 0")
    case True
    with root1 show ?thesis by simp
  next
    case False
    with cin F(4) show ?thesis by simp
  qed
  have col: "nd_color (m x) = Black \<and> c = root1 \<or> nd_color (m1 root1) = Black"
  proof (cases "?p = 0")
    case True
    with pc(1) F(5) assms(4) show ?thesis by simp
  next
    case False
    with F(3,5) assms(4) show ?thesis by simp
  qed
  from e xs tf F(1) [unfolded s(1)] F(2) start col show ?thesis by blast
qed

lemma unlink_node_two:
  assumes "tree_file xs root m" and "distinct xs" and "x \<in> set xs" and "nd_color (m root) = Black"
    and "\<not> (nd_left (m x) = 0 \<or> nd_right (m x) = 0)"
  shows "\<exists>root1 m1 child parent color as bs. unlink_node root m x = Some (root1, m1, child, parent, color) \<and>
    xs = as @ x # bs \<and> tree_file (as @ bs) root1 m1 \<and> frame (set xs) m m1 \<and> same_entries m m1 \<and>
    (child \<in> set (as @ bs) \<and> parent = nd_parent (m1 child) \<or>
     child = 0 \<and> (parent \<in> set (as @ bs) \<or> root1 = 0)) \<and>
    (color = Black \<and> child = root1 \<or> nd_color (m1 root1) = Black)"
proof -
  from assms(1) obtain t where t: "linked m 0 root t" "inorder t = xs"
    and z: "nd_left (m 0) = 0" "nd_right (m 0) = 0" "nd_parent (m 0) = 0" by (auto simp: tree_file_def)
  have s: "set_tree t = set xs" "distinct (inorder t)" "x \<in> set_tree t" using t(2) assms(2,3) by auto
  have x0: "x \<noteq> 0" using linked_nonzero [OF t(1) s(3)] .
  have lr: "nd_left (m x) \<noteq> 0" "nd_right (m x) \<noteq> 0" using assms(5) by auto
  text \<open>The successor.\<close>
  obtain ys tx zs where tx: "linked m (nd_parent (m x)) x tx" and io: "inorder t = ys @ inorder tx @ zs"
    and sx: "set_tree tx \<subseteq> set_tree t" and pt: "nd_parent (m x) \<notin> set_tree tx"
    using linked_replace [OF t(1) s(2,3)] by metis
  obtain L R where R: "tx = Node L x R" "linked m x (nd_right (m x)) R"
    using linked_cases [OF tx x0] by metis
  from leftmost_linked [OF R(2) lr(2)] obtain v rest where
    v: "inorder R = v # rest" "mmt_leftmost m (nd_right (m x)) = Some v" "nd_left (m v) = 0" by blast
  have vR: "v \<in> set_tree R" using v(1) by (metis list.set_intros(1) set_inorder)
  have xs: "xs = (ys @ inorder L) @ x # v # (rest @ zs)" using io t(2) R(1) v(1) by simp
  have vt: "v \<in> set_tree t" "v \<noteq> x" "v \<noteq> 0" using xs s(1) assms(2) linked_nonzero [OF t(1), of v] by auto
  text \<open>It is unlinked.\<close>
  let ?c = "nd_right (m v)" and ?p = "nd_parent (m v)"
  define a1 where "a1 = (if 0 < ?c then set_parent ?c ?p m else m)"
  obtain r2 m2 where r2: "mmt_relink root a1 v ?c = (r2, m2)" by (metis prod.collapse)
  have c: "nd_left (m v) = 0 \<and> ?c = nd_right (m v) \<or> nd_right (m v) = 0 \<and> ?c = nd_left (m v)" using v(3) by simp
  note U = unlink_linked [OF t(1) s(2) vt(1) c a1_def r2]
  then obtain t2 as2 bs2 where t2: "linked m2 0 r2 t2" "inorder t = as2 @ v # bs2" "inorder t2 = as2 @ bs2" and
    F: "frame (set_tree t) m m2" "same_entries m m2" "\<forall>i. nd_color (m2 i) = nd_color (m i)" "m2 v = m v"
    "\<forall>i. nd_parent (m2 i) = (if i = ?c \<and> ?c \<noteq> 0 then ?p else nd_parent (m i))"
    "\<forall>i. i \<noteq> ?p \<longrightarrow> nd_left (m2 i) = nd_left (m i) \<and> nd_right (m2 i) = nd_right (m i)"
    "r2 = (if ?p = 0 then ?c else root)" "?p \<noteq> 0 \<longrightarrow> redirected m m2 ?p v ?c" by (elim exE conjE)
  have i2: "as2 = ys @ inorder L @ [x]" "bs2 = rest @ zs"
  proof -
    have "(ys @ inorder L @ [x]) @ v # (rest @ zs) = as2 @ v # bs2" using t2(2) t(2) xs by simp
    moreover have "distinct (as2 @ v # bs2)" using t2(2) s(2) by simp
    ultimately show "as2 = ys @ inorder L @ [x]" "bs2 = rest @ zs"
      using distinct_split_unique by metis+
  qed
  have d2: "distinct (inorder t2)" "x \<in> set_tree t2" "v \<notin> set_tree t2"
  proof -
    have "set_tree t2 = set (as2 @ bs2)" using arg_cong [OF t2(3), of set] by (simp only: set_inorder)
    moreover have "distinct (as2 @ v # bs2)" using t2(2) s(2) by simp
    ultimately show "distinct (inorder t2)" "x \<in> set_tree t2" "v \<notin> set_tree t2"
      using t2(3) i2 by auto
  qed
  have pv: "?p \<noteq> 0" "?p \<in> set_tree t" "?p \<noteq> v"
  proof -
    have "v \<noteq> root"
    proof
      assume "v = root"
      then have "nd_parent (m v) = 0" using parent_cases [OF t(1) s(2) vt(1)] by simp
      moreover have "nd_parent (m v) \<in> insert x (set_tree R)"
      proof (cases "v = nd_right (m x)")
        case True
        then show ?thesis using R(2) lr(2) root_parent by fastforce
      next
        case False
        have "distinct (inorder R)" using s(2) io R(1) by auto
        from parent_depth [OF R(2) this vR False] show ?thesis by simp
      qed
      ultimately show False using x0 linked_nonzero [OF R(2)] by auto
    qed
    then show "?p \<noteq> 0" "?p \<in> set_tree t" "?p \<noteq> v"
      using parent_cases [OF t(1) s(2) vt(1)] linked_nonzero [OF t(1)] by auto
  qed
  then have rr: "r2 = root" using F(7) by simp
  have lx2: "nd_left (m2 x) = nd_left (m x)"
  proof (cases "?p = x")
    case True
    have "nd_left (m x) \<noteq> v"
    proof
      assume "nd_left (m x) = v"
      moreover obtain L' where "linked m x (nd_left (m x)) L'" "set_tree L' = set_tree L"
        using linked_cases [OF tx x0] R(1) by (metis tree.inject)
      ultimately have "v \<in> set_tree L" using linked_root lr(1) by metis
      then show False using xs assms(2) by auto
    qed
    with F(8) pv(1) True show ?thesis by (simp add: redirected_def)
  next
    case False
    with F(6) show ?thesis by auto
  qed
  text \<open>It takes the place of the node.\<close>
  define a5 where "a5 = set_right v (nd_right (m2 x)) (set_left v (nd_left (m2 x)) (set_parent v (nd_parent (m2 x)) (set_color v (nd_color (m2 x)) m2)))"
  define b where "b = set_color v (nd_color (m2 x)) m2"
  have lb: "linked b 0 r2 t2" using t2(1) by (simp add: b_def)
  obtain r7 m7 where r7: "mmt_relink r2 a5 x v = (r7, m7)" by (metis prod.collapse)
  define m8 where "m8 = set_parent (nd_left (m7 x)) v m7"
  define m9 where "m9 = (if 0 < nd_right (m8 x) then set_parent (nd_right (m8 x)) v m8 else m8)"
  have a5: "a5 = set_right v (nd_right (b x)) (set_left v (nd_left (b x)) (set_parent v (nd_parent (b x)) b))"
    by (simp add: a5_def b_def)
  have lb0: "nd_left (b x) \<noteq> 0" using lx2 lr(1) by (simp add: b_def)
  note V = replace_linked [OF lb d2 vt(3) lb0 a5 r7 m8_def m9_def]
  then obtain t' as bs where t': "linked m9 0 r7 t'" "inorder t2 = as @ x # bs" "inorder t' = as @ v # bs" and
    G: "frame (insert v (set_tree t2)) b m9" "same_entries b m9" "\<forall>i. nd_color (m9 i) = nd_color (b i)"
    "\<forall>i. nd_parent (m9 i) = (if i = nd_left (b x) \<or> i = nd_right (b x) \<and> i \<noteq> 0 then v
       else if i = v then nd_parent (b x) else nd_parent (b i))"
    "r7 = (if nd_parent (b x) = 0 then v else r2)" by (elim exE conjE)
  have ix: "as = ys @ inorder L" "bs = rest @ zs"
  proof -
    have "(ys @ inorder L) @ x # (rest @ zs) = as @ x # bs" using t'(2) t2(3) i2 by simp
    moreover have "distinct (as @ x # bs)" using t'(2) d2(1) by simp
    ultimately show "as = ys @ inorder L" "bs = rest @ zs" using distinct_split_unique by metis+
  qed
  let ?parent = "if nd_parent (m2 v) = x then v else ?p"
  have e: "unlink_node root m x = Some (r7, m9, ?c, ?parent, nd_color (m v))"
    using v(2) lr vt(2) r2 r7
    by (simp add: unlink_node_def Let_def a1_def [symmetric] a5_def [symmetric] m8_def [symmetric] m9_def [symmetric]
        del: neq0_conv) (simp add: m9_def m8_def)
  have "0 \<notin> set_tree t" using linked_nonzero [OF t(1)] by blast
  moreover have st2: "set_tree t2 \<subseteq> set_tree t" 
  proof -
    have "set (inorder t2) \<subseteq> set (inorder t)" unfolding t2(2,3) by auto
    then show ?thesis by (simp only: set_inorder)
  qed
  ultimately have "m9 0 = m 0" using F(1) G(1) vt(3) by (auto simp: frame_def b_def set_color_def)
  moreover have xs2: "xs = as @ x # (v # bs)" using xs ix by simp
  ultimately have tf: "tree_file (as @ v # bs) r7 m9" using t'(1,3) z by (auto simp: tree_file_def)
  have fr: "frame (set xs) m m9"
    unfolding frame_def
  proof (intro allI impI)
    fix i assume "i \<notin> set xs"
    then have "i \<notin> insert v (set_tree t2)" "i \<notin> set_tree t" "i \<noteq> v" using st2 s(1) vt(1) by auto
    then show "m9 i = m i" using F(1) G(1) by (simp add: frame_def b_def set_color_def)
  qed
  have se: "same_entries m m9" using F(2) G(2) by (auto simp: same_entries_def b_def)
  have px: "?p = x \<or> ?p \<in> set (as @ v # bs)" using pv(2) s(1) xs2 by auto
  have par: "?parent \<in> set (as @ v # bs)" using px F(4) by auto
  have child: "?c \<in> set (as @ v # bs) \<and> ?parent = nd_parent (m9 ?c)" if c0: "?c \<noteq> 0"
  proof
    have "?c \<in> set_tree t" "nd_parent (m ?c) = v" "?c \<noteq> v" using child_cases [OF t(1) s(2) vt(1)] c0 by auto
    moreover have "?c \<noteq> x"
    proof
      assume "?c = x"
      with c0 F(5) have px2: "nd_parent (m2 x) = ?p" by simp
      have "nd_parent (m x) = v" using \<open>?c = x\<close> \<open>nd_parent (m ?c) = v\<close> by simp
      moreover note pt
      moreover have "v \<in> set_tree tx" using R(1) vR by simp
      ultimately show False by simp
    qed
    ultimately show "?c \<in> set (as @ v # bs)" using s(1) xs2 by auto
    have p2: "nd_parent (m2 ?c) = ?p" using F(5) c0 by simp
    show "?parent = nd_parent (m9 ?c)"
    proof (cases "?p = x")
      case True
      have "nd_right (m2 x) = ?c"
        using F(8) pv(1) True lx2 v(3) \<open>?c \<noteq> v\<close> by (auto simp: redirected_def split: if_splits)
      then show ?thesis using True F(4) G(4) c0 by (simp add: b_def)
    next
      case False
      have "?c \<noteq> nd_left (m2 x)" "?c \<noteq> nd_right (m2 x)"
        using child_cases [OF t2(1) d2(1,2)] False p2 c0 by auto
      then show ?thesis using False F(4) G(4) p2 \<open>?c \<noteq> v\<close> by (simp add: b_def)
    qed
  qed
  have "nd_color (m9 r7) = Black"
  proof (cases "nd_parent (m x) = 0")
    case True
    then have "x = root" using parent_cases [OF t(1) s(2,3)] by simp
    moreover have "nd_parent (m2 x) = 0" using parent_cases [OF t2(1) d2(1,2)] rr \<open>x = root\<close> by simp
    ultimately show ?thesis using G(3,5) F(3) assms(4) by (simp add: b_def)
  next
    case False
    then have "x \<noteq> root" using parent_cases [OF t(1) s(2,3)] by simp
    then have "nd_parent (m2 x) \<noteq> 0" using parent_cases [OF t2(1) d2(1,2)] rr by simp
    moreover have "root \<noteq> v" using parent_cases [OF t(1) s(2) vt(1)] pv(1) by auto
    ultimately show ?thesis using G(3,5) F(3) assms(4) rr by (simp add: b_def)
  qed
  moreover have "?c \<in> set (as @ v # bs) \<and> ?parent = nd_parent (m9 ?c) \<or>
     ?c = 0 \<and> (?parent \<in> set (as @ v # bs) \<or> r7 = 0)"
    using child par by blast
  ultimately show ?thesis using e xs2 tf fr se by blast
qed

lemma entries_delete:
  assumes "keys_sorted m (as @ x # bs)" 
    and "\<forall>j \<in> set (as @ bs). nd_key (m' j) = nd_key (m j) \<and> nd_data (m' j) = nd_data (m j)"
  shows "keys_sorted m' (as @ bs)"
    and "map_of (entries m' (as @ bs)) = (map_of (entries m (as @ x # bs)))(nd_key (m x) := None)"
    and "nz (entries m (as @ x # bs)) = nz (entries m' (as @ bs)) + (if nd_data (m x) \<noteq> 0 then 1 else 0)"
proof -
  have e: "entries m' (as @ bs) = entries m (as @ bs)"
    using assms(2) by (auto simp: entries_def)
  have "keys_sorted m (as @ bs)" using assms(1) by (auto simp: keys_sorted_def sorted_wrt_append)
  then show "keys_sorted m' (as @ bs)" using keys_sorted_cong [of "as @ bs" m' m] assms(2) by blast
  have d: "distinct (map fst (entries m (as @ x # bs)))"
    using keys_sorted_distinct [OF assms(1)] by (simp only: map_fst_entries)
  have c: "entries m (as @ x # bs) = entries m as @ (nd_key (m x), nd_data (m x)) # entries m bs"
    "entries m (as @ bs) = entries m as @ entries m bs" by (simp_all add: entries_def)
  have "\<forall>j \<in> set (as @ bs). nd_key (m j) \<noteq> nd_key (m x)"
    using assms(1) by (fastforce simp: keys_sorted_def sorted_wrt_append)
  then have n: "map_of (entries m (as @ bs)) (nd_key (m x)) = None" using map_of_entries_None by blast
  have "map_of (entries m (as @ x # bs)) = (map_of (entries m (as @ bs)))(nd_key (m x) \<mapsto> nd_data (m x))"
    using map_of_insert [of "entries m as" "nd_key (m x)" "nd_data (m x)" "entries m bs"] d by (simp only: c)
  then show "map_of (entries m' (as @ bs)) = (map_of (entries m (as @ x # bs)))(nd_key (m x) := None)"
    using n unfolding e by (auto simp: fun_eq_iff)
  show "nz (entries m (as @ x # bs)) = nz (entries m' (as @ bs)) + (if nd_data (m x) \<noteq> 0 then 1 else 0)"
    unfolding e by (simp add: nz_def entries_def)
qed

lemma chain_snoc: "chain m fl \<Longrightarrow> fl \<noteq> [] \<longrightarrow> nd_parent (m (last fl)) = v \<Longrightarrow> chain m (fl @ [v])"
  by (induction fl rule: induct_list012) auto

lemma chain_set_last:
  "chain m fl \<Longrightarrow> distinct fl \<Longrightarrow> \<forall>i \<in> set fl. i \<noteq> last fl \<longrightarrow> nd_parent (m' i) = nd_parent (m i) \<Longrightarrow> chain m' fl"
  by (induction fl rule: induct_list012) (auto split: if_splits)

text \<open>The second half of \<open>remove_node\<close>: recolouring, and the slot joins the queue.\<close>

lemma remove_node_inv:
  assumes "mm_inv s xs fl" and "x \<in> set xs"
  shows "\<exists>root s' as bs. remove_node (st_root_id (mm_state s)) x s = Some (root, s', 0) \<and> xs = as @ x # bs \<and>
    mm_inv (s'\<lparr>mm_state := (mm_state s')\<lparr>st_root_id := root\<rparr>\<rparr>) (as @ bs) (fl @ [x]) \<and>
    (\<forall>j \<in> set (as @ bs). nd_key (mm_map s' j) = nd_key (mm_map s j) \<and> nd_data (mm_map s' j) = nd_data (mm_map s j)) \<and>
    st_nonzero (mm_state s') = st_nonzero (mm_state s)"
proof -
  note D = mm_invD [OF assms(1)]
  let ?m = "mm_map s" and ?r = "st_root_id (mm_state s)"
  have xs: "xs \<noteq> []" using assms(2) by auto
  have "\<exists>root1 m1 child parent color as bs. unlink_node ?r ?m x = Some (root1, m1, child, parent, color) \<and>
    xs = as @ x # bs \<and> tree_file (as @ bs) root1 m1 \<and> frame (set xs) ?m m1 \<and> same_entries ?m m1 \<and>
    (child \<in> set (as @ bs) \<and> parent = nd_parent (m1 child) \<or>
     child = 0 \<and> (parent \<in> set (as @ bs) \<or> root1 = 0)) \<and>
    (color = Black \<and> child = root1 \<or> nd_color (m1 root1) = Black)"
    using unlink_node_one [OF D(5,6) assms(2) D(17) [OF xs]] unlink_node_two [OF D(5,6) assms(2) D(17) [OF xs]]
    by (cases "nd_left (?m x) = 0 \<or> nd_right (?m x) = 0") blast+
  then obtain root1 m1 child parent color as bs where
    u: "unlink_node ?r ?m x = Some (root1, m1, child, parent, color)" and io: "xs = as @ x # bs"
    and f1: "tree_file (as @ bs) root1 m1" "frame (set xs) ?m m1" "same_entries ?m m1"
    and start: "child \<in> set (as @ bs) \<and> parent = nd_parent (m1 child) \<or>
     child = 0 \<and> (parent \<in> set (as @ bs) \<or> root1 = 0)"
    and col: "color = Black \<and> child = root1 \<or> nd_color (m1 root1) = Black" by blast
  let ?ys = "as @ bs"
  have dy: "distinct ?ys" "x \<notin> set ?ys" using D(6) io by auto
  have sy: "set xs = insert x (set ?ys)" using io by auto
  obtain t1 where t1: "linked m1 0 root1 t1" "inorder t1 = ?ys" using f1(1) by (auto simp: tree_file_def)
  obtain root2 m2 where c: "(if color = Black then mmt_remove_color True root1 m1 child parent else Some (root1, m1)) = Some (root2, m2)"
    and k: "kept ?ys (root1, m1) (root2, m2)" and bl: "root2 = 0 \<or> nd_color (m2 root2) = Black"
  proof (cases "color = Black")
    case True
    from remove_color_total [OF t1(1) t1(2) [symmetric] f1(1) dy(1) start] col True that show thesis by auto
  next
    case False
    with col that [of root1 m1] kept_refl [OF f1(1)] show thesis by auto
  qed
  have f2: "tree_file ?ys root2 m2" "frame (insert 0 (set ?ys)) m1 m2" "same_entries m1 m2"
    using k by (auto simp: kept_def)
  define m3 where "m3 = m2(x := null_node)"
  define m4 where "m4 = (if fl = [] then m3 else set_parent (last fl) x m3)"
  define st1 where "st1 = (if fl = [] then (mm_state s)\<lparr>st_qfirst := x, st_qlast := x\<rparr> else (mm_state s)\<lparr>st_qlast := x\<rparr>)"
  define s' where "s' = s\<lparr>mm_map := m4, mm_state := st1\<lparr>st_qleft := st_qleft st1 + 1, st_left := st_left st1 + 1\<rparr>\<rparr>"
  have xt: "x < st_total (mm_state s)" "0 < x" using mm_inv_bound [OF assms] by auto
  have q: "st_qleft (mm_state s) = 0 \<longleftrightarrow> fl = []" "fl \<noteq> [] \<longrightarrow> st_qlast (mm_state s) = last fl"
    using D(13,14) by auto
  have e: "remove_node ?r x s = Some (root2, s', 0)"
    unfolding remove_node_def using xt(1) u c D(3) q
    by (auto simp: Let_def s'_def m4_def m3_def st1_def)
  have lf: "fl \<noteq> [] \<Longrightarrow> last fl \<notin> set xs \<and> last fl \<noteq> 0" using D(8) mm_inv_range [OF assms(1), of "last fl"] by fastforce
  have links: "same_links (insert 0 (set ?ys)) m2 m4"
    unfolding same_links_def
  proof
    fix j assume j: "j \<in> insert 0 (set ?ys)"
    then have "j \<noteq> x" using dy(2) xt(2) by auto
    moreover have "fl \<noteq> [] \<Longrightarrow> j \<noteq> last fl" using j lf unfolding sy by blast
    ultimately show "nd_left (m4 j) = nd_left (m2 j) \<and> nd_right (m4 j) = nd_right (m2 j) \<and>
      nd_parent (m4 j) = nd_parent (m2 j)" by (simp add: m4_def m3_def)
  qed
  obtain t2 where t2: "linked m2 0 root2 t2" "inorder t2 = ?ys" using f2(1) by (auto simp: tree_file_def)
  have s2: "set_tree t2 = set ?ys" using t2(2) by (metis set_inorder)
  have "linked m4 0 root2 t2"
    by (rule linked_same [OF t2(1) same_links_mono [OF links]]) (use s2 in auto)
  then have tf: "tree_file ?ys root2 m4"
    using t2(2) f2(1) links by (auto simp: tree_file_def same_links_def)
  have ent: "nd_key (m4 j) = nd_key (?m j) \<and> nd_data (m4 j) = nd_data (?m j)" if "j \<in> set ?ys" for j
    using that dy(2) f1(3) f2(3) by (auto simp: m4_def m3_def same_entries_def)
  have ks: "keys_sorted m4 ?ys"
    by (rule entries_delete(1) [of ?m as x bs]) (use D(10) io ent in auto)
  have out: "nd_left (m4 j) = 0 \<and> nd_right (m4 j) = 0" if j: "j \<notin> set ?ys" for j
  proof (cases "j = x \<or> j = 0")
    case True
    then show ?thesis
    proof
      assume "j = x"
      then show ?thesis by (simp add: m4_def m3_def null_node_def)
    next
      assume "j = 0"
      with tf show ?thesis by (simp add: tree_file_def)
    qed
  next
    case False
    then have "j \<notin> set xs" using j sy by simp
    then have "nd_left (m2 j) = 0 \<and> nd_right (m2 j) = 0"
      using D(16) f1(2) f2(2) j False by (simp add: frame_def)
    with False show ?thesis by (simp add: m4_def m3_def)
  qed
  have pm: "nd_parent (m4 j) = nd_parent (?m j)" if "j \<in> set fl" "j \<noteq> last fl" for j
  proof -
    have "j \<notin> set xs" "j \<noteq> 0" using that(1) D(8) mm_inv_range [OF assms(1), of j] by auto
    then show ?thesis using that f1(2) f2(2) sy assms(2) by (auto simp: m4_def m3_def frame_def)
  qed
  have ch: "chain m4 (fl @ [x])"
  proof (rule chain_snoc)
    show "chain m4 fl" by (rule chain_set_last [OF D(12,7)]) (use pm in auto)
    show "fl \<noteq> [] \<longrightarrow> nd_parent (m4 (last fl)) = x" by (simp add: m4_def)
  qed
  have blk: "?ys \<noteq> [] \<longrightarrow> nd_color (m4 root2) = Black"
  proof
    assume "?ys \<noteq> []"
    with t2 have r: "root2 \<noteq> 0" using linked_Leaf_iff [OF t2(1)] by auto
    then have "root2 \<in> set ?ys" using linked_root [OF t2(1)] s2 by simp
    with bl r dy(2) show "nd_color (m4 root2) = Black" by (auto simp: m4_def m3_def)
  qed
  have st1: "st_current st1 = st_current (mm_state s)" "st_total st1 = st_total (mm_state s)"
    "st_qleft st1 = st_qleft (mm_state s)" "st_left st1 = st_left (mm_state s)" "st_qlast st1 = x"
    "st_qfirst st1 = hd (fl @ [x])" "st_nonzero st1 = st_nonzero (mm_state s)"
    using D(13) by (auto simp: st1_def)
  have sets: "set (?ys @ fl @ [x]) = {1..st_current (mm_state s)}" using D(9) sy by auto
  have dist: "distinct (?ys @ fl @ [x])" using dy D(7,8) io by auto
  have "mm_inv (s'\<lparr>mm_state := (mm_state s')\<lparr>st_root_id := root2\<rparr>\<rparr>) ?ys (fl @ [x])"
    unfolding mm_inv_def using D(1-4,11,14,15) st1 tf ks ch out blk sets dist by (simp add: s'_def)
  then show ?thesis using e io ent st1(7) by (intro exI [of _ root2] exI [of _ s'] exI [of _ as] exI [of _ bs]) (auto simp: s'_def)
qed

lemma find_id_inv:
  assumes "mm_inv s xs fl"
  shows "mm_abs s k = None \<Longrightarrow> mmt_find_id k s = Some (set_err MMT_IFACE_EFIND s, 1, 0)"
    and "mm_abs s k \<noteq> None \<Longrightarrow> \<exists>i \<in> set xs. nd_key (mm_map s i) = k \<and> mmt_find_id k s = Some (s, 0, i)"
proof -
  note D = mm_invD [OF assms]
  show "mmt_find_id k s = Some (set_err MMT_IFACE_EFIND s, 1, 0)" if "mm_abs s k = None"
  proof (cases "xs = []")
    case True
    with assms mm_inv_descend_empty [of s fl k] D(2) show ?thesis by (simp add: mmt_find_id_def)
  next
    case False
    obtain i where "mmt_descend (st_total (mm_state s)) (mm_map s) k (st_root_id (mm_state s)) = Some (Stopped i)"
      using mm_inv_absent [OF assms \<open>mm_abs s k = None\<close> False] by metis
    with D(2) show ?thesis by (simp add: mmt_find_id_def)
  qed
  show "\<exists>i \<in> set xs. nd_key (mm_map s i) = k \<and> mmt_find_id k s = Some (s, 0, i)" if "mm_abs s k \<noteq> None"
  proof -
    from that obtain old where "mm_abs s k = Some old" by auto
    then obtain i where "i \<in> set xs" "nd_key (mm_map s i) = k"
      "mmt_descend (st_total (mm_state s)) (mm_map s) k (st_root_id (mm_state s)) = Some (Found i)"
      using mm_inv_found [OF assms] by metis
    with D(2) show ?thesis by (auto simp: mmt_find_id_def)
  qed
qed

lemma remove_inv:
  assumes "mm_inv s xs fl"
  shows "if mm_abs s k = None then mmt_remove k s = Some (set_err MMT_IFACE_EFIND s, -1)
    else \<exists>s' xs' i. mmt_remove k s = Some (s', 0) \<and> mm_inv s' xs' (fl @ [i]) \<and>
      mm_abs s' = (mm_abs s)(k := None) \<and> st_nonzero (mm_state s') = st_nonzero (mm_state s) \<and>
      nz (entries (mm_map s) xs) = nz (entries (mm_map s') xs') + (if mm_abs s k \<noteq> Some 0 then 1 else 0)"
proof (cases "mm_abs s k = None")
  case True
  with find_id_inv(1) [OF assms True] mm_invD(1) [OF assms] show ?thesis by (simp add: mmt_remove_def)
next
  case False
  note D = mm_invD [OF assms]
  obtain i where i: "i \<in> set xs" "nd_key (mm_map s i) = k" "mmt_find_id k s = Some (s, 0, i)"
    using find_id_inv(2) [OF assms False] by blast
  have ik: "mm_abs s k = Some (nd_data (mm_map s i))"
    using map_of_entries [OF D(10) i(1)] mm_inv_abs [OF assms] i(2) by simp
  from remove_node_inv [OF assms i(1)] obtain root s' as bs where
    r: "remove_node (st_root_id (mm_state s)) i s = Some (root, s', 0)" "xs = as @ i # bs"
    and I: "mm_inv (s'\<lparr>mm_state := (mm_state s')\<lparr>st_root_id := root\<rparr>\<rparr>) (as @ bs) (fl @ [i])"
    and ent: "\<forall>j \<in> set (as @ bs). nd_key (mm_map s' j) = nd_key (mm_map s j) \<and> nd_data (mm_map s' j) = nd_data (mm_map s j)"
    and n: "st_nonzero (mm_state s') = st_nonzero (mm_state s)" by blast
  let ?s = "s'\<lparr>mm_state := (mm_state s')\<lparr>st_root_id := root\<rparr>\<rparr>"
  have "st_root_id (mm_state s) \<noteq> 0" using mm_inv_root [OF assms] i(1) by auto
  then have "mmt_remove k s = Some (?s, 0)" using i(3) r(1) D(1) by (simp add: mmt_remove_def)
  moreover have ks: "keys_sorted (mm_map s) (as @ i # bs)" using D(10) r(2) by simp
  moreover have "mm_abs ?s = (mm_abs s)(k := None)"
    using entries_delete(2) [OF ks ent] mm_inv_abs [OF I] mm_inv_abs [OF assms] r(2) i(2) by simp
  moreover have "nz (entries (mm_map s) xs) = nz (entries (mm_map ?s) (as @ bs)) + (if mm_abs s k \<noteq> Some 0 then 1 else 0)"
    using entries_delete(3) [OF ks ent] r(2) ik by simp
  moreover have "st_nonzero (mm_state ?s) = st_nonzero (mm_state s)" using n by simp
  ultimately show ?thesis using I False by auto
qed

end
