(* ===== verification/MmTreeWalk.thy ===== *)
theory MmTreeWalk
  imports MmTreeRemove
begin

text \<open>
  \<open>next\<close> and \<open>traversal\<close>: a traversal visits the entries in key order, each once. What
  \<open>combine_tree\<close> does to the map.
\<close>

section \<open>The successor\<close>

lemma last_no_right:
  "linked m p nid t \<Longrightarrow> inorder t = ws @ [a] \<Longrightarrow> nd_right (m a) = 0"
proof (induction t arbitrary: p nid ws)
  case Leaf
  then show ?case by simp
next
  case (Node l c r)
  show ?case
  proof (cases "r = Leaf")
    case True
    with Node.prems show ?thesis by auto
  next
    case False
    then obtain us where "inorder r = us @ [a]"
      using Node.prems(2) by (cases "inorder r" rule: rev_cases) auto
    with Node.IH(2) Node.prems(1) show ?thesis by auto
  qed
qed

text \<open>Climbing from the last node of a subtree comes to the subtree's root.\<close>

lemma climb_last:
  "linked m p nid t \<Longrightarrow> keys_sorted m (inorder t) \<Longrightarrow> inorder t = ws @ [a] \<Longrightarrow>
   mmt_climb m a = mmt_climb m nid"
proof (induction t arbitrary: p nid ws)
  case Leaf
  then show ?case by simp
next
  case (Node l c r)
  show ?case
  proof (cases "r = Leaf")
    case True
    with Node.prems show ?thesis by auto
  next
    case False
    then obtain us where us: "inorder r = us @ [a]"
      using Node.prems(3) by (cases "inorder r" rule: rev_cases) auto
    have r: "linked m c (nd_right (m c)) r" "nid = c" using Node.prems(1) by auto
    have so: "keys_sorted m (inorder r)" using Node.prems(2) by (auto simp: keys_sorted_def sorted_wrt_append)
    have n0: "nd_right (m c) \<noteq> 0" using linked_Leaf_iff [OF r(1)] False by simp
    then have "nd_right (m c) \<in> set_tree r" "nd_parent (m (nd_right (m c))) = c"
      using linked_root [OF r(1)] root_parent [OF r(1)] by auto
    then have "mmt_climb m (nd_right (m c)) = mmt_climb m c"
      using Node.prems(2) n0
      by (subst mmt_climb.simps) (force simp: keys_sorted_def sorted_wrt_append Let_def)
    with Node.IH(2) [OF r(1) so us] r(2) show ?thesis by simp
  qed
qed

lemma next_in:
  "linked m p nid t \<Longrightarrow> keys_sorted m (inorder t) \<Longrightarrow> inorder t = xs @ a # b # ys \<Longrightarrow> a < n \<Longrightarrow>
   mmt_next n m a = Some (int b)"
proof (induction t arbitrary: p nid xs ys)
  case Leaf
  then show ?case by simp
next
  case (Node l c r)
  have l: "linked m c (nd_left (m c)) l" and r: "linked m c (nd_right (m c)) r" and c: "c \<noteq> 0" "nid = c"
    using Node.prems(1) by auto
  have so: "keys_sorted m (inorder l)" "keys_sorted m (inorder r)"
    using Node.prems(2) by (auto simp: keys_sorted_def sorted_wrt_append)
  have "xs @ a # b # ys = inorder l @ c # inorder r" using Node.prems(3) by simp
  then consider
    (left) zs where "inorder l = xs @ a # b # zs"
  | (mid) "inorder l = xs @ [a]" "b = c"
  | (root) "inorder l = xs" "a = c" "inorder r = b # ys"
  | (right) us where "inorder r = us @ a # b # ys"
    by (auto simp: append_eq_append_conv2 append_eq_Cons_conv Cons_eq_append_conv) metis+
  then show ?case
  proof cases
    case left
    from Node.IH(1) [OF l so(1) left Node.prems(4)] show ?thesis .
  next
    case right
    from Node.IH(2) [OF r so(2) right Node.prems(4)] show ?thesis .
  next
    case root
    have n0: "nd_right (m c) \<noteq> 0" using linked_Leaf_iff [OF r] root(3) by auto
    from leftmost_linked [OF r n0] root(3) have "mmt_leftmost m (nd_right (m c)) = Some b" by auto
    with n0 root(2) c Node.prems(4) show ?thesis by (simp add: mmt_next_def)
  next
    case mid
    have a: "a \<in> set_tree l" using mid(1) by (metis in_set_conv_decomp set_inorder)
    have n0: "nd_left (m c) \<noteq> 0" using linked_Leaf_iff [OF l] mid(1) by auto
    then have "nd_left (m c) \<in> set_tree l" "nd_parent (m (nd_left (m c))) = c"
      using linked_root [OF l] root_parent [OF l] by auto
    then have "mmt_climb m (nd_left (m c)) = Some c"
      using Node.prems(2) n0
      by (subst mmt_climb.simps) (force simp: keys_sorted_def sorted_wrt_append Let_def)
    with climb_last [OF l so(1) mid(1)] have "mmt_climb m a = Some c" by simp
    with last_no_right [OF l mid(1)] linked_nonzero [OF l a] mid(2) Node.prems(4) show ?thesis
      by (simp add: mmt_next_def)
  qed
qed

lemma climb_root: "nd_parent (m nid) = 0 \<Longrightarrow> mmt_climb m nid = Some 0"
  by (subst mmt_climb.simps) (simp add: Let_def mmt_climb.simps [of m 0])

lemma next_last:
  assumes "linked m 0 root t" and "keys_sorted m (inorder t)" and "inorder t = ws @ [a]" and "a < n"
  shows "mmt_next n m a = Some 0"
proof -
  have a: "a \<in> set_tree t" using assms(3) by (metis in_set_conv_decomp set_inorder)
  then have "root \<noteq> 0" using linked_Leaf_iff [OF assms(1)] by auto
  then have "nd_parent (m root) = 0" using root_parent [OF assms(1)] by simp
  with climb_last [OF assms(1-3)] climb_root have "mmt_climb m a = Some 0" by metis
  with last_no_right [OF assms(1,3)] linked_nonzero [OF assms(1) a] assms(4) show ?thesis
    by (simp add: mmt_next_def)
qed

section \<open>The traversal\<close>

lemma visit_linked:
  assumes "linked m 0 root t" and "keys_sorted m (inorder t)" and "\<forall>i \<in> set_tree t. i < n"
  shows "inorder t = xs @ a # ys \<Longrightarrow> mmt_visit n m (int a) = Some (entries m (a # ys))"
proof (induction ys arbitrary: xs a)
  case Nil
  have a: "a \<in> set_tree t" using Nil by (metis in_set_conv_decomp set_inorder)
  from next_last [OF assms(1,2) Nil] assms(3) a have "mmt_next n m a = Some 0" by simp
  with linked_nonzero [OF assms(1) a] show ?case
    by (simp add: mmt_visit.simps [of n m "int a"] mmt_visit.simps [of n m 0] entries_def)
next
  case (Cons b ys)
  have a: "a \<in> set_tree t" using Cons.prems by (metis in_set_conv_decomp set_inorder)
  from next_in [OF assms(1,2) Cons.prems] assms(3) a have "mmt_next n m a = Some (int b)" by simp
  moreover from Cons.IH [of "xs @ [a]" b] Cons.prems have "mmt_visit n m (int b) = Some (entries m (b # ys))"
    by simp
  ultimately show ?case using linked_nonzero [OF assms(1) a]
    by (simp add: mmt_visit.simps [of n m "int a"] entries_def)
qed

lemma traversal_inv:
  assumes "mm_inv s xs fl"
  shows "mmt_traversal s = Some (s, 0, entries (mm_map s) xs)"
proof (cases "xs = []")
  case True
  with mm_inv_root [OF assms] mm_invD(1,2) [OF assms] show ?thesis
    by (simp add: mmt_traversal_def entries_def)
next
  case False
  note D = mm_invD [OF assms]
  obtain t where t: "linked (mm_map s) 0 (st_root_id (mm_state s)) t" "inorder t = xs" "set_tree t = set xs"
    using mm_inv_tree [OF assms] .
  have r: "st_root_id (mm_state s) \<noteq> 0" using mm_inv_root [OF assms] False by simp
  from leftmost_linked [OF t(1) r] t(2) obtain v rest where
    v: "xs = v # rest" "mmt_leftmost (mm_map s) (st_root_id (mm_state s)) = Some v" by auto
  have "\<forall>i \<in> set_tree t. i < st_total (mm_state s)" using t(3) mm_inv_bound [OF assms] by auto
  from visit_linked [OF t(1) _ this, of "[]" v rest] t(2) v(1) D(10)
  have "mmt_visit (st_total (mm_state s)) (mm_map s) (int v) = Some (entries (mm_map s) xs)" by simp
  with v(2) r D(1,2) show ?thesis by (simp add: mmt_traversal_def Let_def)
qed

end
