(* ===== verification/MmTreeProps.thy ===== *)
theory MmTreeProps
  imports MmTreeWalk
begin

text \<open>
  What a client of \<open>c_mmtree\<close> can rely on: the class implements a finite map from keys to
  counters (\<open>mm_abs\<close>), whatever its red-black colouring has become.
\<close>

section \<open>The contract of the writing operations\<close>

text \<open>
  \<open>mm_ok\<close>: a well-formed file with room for a first node. The last condition fails only on a tree
  that has been emptied after all slots of the file had been used (see
  \<open>mmt_insert_root_out_of_file\<close>).
\<close>

definition mm_ok :: "c_mmtree \<Rightarrow> bool" where
  "mm_ok s \<longleftrightarrow> (\<exists>xs fl. mm_inv s xs fl \<and> (xs = [] \<longrightarrow> Suc (st_current (mm_state s)) < st_total (mm_state s)))"

text \<open>The effect of \<open>set\<close> and \<open>update\<close> on the map.\<close>

definition set_spec :: "mmt_op \<Rightarrow> int \<Rightarrow> int \<Rightarrow> (int \<Rightarrow> int option) \<Rightarrow> (int \<Rightarrow> int option)" where
  "set_spec opn k d M = (case M k of
      None \<Rightarrow> M(k \<mapsto> d)
    | Some old \<Rightarrow> (case mmt_apply_op opn old d of None \<Rightarrow> M | Some v \<Rightarrow> M(k \<mapsto> v)))"

definition update_spec :: "mmt_op \<Rightarrow> int \<Rightarrow> int \<Rightarrow> (int \<Rightarrow> int option) \<Rightarrow> (int \<Rightarrow> int option)" where
  "update_spec opn k d M = (case M k of
      None \<Rightarrow> M
    | Some old \<Rightarrow> (case mmt_apply_op opn old d of None \<Rightarrow> M | Some v \<Rightarrow> M(k \<mapsto> v)))"

locale counter_store =
  fixes ok :: "'s \<Rightarrow> bool"
    and abs :: "'s \<Rightarrow> int \<Rightarrow> int option"
    and cb :: "int \<Rightarrow> int \<Rightarrow> 's \<Rightarrow> ('s \<times> int) option"
    and spec :: "int \<Rightarrow> int \<Rightarrow> (int \<Rightarrow> int option) \<Rightarrow> (int \<Rightarrow> int option)"
  assumes cb_law: "ok s \<Longrightarrow> \<exists>s' rv. cb k d s = Some (s', rv) \<and> ok s' \<and> abs s' = spec k d (abs s)"
begin

lemma run_callbacks_spec:
  "ok s \<Longrightarrow> \<exists>s'. run_callbacks cb calls s = Some s' \<and> ok s' \<and>
    abs s' = fold (\<lambda>(k, d). spec k d) calls (abs s)"
proof (induction calls arbitrary: s)
  case Nil
  then show ?case by simp
next
  case (Cons c calls)
  obtain k d where c: "c = (k, d)" by (cases c)
  from cb_law [OF Cons.prems, of k d] obtain s1 rv where
    s1: "cb k d s = Some (s1, rv)" "ok s1" "abs s1 = spec k d (abs s)" by blast
  from Cons.IH [OF s1(2)] s1 c show ?case by auto
qed

end

lemma mm_ok_inv: "mm_ok s \<Longrightarrow> mm_inv s xs fl \<Longrightarrow> xs = [] \<Longrightarrow> Suc (st_current (mm_state s)) < st_total (mm_state s)"
proof -
  assume "mm_ok s" and i: "mm_inv s xs fl" "xs = []"
  then obtain xs' fl' where w: "mm_inv s xs' fl'" "xs' = [] \<longrightarrow> Suc (st_current (mm_state s)) < st_total (mm_state s)"
    by (auto simp: mm_ok_def)
  have "xs' = []" using mm_inv_root [OF w(1)] mm_inv_root [OF i(1)] i(2) by simp
  with w(2) show ?thesis by simp
qed

lemma mm_inv_nonempty: "mm_inv s xs fl \<Longrightarrow> mm_abs s = Map.empty \<longleftrightarrow> xs = []"
  using mm_inv_abs [of s xs fl] by (auto simp: entries_def)

lemma insert_ok:
  assumes "mm_ok s" and "mmap_ok \<or> st_left (mm_state s) \<noteq> 0"
  shows "if mm_abs s k \<noteq> None then mmt_insert mmap_ok k d s = Some (set_err MMT_IFACE_EINSERT s, -1)
    else \<exists>s'. mmt_insert mmap_ok k d s = Some (s', 0) \<and> mm_ok s' \<and> mm_abs s' = (mm_abs s)(k \<mapsto> d)"
proof -
  from assms(1) obtain xs fl where i: "mm_inv s xs fl" "xs = [] \<longrightarrow> Suc (st_current (mm_state s)) < st_total (mm_state s)"
    by (auto simp: mm_ok_def)
  note I = insert_inv [OF i assms(2), of k d]
  show ?thesis
  proof (cases "mm_abs s k")
    case (Some v)
    with I show ?thesis by simp
  next
    case None
    with I obtain s' xs' fl' where s': "mmt_insert mmap_ok k d s = Some (s', 0)" "mm_inv s' xs' fl'"
      "mm_abs s' = (mm_abs s)(k \<mapsto> d)" by auto
    then have "xs' \<noteq> []" using mm_inv_nonempty [OF s'(2)] by auto
    with s' have "mm_ok s'" by (auto simp: mm_ok_def)
    with s' None show ?thesis by auto
  qed
qed

lemma update_ok:
  assumes "mm_ok s"
  shows "\<exists>s' rv. mmt_update k d opn s = Some (s', rv) \<and> mm_ok s' \<and> mm_abs s' = update_spec opn k d (mm_abs s) \<and>
    (rv = 0 \<longleftrightarrow> (\<exists>old. mm_abs s k = Some old \<and> mmt_apply_op opn old d \<noteq> None))"
proof -
  from assms obtain xs fl where i: "mm_inv s xs fl" "xs = [] \<longrightarrow> Suc (st_current (mm_state s)) < st_total (mm_state s)"
    by (auto simp: mm_ok_def)
  have err: "mm_ok (set_err e s) \<and> mm_abs (set_err e s) = mm_abs s" for e
  proof
    show "mm_ok (set_err e s)" using i by (auto simp: mm_ok_def)
    have "mm_inv (set_err e s) xs fl" using i(1) by simp
    from mm_inv_abs [OF this] mm_inv_abs [OF i(1)] show "mm_abs (set_err e s) = mm_abs s" by simp
  qed
  note U = update_inv [OF i(1), of k d opn]
  show ?thesis
  proof (cases "mm_abs s k")
    case None
    with U err show ?thesis by (simp add: update_spec_def)
  next
    case (Some old)
    show ?thesis
    proof (cases "mmt_apply_op opn old d")
      case None
      with U Some err show ?thesis by (simp add: update_spec_def)
    next
      case v: (Some v)
      with U Some obtain s' where s': "mmt_update k d opn s = Some (s', 0)" "mm_inv s' xs fl"
        "mm_abs s' = (mm_abs s)(k \<mapsto> v)" by auto
      have "xs \<noteq> []" using Some mm_inv_nonempty [OF i(1)] by auto
      with s' have "mm_ok s'" by (auto simp: mm_ok_def)
      with s' Some v show ?thesis by (simp add: update_spec_def)
    qed
  qed
qed

lemma set_ok:
  assumes "mm_ok s" and "mmap_ok \<or> st_left (mm_state s) \<noteq> 0"
  shows "\<exists>s' rv. mmt_set mmap_ok k d opn s = Some (s', rv) \<and> mm_ok s' \<and> mm_abs s' = set_spec opn k d (mm_abs s)"
proof -
  from assms(1) obtain xs fl where i: "mm_inv s xs fl" "xs = [] \<longrightarrow> Suc (st_current (mm_state s)) < st_total (mm_state s)"
    by (auto simp: mm_ok_def)
  note S = set_inv [OF i assms(2), of k d opn]
  show ?thesis
  proof (cases "mm_abs s k")
    case None
    with S insert_ok [OF assms, of k d] show ?thesis by (auto simp: set_spec_def)
  next
    case (Some old)
    with S update_ok [OF assms(1), of k d opn] show ?thesis by (auto simp: set_spec_def update_spec_def)
  qed
qed

interpretation set_store: counter_store mm_ok mm_abs "mmt_callback True True opn" "set_spec opn"
  by unfold_locales (use set_ok [of _ True] in \<open>auto simp: mmt_callback_def\<close>)

interpretation update_store: counter_store mm_ok mm_abs "mmt_callback mmap_ok False opn" "update_spec opn"
  by unfold_locales (use update_ok in \<open>fastforce simp: mmt_callback_def\<close>)

section \<open>Properties\<close>

definition fresh_env :: mm_env where
  "fresh_env = \<lparr>env_exists = False, env_fd = 3, env_calloc = True, env_fstat = Some 0,
     env_state = zero_state, env_map = (\<lambda>_. null_node), env_mmap = True\<rparr>"

lemma init_fresh_inv:
  assumes "\<not> mm_inited s" and "0 < mm_increment_num s" and "2 \<le> mm_increment_num s"
    and "env_exists env \<longrightarrow> \<not> check" and "env_exists env \<or> creat" and "0 \<le> env_fd env"
    and "env_calloc env" and "env_fstat env = Some 0" and "env_mmap env"
  shows "\<exists>s'. mmt_init env creat check s = (s', 0) \<and> mm_inv s' [] [] \<and> mm_ok s' \<and>
    st_nonzero (mm_state s') = 0"
proof -
  obtain s' where s': "mmt_init env creat check s = (s', 0)" 
    "mm_inited s'" "mm_mapped s'" "mm_p_mtree s'" "mm_map s' = (\<lambda>_. null_node)"
    "0 < mm_increment_num s'"
    "mm_state s' = zero_state\<lparr>st_left := int (mm_increment_num s) - 1, st_total := mm_increment_num s\<rparr>"
    using assms by (simp add: mmt_init_def mmtree_increment_def Let_def zero_state_def
        INITIAL_INCREMENT_SIZE_def cong: if_cong)
  have "linked (\<lambda>_. null_node) 0 0 Leaf" by simp
  then have "tree_file [] 0 (\<lambda>_. null_node)"
    unfolding tree_file_def by (intro conjI exI [of _ Leaf]) (auto simp: null_node_def)
  then have "mm_inv s' [] []" unfolding mm_inv_def
    using s' assms(2) by (simp add: zero_state_def keys_sorted_def null_node_def)
  moreover from this have "mm_ok s'" unfolding mm_ok_def
    using s'(7) assms(3) by (intro exI [of _ "[]"]) (auto simp: zero_state_def)
  ultimately show ?thesis using s'(1,7) by (simp add: zero_state_def)
qed

end
