(* ===== verification/MmTreeClaims.thy ===== *)
theory MmTreeClaims
  imports MmTreeProps
begin

text \<open>
  The properties of \<open>c_mmtree\<close>. \<open>mm_cmd\<close> lists the calls of a client; \<open>mm_spec\<close> is what they mean
  on a finite map, \<open>mm_exec\<close> what the class does.
\<close>

section \<open>Runs of a client\<close>

datatype mm_cmd = CInsert int int | CSet int int mmt_op | CUpdate int int mmt_op | CRemove int | CGet int

fun mm_exec :: "mm_cmd \<Rightarrow> c_mmtree \<Rightarrow> (c_mmtree \<times> int \<times> int option) option" where
  "mm_exec (CInsert k d) s = map_option (\<lambda>(s', rv). (s', rv, None)) (mmt_insert True k d s)"
| "mm_exec (CSet k d opn) s = map_option (\<lambda>(s', rv). (s', rv, None)) (mmt_set True k d opn s)"
| "mm_exec (CUpdate k d opn) s = map_option (\<lambda>(s', rv). (s', rv, None)) (mmt_update k d opn s)"
| "mm_exec (CRemove k) s = map_option (\<lambda>(s', rv). (s', rv, None)) (mmt_remove k s)"
| "mm_exec (CGet k) s = mmt_get True k s"

fun mm_spec :: "mm_cmd \<Rightarrow> (int \<Rightarrow> int option) \<Rightarrow> (int \<Rightarrow> int option) \<times> int \<times> int option" where
  "mm_spec (CInsert k d) M = (if M k = None then (M(k \<mapsto> d), 0, None) else (M, -1, None))"
| "mm_spec (CSet k d opn) M =
     (set_spec opn k d M,
      case M k of None \<Rightarrow> 0 | Some old \<Rightarrow> if mmt_apply_op opn old d = None then -1 else 0, None)"
| "mm_spec (CUpdate k d opn) M =
     (update_spec opn k d M,
      case M k of None \<Rightarrow> -1 | Some old \<Rightarrow> if mmt_apply_op opn old d = None then -1 else 0, None)"
| "mm_spec (CRemove k) M = (if M k = None then (M, -1, None) else (M(k := None), 0, None))"
| "mm_spec (CGet k) M = (M, if M k = None then -1 else 0, M k)"

fun mm_run :: "mm_cmd list \<Rightarrow> c_mmtree \<Rightarrow> (c_mmtree \<times> (int \<times> int option) list) option" where
  "mm_run [] s = Some (s, [])"
| "mm_run (c # cs) s =
     (case mm_exec c s of
        None \<Rightarrow> None
      | Some (s1, r) \<Rightarrow> map_option (\<lambda>(s2, rs). (s2, r # rs)) (mm_run cs s1))"

fun mm_spec_run :: "mm_cmd list \<Rightarrow> (int \<Rightarrow> int option) \<Rightarrow> (int \<Rightarrow> int option) \<times> (int \<times> int option) list" where
  "mm_spec_run [] M = (M, [])"
| "mm_spec_run (c # cs) M =
     (case mm_spec c M of (M1, r) \<Rightarrow> case mm_spec_run cs M1 of (M2, rs) \<Rightarrow> (M2, r # rs))"

text \<open>No command of the run removes the only key there is.\<close>

fun keeps_some :: "mm_cmd list \<Rightarrow> (int \<Rightarrow> int option) \<Rightarrow> bool" where
  "keeps_some [] M \<longleftrightarrow> True"
| "keeps_some (c # cs) M \<longleftrightarrow>
     (case c of CRemove k \<Rightarrow> M k = None \<or> (\<exists>j. j \<noteq> k \<and> M j \<noteq> None) | _ \<Rightarrow> True) \<and>
     keeps_some cs (fst (mm_spec c M))"

lemma mm_ok_set_err: "mm_ok s \<Longrightarrow> mm_ok (set_err e s) \<and> mm_abs (set_err e s) = mm_abs s"
proof -
  assume "mm_ok s"
  then obtain xs fl where i: "mm_inv s xs fl" "xs = [] \<longrightarrow> Suc (st_current (mm_state s)) < st_total (mm_state s)"
    by (auto simp: mm_ok_def)
  then have "mm_inv (set_err e s) xs fl" by simp
  with i mm_inv_abs [OF this] mm_inv_abs [OF i(1)] show ?thesis by (auto simp: mm_ok_def)
qed

lemma remove_ok:
  assumes "mm_ok s" and "mm_abs s k = None \<or> (\<exists>j. j \<noteq> k \<and> mm_abs s j \<noteq> None)"
  shows "if mm_abs s k = None then mmt_remove k s = Some (set_err MMT_IFACE_EFIND s, -1)
    else \<exists>s'. mmt_remove k s = Some (s', 0) \<and> mm_ok s' \<and> mm_abs s' = (mm_abs s)(k := None)"
proof -
  from assms(1) obtain xs fl where i: "mm_inv s xs fl" by (auto simp: mm_ok_def)
  show ?thesis
  proof (cases "mm_abs s k = None")
    case True
    with remove_inv [OF i, of k] show ?thesis by simp
  next
    case False
    with remove_inv [OF i, of k] obtain s' xs' j where
      s': "mmt_remove k s = Some (s', 0)" "mm_inv s' xs' (fl @ [j])" "mm_abs s' = (mm_abs s)(k := None)" by auto
    from assms(2) False obtain j where "j \<noteq> k" "mm_abs s j \<noteq> None" by blast
    then have "mm_abs s' j \<noteq> None" using s'(3) by simp
    then have "xs' \<noteq> []" using mm_inv_nonempty [OF s'(2)] by auto
    with s' False show ?thesis by (auto simp: mm_ok_def)
  qed
qed

lemma get_ok:
  assumes "mm_ok s"
  shows "mmt_get True k s = Some (case mm_abs s k of
      Some v \<Rightarrow> (s, 0, Some v) | None \<Rightarrow> (set_err MMT_IFACE_EFIND s, -1, None))"
proof -
  from assms obtain xs fl where i: "mm_inv s xs fl" by (auto simp: mm_ok_def)
  show ?thesis using mm_inv_get [OF i, of k] mm_inv_abs [OF i] by simp
qed

lemma exec_ok:
  assumes "mm_ok s" and "keeps_some [c] (mm_abs s)"
  shows "\<exists>s'. mm_exec c s = Some (s', snd (mm_spec c (mm_abs s))) \<and> mm_ok s' \<and> mm_abs s' = fst (mm_spec c (mm_abs s))"
proof (cases c)
  case (CInsert k d)
  with insert_ok [OF assms(1), of True k d] mm_ok_set_err [OF assms(1)] show ?thesis by auto
next
  case (CSet k d opn)
  from set_ok [OF assms(1), of True k d opn] obtain s' rv where
    s': "mmt_set True k d opn s = Some (s', rv)" "mm_ok s'" "mm_abs s' = set_spec opn k d (mm_abs s)" by auto
  from assms(1) obtain xs fl where i: "mm_inv s xs fl" "xs = [] \<longrightarrow> Suc (st_current (mm_state s)) < st_total (mm_state s)"
    by (auto simp: mm_ok_def)
  have "rv = (case mm_abs s k of None \<Rightarrow> 0 | Some old \<Rightarrow> if mmt_apply_op opn old d = None then -1 else 0)"
    using s'(1) set_inv [OF i, of True k d opn] insert_ok [OF assms(1), of True k d] update_inv [OF i(1), of k d opn]
    by (auto split: option.splits if_splits)
  with s' CSet show ?thesis by simp
next
  case (CUpdate k d opn)
  from update_ok [OF assms(1), of k d opn] obtain s' rv where
    s': "mmt_update k d opn s = Some (s', rv)" "mm_ok s'" "mm_abs s' = update_spec opn k d (mm_abs s)" by auto
  from assms(1) obtain xs fl where i: "mm_inv s xs fl" by (auto simp: mm_ok_def)
  have "rv = (case mm_abs s k of None \<Rightarrow> -1 | Some old \<Rightarrow> if mmt_apply_op opn old d = None then -1 else 0)"
    using s'(1) update_inv [OF i(1), of k d opn] by (auto split: option.splits)
  with s' CUpdate show ?thesis by simp
next
  case (CRemove k)
  with remove_ok [OF assms(1), of k] mm_ok_set_err [OF assms(1)] assms(2) show ?thesis by auto
next
  case (CGet k)
  with get_ok [OF assms(1), of k] mm_ok_set_err [OF assms(1)] assms(1) show ?thesis by (auto split: option.split)
qed

text \<open>
  C3: on a well-formed file, a sequence of \<open>insert\<close>, \<open>set\<close>, \<open>update\<close>, \<open>remove\<close> and \<open>get\<close> calls none of
  which removes the only key there is returns (the loops over the links end), with the results and
  final contents of the same sequence on a finite map. The condition is needed: an insert into a
  file that has no unused slot and was emptied is lost.
\<close>
theorem mmt_run_refines:
  assumes "mm_ok s" and "keeps_some cs (mm_abs s)"
  shows "\<exists>s'. mm_run cs s = Some (s', snd (mm_spec_run cs (mm_abs s))) \<and> mm_ok s' \<and>
    mm_abs s' = fst (mm_spec_run cs (mm_abs s))"
  using assms
proof (induction cs arbitrary: s)
  case Nil
  then show ?case by simp
next
  case (Cons c cs)
  have "keeps_some [c] (mm_abs s)" using Cons.prems(2) by simp
  from exec_ok [OF Cons.prems(1) this] obtain s1 where
    s1: "mm_exec c s = Some (s1, snd (mm_spec c (mm_abs s)))" "mm_ok s1" "mm_abs s1 = fst (mm_spec c (mm_abs s))"
    by blast
  have "keeps_some cs (mm_abs s1)" using Cons.prems(2) s1(3) by simp
  from Cons.IH [OF s1(2) this] s1 show ?case by (auto split: prod.split)
qed

text \<open>
  \<open>init\<close> on a new or empty file succeeds and leaves the empty map, with room for more
  nodes, no recycled ones and the non-zero counter at 0.
\<close>
lemma mmt_init_fresh:
  assumes "\<not> mm_inited s" and "2 \<le> mm_increment_num s"
    and "env_exists env \<longrightarrow> \<not> check_flag" and "env_exists env \<or> creat" and "0 \<le> env_fd env"
    and "env_calloc env" and "env_fstat env = Some 0" and "env_mmap env"
  shows "\<exists>s'. mmt_init env creat check_flag s = (s', 0) \<and> mm_ok s' \<and> mm_abs s' = Map.empty \<and>
    get_nonzero_num True s' = (0, Some 0) \<and> get_node_num True s' = (0, Some 0)"
proof -
  from init_fresh_inv [OF assms(1) _ assms(2-8)] assms(2) obtain s' where
    s': "mmt_init env creat check_flag s = (s', 0)" "mm_inv s' [] []" "mm_ok s'" "st_nonzero (mm_state s') = 0" by auto
  have "mm_abs s' = Map.empty" using mm_inv_nonempty [OF s'(2)] by simp
  moreover have "st_current (mm_state s') = 0" using mm_invD(9) [OF s'(2)] by simp
  ultimately show ?thesis using s' mm_invD(14) [OF s'(2)] by (simp add: get_nonzero_num_def get_node_num_def)
qed

lemma mmt_init_fresh_witness:
  "\<exists>s'. mmt_init fresh_env True True c_mmtree_new = (s', 0) \<and> mm_ok s' \<and> mm_abs s' = Map.empty \<and>
    get_nonzero_num True s' = (0, Some 0) \<and> get_node_num True s' = (0, Some 0)"
  by (rule mmt_init_fresh) (simp_all add: fresh_env_def c_mmtree_new_def INITIAL_INCREMENT_SIZE_def)

text \<open>A concrete file for the witnesses: the result of \<open>init\<close> on a new file, and three keys in it.\<close>

definition fresh_tree :: c_mmtree where
  "fresh_tree = fst (mmt_init fresh_env True True c_mmtree_new)"

definition tree_of :: "mm_cmd list \<Rightarrow> c_mmtree" where
  "tree_of cs = (case mm_run cs fresh_tree of Some (s, _) \<Rightarrow> s | None \<Rightarrow> fresh_tree)"

lemma fresh_tree_inv: "mm_inv fresh_tree [] [] \<and> mm_ok fresh_tree \<and> st_nonzero (mm_state fresh_tree) = 0 \<and>
  mm_abs fresh_tree = Map.empty"
proof -
  have "\<exists>s'. mmt_init fresh_env True True c_mmtree_new = (s', 0) \<and> mm_inv s' [] [] \<and> mm_ok s' \<and>
    st_nonzero (mm_state s') = 0"
    by (rule init_fresh_inv) (simp_all add: fresh_env_def c_mmtree_new_def INITIAL_INCREMENT_SIZE_def)
  then obtain s' where s': "mmt_init fresh_env True True c_mmtree_new = (s', 0)" "mm_inv s' [] []" "mm_ok s'"
    "st_nonzero (mm_state s') = 0" by blast
  with mm_inv_nonempty [OF s'(2)] show ?thesis by (simp add: fresh_tree_def)
qed

theorem mmt_run_refines_witness:
  "\<exists>s'. mm_run [CInsert 5 7, CSet 3 1 MMT_OP_ADD, CInsert 5 9, CUpdate 3 4 MMT_OP_ADD, CRemove 5, CGet 3, CGet 5] fresh_tree =
     Some (s', [(0, None), (0, None), (-1, None), (0, None), (0, None), (0, Some 5), (-1, None)]) \<and>
    mm_ok s' \<and> mm_abs s' = [3 \<mapsto> 5]"
proof -
  let ?cs = "[CInsert 5 7, CSet 3 1 MMT_OP_ADD, CInsert 5 9, CUpdate 3 4 MMT_OP_ADD, CRemove 5, CGet 3, CGet 5]"
  have e: "mm_abs fresh_tree = Map.empty" using fresh_tree_inv by simp
  have m: "((\<lambda>_::int. None)(5 \<mapsto> 7, 3 \<mapsto> 5))(5 := None) = [3 \<mapsto> (5::int)]" by (rule ext) simp
  have k: "keeps_some ?cs (mm_abs fresh_tree)"
    unfolding e by (simp add: set_spec_def update_spec_def exI [of _ 3])
  have s: "mm_spec_run ?cs (mm_abs fresh_tree) =
    ([3 \<mapsto> 5], [(0, None), (0, None), (-1, None), (0, None), (0, None), (0, Some 5), (-1, None)])"
    unfolding e by (simp add: set_spec_def update_spec_def wrap32_def m)
  show ?thesis using mmt_run_refines [OF _ k] fresh_tree_inv unfolding s by auto
qed

section \<open>Traversal, combination and counters\<close>

text \<open>
  C27: \<open>traversal\<close> on a well-formed file ends, and calls its callback once for every key, in
  strictly ascending order, with the value the key has.
\<close>
theorem mmt_traversal_sorted:
  assumes "mm_ok s"
  shows "\<exists>calls. mmt_traversal s = Some (s, 0, calls) \<and> sorted_wrt (<) (map fst calls) \<and>
    map_of calls = mm_abs s"
proof -
  from assms obtain xs fl where i: "mm_inv s xs fl" by (auto simp: mm_ok_def)
  have "sorted_wrt (<) (map fst (entries (mm_map s) xs))"
    using mm_invD(10) [OF i] by (simp add: keys_sorted_def)
  with traversal_inv [OF i] mm_inv_abs [OF i] show ?thesis by auto
qed

definition sample_tree :: c_mmtree where
  "sample_tree = tree_of [CInsert 5 7, CInsert 3 1, CInsert 8 0]"

lemma sample_tree_inv:
  "mm_ok sample_tree \<and> mm_abs sample_tree = [5 \<mapsto> 7, 3 \<mapsto> 1, 8 \<mapsto> 0]"
proof -
  have ins: "\<exists>s'. mmt_insert True k d s = Some (s', 0) \<and> mm_ok s' \<and> mm_abs s' = (mm_abs s)(k \<mapsto> d)"
    if "mm_ok s" "mm_abs s k = None" for s k d
    using insert_ok [OF that(1), of True k d] that(2) by simp
  have e: "mm_ok fresh_tree" "mm_abs fresh_tree = Map.empty" using fresh_tree_inv by simp_all
  from ins [OF e(1), of 5 7] e(2) obtain s1 where
    1: "mmt_insert True 5 7 fresh_tree = Some (s1, 0)" "mm_ok s1" "mm_abs s1 = [5 \<mapsto> 7]" by auto
  from ins [OF 1(2), of 3 1] 1(3) obtain s2 where
    2: "mmt_insert True 3 1 s1 = Some (s2, 0)" "mm_ok s2" "mm_abs s2 = [5 \<mapsto> 7, 3 \<mapsto> 1]" by auto
  from ins [OF 2(2), of 8 0] 2(3) obtain s3 where
    3: "mmt_insert True 8 0 s2 = Some (s3, 0)" "mm_ok s3" "mm_abs s3 = [5 \<mapsto> 7, 3 \<mapsto> 1, 8 \<mapsto> 0]" by auto
  have "sample_tree = s3" using 1(1) 2(1) 3(1) by (simp add: sample_tree_def tree_of_def)
  with 3 show ?thesis by simp
qed

theorem mmt_traversal_sorted_witness:
  "\<exists>calls. mmt_traversal sample_tree = Some (sample_tree, 0, calls) \<and> sorted_wrt (<) (map fst calls) \<and>
    map_of calls = [5 \<mapsto> 7, 3 \<mapsto> 1, 8 \<mapsto> 0]"
  using mmt_traversal_sorted [of sample_tree] sample_tree_inv by simp

text \<open>
  C28: \<open>combine_tree\<close> applies, for every entry of the other tree in ascending key order, \<open>set\<close>
  (with \<open>MMT_KEY_ADD\<close>) or \<open>update\<close> (without) to this tree, and ends.
\<close>
theorem mmt_combine_refines:
  assumes "mm_ok s" and "mm_ok t"
  shows "\<exists>s' calls. combine_tree True flag (t, 0) s = Some (s', 0) \<and> mm_ok s' \<and>
    sorted_wrt (<) (map fst calls) \<and> map_of calls = mm_abs t \<and>
    mm_abs s' = fold (\<lambda>(k, d). (if combine_key_add flag then set_spec else update_spec) (combine_op flag) k d)
      calls (mm_abs s)"
proof -
  let ?op = "combine_op flag" and ?ka = "combine_key_add flag"
  let ?s = "if ?op = MMT_OP_unknown then set_err MMT_IFACE_EOP s else s"
  from assms(2) obtain xs fl where i: "mm_inv t xs fl" by (auto simp: mm_ok_def)
  let ?calls = "entries (mm_map t) xs"
  have t: "mmt_traversal t = Some (t, 0, ?calls)" by (rule traversal_inv [OF i])
  have so: "sorted_wrt (<) (map fst ?calls)" using mm_invD(10) [OF i] by (simp add: keys_sorted_def)
  have ok: "mm_ok ?s" "mm_abs ?s = mm_abs s" using mm_ok_set_err [OF assms(1)] assms(1) by auto
  have ini: "mm_inited s" using assms(1) mm_invD(1) by (auto simp: mm_ok_def)
  have "\<exists>s'. run_callbacks (mmt_callback True ?ka ?op) ?calls ?s = Some s' \<and> mm_ok s' \<and>
    mm_abs s' = fold (\<lambda>(k, d). (if ?ka then set_spec else update_spec) ?op k d) ?calls (mm_abs ?s)"
    using set_store.run_callbacks_spec [OF ok(1), of ?op ?calls]
      update_store.run_callbacks_spec [OF ok(1), of True ?op ?calls] by (cases ?ka) simp_all
  then obtain s' where s': "run_callbacks (mmt_callback True ?ka ?op) ?calls ?s = Some s'" "mm_ok s'"
    "mm_abs s' = fold (\<lambda>(k, d). (if ?ka then set_spec else update_spec) ?op k d) ?calls (mm_abs s)"
    unfolding ok(2) by blast
  moreover have "combine_tree True flag (t, 0) s = Some (s', 0)"
    using s'(1) t ini by (simp add: combine_tree_def Let_def)
  ultimately show ?thesis using so mm_inv_abs [OF i] by metis
qed

theorem mmt_combine_refines_witness:
  "\<exists>s' calls. combine_tree True 3 (sample_tree, 0) fresh_tree = Some (s', 0) \<and> mm_ok s' \<and>
    sorted_wrt (<) (map fst calls) \<and> map_of calls = [5 \<mapsto> 7, 3 \<mapsto> 1, 8 \<mapsto> 0] \<and>
    mm_abs s' = fold (\<lambda>(k, d). set_spec MMT_OP_ADD k d) calls Map.empty"
  using mmt_combine_refines [of fresh_tree sample_tree 3] sample_tree_inv fresh_tree_inv
  by (simp add: combine_key_add_def combine_op_def)

text \<open>
  \<open>get_node_num\<close> is the number of keys, and \<open>left\<close> the number of slots of the file without
  a key, slot 0 apart.
\<close>
lemma mmt_node_count:
  assumes "mm_ok s"
  shows "get_node_num True s = (0, Some (int (card (dom (mm_abs s))))) \<and>
    st_left (mm_state s) = int (st_total (mm_state s)) - 1 - int (card (dom (mm_abs s)))"
proof -
  from assms obtain xs fl where i: "mm_inv s xs fl" by (auto simp: mm_ok_def)
  note D = mm_invD [OF i]
  have "distinct (map fst (entries (mm_map s) xs))"
    using keys_sorted_distinct [OF D(10)] by (simp only: map_fst_entries)
  then have "card (fst ` set (entries (mm_map s) xs)) = length xs"
    using distinct_card [of "map fst (entries (mm_map s) xs)"] by (simp add: entries_def image_image)
  then have c: "card (dom (mm_abs s)) = length xs" by (simp add: mm_inv_abs [OF i] dom_map_of_conv_image_fst)
  have "length xs + length fl = card (set xs \<union> set fl)"
    using D(6,7,8) by (simp add: card_Un_disjoint distinct_card)
  then have n: "length xs + length fl = st_current (mm_state s)" using D(9) by simp
  show ?thesis using c n D(14,15) by (simp add: get_node_num_def)
qed

lemma mmt_node_count_witness:
  "get_node_num True sample_tree = (0, Some 3) \<and>
    st_left (mm_state sample_tree) = int (st_total (mm_state sample_tree)) - 1 - 3"
proof -
  have "dom (mm_abs sample_tree) = {5, 3, 8}" using sample_tree_inv by auto
  then have "card (dom (mm_abs sample_tree)) = 3" by simp
  with mmt_node_count [of sample_tree] sample_tree_inv show ?thesis by simp
qed

text \<open>
  C29: \<open>remove\<close> of a key deletes it from the map and puts its node at the end of the queue of
  recycled nodes, but leaves the counter of non-zero values as it was: after the removal of a key
  with a non-zero value \<open>get_nonzero_num\<close> counts one value too many.
\<close>
theorem mmt_remove_recycles:
  assumes "mm_inv s xs fl" and "mm_abs s k = Some v"
  shows "\<exists>s' xs' i. mmt_remove k s = Some (s', 0) \<and> mm_inv s' xs' (fl @ [i]) \<and>
    mm_abs s' = (mm_abs s)(k := None) \<and> get_nonzero_num True s' = get_nonzero_num True s \<and>
    nz (entries (mm_map s) xs) = nz (entries (mm_map s') xs') + (if v \<noteq> 0 then 1 else 0)"
  using remove_inv [OF assms(1), of k] assms(2) by (auto simp: get_nonzero_num_def)

theorem mmt_remove_recycles_witness:
  "\<exists>xs fl. mm_inv sample_tree xs fl \<and> (\<exists>s' xs' i. mmt_remove 5 sample_tree = Some (s', 0) \<and> mm_inv s' xs' (fl @ [i]) \<and>
    mm_abs s' = (mm_abs sample_tree)(5 := None) \<and> get_nonzero_num True s' = get_nonzero_num True sample_tree \<and>
    nz (entries (mm_map sample_tree) xs) = nz (entries (mm_map s') xs') + 1)"
proof -
  from sample_tree_inv obtain xs fl where i: "mm_inv sample_tree xs fl" by (auto simp: mm_ok_def)
  have v: "mm_abs sample_tree 5 = Some 7" using sample_tree_inv by simp
  from mmt_remove_recycles [OF i v] i show ?thesis by (simp only: if_P) (metis zero_neq_numeral)
qed

text \<open>
  C30: an empty tree whose slots have all been used (\<open>current\<close> is the last slot) writes the next
  root outside the file: \<open>insert\<close> reports success, the node gets the index \<open>total\<close>, and \<open>get\<close>
  does not find the key. The recycled nodes and \<open>mmtree_increment\<close> are not considered.
\<close>
theorem mmt_insert_root_out_of_file:
  assumes "mm_inv s [] fl" and "Suc (st_current (mm_state s)) = st_total (mm_state s)"
  shows "\<exists>s'. mmt_insert mmap_ok k d s = Some (s', 0) \<and> st_root_id (mm_state s') = st_total (mm_state s') \<and>
    st_total (mm_state s') = st_total (mm_state s) \<and> mm_abs s' k = None"
proof -
  note D = mm_invD [OF assms(1)]
  have r: "st_root_id (mm_state s) = 0" using mm_inv_root [OF assms(1)] by simp
  let ?s = "fst (insert_root_node k d s)"
  have i: "mmt_insert mmap_ok k d s = Some (?s, 0)" using D(1,2) r by (simp add: mmt_insert_def)
  have st: "st_root_id (mm_state ?s) = st_total (mm_state s)" "st_total (mm_state ?s) = st_total (mm_state s)"
    "mm_inited ?s" "mm_mapped ?s"
    using assms(2) D(1,2) by (simp_all add: insert_root_node_def Let_def)
  have "mm_abs ?s k = None"
    using st by (simp add: mm_abs_def mmt_get_def mmt_descend.simps)
  with i st show ?thesis by auto
qed

text \<open>The two-slot file of the witness: one key inserted and removed.\<close>

definition small_tree :: c_mmtree where
  "small_tree = fst (mmt_init fresh_env True True (c_mmtree_new\<lparr>mm_increment_num := 2\<rparr>))"

definition emptied_tree :: c_mmtree where
  "emptied_tree = (case mm_run [CInsert 5 7, CRemove 5] small_tree of Some (s, _) \<Rightarrow> s | None \<Rightarrow> small_tree)"

lemma emptied_tree_inv: "\<exists>fl. mm_inv emptied_tree [] fl"
proof -
  have "\<exists>s'. mmt_init fresh_env True True (c_mmtree_new\<lparr>mm_increment_num := 2\<rparr>) = (s', 0) \<and>
    mm_inv s' [] [] \<and> mm_ok s' \<and> st_nonzero (mm_state s') = 0"
    by (rule init_fresh_inv) (simp_all add: fresh_env_def c_mmtree_new_def)
  then have s: "mm_inv small_tree [] []" "mm_ok small_tree" by (auto simp: small_tree_def)
  have e: "mm_abs small_tree = Map.empty" using mm_inv_nonempty [OF s(1)] by simp
  from insert_ok [OF s(2), of True 5 7] e obtain s1 where
    1: "mmt_insert True 5 7 small_tree = Some (s1, 0)" "mm_ok s1" "mm_abs s1 = [5 \<mapsto> 7]" by auto
  from 1(2) obtain xs fl where i: "mm_inv s1 xs fl" by (auto simp: mm_ok_def)
  from remove_inv [OF i, of 5] 1(3) obtain s2 xs' j where
    2: "mmt_remove 5 s1 = Some (s2, 0)" "mm_inv s2 xs' (fl @ [j])" "mm_abs s2 = Map.empty" by auto
  then have "xs' = []" using mm_inv_nonempty [OF 2(2)] by simp
  moreover have "emptied_tree = s2" using 1(1) 2(1) by (simp add: emptied_tree_def)
  ultimately show ?thesis using 2(2) by blast
qed

text \<open>Evaluation of the concrete files by the simplifier.\<close>

lemmas mm_eval = mmt_insert_def insert_root_node_def insert_new_node_def mmt_remove_def mmt_find_id_def remove_node_def
  unlink_node_def mmt_relink_def mmt_insert_round_def mmt_remove_round_def mmtree_rotate_left_def mmtree_rotate_right_def
  set_left_def set_right_def set_parent_def set_color_def null_node_def zero_state_def Let_def
  mmtree_insert_color.simps mmt_remove_color.simps mmt_leftmost.simps mmt_descend.simps

lemma fresh_tree_eq: "fresh_tree =
  \<lparr>mm_inited = True, mm_size = 2468, mm_mapped = True,
   mm_state = zero_state\<lparr>st_left := 99, st_total := 100\<rparr>, mm_map = (\<lambda>_. null_node), mm_fd = 3,
   mm_increment_num = 200, mm_p_mtree = True, mm_errno = 0\<rparr>"
  by (simp add: fresh_tree_def mmt_init_def fresh_env_def c_mmtree_new_def mmtree_increment_def Let_def
    INITIAL_INCREMENT_SIZE_def zero_state_def sizeof_mt_state_def sizeof_mt_node_def MAX_INCREMENT_SIZE_def
    null_node_def cong: if_cong)

lemma small_tree_eq: "small_tree =
  \<lparr>mm_inited = True, mm_size = 116, mm_mapped = True,
   mm_state = zero_state\<lparr>st_left := 1, st_total := 2\<rparr>, mm_map = (\<lambda>_. null_node), mm_fd = 3,
   mm_increment_num = 4, mm_p_mtree = True, mm_errno = 0\<rparr>"
  by (simp add: small_tree_def mmt_init_def fresh_env_def c_mmtree_new_def mmtree_increment_def Let_def
    zero_state_def sizeof_mt_state_def sizeof_mt_node_def MAX_INCREMENT_SIZE_def null_node_def cong: if_cong)

theorem mmt_insert_root_out_of_file_witness:
  "\<exists>s'. mmt_insert True 9 1 emptied_tree = Some (s', 0) \<and> st_root_id (mm_state s') = st_total (mm_state s') \<and>
    st_total (mm_state s') = st_total (mm_state emptied_tree) \<and> mm_abs s' 9 = None"
proof -
  obtain fl where i: "mm_inv emptied_tree [] fl" using emptied_tree_inv by blast
  have "Suc (st_current (mm_state emptied_tree)) = st_total (mm_state emptied_tree)"
    by (simp add: emptied_tree_def small_tree_eq mm_eval)
  from mmt_insert_root_out_of_file [OF i this] show ?thesis .
qed

text \<open>A red node with a red child, which the colouring is to exclude.\<close>

definition red_red :: "c_mmtree \<Rightarrow> bool" where
  "red_red s \<longleftrightarrow> list_ex (\<lambda>i. nd_color (mm_map s i) = Red \<and>
     (nd_left (mm_map s i) \<noteq> 0 \<and> nd_color (mm_map s (nd_left (mm_map s i))) = Red \<or>
      nd_right (mm_map s i) \<noteq> 0 \<and> nd_color (mm_map s (nd_right (mm_map s i))) = Red))
     [1..<Suc (st_current (mm_state s))]"

text \<open>
  \<open>remove\<close> does not keep the red-black colouring: after the insertion of four keys no red
  node has a red child, and the removal of one of them makes a red node with a red child.
  \<open>mmt_remove_color\<close> asks for the colour of the sibling where it means its children's.
\<close>
lemma mmt_remove_breaks_colours:
  "\<not> red_red (tree_of [CInsert 2 1, CInsert 1 1, CInsert 3 1, CInsert 4 1]) \<and>
   red_red (tree_of [CInsert 2 1, CInsert 1 1, CInsert 3 1, CInsert 4 1, CRemove 1])"
proof
  show "\<not> red_red (tree_of [CInsert 2 1, CInsert 1 1, CInsert 3 1, CInsert 4 1])"
    by (simp add: tree_of_def fresh_tree_eq mm_eval red_red_def upt_conv_Cons)
  show "red_red (tree_of [CInsert 2 1, CInsert 1 1, CInsert 3 1, CInsert 4 1, CRemove 1])"
    by (simp add: tree_of_def fresh_tree_eq mm_eval red_red_def upt_conv_Cons)
qed

end
