(* ===== verification/MmTop.thy ===== *)
theory MmTop
  imports MmTreeClaims "HOL-Library.Multiset"
begin

text \<open>
  The ranking of \<open>c_mmtree\<close> (end of \<open>mmtree.cpp\<close>): \<open>output_top_data\<close> collects the non-zero
  entries in a buffer and sorts the part of it that is asked for with an in-place quicksort. A
  buffer is the function from its indices to the entries (\<open>kd_mem\<close>), so that the bounds of
  every access are a theorem and not an assumption. Indices are \<open>uint32_t\<close> in the code; the only
  arithmetic of theirs that can wrap is \<open>num - 1\<close>, written out in \<open>pred32\<close>.
\<close>

section \<open>Entries and buffers\<close>

record mt_key_data =
  kd_key :: int
  kd_data :: int

type_synonym kd_mem = "nat \<Rightarrow> mt_key_data"

definition compare_key_data :: "mt_key_data \<Rightarrow> mt_key_data \<Rightarrow> int" where
  "compare_key_data d1 d2 =
     (if kd_data d1 > kd_data d2 then 1 else if kd_data d1 = kd_data d2 then 0 else -1)"

definition copy_key_data :: "nat \<Rightarrow> mt_key_data \<Rightarrow> kd_mem \<Rightarrow> kd_mem" where
  "copy_key_data i from p = p(i := (p i)\<lparr>kd_key := kd_key from, kd_data := kd_data from\<rparr>)"

definition swap_key_data :: "nat \<Rightarrow> nat \<Rightarrow> kd_mem \<Rightarrow> kd_mem" where
  "swap_key_data a b p =
     (let tmp = p a;
          p1 = copy_key_data a (p b) p
      in copy_key_data b tmp p1)"

definition pred32 :: "nat \<Rightarrow> nat" where
  "pred32 n = (if n = 0 then 4294967295 else n - 1)"

section \<open>Quicksort\<close>

text \<open>The loop of the partition: \<open>k\<close> climbs, \<open>r\<close> descends until they meet.\<close>

function qs_partition :: "nat \<Rightarrow> kd_mem \<Rightarrow> nat \<Rightarrow> nat \<Rightarrow> kd_mem \<times> nat" where
  "qs_partition piv p k r =
     (if k < r then
        if compare_key_data (p k) (p piv) = 1 then qs_partition piv p (Suc k) r
        else qs_partition piv (swap_key_data k r p) k (r - 1)
      else (p, k))"
  by pat_completeness auto
termination by (relation "measure (\<lambda>(piv, p, k, r). r - k)") auto

declare qs_partition.simps [simp del]

lemma swap_apply: "swap_key_data a b p i = (if i = a then p b else if i = b then p a else p i)"
  by (simp add: swap_key_data_def copy_key_data_def Let_def)

lemma compare_1 [simp]: "compare_key_data a b = 1 \<longleftrightarrow> kd_data b < kd_data a"
  by (simp add: compare_key_data_def)

text \<open>The entries of a range as a multiset.\<close>

abbreviation range_mset :: "kd_mem \<Rightarrow> nat \<Rightarrow> nat \<Rightarrow> mt_key_data multiset" where
  "range_mset p b e \<equiv> image_mset p (mset_set {b..e})"

lemma range_mset_swap:
  assumes "b \<le> i" "i \<le> e" "b \<le> j" "j \<le> e"
  shows "range_mset (swap_key_data i j p) b e = range_mset p b e"
proof -
  let ?t = "\<lambda>x. if x = i then j else if x = j then i else x"
  have b: "bij_betw ?t {b..e} {b..e}"
    using assms by (intro bij_betw_byWitness [where f' = ?t]) auto
  have "swap_key_data i j p = p \<circ> ?t"
    by (rule ext) (auto simp: swap_apply)
  then have "range_mset (swap_key_data i j p) b e = image_mset p (image_mset ?t (mset_set {b..e}))"
    by (simp add: image_mset.compositionality)
  also have "image_mset ?t (mset_set {b..e}) = mset_set {b..e}"
    using b by (simp add: image_mset_mset_set bij_betw_def)
  finally show ?thesis .
qed

lemma range_mset_mem:
  assumes "range_mset q b e = range_mset p b e" and "b \<le> i" "i \<le> e"
  obtains j where "b \<le> j" "j \<le> e" "q i = p j"
proof -
  have "q i \<in># range_mset p b e" using assms by (metis atLeastAtMost_iff finite_atLeastAtMost
      finite_set_mset_mset_set imageI in_image_mset)
  then show thesis using that by auto
qed

lemma range_mset_split:
  assumes "b \<le> k" "k \<le> e"
  shows "range_mset p b e = range_mset p b k + range_mset p (Suc k) e"
proof -
  have "{b..e} = {b..k} \<union> {Suc k..e}" using assms by auto
  then show ?thesis by (simp add: mset_set_Union)
qed

text \<open>What the partition does: nothing outside the range, a permutation inside.\<close>

lemma qs_partition_spec:
  assumes "piv < b" and "b \<le> k" and "k \<le> r" and "r \<le> e"
    and "\<forall>i. b \<le> i \<and> i < k \<longrightarrow> kd_data (p piv) < kd_data (p i)"
    and "\<forall>i. r < i \<and> i \<le> e \<longrightarrow> kd_data (p i) \<le> kd_data (p piv)"
    and "qs_partition piv p k r = (q, k')"
  shows "k \<le> k' \<and> k' \<le> r \<and> (\<forall>i. i < b \<or> e < i \<longrightarrow> q i = p i) \<and> range_mset q b e = range_mset p b e \<and>
    (\<forall>i. b \<le> i \<and> i < k' \<longrightarrow> kd_data (p piv) < kd_data (q i)) \<and>
    (\<forall>i. k' < i \<and> i \<le> e \<longrightarrow> kd_data (q i) \<le> kd_data (p piv))"
  using assms
proof (induction piv p k r rule: qs_partition.induct)
  case (1 piv p k r)
  show ?case
  proof (cases "k < r")
    case False
    with "1.prems"(7) have "q = p" "k' = k" by (simp_all add: qs_partition.simps [of piv p k r])
    with False "1.prems" show ?thesis by auto
  next
    case True
    show ?thesis
    proof (cases "kd_data (p piv) < kd_data (p k)")
      case gt: True
      have "qs_partition piv p (Suc k) r = (q, k')"
        using True gt "1.prems"(7) by (simp add: qs_partition.simps [of piv p k r])
      moreover have "\<forall>i. b \<le> i \<and> i < Suc k \<longrightarrow> kd_data (p piv) < kd_data (p i)"
        using gt "1.prems"(5) by (auto simp: less_Suc_eq)
      ultimately show ?thesis using "1.IH"(1) [OF True _ "1.prems"(1)] "1.prems" gt True by auto
    next
      case le: False
      let ?p = "swap_key_data k r p"
      have e: "qs_partition piv ?p k (r - 1) = (q, k')"
        using True le "1.prems"(7) by (simp add: qs_partition.simps [of piv p k r])
      have pv: "?p piv = p piv" using "1.prems"(1,2,3) True by (auto simp: swap_apply)
      have 1: "\<forall>i. b \<le> i \<and> i < k \<longrightarrow> kd_data (?p piv) < kd_data (?p i)"
        using "1.prems"(5) True by (auto simp: pv) (auto simp: swap_apply)
      have 2: "\<forall>i. r - 1 < i \<and> i \<le> e \<longrightarrow> kd_data (?p i) \<le> kd_data (?p piv)"
      proof (intro allI impI)
        fix i assume i: "r - 1 < i \<and> i \<le> e"
        then have "i = r \<or> r < i" by auto
        then show "kd_data (?p i) \<le> kd_data (?p piv)"
          using le "1.prems"(6) i True by (auto simp: pv) (auto simp: swap_apply)
      qed
      have "k \<le> r - 1" "r - 1 \<le> e" using True "1.prems"(4) by auto
      from "1.IH"(2) [OF True _ "1.prems"(1,2) this 1 2 e] le
      have I: "k \<le> k'" "k' \<le> r - 1" "\<forall>i. i < b \<or> e < i \<longrightarrow> q i = ?p i"
        "range_mset q b e = range_mset ?p b e"
        "\<forall>i. b \<le> i \<and> i < k' \<longrightarrow> kd_data (p piv) < kd_data (q i)"
        "\<forall>i. k' < i \<and> i \<le> e \<longrightarrow> kd_data (q i) \<le> kd_data (p piv)" by (auto simp: pv)
      have "range_mset ?p b e = range_mset p b e"
        using True "1.prems"(2,4) by (intro range_mset_swap) auto
      moreover have "\<forall>i. i < b \<or> e < i \<longrightarrow> ?p i = p i"
        using True "1.prems"(2,4) by (auto simp: swap_apply)
      ultimately show ?thesis using I by auto
    qed
  qed
qed

text \<open>
  \<open>quicksort\<close>. It ends although a call may repeat its own range: that happens when the pivot was
  the strict minimum, which is then the last entry, so the repeated call does not do it again.
\<close>

definition min_last :: "kd_mem \<Rightarrow> nat \<Rightarrow> nat \<Rightarrow> bool" where
  "min_last p b e \<longleftrightarrow> (\<forall>i. b \<le> i \<and> i < e \<longrightarrow> kd_data (p e) < kd_data (p i))"

lemma partition_first:
  assumes "Suc b \<le> e" and "qs_partition b p (Suc b) e = (q, k)"
  shows "Suc b \<le> k" "k \<le> e" "q b = p b" "\<forall>i. i < b \<or> e < i \<longrightarrow> q i = p i" "range_mset q b e = range_mset p b e"
    "\<forall>i. b < i \<and> i < k \<longrightarrow> kd_data (p b) < kd_data (q i)"
    "\<forall>i. k < i \<and> i \<le> e \<longrightarrow> kd_data (q i) \<le> kd_data (p b)"
proof -
  note P = qs_partition_spec [of b "Suc b" "Suc b" e e p q k, OF _ _ assms(1) _ _ _ assms(2)]
  have P: "Suc b \<le> k \<and> k \<le> e \<and> (\<forall>i. i < Suc b \<or> e < i \<longrightarrow> q i = p i) \<and>
    range_mset q (Suc b) e = range_mset p (Suc b) e \<and>
    (\<forall>i. Suc b \<le> i \<and> i < k \<longrightarrow> kd_data (p b) < kd_data (q i)) \<and>
    (\<forall>i. k < i \<and> i \<le> e \<longrightarrow> kd_data (q i) \<le> kd_data (p b))"
    by (rule P) auto
  then show "Suc b \<le> k" "k \<le> e" "q b = p b" "\<forall>i. i < b \<or> e < i \<longrightarrow> q i = p i"
    "\<forall>i. b < i \<and> i < k \<longrightarrow> kd_data (p b) < kd_data (q i)"
    "\<forall>i. k < i \<and> i \<le> e \<longrightarrow> kd_data (q i) \<le> kd_data (p b)" by auto
  show "range_mset q b e = range_mset p b e"
    using P assms(1) range_mset_split [of b b e q] range_mset_split [of b b e p] by simp
qed

text \<open>When the partition ends on a larger last entry, the pivot is the strict minimum.\<close>

lemma partition_to_end:
  assumes "Suc b \<le> e" and "qs_partition b p (Suc b) e = (q, e)" and "kd_data (q b) < kd_data (q e)"
  shows "\<not> min_last p b e" and "min_last (swap_key_data e b q) b e"
proof -
  note P = partition_first [OF assms(1,2)]
  have gt: "kd_data (p b) < kd_data (q i)" if "b < i" "i \<le> e" for i
    using P(3,6) that assms(3) by (cases "i = e") auto
  obtain j where j: "b \<le> j" "j \<le> e" "p e = q j"
    using range_mset_mem [OF P(5) [symmetric], of e] assms(1) by auto
  have "kd_data (p b) \<le> kd_data (p e)" using gt [of j] j P(3) by (cases "j = b") auto
  then show "\<not> min_last p b e" using assms(1) by (auto simp: min_last_def)
  show "min_last (swap_key_data e b q) b e"
    using gt P(3) assms(1,3) by (auto simp: min_last_def swap_apply)
qed

function quicksort :: "kd_mem \<Rightarrow> nat \<Rightarrow> nat \<Rightarrow> nat \<Rightarrow> kd_mem" where
  "quicksort p b e num =
     (if e \<ge> b + 1 then
        (case qs_partition b p (b + 1) e of
           (q, k) \<Rightarrow>
             if compare_key_data (q k) (q b) = 1 then
               let p1 = quicksort (swap_key_data k b q) b k num
               in if k < pred32 num then quicksort p1 k e num else p1
             else if e - b = 1 then q
             else
               let k1 = k - 1;
                   p1 = quicksort (swap_key_data k1 b q) b k1 num
               in if k1 < pred32 num then quicksort p1 k e num else p1)
      else p)"
  by pat_completeness auto
termination
proof (relation "measures [\<lambda>(p, b, e, num). e - b, \<lambda>(p, b, e, num). if min_last p b e then 0 else 1]", goal_cases)
  case 1
  show ?case by simp
next
  case (2 p b e num q k)
  then have e: "Suc b \<le> e" "qs_partition b p (Suc b) e = (q, k)" "kd_data (q b) < kd_data (q k)" by auto
  show ?case
  proof (cases "k = e")
    case True
    with partition_to_end [OF e(1), of p q] e show ?thesis by auto
  next
    case False
    with partition_first(1,2) [OF e(1,2)] show ?thesis by auto
  qed
next
  case (3 p b e num q k)
  then have e: "Suc b \<le> e" "qs_partition b p (Suc b) e = (q, k)" by auto
  with partition_first(1,2) [OF e] show ?case by auto
next
  case (4 p b e num q k)
  then have e: "Suc b \<le> e" "qs_partition b p (Suc b) e = (q, k)" by auto
  with partition_first(1,2) [OF e] 4 show ?case by auto
next
  case (5 p b e num q k)
  then have e: "Suc b \<le> e" "qs_partition b p (Suc b) e = (q, k)" by auto
  with partition_first(1,2) [OF e] 5 show ?case by auto
qed

declare quicksort.simps [simp del]

text \<open>The first \<open>n\<close> entries of the range are in place.\<close>

definition top_sorted :: "nat \<Rightarrow> kd_mem \<Rightarrow> nat \<Rightarrow> nat \<Rightarrow> bool" where
  "top_sorted n p b e \<longleftrightarrow> (\<forall>i j. b \<le> i \<and> i < j \<and> j \<le> e \<and> i < n \<longrightarrow> kd_data (p j) \<le> kd_data (p i))"

definition sorts :: "nat \<Rightarrow> nat \<Rightarrow> nat \<Rightarrow> kd_mem \<Rightarrow> kd_mem \<Rightarrow> bool" where
  "sorts n b e p q \<longleftrightarrow> (\<forall>i. i < b \<or> e < i \<longrightarrow> q i = p i) \<and> range_mset q b e = range_mset p b e \<and> top_sorted n q b e"

lemma sorts_mem:
  assumes "sorts n b e p q" and "b \<le> i" "i \<le> e"
  obtains j where "b \<le> j" "j \<le> e" "q i = p j"
  using assms range_mset_mem [of q b e p i] by (auto simp: sorts_def)

text \<open>The two recursive calls put the whole range in place.\<close>

lemma sorts_parts:
  assumes l: "sorts num b l p0 p1" and r: "if l < pred32 num then sorts num m e p1 p2 else p2 = p1"
    and m: "b \<le> l" "m = l \<or> m = Suc l" "m \<le> e" "l \<le> e"
    and hi: "\<forall>i. b \<le> i \<and> i \<le> l \<longrightarrow> v \<le> kd_data (p0 i)"
    and lo: "\<forall>i. l < i \<and> i \<le> e \<longrightarrow> kd_data (p0 i) \<le> v"
  shows "sorts num b e p0 p2"
proof -
  have hi1: "v \<le> kd_data (p1 i)" if "b \<le> i" "i \<le> l" for i
    using sorts_mem [OF l that] hi by metis
  have lo1: "kd_data (p1 i) \<le> v" if "l < i" "i \<le> e" for i
    using l lo that by (simp add: sorts_def)
  have sl: "kd_data (p1 j) \<le> kd_data (p1 i)" if "b \<le> i" "i < j" "j \<le> l" "i < num" for i j
    using l that by (auto simp: sorts_def top_sorted_def)
  have ms: "range_mset p1 b e = range_mset p0 b e"
  proof -
    have "range_mset p1 (Suc l) e = range_mset p0 (Suc l) e"
      using l by (auto simp: sorts_def intro!: image_mset_cong)
    with l range_mset_split [OF m(1,4), of p1] range_mset_split [OF m(1,4), of p0] show ?thesis
      by (simp add: sorts_def)
  qed
  show ?thesis
  proof (cases "l < pred32 num")
    case False
    then have n: "i \<le> l" if "i < num" "i \<le> e" for i using that by (auto simp: pred32_def split: if_splits)
    have "kd_data (p1 j) \<le> kd_data (p1 i)" if "b \<le> i" "i < j" "j \<le> e" "i < num" for i j
      using that n [of i] sl [of i j] hi1 [of i] lo1 [of j] by (cases "j \<le> l") auto
    with False r l ms m show ?thesis by (auto simp: sorts_def top_sorted_def)
  next
    case True
    with r have r: "sorts num m e p1 p2" by simp
    have out: "p2 i = p1 i" if "i < m \<or> e < i" for i using r that by (auto simp: sorts_def)
    have "kd_data (p2 j) \<le> kd_data (p2 i)" if ij: "b \<le> i" "i < j" "j \<le> e" "i < num" for i j
    proof (cases "m \<le> i")
      case True
      with r ij show ?thesis by (auto simp: sorts_def top_sorted_def)
    next
      case False
      then have i: "p2 i = p1 i" "i \<le> l" "i < m" using out m(2) by auto
      show ?thesis
      proof (cases "j < m")
        case True
        with i ij out sl [of i j] m(2) show ?thesis by auto
      next
        case False
        then obtain j' where j': "m \<le> j'" "j' \<le> e" "p2 j = p1 j'" using sorts_mem [OF r, of j] ij by auto
        show ?thesis
        proof (cases "j' \<le> l")
          case True
          with j' i m(2) sl [of i j'] ij show ?thesis by auto
        next
          case False
          with j' i lo1 [of j'] hi1 [of i] ij show ?thesis by auto
        qed
      qed
    qed
    moreover have "range_mset p2 b e = range_mset p1 b e"
    proof (cases "m = b")
      case True
      with r show ?thesis by (simp add: sorts_def)
    next
      case False
      then have m': "b \<le> m - 1" "m - 1 \<le> e" "Suc (m - 1) = m" using m by auto
      have "range_mset p2 b (m - 1) = range_mset p1 b (m - 1)"
        using out m'(3) by (auto intro!: image_mset_cong)
      with r range_mset_split [OF m'(1,2), of p1] range_mset_split [OF m'(1,2), of p2] m'(3) show ?thesis
        by (simp add: sorts_def)
    qed
    ultimately show ?thesis using ms out l m by (auto simp: sorts_def top_sorted_def)
  qed
qed

lemma sorts_refl: "e \<le> b \<Longrightarrow> sorts n b e p p"
  by (simp add: sorts_def top_sorted_def)

lemma sorts_from:
  assumes "sorts n b e p' q" and "\<forall>i. i < b \<or> e < i \<longrightarrow> p' i = p i" and "range_mset p' b e = range_mset p b e"
  shows "sorts n b e p q"
  using assms by (simp add: sorts_def)

text \<open>The two swaps with the pivot after the partition.\<close>

lemma pivot_up:
  assumes "Suc b \<le> e" and "qs_partition b p (Suc b) e = (q, k)" and "kd_data (q b) < kd_data (q k)"
  defines "p0 \<equiv> swap_key_data k b q"
  shows "\<forall>i. b \<le> i \<and> i \<le> k \<longrightarrow> kd_data (p b) \<le> kd_data (p0 i)"
    "\<forall>i. k < i \<and> i \<le> e \<longrightarrow> kd_data (p0 i) \<le> kd_data (p b)"
    "\<forall>i. i < b \<or> e < i \<longrightarrow> p0 i = p i" "range_mset p0 b e = range_mset p b e"
proof -
  note P = partition_first [OF assms(1,2)]
  have lt: "kd_data (p b) < kd_data (q i)" if "b < i" "i \<le> k" for i
    using P(3,6) that assms(3) by (cases "i = k") auto
  show "\<forall>i. b \<le> i \<and> i \<le> k \<longrightarrow> kd_data (p b) \<le> kd_data (p0 i)"
    unfolding p0_def using lt P(1,3) by (auto simp: swap_apply less_imp_le)
  show "\<forall>i. k < i \<and> i \<le> e \<longrightarrow> kd_data (p0 i) \<le> kd_data (p b)"
    unfolding p0_def using P(1,7) by (auto simp: swap_apply)
  show "\<forall>i. i < b \<or> e < i \<longrightarrow> p0 i = p i"
    unfolding p0_def using P(1,2,4) assms(1) by (auto simp: swap_apply)
  show "range_mset p0 b e = range_mset p b e"
    unfolding p0_def using range_mset_swap [of b k e b q] P(1,2,5) by simp
qed

lemma pivot_down:
  assumes "Suc b \<le> e" and "qs_partition b p (Suc b) e = (q, k)" and "\<not> kd_data (q b) < kd_data (q k)"
  defines "p0 \<equiv> swap_key_data (k - 1) b q"
  shows "\<forall>i. b \<le> i \<and> i \<le> k - 1 \<longrightarrow> kd_data (p b) \<le> kd_data (p0 i)"
    "\<forall>i. k - 1 < i \<and> i \<le> e \<longrightarrow> kd_data (p0 i) \<le> kd_data (p b)"
    "\<forall>i. i < b \<or> e < i \<longrightarrow> p0 i = p i" "range_mset p0 b e = range_mset p b e"
proof -
  note P = partition_first [OF assms(1,2)]
  have le: "kd_data (q i) \<le> kd_data (p b)" if "k - 1 < i" "i \<le> e" for i
    using P(1,3,7) that assms(3) by (cases "i = k") auto
  show "\<forall>i. b \<le> i \<and> i \<le> k - 1 \<longrightarrow> kd_data (p b) \<le> kd_data (p0 i)"
    unfolding p0_def using P(1,3,6) by (auto simp: swap_apply less_imp_le)
  show "\<forall>i. k - 1 < i \<and> i \<le> e \<longrightarrow> kd_data (p0 i) \<le> kd_data (p b)"
    unfolding p0_def using P(1) le by (auto simp: swap_apply)
  show "\<forall>i. i < b \<or> e < i \<longrightarrow> p0 i = p i"
    unfolding p0_def using P(1,2,4) assms(1) by (auto simp: swap_apply)
  show "range_mset p0 b e = range_mset p b e"
    unfolding p0_def using range_mset_swap [of b "k - 1" e b q] P(1,2,5) by auto
qed

lemma quicksort_sorts: "sorts num b e p (quicksort p b e num)"
proof (induction p b e num rule: quicksort.induct)
  case (1 p b e num)
  show ?case
  proof (cases "b + 1 \<le> e")
    case False
    then show ?thesis by (simp add: quicksort.simps [of p b e num] sorts_refl)
  next
    case True
    obtain q k where q: "(q, k) = qs_partition b p (b + 1) e" by (metis surj_pair)
    then have q': "qs_partition b p (Suc b) e = (q, k)" by simp
    have be: "Suc b \<le> e" using True by simp
    note P = partition_first [OF be q']
    show ?thesis
    proof (cases "kd_data (q b) < kd_data (q k)")
      case gt: True
      let ?p0 = "swap_key_data k b q" let ?p1 = "quicksort ?p0 b k num"
      let ?p2 = "if k < pred32 num then quicksort ?p1 k e num else ?p1"
      note U = pivot_up [OF be q' gt]
      have e: "quicksort p b e num = ?p2"
        using True q' gt by (simp add: quicksort.simps [of p b e num] Let_def)
      have c: "compare_key_data (q k) (q b) = 1" using gt by simp
      have "sorts num b e ?p0 ?p2"
        by (rule sorts_parts [where l = k and m = k, OF "1.IH"(1) [OF True q c] _ _ _ _ _ U(1,2)])
          (use P(1,2) "1.IH"(2) [OF True q c refl] in auto)
      with e sorts_from [OF _ U(3,4)] show ?thesis by simp
    next
      case le: False
      have c: "compare_key_data (q k) (q b) \<noteq> 1" using le by simp
      show ?thesis
      proof (cases "e - b = 1")
        case one: True
        then have k: "k = e" "e = Suc b" using P(1,2) by auto
        have e: "quicksort p b e num = q"
          using True q' le one by (simp add: quicksort.simps [of p b e num])
        have "top_sorted num q b e" unfolding top_sorted_def
        proof (intro allI impI, goal_cases)
          case (1 i j)
          then have "i = b" "j = k" using k by auto
          with le show ?case by simp
        qed
        with e P(4,5) show ?thesis by (simp add: sorts_def)
      next
        case more: False
        let ?p0 = "swap_key_data (k - 1) b q" let ?p1 = "quicksort ?p0 b (k - 1) num"
        let ?p2 = "if k - 1 < pred32 num then quicksort ?p1 k e num else ?p1"
        note U = pivot_down [OF be q' le]
        have e: "quicksort p b e num = ?p2"
          using True q' le more by (simp add: quicksort.simps [of p b e num] Let_def)
        have "sorts num b e ?p0 ?p2"
          by (rule sorts_parts [where l = "k - 1" and m = k, OF "1.IH"(3) [OF True q c more refl] _ _ _ _ _ U(1,2)])
            (use P(1,2) "1.IH"(4) [OF True q c more refl refl] in auto)
        with e sorts_from [OF _ U(3,4)] show ?thesis by simp
      qed
    qed
  qed
qed

section \<open>The ranking\<close>

text \<open>The callback of \<open>traversal\<close>: \<open>param_output_t\<close> is the pair of \<open>index\<close> and \<open>p_buf\<close>.\<close>

definition get_node_cb :: "int \<Rightarrow> int \<Rightarrow> nat \<times> kd_mem \<Rightarrow> nat \<times> kd_mem" where
  "get_node_cb key data = (\<lambda>(index, p_buf).
     if data = 0 then (index, p_buf)
     else (index + 1, p_buf(index := \<lparr>kd_key = key, kd_data = data\<rparr>)))"

definition zero_key_data :: mt_key_data where
  "zero_key_data = \<lparr>kd_key = 0, kd_data = 0\<rparr>"

text \<open>
  \<open>output_top_data\<close>: \<open>p_ok\<close> is \<open>p_buf != NULL\<close>, \<open>calloc_ok\<close> the success of \<open>calloc\<close>; the result holds
  the return value, the final \<open>*num\<close> and the entries copied to \<open>p_buf\<close>. \<open>node_count\<close> is the
  \<open>int\<close> counter read as \<open>uint32_t\<close>.
\<close>

definition output_top_data ::
    "bool \<Rightarrow> bool \<Rightarrow> nat \<Rightarrow> c_mmtree \<Rightarrow> (c_mmtree \<times> int \<times> nat \<times> mt_key_data list) option" where
  "output_top_data p_ok calloc_ok num s =
     (if \<not> p_ok then Some (s, -1, num, [])
      else
        (case get_nonzero_num True s of
           (_, None) \<Rightarrow> Some (s, -1, num, [])
         | (_, Some c) \<Rightarrow>
             let node_count = nat (c mod 4294967296);
                 num1 = (if node_count < num then node_count else num)
             in if node_count = 0 then Some (s, 0, num1, [])
                else if \<not> calloc_ok then Some (s, -1, num1, [])
                else
                  (case mmt_traversal s of
                     None \<Rightarrow> None
                   | Some (s1, rv, calls) \<Rightarrow>
                       if rv \<noteq> 0 then Some (s1, -1, num1, [])
                       else
                         let (index, p) = fold (\<lambda>(k, d). get_node_cb k d) calls (0, \<lambda>_. zero_key_data);
                             p1 = quicksort p 0 (node_count - 1) num1
                         in Some (s1, 0, num1, map p1 [0..<num1]))))"

text \<open>The entries the callback keeps.\<close>

definition ranked :: "(int \<times> int) list \<Rightarrow> mt_key_data list" where
  "ranked es = map (\<lambda>(k, d). \<lparr>kd_key = k, kd_data = d\<rparr>) (filter (\<lambda>e. snd e \<noteq> 0) es)"

lemma length_ranked [simp]: "length (ranked es) = nz es"
  by (simp add: ranked_def nz_def)

lemma fold_get_node_cb:
  "fold (\<lambda>(k, d). get_node_cb k d) es (n, p) =
     (n + nz es, \<lambda>i. if n \<le> i \<and> i < n + nz es then ranked es ! (i - n) else p i)"
proof (induction es arbitrary: n p)
  case Nil
  then show ?case by (auto simp: nz_def)
next
  case (Cons e es)
  obtain k d where e: "e = (k, d)" by (cases e)
  show ?case
  proof (cases "d = 0")
    case True
    then have n: "nz (e # es) = nz es" and r: "ranked (e # es) = ranked es"
      by (simp_all add: e nz_def ranked_def)
    have "get_node_cb k d (n, p) = (n, p)" using True by (simp add: get_node_cb_def)
    then show ?thesis unfolding n r using Cons.IH [of n p] by (simp add: e)
  next
    case False
    then have n: "nz (e # es) = Suc (nz es)" and r: "ranked (e # es) = \<lparr>kd_key = k, kd_data = d\<rparr> # ranked es"
      by (simp_all add: e nz_def ranked_def)
    define p' where "p' = p(n := \<lparr>kd_key = k, kd_data = d\<rparr>)"
    have "get_node_cb k d (n, p) = (Suc n, p')"
      using False by (simp add: get_node_cb_def p'_def)
    moreover have "(\<lambda>i. if Suc n \<le> i \<and> i < Suc n + nz es then ranked es ! (i - Suc n)
        else p' i) =
      (\<lambda>i. if n \<le> i \<and> i < n + Suc (nz es)
        then (\<lparr>kd_key = k, kd_data = d\<rparr> # ranked es) ! (i - n) else p i)"
      by (rule ext) (auto simp: nth_Cons' p'_def)
    ultimately show ?thesis unfolding n r using Cons.IH [of "Suc n" p']
      by (simp add: e)
  qed
qed

lemma range_mset_list: "0 < n \<Longrightarrow> range_mset p 0 (n - 1) = mset (map p [0..<n])"
proof -
  assume "0 < n"
  then have "{0..n - 1} = set [0..<n]" by auto
  then have "mset_set {0..n - 1} = mset [0..<n]" by (metis distinct_upt mset_set_set)
  then show ?thesis by simp
qed

text \<open>
  C18: \<open>quicksort\<close> ends on every buffer and range, touches nothing outside the range, permutes the
  range, and puts its first \<open>num\<close> entries in place in descending order of their data (every
  entry before \<open>num\<close> is at least every later one).
\<close>
theorem quicksort_top:
  "(\<forall>i. i < b \<or> e < i \<longrightarrow> quicksort p b e num i = p i) \<and>
   image_mset (quicksort p b e num) (mset_set {b..e}) = image_mset p (mset_set {b..e}) \<and>
   (\<forall>i j. b \<le> i \<and> i < j \<and> j \<le> e \<and> i < num \<longrightarrow>
      kd_data (quicksort p b e num j) \<le> kd_data (quicksort p b e num i))"
  using quicksort_sorts [of num b e p] unfolding sorts_def top_sorted_def by blast

theorem quicksort_top_witness:
  "kd_data (quicksort (\<lambda>i. \<lparr>kd_key = int i, kd_data = int i * 5 mod 7\<rparr>) 0 6 3 6) \<le>
   kd_data (quicksort (\<lambda>i. \<lparr>kd_key = int i, kd_data = int i * 5 mod 7\<rparr>) 0 6 3 2)"
  using quicksort_top [of 0 6 "\<lambda>i. \<lparr>kd_key = int i, kd_data = int i * 5 mod 7\<rparr>" 3] by auto

text \<open>
  C26: on a well-formed file whose non-zero counter exceeds the number of non-zero values by
  \<open>stale\<close> (0 as long as \<open>remove\<close> has not been called), \<open>output_top_data\<close> returns
  \<open>min num counter\<close> entries in descending order that dominate the rest; what it ranks are the
  non-zero entries of the map and \<open>stale\<close> entries with key 0 and data 0, which stand for removed
  keys.
\<close>
theorem mmt_output_top:
  assumes "mm_inv s xs fl" and "st_nonzero (mm_state s) = int (nz (entries (mm_map s) xs) + stale)"
    and "st_nonzero (mm_state s) < 4294967296"
  shows "\<exists>out rest. output_top_data True True num s =
      Some (s, 0, min num (nz (entries (mm_map s) xs) + stale), out) \<and>
    length out = min num (nz (entries (mm_map s) xs) + stale) \<and>
    sorted_wrt (\<lambda>a b. kd_data b \<le> kd_data a) out \<and> (\<forall>a \<in> set out. \<forall>b \<in> set rest. kd_data b \<le> kd_data a) \<and>
    mset out + mset rest = mset (ranked (entries (mm_map s) xs)) + replicate_mset stale zero_key_data"
proof -
  let ?es = "entries (mm_map s) xs"
  define N where "N = nz ?es + stale"
  have N: "nat (st_nonzero (mm_state s) mod 4294967296) = N" using assms(2,3) by (simp add: N_def)
  show ?thesis
  proof (cases "N = 0")
    case True
    then have "output_top_data True True num s = Some (s, 0, 0, [])"
      using N by (simp add: output_top_data_def get_nonzero_num_def)
    moreover have "ranked ?es = []" using True length_ranked [of ?es] by (metis N_def add_is_0 length_0_conv)
    ultimately show ?thesis using True by (intro exI [of _ "[]"]) (simp add: N_def)
  next
    case False
    define p where "p = (\<lambda>i. if i < nz ?es then ranked ?es ! i else zero_key_data)"
    define n1 where "n1 = min num N"
    define q where "q = quicksort p 0 (N - 1) n1"
    have "fold (\<lambda>(k, d). get_node_cb k d) ?es (0, \<lambda>_. zero_key_data) = (nz ?es, p)"
      unfolding fold_get_node_cb p_def by (simp add: fun_eq_iff)
    then have o: "output_top_data True True num s = Some (s, 0, n1, map q [0..<n1])"
      using N False traversal_inv [OF assms(1)]
      by (simp add: output_top_data_def get_nonzero_num_def q_def n1_def min_def)
    have S: "sorts n1 0 (N - 1) p q" unfolding q_def by (rule quicksort_sorts)
    have "map p [0..<N] = ranked ?es @ replicate stale zero_key_data"
      by (rule nth_equalityI) (auto simp: p_def N_def nth_append)
    then have m: "mset (map q [0..<N]) = mset (ranked ?es) + replicate_mset stale zero_key_data"
      using S range_mset_list [of N q] range_mset_list [of N p] False
      by (simp only: sorts_def mset_append mset_replicate)
    have s: "map q [0..<N] = map q [0..<n1] @ map q [n1..<N]"
      using upt_add_eq_append [of 0 n1 "N - n1"] by (simp add: n1_def)
    have d: "kd_data (q j) \<le> kd_data (q i)" if "i < j" "j < N" "i < n1" for i j
      using S that by (auto simp: sorts_def top_sorted_def)
    have "sorted_wrt (\<lambda>a b. kd_data b \<le> kd_data a) (map q [0..<n1])"
      using d by (auto simp: sorted_wrt_iff_nth_less n1_def)
    moreover have "\<forall>a \<in> set (map q [0..<n1]). \<forall>b \<in> set (map q [n1..<N]). kd_data b \<le> kd_data a"
      using d by auto
    moreover have "mset (map q [0..<n1]) + mset (map q [n1..<N]) = mset (ranked ?es) + replicate_mset stale zero_key_data"
      using m by (simp only: s mset_append)
    ultimately show ?thesis using o unfolding N_def [symmetric] n1_def [symmetric]
      by (intro exI [of _ "map q [0..<n1]"] exI [of _ "map q [n1..<N]"]) (simp add: n1_def)
  qed
qed

text \<open>The tree of the witness: three keys, of which the one with value 7 has been removed.\<close>

definition stale_tree :: c_mmtree where
  "stale_tree = tree_of [CInsert 5 7, CInsert 3 1, CInsert 8 0, CRemove 5]"

lemma stale_tree_inv: "\<exists>xs fl. mm_inv stale_tree xs fl"
proof -
  from sample_tree_inv obtain xs fl where i: "mm_inv sample_tree xs fl" by (auto simp: mm_ok_def)
  from remove_inv [OF i, of 5] sample_tree_inv obtain s' xs' j where
    s': "mmt_remove 5 sample_tree = Some (s', 0)" "mm_inv s' xs' (fl @ [j])" by auto
  obtain rs where "mm_run [CInsert 5 7, CInsert 3 1, CInsert 8 0] fresh_tree = Some (sample_tree, rs)"
    by (simp add: sample_tree_def tree_of_def fresh_tree_eq mm_eval)
  then have "mm_run [CInsert 5 7, CInsert 3 1, CInsert 8 0, CRemove 5] fresh_tree = Some (s', rs @ [(0, None)])"
    using s'(1) by (auto split: option.splits)
  with s'(2) show ?thesis by (auto simp: stale_tree_def tree_of_def)
qed

theorem mmt_output_top_witness:
  "\<exists>out rest. output_top_data True True 5 stale_tree = Some (stale_tree, 0, 2, out) \<and> length out = 2 \<and>
    sorted_wrt (\<lambda>a b. kd_data b \<le> kd_data a) out \<and> (\<forall>a \<in> set out. \<forall>b \<in> set rest. kd_data b \<le> kd_data a) \<and>
    mset out + mset rest = {#\<lparr>kd_key = 3, kd_data = 1\<rparr>#} + {#zero_key_data#}"
proof -
  obtain xs fl where i: "mm_inv stale_tree xs fl" using stale_tree_inv by blast
  have "mmt_traversal stale_tree = Some (stale_tree, 0, [(3, 1), (8, 0)])"
    by (simp add: stale_tree_def tree_of_def fresh_tree_eq mm_eval mmt_traversal_def mmt_visit.simps mmt_next_def
      mmt_climb.simps)
  then have e: "entries (mm_map stale_tree) xs = [(3, 1), (8, 0)]" using traversal_inv [OF i] by simp
  have n: "st_nonzero (mm_state stale_tree) = 2"
    by (simp add: stale_tree_def tree_of_def fresh_tree_eq mm_eval)
  have z: "nz [(3, 1), (8, 0)] = 1" "ranked [(3, 1), (8, 0)] = [\<lparr>kd_key = 3, kd_data = 1\<rparr>]"
    by (simp_all add: nz_def ranked_def)
  show ?thesis using mmt_output_top [OF i, of 1 5] unfolding e n z by (simp add: numeral_2_eq_2)
qed

end
