(* ===== verification/StdMap.thy ===== *)
theory StdMap
  imports Prelude
begin

text \<open>
  \<open>std::map\<close> as the game servers use it: the pairs in ascending key order, which is the order its
  iterators visit. \<open>sm_find\<close> is \<open>find\<close>, \<open>sm_assign\<close> is \<open>m[k] = v\<close>, \<open>sm_insert\<close> is \<open>insert\<close>
  (the flag it returns is whether the key was new), \<open>sm_erase\<close> is \<open>erase\<close>.
\<close>

type_synonym ('k, 'v) smap = "('k \<times> 'v) list"

abbreviation sm_find :: "('k, 'v) smap \<Rightarrow> 'k \<Rightarrow> 'v option" where
  "sm_find \<equiv> map_of"

fun sm_assign :: "'k::linorder \<Rightarrow> 'v \<Rightarrow> ('k, 'v) smap \<Rightarrow> ('k, 'v) smap" where
  "sm_assign k v [] = [(k, v)]"
| "sm_assign k v ((k', v') # m) =
     (if k < k' then (k, v) # (k', v') # m
      else if k = k' then (k, v) # m
      else (k', v') # sm_assign k v m)"

definition sm_insert :: "'k::linorder \<Rightarrow> 'v \<Rightarrow> ('k, 'v) smap \<Rightarrow> ('k, 'v) smap \<times> bool" where
  "sm_insert k v m = (if sm_find m k = None then (sm_assign k v m, True) else (m, False))"

definition sm_erase :: "'k::linorder \<Rightarrow> ('k, 'v) smap \<Rightarrow> ('k, 'v) smap" where
  "sm_erase k m = filter (\<lambda>e. fst e \<noteq> k) m"

text \<open>Changing the value of a key that is there, as the code does through a pointer.\<close>

definition sm_modify :: "'k::linorder \<Rightarrow> ('v \<Rightarrow> 'v) \<Rightarrow> ('k, 'v) smap \<Rightarrow> ('k, 'v) smap" where
  "sm_modify k f m = (case sm_find m k of None \<Rightarrow> m | Some v \<Rightarrow> sm_assign k (f v) m)"

definition sm_ok :: "('k::linorder, 'v) smap \<Rightarrow> bool" where
  "sm_ok m = sorted_wrt (<) (map fst m)"

text \<open>The contract of a map with an invariant, and what follows from it alone.\<close>

locale std_map =
  fixes inv :: "'m \<Rightarrow> bool"
    and find :: "'m \<Rightarrow> 'k \<Rightarrow> 'v option"
    and assign :: "'k \<Rightarrow> 'v \<Rightarrow> 'm \<Rightarrow> 'm"
    and erase :: "'k \<Rightarrow> 'm \<Rightarrow> 'm"
  assumes inv_assign: "inv m \<Longrightarrow> inv (assign k v m)"
    and inv_erase: "inv m \<Longrightarrow> inv (erase k m)"
    and find_assign: "inv m \<Longrightarrow> find (assign k v m) = (find m)(k \<mapsto> v)"
    and find_erase: "inv m \<Longrightarrow> find (erase k m) = (find m)(k := None)"
begin

lemma find_update:
  "inv m \<Longrightarrow> find m k = Some v \<Longrightarrow> find (assign k (f v) m) = (find m)(k := map_option f (find m k))"
  by (simp add: find_assign)

lemma dom_update: "inv m \<Longrightarrow> find m k = Some v \<Longrightarrow> dom (find (assign k w m)) = dom (find m)"
  by (auto simp: find_assign)

lemma erase_assign: "inv m \<Longrightarrow> find (erase k (assign k v m)) = (find m)(k := None)"
  by (simp add: inv_assign find_erase find_assign)

end

lemma sm_ok_Cons [simp]: "sm_ok (e # m) \<longleftrightarrow> (\<forall>k \<in> fst ` set m. fst e < k) \<and> sm_ok m"
  by (simp add: sm_ok_def)

lemma sm_ok_Nil [simp]: "sm_ok []"
  by (simp add: sm_ok_def)

lemma fst_sm_assign [simp]: "fst ` set (sm_assign k v m) = insert k (fst ` set m)"
  by (induction k v m rule: sm_assign.induct) auto

lemma sm_ok_assign: "sm_ok m \<Longrightarrow> sm_ok (sm_assign k v m)"
  by (induction k v m rule: sm_assign.induct) (auto simp: image_iff)

lemma sm_find_assign: "sm_ok m \<Longrightarrow> sm_find (sm_assign k v m) = (sm_find m)(k \<mapsto> v)"
  by (induction k v m rule: sm_assign.induct) (auto simp: fun_eq_iff)

lemma sm_find_assign_same [simp]: "sm_find (sm_assign k v m) k = Some v"
  by (induction k v m rule: sm_assign.induct) auto

lemma sm_ok_erase: "sm_ok m \<Longrightarrow> sm_ok (sm_erase k m)"
  by (induction m) (auto simp: sm_erase_def)

lemma sm_find_erase: "sm_find (sm_erase k m) = (sm_find m)(k := None)"
  by (induction m) (auto simp: sm_erase_def fun_eq_iff)

interpretation sm: std_map sm_ok sm_find sm_assign sm_erase
  by unfold_locales (auto simp: sm_ok_assign sm_ok_erase sm_find_assign sm_find_erase)

lemma sm_ok_modify: "sm_ok m \<Longrightarrow> sm_ok (sm_modify k f m)"
  by (simp add: sm_modify_def sm_ok_assign split: option.split)

lemma sm_find_modify: "sm_ok m \<Longrightarrow> sm_find (sm_modify k f m) = (sm_find m)(k := map_option f (sm_find m k))"
  by (cases "sm_find m k") (auto simp: sm_modify_def sm.find_update simp del: option.map_disc_iff)

lemmas sm_laws [simp] = sm_ok_assign sm_ok_erase sm_ok_modify sm_find_assign sm_find_erase sm_find_modify

lemma sm_ok_distinct: "sm_ok m \<Longrightarrow> distinct (map fst m)"
  by (induction m) auto

end
