(* ===== verification/TradeRooms.thy ===== *)
theory TradeRooms
  imports StdMap
begin

text \<open>
  The trade rooms of the battle switch (\<open>src/gf/btl_switch/trade.hpp\<close>, \<open>trade.cpp\<close>): every trade
  server has 420 rooms, the switch counts the players of each and finds rooms with fewer than 25.
  A request is the bytes of the packet behind its header, read in place as the packed struct the
  handler names (\<open>le_u32\<close>); a reply is the bytes behind the header. \<open>int32_t\<close> values are
  \<open>int\<close>. The outer \<open>option\<close> is \<open>None\<close> where the code dereferences a null pointer.
  The globals \<open>trade_info_map\<close> and \<open>Trade::trade_fd_maps\<close> are the fields of \<open>trade_state\<close>; no
  null pointer is ever stored in the first.
\<close>

section \<open>Rooms and servers\<close>

definition MAX_TRADE_ROOM_COUNT :: nat where "MAX_TRADE_ROOM_COUNT = 420"
definition MAX_ROOM_PLAYER_COUNT :: u32 where "MAX_ROOM_PLAYER_COUNT = 25"

record trade_room_info =
  room_id :: u32
  player_count :: u32

definition trade_room_info_new :: trade_room_info where
  "trade_room_info_new = \<lparr>room_id = 0, player_count = 0\<rparr>"

definition add_player_id :: "u32 \<Rightarrow> trade_room_info \<Rightarrow> trade_room_info" where
  "add_player_id player_id r = r\<lparr>player_count := player_count r + 1\<rparr>"

definition del_player_id :: "u32 \<Rightarrow> trade_room_info \<Rightarrow> trade_room_info" where
  "del_player_id player_id r = r\<lparr>player_count := player_count r - 1\<rparr>"

definition check_player_limit :: "trade_room_info \<Rightarrow> bool" where
  "check_player_limit r \<longleftrightarrow> player_count r < MAX_ROOM_PLAYER_COUNT"

record trade_info_t =
  trade_svr_id :: u32
  room_list :: "trade_room_info list"

definition trade_info_new :: trade_info_t where
  "trade_info_new = \<lparr>trade_svr_id = 0, room_list = []\<rparr>"

definition init_trade_info :: "u32 \<Rightarrow> trade_info_t \<Rightarrow> trade_info_t" where
  "init_trade_info svr p =
     p\<lparr>trade_svr_id := svr, room_list := replicate MAX_TRADE_ROOM_COUNT trade_room_info_new\<rparr>"

definition reset_trade_info :: "trade_info_t \<Rightarrow> trade_info_t" where
  "reset_trade_info p = p\<lparr>room_list := map (\<lambda>r. r\<lparr>player_count := 0\<rparr>) (room_list p)\<rparr>"

record trade_state =
  trade_info_map :: "(u32, trade_info_t) smap"
  trade_fd_maps :: "(int, int) smap"

definition trade_init :: trade_state where
  "trade_init = \<lparr>trade_info_map = [], trade_fd_maps = []\<rparr>"

definition trade_final :: "trade_state \<Rightarrow> trade_state" where
  "trade_final s = s\<lparr>trade_info_map := [], trade_fd_maps := []\<rparr>"

definition get_trade_info_by_id :: "u32 \<Rightarrow> trade_state \<Rightarrow> trade_info_t option" where
  "get_trade_info_by_id svr s = sm_find (trade_info_map s) svr"

definition add_trade_info_to_group :: "u32 \<Rightarrow> trade_state \<Rightarrow> trade_state" where
  "add_trade_info_to_group svr s =
     (if sm_find (trade_info_map s) svr = None
      then s\<lparr>trade_info_map := sm_assign svr (init_trade_info svr trade_info_new) (trade_info_map s)\<rparr>
      else s)"

definition del_trade_info_from_group :: "u32 \<Rightarrow> trade_state \<Rightarrow> trade_state \<times> bool" where
  "del_trade_info_from_group svr s =
     (if sm_find (trade_info_map s) svr = None then (s, False)
      else (s\<lparr>trade_info_map := sm_erase svr (trade_info_map s)\<rparr>, True))"

text \<open>\<open>info->room_list_[i].f()\<close> on a server that is in the map.\<close>

definition update_room :: "u32 \<Rightarrow> nat \<Rightarrow> (trade_room_info \<Rightarrow> trade_room_info) \<Rightarrow> trade_state \<Rightarrow> trade_state" where
  "update_room svr i f s =
     s\<lparr>trade_info_map :=
         sm_modify svr (\<lambda>info. info\<lparr>room_list := (room_list info)[i := f (room_list info ! i)]\<rparr>)
           (trade_info_map s)\<rparr>"

definition valid_room :: "int \<Rightarrow> bool" where
  "valid_room i \<longleftrightarrow> 0 \<le> i \<and> i < int MAX_TRADE_ROOM_COUNT"

section \<open>Joining, leaving, changing\<close>

definition player_join_trade_room :: "u32 \<Rightarrow> u32 \<Rightarrow> int \<Rightarrow> trade_state \<Rightarrow> trade_state \<times> bool" where
  "player_join_trade_room player_id svr i s =
     (if \<not> valid_room i then (s, False)
      else if get_trade_info_by_id svr s = None then (s, False)
      else (update_room svr (nat i) (add_player_id player_id) s, True))"

definition player_leave_trade_room :: "u32 \<Rightarrow> u32 \<Rightarrow> int \<Rightarrow> trade_state \<Rightarrow> trade_state \<times> bool" where
  "player_leave_trade_room player_id svr i s =
     (if \<not> valid_room i then (s, False)
      else if get_trade_info_by_id svr s = None then (s, False)
      else (update_room svr (nat i) (del_player_id player_id) s, True))"

definition player_change_trade_room ::
    "u32 \<Rightarrow> u32 \<Rightarrow> int \<Rightarrow> u32 \<Rightarrow> int \<Rightarrow> trade_state \<Rightarrow> (trade_state \<times> bool) option" where
  "player_change_trade_room player_id old_svr old_i new_svr new_i s =
     (if old_i = new_i \<and> old_svr = new_svr then Some (s, True)
      else if \<not> valid_room old_i then Some (s, False)
      else if \<not> valid_room new_i then Some (s, False)
      else if get_trade_info_by_id old_svr s = None then None
      else
        let s1 = update_room old_svr (nat old_i) (del_player_id player_id) s in
        if get_trade_info_by_id new_svr s1 = None then Some (s1, False)
        else Some (update_room new_svr (nat new_i) (add_player_id player_id) s1, True))"

definition check_player_change_trade_room :: "u32 \<Rightarrow> u32 \<Rightarrow> int \<Rightarrow> u32 \<Rightarrow> int \<Rightarrow> trade_state \<Rightarrow> bool" where
  "check_player_change_trade_room player_id old_svr old_i new_svr new_i s =
     (if old_i = new_i \<and> old_svr = new_svr then True
      else if \<not> valid_room new_i then False
      else (case get_trade_info_by_id new_svr s of
              None \<Rightarrow> False
            | Some info \<Rightarrow> check_player_limit (room_list info ! nat new_i)))"

section \<open>Finding a room\<close>

text \<open>The loops over the rooms: the first index in \<open>[i, n)\<close> of a room with space.\<close>

function first_free :: "trade_room_info list \<Rightarrow> nat \<Rightarrow> nat \<Rightarrow> nat option" where
  "first_free rooms i n =
     (if i < n then if check_player_limit (rooms ! i) then Some i else first_free rooms (i + 1) n
      else None)"
  by pat_completeness auto
termination by (relation "measure (\<lambda>(rooms, i, n). n - i)") auto

declare first_free.simps [simp del]

fun first_server :: "(u32 \<times> trade_info_t) list \<Rightarrow> (u32 \<times> int) option" where
  "first_server [] = None"
| "first_server ((k, info) # m) =
     (case first_free (room_list info) 0 MAX_TRADE_ROOM_COUNT of
        Some j \<Rightarrow> Some (trade_svr_id info, int j)
      | None \<Rightarrow> first_server m)"

text \<open>The two overloads of \<open>find_trade_room_by_condition\<close>, with their reference parameters.\<close>

definition find_trade_room_any :: "trade_state \<Rightarrow> bool \<times> u32 \<times> int" where
  "find_trade_room_any s =
     (case first_server (trade_info_map s) of
        Some (svr, j) \<Rightarrow> (True, svr, j)
      | None \<Rightarrow> (True, 0, -1))"

definition find_trade_room_in :: "u32 \<Rightarrow> int \<Rightarrow> int \<Rightarrow> trade_state \<Rightarrow> bool \<times> int" where
  "find_trade_room_in svr begin_i end_i s =
     (case get_trade_info_by_id svr s of
        None \<Rightarrow> (False, -1)
      | Some info \<Rightarrow>
          if \<not> valid_room begin_i then (False, -1)
          else if \<not> valid_room end_i then (False, -1)
          else if end_i \<le> begin_i then (False, -1)
          else (case first_free (room_list info) (nat begin_i) (nat end_i) of
                  Some j \<Rightarrow> (True, int j)
                | None \<Rightarrow> (True, -1)))"

section \<open>Handlers\<close>

abbreviation le_i32 :: "byte list \<Rightarrow> nat \<Rightarrow> int" where
  "le_i32 b i \<equiv> sint (le_u32 b i)"

definition report_trade_info :: "byte list \<Rightarrow> int \<Rightarrow> trade_state \<Rightarrow> trade_state \<times> int" where
  "report_trade_info body fd s =
     (if length body \<noteq> 4 + 4 * MAX_TRADE_ROOM_COUNT then (s, -1)
      else
        let svr = le_u32 body 0;
            s1 = add_trade_info_to_group svr s;
            s2 = s1\<lparr>trade_fd_maps := sm_assign fd (sint svr) (trade_fd_maps s1)\<rparr>
        in (case get_trade_info_by_id svr s2 of
              None \<Rightarrow> (s2, 0)
            | Some info \<Rightarrow>
                (s2\<lparr>trade_info_map :=
                     sm_modify svr (\<lambda>info. info\<lparr>room_list :=
                         map (\<lambda>i. (room_list info ! i)\<lparr>player_count := le_u32 body (4 + 4 * i)\<rparr>)
                           [0..<MAX_TRADE_ROOM_COUNT]\<rparr>) (trade_info_map s2)\<rparr>, 0)))"

definition clear_trade_info :: "int \<Rightarrow> trade_state \<Rightarrow> (trade_state \<times> int) option" where
  "clear_trade_info fd s =
     (case sm_find (trade_fd_maps s) fd of
        None \<Rightarrow> Some (s, -1)
      | Some v \<Rightarrow>
          let svr = word_of_int v in
          (case get_trade_info_by_id svr s of
             None \<Rightarrow> None
           | Some info \<Rightarrow>
               Some (s\<lparr>trade_info_map := sm_modify svr reset_trade_info (trade_info_map s),
                      trade_fd_maps := sm_erase fd (trade_fd_maps s)\<rparr>, 0)))"

definition join_trade_room :: "u32 \<Rightarrow> byte list \<Rightarrow> trade_state \<Rightarrow> trade_state \<times> int" where
  "join_trade_room sender body s =
     (if length body \<noteq> 8 then (s, -1)
      else (fst (player_join_trade_room sender (le_u32 body 0) (le_i32 body 4) s), 0))"

definition leave_trade_room :: "u32 \<Rightarrow> byte list \<Rightarrow> trade_state \<Rightarrow> trade_state \<times> int" where
  "leave_trade_room sender body s =
     (if length body \<noteq> 8 then (s, -1)
      else (fst (player_leave_trade_room sender (le_u32 body 0) (le_i32 body 4) s), 0))"

definition change_trade_room :: "u32 \<Rightarrow> byte list \<Rightarrow> trade_state \<Rightarrow> (trade_state \<times> int) option" where
  "change_trade_room sender body s =
     (if length body \<noteq> 16 then Some (s, -1)
      else map_option (\<lambda>(s', ok). (s', 0))
        (player_change_trade_room sender (le_u32 body 0) (le_i32 body 4) (le_u32 body 8) (le_i32 body 12) s))"

text \<open>
  The handlers with a reply: the bytes sent, \<open>None\<close> if none are. The reply of the first holds the
  four fields of the request, the last two replaced when the wish was refused.
\<close>

definition check_change_trade_room :: "u32 \<Rightarrow> byte list \<Rightarrow> trade_state \<Rightarrow> byte list option" where
  "check_change_trade_room sender body s =
     (if length body \<noteq> 16 then None
      else
        let old_svr = le_u32 body 0; old_i = le_i32 body 4; new_svr = le_u32 body 8; new_i = le_i32 body 12;
            ret = check_player_change_trade_room sender old_svr old_i new_svr new_i s;
            (ret2, new_svr2, new_i2) =
              (if \<not> ret then find_trade_room_any s else (ret, new_svr, new_i))
        in Some (le_bytes old_svr @ le_bytes (word_of_int old_i) @
                 le_bytes (if ret2 then new_svr2 else 0) @
                 le_bytes (word_of_int (if ret2 then new_i2 else -1))))"

definition auto_join_trade_room :: "u32 \<Rightarrow> byte list \<Rightarrow> trade_state \<Rightarrow> byte list option" where
  "auto_join_trade_room sender body s =
     (if length body \<noteq> 12 then None
      else
        let svr = le_u32 body 0;
            i = snd (find_trade_room_in svr (le_i32 body 4) (le_i32 body 8) s);
            (svr2, i2) = (if i = -1 then snd (find_trade_room_any s) else (svr, i))
        in Some (le_bytes svr2 @ le_bytes (word_of_int i2)))"

section \<open>The invariant\<close>

definition trade_ok :: "trade_state \<Rightarrow> bool" where
  "trade_ok s \<longleftrightarrow> sm_ok (trade_info_map s) \<and> sm_ok (trade_fd_maps s) \<and>
     (\<forall>svr info. sm_find (trade_info_map s) svr = Some info \<longrightarrow>
        trade_svr_id info = svr \<and> length (room_list info) = MAX_TRADE_ROOM_COUNT) \<and>
     (\<forall>fd v. sm_find (trade_fd_maps s) fd = Some v \<longrightarrow> sm_find (trade_info_map s) (word_of_int v) \<noteq> None)"

lemma trade_okD:
  assumes "trade_ok s"
  shows "sm_ok (trade_info_map s)" "sm_ok (trade_fd_maps s)"
    "sm_find (trade_info_map s) svr = Some info \<Longrightarrow> trade_svr_id info = svr \<and> length (room_list info) = MAX_TRADE_ROOM_COUNT"
    "sm_find (trade_fd_maps s) fd = Some v \<Longrightarrow> sm_find (trade_info_map s) (word_of_int v) \<noteq> None"
  using assms by (auto simp: trade_ok_def)

text \<open>Changing servers in place, and adding one, keep it.\<close>

lemma trade_ok_modify:
  assumes "trade_ok s" and "\<And>info. trade_svr_id (f info) = trade_svr_id info"
    and "\<And>info. length (room_list info) = MAX_TRADE_ROOM_COUNT \<Longrightarrow> length (room_list (f info)) = MAX_TRADE_ROOM_COUNT"
  shows "trade_ok (s\<lparr>trade_info_map := sm_modify svr f (trade_info_map s)\<rparr>)"
  using trade_okD [OF assms(1)] assms(2,3)
  by (auto simp: trade_ok_def split: if_splits)

lemma trade_ok_update_room: "trade_ok s \<Longrightarrow> trade_ok (update_room svr i f s)"
  unfolding update_room_def by (rule trade_ok_modify) auto

lemma trade_ok_add: "trade_ok s \<Longrightarrow> trade_ok (add_trade_info_to_group svr s)"
  by (auto simp: trade_ok_def add_trade_info_to_group_def init_trade_info_def)

lemma add_trade_info_known: "trade_ok s \<Longrightarrow> sm_find (trade_info_map (add_trade_info_to_group svr s)) svr \<noteq> None"
  by (auto simp: trade_ok_def add_trade_info_to_group_def)

lemma trade_ok_fd:
  assumes "trade_ok s" and "sm_find (trade_info_map s) (word_of_int v) \<noteq> None"
  shows "trade_ok (s\<lparr>trade_fd_maps := sm_assign fd v (trade_fd_maps s)\<rparr>)"
  using assms by (auto simp: trade_ok_def)

lemma trade_ok_report:
  assumes "trade_ok s"
  shows "trade_ok (fst (report_trade_info body fd s))"
proof (cases "length body = 4 + 4 * MAX_TRADE_ROOM_COUNT")
  case False
  with assms show ?thesis by (simp add: report_trade_info_def)
next
  case True
  let ?svr = "le_u32 body 0"
  let ?s1 = "add_trade_info_to_group ?svr s"
  let ?s2 = "?s1\<lparr>trade_fd_maps := sm_assign fd (sint ?svr) (trade_fd_maps ?s1)\<rparr>"
  have "trade_ok ?s2" using add_trade_info_known [OF assms] by (intro trade_ok_fd trade_ok_add assms) simp
  then have "trade_ok (?s2\<lparr>trade_info_map := sm_modify ?svr (\<lambda>info. info\<lparr>room_list :=
      map (\<lambda>i. (room_list info ! i)\<lparr>player_count := le_u32 body (4 + 4 * i)\<rparr>)
        [0..<MAX_TRADE_ROOM_COUNT]\<rparr>) (trade_info_map ?s2)\<rparr>)"
    by (rule trade_ok_modify) auto
  with \<open>trade_ok ?s2\<close> True show ?thesis by (simp add: report_trade_info_def Let_def split: option.split)
qed

lemma trade_ok_clear:
  assumes "trade_ok s" and "clear_trade_info fd s = Some (s', rv)"
  shows "trade_ok s'"
proof (cases "sm_find (trade_fd_maps s) fd")
  case None
  with assms show ?thesis by (simp add: clear_trade_info_def)
next
  case (Some v)
  let ?s1 = "s\<lparr>trade_info_map := sm_modify (word_of_int v) reset_trade_info (trade_info_map s)\<rparr>"
  have "trade_ok ?s1" by (rule trade_ok_modify [OF assms(1)]) (simp_all add: reset_trade_info_def)
  then have "trade_ok (?s1\<lparr>trade_fd_maps := sm_erase fd (trade_fd_maps ?s1)\<rparr>)"
    by (auto simp: trade_ok_def)
  with assms(2) Some show ?thesis by (auto simp: clear_trade_info_def Let_def split: option.splits)
qed

lemma trade_ok_join: "trade_ok s \<Longrightarrow> trade_ok (fst (player_join_trade_room p svr i s))"
  by (simp add: player_join_trade_room_def trade_ok_update_room)

lemma trade_ok_leave: "trade_ok s \<Longrightarrow> trade_ok (fst (player_leave_trade_room p svr i s))"
  by (simp add: player_leave_trade_room_def trade_ok_update_room)

text \<open>The states the dispatched handlers and the closing of connections reach.\<close>

inductive trade_reach :: "trade_state \<Rightarrow> bool" where
  tr_init: "trade_reach trade_init"
| tr_report: "trade_reach s \<Longrightarrow> trade_reach (fst (report_trade_info body fd s))"
| tr_clear: "trade_reach s \<Longrightarrow> clear_trade_info fd s = Some (s', rv) \<Longrightarrow> trade_reach s'"
| tr_join: "trade_reach s \<Longrightarrow> trade_reach (fst (join_trade_room sender body s))"
| tr_leave: "trade_reach s \<Longrightarrow> trade_reach (fst (leave_trade_room sender body s))"

lemma trade_reach_ok: "trade_reach s \<Longrightarrow> trade_ok s"
proof (induction rule: trade_reach.induct)
  case tr_init
  show ?case by (simp add: trade_ok_def trade_init_def)
qed (auto simp: trade_ok_report join_trade_room_def leave_trade_room_def trade_ok_join trade_ok_leave
       intro: trade_ok_clear)

section \<open>Counters\<close>

definition counts :: "trade_state \<Rightarrow> u32 \<Rightarrow> u32 list option" where
  "counts s svr = map_option (\<lambda>info. map player_count (room_list info)) (sm_find (trade_info_map s) svr)"

definition bump :: "u32 \<Rightarrow> int \<Rightarrow> u32 \<Rightarrow> (u32 \<Rightarrow> u32 list option) \<Rightarrow> (u32 \<Rightarrow> u32 list option)" where
  "bump svr i d C = (if valid_room i then C(svr := map_option (\<lambda>l. l[nat i := l ! nat i + d]) (C svr)) else C)"

lemma counts_update_room:
  assumes "trade_ok s" and "valid_room i" and "\<And>r. player_count (f r) = player_count r + d"
  shows "counts (update_room svr (nat i) f s) = bump svr i d (counts s)"
proof
  fix q
  have i: "nat i < MAX_TRADE_ROOM_COUNT" using assms(2) by (simp add: valid_room_def nat_less_iff)
  show "counts (update_room svr (nat i) f s) q = bump svr i d (counts s) q"
  proof (cases "q = svr")
    case False
    then show ?thesis using trade_okD(1) [OF assms(1)] by (simp add: counts_def bump_def update_room_def)
  next
    case True
    show ?thesis
    proof (cases "sm_find (trade_info_map s) svr")
      case None
      with True trade_okD(1) [OF assms(1)] show ?thesis by (simp add: counts_def bump_def update_room_def)
    next
      case (Some info)
      with True trade_okD(1,3) [OF assms(1)] i assms(2,3) show ?thesis
        by (simp add: counts_def bump_def update_room_def map_update)
    qed
  qed
qed

lemma counts_known: "counts s svr = None \<longleftrightarrow> get_trade_info_by_id svr s = None"
  by (simp add: counts_def get_trade_info_by_id_def)

lemma bump_unknown: "C svr = None \<Longrightarrow> bump svr i d C = C"
  by (auto simp: bump_def)

lemma bump_known: "bump svr i d C q = None \<longleftrightarrow> C q = None"
  by (auto simp: bump_def)

section \<open>Free rooms\<close>

definition room_free :: "trade_state \<Rightarrow> u32 \<Rightarrow> int \<Rightarrow> bool" where
  "room_free s svr i \<longleftrightarrow> valid_room i \<and>
     (\<exists>info. sm_find (trade_info_map s) svr = Some info \<and> check_player_limit (room_list info ! nat i))"

lemma first_free_Some:
  "first_free rooms i n = Some j \<Longrightarrow> i \<le> j \<and> j < n \<and> check_player_limit (rooms ! j) \<and>
     (\<forall>k. i \<le> k \<and> k < j \<longrightarrow> \<not> check_player_limit (rooms ! k))"
proof (induction rooms i n rule: first_free.induct)
  case (1 rooms i n)
  show ?case
  proof (cases "i < n \<and> \<not> check_player_limit (rooms ! i)")
    case True
    with 1 have "first_free rooms (i + 1) n = Some j" by (simp add: first_free.simps [of rooms i n])
    with 1(1) True have I: "i + 1 \<le> j \<and> j < n \<and> check_player_limit (rooms ! j) \<and>
      (\<forall>k. i + 1 \<le> k \<and> k < j \<longrightarrow> \<not> check_player_limit (rooms ! k))" by blast
    with True show ?thesis by (metis Suc_eq_plus1 Suc_leI le_neq_implies_less add_leD1)
  next
    case False
    with 1(2) show ?thesis by (auto simp: first_free.simps [of rooms i n] split: if_splits)
  qed
qed

lemma first_free_None:
  "first_free rooms i n = None \<Longrightarrow> i \<le> k \<Longrightarrow> k < n \<Longrightarrow> \<not> check_player_limit (rooms ! k)"
proof (induction rooms i n rule: first_free.induct)
  case (1 rooms i n)
  then have "i < n" by simp
  with 1(2) have "\<not> check_player_limit (rooms ! i)" "first_free rooms (i + 1) n = None"
    by (auto simp: first_free.simps [of rooms i n] split: if_splits)
  with 1(1,3,4) \<open>i < n\<close> show ?case by (cases "k = i") auto
qed

lemma first_server_spec:
  assumes "sm_ok m" and "\<forall>e \<in> set m. trade_svr_id (snd e) = fst e"
  shows "case first_server m of
      Some (svr, i) \<Rightarrow> \<exists>info. (svr, info) \<in> set m \<and> valid_room i \<and> check_player_limit (room_list info ! nat i) \<and>
        (\<forall>k. k < nat i \<longrightarrow> \<not> check_player_limit (room_list info ! k)) \<and>
        (\<forall>(q, info') \<in> set m. q < svr \<longrightarrow> first_free (room_list info') 0 MAX_TRADE_ROOM_COUNT = None)
    | None \<Rightarrow> \<forall>(q, info') \<in> set m. first_free (room_list info') 0 MAX_TRADE_ROOM_COUNT = None"
  using assms
proof (induction m rule: first_server.induct)
  case 1
  show ?case by simp
next
  case (2 k info m)
  show ?case
  proof (cases "first_free (room_list info) 0 MAX_TRADE_ROOM_COUNT")
    case None
    have ok: "sm_ok m" using 2(2) by simp
    have ids: "\<forall>e \<in> set m. trade_svr_id (snd e) = fst e" using 2(3) by simp
    note I = 2(1) [OF None ok ids]
    show ?thesis
    proof (cases "first_server m")
      case None': None
      with I None show ?thesis by simp
    next
      case (Some r)
      obtain svr i where r: "r = (svr, i)" by (cases r)
      from I [unfolded Some r option.case prod.case] obtain info' where
        "(svr, info') \<in> set m" "valid_room i" "check_player_limit (room_list info' ! nat i)"
        "\<forall>k. k < nat i \<longrightarrow> \<not> check_player_limit (room_list info' ! k)"
        "\<forall>(q, info') \<in> set m. q < svr \<longrightarrow> first_free (room_list info') 0 MAX_TRADE_ROOM_COUNT = None"
        by (elim exE conjE)
      then show ?thesis unfolding first_server.simps None Some r option.case prod.case
        by (intro exI [of _ info']) (simp add: None)
    qed
  next
    case (Some j)
    have k: "trade_svr_id info = k" using 2(3) by simp
    have lt: "k < q" if "(q, info') \<in> set m" for q info' using 2(2) that by force
    note F = first_free_Some [OF Some]
    have "\<forall>(q, info') \<in> set ((k, info) # m). q < k \<longrightarrow> first_free (room_list info') 0 MAX_TRADE_ROOM_COUNT = None"
      using lt by (auto dest: less_asym)
    moreover have "valid_room (int j)" using F by (simp add: valid_room_def)
    moreover have "\<forall>i. i < j \<longrightarrow> \<not> check_player_limit (room_list info ! i)" using F by blast
    ultimately show ?thesis using F k unfolding first_server.simps Some option.case prod.case k
      by (intro exI [of _ info]) simp
  qed
qed

lemma first_free_None_rooms:
  "first_free rooms 0 MAX_TRADE_ROOM_COUNT = None \<Longrightarrow> valid_room i \<Longrightarrow> \<not> check_player_limit (rooms ! nat i)"
  by (rule first_free_None) (auto simp: valid_room_def nat_less_iff)

lemma find_any_cases:
  assumes "trade_ok s"
  obtains (found) svr i where "find_trade_room_any s = (True, svr, i)" "room_free s svr i"
      "\<And>q j. room_free s q j \<Longrightarrow> svr < q \<or> svr = q \<and> i \<le> j"
    | (none) "find_trade_room_any s = (True, 0, -1)" "\<And>q j. \<not> room_free s q j"
proof -
  note D = trade_okD [OF assms]
  have mem: "sm_find (trade_info_map s) q = Some info \<longleftrightarrow> (q, info) \<in> set (trade_info_map s)" for q info
    using sm_ok_distinct [OF D(1)] by (simp add: map_of_eq_Some_iff)
  have ids: "\<forall>e \<in> set (trade_info_map s). trade_svr_id (snd e) = fst e"
    using D(3) mem by (metis prod.collapse)
  note S = first_server_spec [OF D(1) ids]
  show thesis
  proof (cases "first_server (trade_info_map s)")
    case None
    have "\<not> room_free s q j" for q j
    proof
      assume "room_free s q j"
      then obtain info where "(q, info) \<in> set (trade_info_map s)" "valid_room j" "check_player_limit (room_list info ! nat j)"
        by (auto simp: room_free_def mem)
      with S None first_free_None_rooms show False by fastforce
    qed
    with None show thesis by (intro none) (simp_all add: find_trade_room_any_def)
  next
    case (Some r)
    obtain svr i where r: "r = (svr, i)" by (cases r)
    with S Some obtain info where I: "(svr, info) \<in> set (trade_info_map s)" "valid_room i"
      "check_player_limit (room_list info ! nat i)"
      "\<forall>k. k < nat i \<longrightarrow> \<not> check_player_limit (room_list info ! k)"
      "\<forall>(q, info') \<in> set (trade_info_map s). q < svr \<longrightarrow> first_free (room_list info') 0 MAX_TRADE_ROOM_COUNT = None"
      by auto
    show thesis
    proof (rule found)
      show "find_trade_room_any s = (True, svr, i)" using Some r by (simp add: find_trade_room_any_def)
      show "room_free s svr i" using I by (auto simp: room_free_def mem)
      fix q j assume "room_free s q j"
      then obtain info' where q: "(q, info') \<in> set (trade_info_map s)" "valid_room j"
        "check_player_limit (room_list info' ! nat j)" by (auto simp: room_free_def mem)
      have "\<not> q < svr" using I(5) q first_free_None_rooms by fastforce
      moreover have "i \<le> j" if "q = svr"
      proof -
        have "info' = info" using q(1) I(1) that mem by (metis option.inject)
        then show ?thesis using I(2,4) q(2,3) by (metis nat_less_eq_zless not_le valid_room_def)
      qed
      ultimately show "svr < q \<or> svr = q \<and> i \<le> j" by force
    qed
  qed
qed

section \<open>Properties\<close>

text \<open>
  C13: whatever reports, joins, leaves and disconnections have happened, the handler of a closed
  connection finds the server the descriptor stands for: it never dereferences a null pointer,
  and every known server has its 420 rooms.
\<close>
theorem trade_clear_safe:
  assumes "trade_reach s"
  shows "clear_trade_info fd s \<noteq> None \<and>
    (\<forall>svr info. sm_find (trade_info_map s) svr = Some info \<longrightarrow>
       trade_svr_id info = svr \<and> length (room_list info) = MAX_TRADE_ROOM_COUNT)"
proof -
  note D = trade_okD [OF trade_reach_ok [OF assms]]
  have "clear_trade_info fd s \<noteq> None"
  proof (cases "sm_find (trade_fd_maps s) fd")
    case (Some v)
    with D(4) [OF Some] show ?thesis by (auto simp: clear_trade_info_def get_trade_info_by_id_def)
  qed (simp add: clear_trade_info_def)
  with D(3) show ?thesis by blast
qed

text \<open>A reported server for the witnesses: every room has 24 players.\<close>

definition report_body :: "u32 \<Rightarrow> u32 \<Rightarrow> byte list" where
  "report_body svr n = le_bytes svr @ concat (replicate MAX_TRADE_ROOM_COUNT (le_bytes n))"

definition one_server :: "u32 \<Rightarrow> u32 \<Rightarrow> trade_state" where
  "one_server svr n = \<lparr>trade_info_map = [(svr, \<lparr>trade_svr_id = svr,
     room_list = replicate MAX_TRADE_ROOM_COUNT \<lparr>room_id = 0, player_count = n\<rparr>\<rparr>)],
     trade_fd_maps = [(9, sint svr)]\<rparr>"

lemma trade_ok_one_server: "trade_ok (one_server svr n)"
  by (auto simp: trade_ok_def one_server_def split: if_splits)

theorem trade_clear_safe_witness:
  "clear_trade_info 9 (fst (report_trade_info (report_body 7 24) 9 trade_init)) \<noteq> None"
  using trade_clear_safe [OF tr_report [OF tr_init], of 9 "report_body 7 24" 9] by blast

text \<open>
  C14: joining, leaving and changing a room do to the counters what they say, modulo \<open>2 ^ 32\<close>: a
  join adds one player to the room, a leave takes one, a change moves one from the old to the new
  room; rooms out of range and unknown servers are left alone.
\<close>
theorem trade_counts_refine:
  assumes "trade_ok s"
  shows "counts (fst (player_join_trade_room p svr i s)) = bump svr i 1 (counts s) \<and>
    counts (fst (player_leave_trade_room p svr i s)) = bump svr i (-1) (counts s) \<and>
    (counts s svr \<noteq> None \<and> valid_room i \<and> valid_room j \<and> (svr, i) \<noteq> (svr', j) \<longrightarrow>
      (\<exists>s'. player_change_trade_room p svr i svr' j s = Some (s', counts s svr' \<noteq> None) \<and>
        counts s' = bump svr' j 1 (bump svr i (-1) (counts s))))"
proof (intro conjI impI)
  have c: "counts (update_room q (nat k) (add_player_id p) t) = bump q k 1 (counts t)"
    "counts (update_room q (nat k) (del_player_id p) t) = bump q k (-1) (counts t)"
    if "trade_ok t" "valid_room k" for q k t
    by (rule counts_update_room [OF that]; simp add: add_player_id_def del_player_id_def)+
  show "counts (fst (player_join_trade_room p svr i s)) = bump svr i 1 (counts s)"
    using c(1) [OF assms, of i svr] bump_unknown [of "counts s" svr i 1]
    by (auto simp: player_join_trade_room_def counts_known) (simp_all add: bump_def)
  show "counts (fst (player_leave_trade_room p svr i s)) = bump svr i (-1) (counts s)"
    using c(2) [OF assms, of i svr] bump_unknown [of "counts s" svr i "-1"]
    by (auto simp: player_leave_trade_room_def counts_known) (simp_all add: bump_def)
  assume a: "counts s svr \<noteq> None \<and> valid_room i \<and> valid_room j \<and> (svr, i) \<noteq> (svr', j)"
  let ?s1 = "update_room svr (nat i) (del_player_id p) s"
  have s1: "trade_ok ?s1" "counts ?s1 = bump svr i (-1) (counts s)"
    using trade_ok_update_room [OF assms] c(2) [OF assms] a by auto
  have k: "get_trade_info_by_id svr' ?s1 = None \<longleftrightarrow> counts s svr' = None"
    using s1(2) bump_known [of svr i "-1" "counts s" svr'] by (simp add: counts_known [symmetric])
  have kb: "bump svr i (-1) (counts s) svr' = None" if "counts s svr' = None"
    using that bump_known by blast
  show "\<exists>s'. player_change_trade_room p svr i svr' j s = Some (s', counts s svr' \<noteq> None) \<and>
    counts s' = bump svr' j 1 (bump svr i (-1) (counts s))"
  proof (cases "counts s svr' = None")
    case True
    with a k s1 bump_unknown [where C = "bump svr i (-1) (counts s)" and svr = svr' and i = j and d = 1, OF kb [OF True]] show ?thesis
      by (auto simp: player_change_trade_room_def Let_def counts_known [symmetric])
  next
    case False
    with a k s1 c(1) [OF s1(1), of j svr'] show ?thesis
      by (auto simp: player_change_trade_room_def Let_def counts_known [symmetric])
  qed
qed

theorem trade_counts_refine_witness:
  "counts (fst (player_join_trade_room 1 7 3 (one_server 7 24))) = bump 7 3 1 (counts (one_server 7 24)) \<and>
    (\<exists>s'. player_change_trade_room 1 7 3 8 4 (one_server 7 24) = Some (s', False) \<and>
      counts s' = bump 8 4 1 (bump 7 3 (-1) (counts (one_server 7 24))))"
proof -
  have c: "counts (one_server 7 24) 7 \<noteq> None" "counts (one_server 7 24) 8 = None"
    by (simp_all add: counts_def one_server_def)
  have v: "valid_room 3" "valid_room 4" by (simp_all add: valid_room_def MAX_TRADE_ROOM_COUNT_def)
  show ?thesis
    using trade_counts_refine [OF trade_ok_one_server, of 1 7 3 7 24]
      trade_counts_refine [OF trade_ok_one_server, of 1 7 3 7 24 4 8] c v by auto
qed

lemma sint_le_bytes: "- 2147483648 \<le> i \<Longrightarrow> i < 2147483648 \<Longrightarrow> sint (word_of_int i :: u32) = i"
  by (simp add: int_word_sint)

lemma unat_minus1: "unat (-1 :: u32) = 2 ^ 32 - 1"
proof -
  have "(-1 :: u32) = 4294967295" by simp
  then show ?thesis by (simp only: unat_numeral) simp
qed

lemma le_reply4:
  "le_u32 (le_bytes a @ le_bytes b @ le_bytes c @ le_bytes d) 0 = a"
  "le_u32 (le_bytes a @ le_bytes b @ le_bytes c @ le_bytes d) 4 = b"
  "le_u32 (le_bytes a @ le_bytes b @ le_bytes c @ le_bytes d) 8 = c"
  "le_u32 (le_bytes a @ le_bytes b @ le_bytes c @ le_bytes d) 12 = d"
  using le_u32_skip [of "le_bytes a" "le_bytes b @ le_bytes c @ le_bytes d" 0]
    le_u32_skip [of "le_bytes a" "le_bytes b @ le_bytes c @ le_bytes d" 4]
    le_u32_skip [of "le_bytes a" "le_bytes b @ le_bytes c @ le_bytes d" 8]
    le_u32_skip [of "le_bytes b" "le_bytes c @ le_bytes d" 0] le_u32_skip [of "le_bytes b" "le_bytes c @ le_bytes d" 4]
    le_u32_skip [of "le_bytes c" "le_bytes d" 0] le_u32_le_bytes [of d "[]"]
  by simp_all

lemma le_reply2:
  "le_u32 (le_bytes a @ le_bytes b) 0 = a" "le_u32 (le_bytes a @ le_bytes b) 4 = b"
  using le_u32_skip [of "le_bytes a" "le_bytes b" 0] le_u32_le_bytes [of b "[]"] by simp_all

lemma valid_room_sint: "valid_room i \<Longrightarrow> sint (word_of_int i :: u32) = i"
  by (rule sint_le_bytes) (auto simp: valid_room_def MAX_TRADE_ROOM_COUNT_def)

lemma sint_minus1: "sint (word_of_int (-1) :: u32) = -1"
  by (rule sint_le_bytes) auto

lemma check_change_free:
  "check_player_change_trade_room p old_svr old_i svr i s \<longleftrightarrow> old_svr = svr \<and> old_i = i \<or> room_free s svr i"
  by (auto simp: check_player_change_trade_room_def room_free_def get_trade_info_by_id_def split: option.splits)

text \<open>The first room with space in the order of server and room numbers, which the search without a wish finds.\<close>

definition first_room :: "trade_state \<Rightarrow> u32 \<Rightarrow> int \<Rightarrow> bool" where
  "first_room s svr i \<longleftrightarrow> room_free s svr i \<and> (\<forall>q j. room_free s q j \<longrightarrow> svr < q \<or> svr = q \<and> i \<le> j)"

lemma find_any_first:
  assumes "trade_ok s"
  shows "if \<exists>q j. room_free s q j then \<exists>svr i. find_trade_room_any s = (True, svr, i) \<and> first_room s svr i
    else find_trade_room_any s = (True, 0, -1)"
  using assms by (cases rule: find_any_cases) (auto simp: first_room_def)

lemma first_room_sint: "first_room s svr i \<Longrightarrow> sint (word_of_int i :: u32) = i"
  by (rule valid_room_sint) (simp add: first_room_def room_free_def)

text \<open>
  C32: the reply to \<open>check_change_trade_room\<close>, read back as the packed struct of the request,
  repeats the old server and room. The new ones are the wished ones when the player is there already
  or the wished room has fewer than 25 players; otherwise they are the first room with space in the
  order of server and room numbers, and 0 and -1 when no room of any server has space.
\<close>
theorem trade_check_change_reply:
  assumes "trade_ok s" and "length body = 16"
  shows "\<exists>reply. check_change_trade_room sender body s = Some reply \<and>
    le_u32 reply 0 = le_u32 body 0 \<and> le_i32 reply 4 = le_i32 body 4 \<and>
    (let svr = le_u32 body 8; i = le_i32 body 12 in
     if le_u32 body 0 = svr \<and> le_i32 body 4 = i \<or> room_free s svr i then le_u32 reply 8 = svr \<and> le_i32 reply 12 = i
     else if \<exists>q j. room_free s q j then first_room s (le_u32 reply 8) (le_i32 reply 12)
     else le_u32 reply 8 = 0 \<and> le_i32 reply 12 = -1)"
proof -
  let ?chk = "check_player_change_trade_room sender (le_u32 body 0) (le_i32 body 4) (le_u32 body 8) (le_i32 body 12) s"
  have C: "?chk \<longleftrightarrow> le_u32 body 0 = le_u32 body 8 \<and> le_i32 body 4 = le_i32 body 12 \<or> room_free s (le_u32 body 8) (le_i32 body 12)"
    by (rule check_change_free)
  show ?thesis
  proof (cases ?chk)
    case True
    with assms(2) have "check_change_trade_room sender body s =
      Some (le_bytes (le_u32 body 0) @ le_bytes (le_u32 body 4) @ le_bytes (le_u32 body 8) @ le_bytes (le_u32 body 12))"
      by (simp add: check_change_trade_room_def Let_def)
    with True show ?thesis unfolding C by (auto simp: le_reply4 Let_def)
  next
    case refused: False
    obtain t svr i where f: "find_trade_room_any s = (t, svr, i)" by (cases "find_trade_room_any s")
    have t: "t" "if \<exists>q j. room_free s q j then first_room s svr i else svr = 0 \<and> i = -1"
      using find_any_first [OF assms(1)] f by (auto split: if_splits)
    have "sint (word_of_int i :: u32) = i" using t(2) first_room_sint sint_minus1 by (auto split: if_splits)
    moreover have "check_change_trade_room sender body s =
        Some (le_bytes (le_u32 body 0) @ le_bytes (le_u32 body 4) @ le_bytes svr @ le_bytes (word_of_int i))"
      using refused assms(2) f t(1) by (simp add: check_change_trade_room_def Let_def)
    ultimately show ?thesis using refused t(2) unfolding C by (auto simp: le_reply4 Let_def split: if_splits)
  qed
qed

lemma full_rooms: "room_free (one_server 7 25) = (\<lambda>svr i. False)"
  by (intro ext) (auto simp: room_free_def one_server_def valid_room_def MAX_TRADE_ROOM_COUNT_def check_player_limit_def
      MAX_ROOM_PLAYER_COUNT_def nat_less_iff split: if_splits)

theorem trade_check_change_reply_witness:
  "(\<exists>reply. check_change_trade_room 1 (le_bytes 7 @ le_bytes 3 @ le_bytes 8 @ le_bytes 4) (one_server 7 25) = Some reply \<and>
      le_u32 reply 0 = 7 \<and> le_i32 reply 4 = 3 \<and> le_u32 reply 8 = 0 \<and> le_i32 reply 12 = -1) \<and>
   (\<exists>reply. check_change_trade_room 1 (le_bytes 7 @ le_bytes 3 @ le_bytes 7 @ le_bytes 4) (one_server 7 24) = Some reply \<and>
      le_u32 reply 8 = 7 \<and> le_i32 reply 12 = 4)"
proof -
  have "room_free (one_server 7 24) 7 4"
    by (simp add: room_free_def one_server_def valid_room_def MAX_TRADE_ROOM_COUNT_def check_player_limit_def
      MAX_ROOM_PLAYER_COUNT_def)
  then show ?thesis
    using trade_check_change_reply [OF trade_ok_one_server, of "le_bytes 7 @ le_bytes 3 @ le_bytes 8 @ le_bytes 4" 1 7 25]
      trade_check_change_reply [OF trade_ok_one_server, of "le_bytes 7 @ le_bytes 3 @ le_bytes 7 @ le_bytes 4" 1 7 24]
    by (auto simp: le_reply4 full_rooms Let_def)
qed

text \<open>The rooms a wish names: the search does not look at the last one, which \<open>end_i\<close> may at most be.\<close>

definition in_wish :: "trade_state \<Rightarrow> u32 \<Rightarrow> int \<Rightarrow> int \<Rightarrow> int \<Rightarrow> bool" where
  "in_wish s svr b e j \<longleftrightarrow> valid_room b \<and> valid_room e \<and> b \<le> j \<and> j < e \<and> room_free s svr j"

lemma find_in_least:
  "if \<exists>j. in_wish s svr b e j then \<exists>i. find_trade_room_in svr b e s = (True, i) \<and> in_wish s svr b e i \<and> (\<forall>j. in_wish s svr b e j \<longrightarrow> i \<le> j)
   else snd (find_trade_room_in svr b e s) = -1"
proof (cases "sm_find (trade_info_map s) svr")
  case None
  then show ?thesis by (simp add: in_wish_def room_free_def find_trade_room_in_def get_trade_info_by_id_def)
next
  case (Some info)
  have free: "room_free s svr j \<longleftrightarrow> valid_room j \<and> check_player_limit (room_list info ! nat j)" for j
    by (simp add: room_free_def Some)
  show ?thesis
  proof (cases "valid_room b \<and> valid_room e \<and> b < e")
    case False
    then show ?thesis by (auto simp: in_wish_def find_trade_room_in_def get_trade_info_by_id_def Some)
  next
    case wish: True
    show ?thesis
    proof (cases "first_free (room_list info) (nat b) (nat e)")
      case None
      have "\<not> in_wish s svr b e j" for j
        using first_free_None [OF None, of "nat j"] wish by (auto simp: in_wish_def free valid_room_def)
      then show ?thesis using wish None Some by (simp add: find_trade_room_in_def get_trade_info_by_id_def)
    next
      case f: (Some k)
      note F = first_free_Some [OF f]
      have "in_wish s svr b e (int k)" using F wish by (auto simp: in_wish_def free valid_room_def)
      moreover have "int k \<le> j" if "in_wish s svr b e j" for j
      proof (rule ccontr)
        assume "\<not> int k \<le> j"
        with that wish have "nat b \<le> nat j" "nat j < k" by (auto simp: in_wish_def valid_room_def)
        with F that show False by (auto simp: in_wish_def free)
      qed
      ultimately show ?thesis using wish f Some
        by (auto simp: find_trade_room_in_def get_trade_info_by_id_def)
    qed
  qed
qed

text \<open>
  C33: \<open>auto_join_trade_room\<close> answers with the first room with space of the wished server and range if
  there is one; otherwise with the first room with space in the order of server and room numbers; and
  with 0 and -1 when no room of any server has space.
\<close>
theorem trade_auto_join_reply:
  assumes "trade_ok s" and "length body = 12"
  shows "\<exists>reply. auto_join_trade_room sender body s = Some reply \<and>
    (let svr = le_u32 body 0; b = le_i32 body 4; e = le_i32 body 8; i = le_i32 reply 4 in
     if \<exists>j. in_wish s svr b e j then le_u32 reply 0 = svr \<and> in_wish s svr b e i \<and> (\<forall>j. in_wish s svr b e j \<longrightarrow> i \<le> j)
     else if \<exists>q j. room_free s q j then first_room s (le_u32 reply 0) i
     else le_u32 reply 0 = 0 \<and> i = -1)"
proof -
  let ?svr = "le_u32 body 0" and ?b = "le_i32 body 4" and ?e = "le_i32 body 8"
  show ?thesis
  proof (cases "\<exists>j. in_wish s ?svr ?b ?e j")
    case True
    with find_in_least [of s ?svr ?b ?e] obtain i where
      i: "find_trade_room_in ?svr ?b ?e s = (True, i)" "in_wish s ?svr ?b ?e i" "\<forall>j. in_wish s ?svr ?b ?e j \<longrightarrow> i \<le> j" by auto
    have v: "valid_room i" using i(2) by (simp add: in_wish_def room_free_def)
    then have "i \<noteq> -1" by (simp add: valid_room_def)
    with i(1) assms(2) have "auto_join_trade_room sender body s = Some (le_bytes ?svr @ le_bytes (word_of_int i))"
      by (simp add: auto_join_trade_room_def Let_def)
    with True i(2,3) valid_room_sint [OF v] show ?thesis by (simp add: le_reply2 Let_def)
  next
    case False
    with find_in_least [of s ?svr ?b ?e] have n: "snd (find_trade_room_in ?svr ?b ?e s) = -1" by simp
    obtain t svr i where f: "find_trade_room_any s = (t, svr, i)" by (cases "find_trade_room_any s")
    have t: "if \<exists>q j. room_free s q j then first_room s svr i else svr = 0 \<and> i = -1"
      using find_any_first [OF assms(1)] f by (auto split: if_splits)
    have "sint (word_of_int i :: u32) = i" using t first_room_sint sint_minus1 by (auto split: if_splits)
    moreover have "auto_join_trade_room sender body s = Some (le_bytes svr @ le_bytes (word_of_int i))"
      using n f assms(2) by (simp add: auto_join_trade_room_def Let_def)
    ultimately show ?thesis using False t by (auto simp: le_reply2 Let_def split: if_splits)
  qed
qed

lemma free_rooms: "room_free (one_server 7 24) = (\<lambda>svr i. svr = 7 \<and> valid_room i)"
  by (intro ext) (auto simp: room_free_def one_server_def valid_room_def MAX_TRADE_ROOM_COUNT_def check_player_limit_def
      MAX_ROOM_PLAYER_COUNT_def nat_less_iff split: if_splits)

theorem trade_auto_join_reply_witness:
  "(\<exists>reply. auto_join_trade_room 1 (le_bytes 7 @ le_bytes 3 @ le_bytes 9) (one_server 7 24) = Some reply \<and>
      le_u32 reply 0 = 7 \<and> le_i32 reply 4 = 3) \<and>
   (\<exists>reply. auto_join_trade_room 1 (le_bytes 7 @ le_bytes 3 @ le_bytes 9) (one_server 7 25) = Some reply \<and>
      le_u32 reply 0 = 0 \<and> le_i32 reply 4 = -1)"
proof -
  let ?body = "le_bytes 7 @ le_bytes 3 @ le_bytes 9"
  have b: "length ?body = 12" "le_u32 ?body 0 = 7" "le_u32 ?body 4 = 3" "le_u32 ?body 8 = 9"
    using le_u32_skip [of "le_bytes 7" "le_bytes 3 @ le_bytes 9" 0] le_u32_skip [of "le_bytes 7" "le_bytes 3 @ le_bytes 9" 4]
      le_u32_skip [of "le_bytes 3" "le_bytes 9" 0] le_u32_skip [of "le_bytes 3" "le_bytes 9" 4] le_u32_le_bytes [of "9 :: u32" "[]"]
    by simp_all
  have w: "in_wish (one_server 7 24) 7 3 9 = (\<lambda>j. 3 \<le> j \<and> j < 9)" "in_wish (one_server 7 25) 7 3 9 = (\<lambda>j. False)"
    by (rule ext; auto simp: in_wish_def free_rooms full_rooms valid_room_def MAX_TRADE_ROOM_COUNT_def)+
  have "\<exists>j :: int. 3 \<le> j \<and> j < 9" by (intro exI [of _ 3]) simp
  with trade_auto_join_reply [OF trade_ok_one_server b(1), of 1 7 24] obtain reply where
    "auto_join_trade_room 1 ?body (one_server 7 24) = Some reply" "le_u32 reply 0 = 7" "3 \<le> le_i32 reply 4"
    "\<forall>j. 3 \<le> j \<and> j < 9 \<longrightarrow> le_i32 reply 4 \<le> j"
    by (auto simp: b w Let_def)
  moreover from this(4) have "le_i32 reply 4 \<le> 3" by simp
  moreover have "\<exists>reply. auto_join_trade_room 1 ?body (one_server 7 25) = Some reply \<and> le_u32 reply 0 = 0 \<and> le_i32 reply 4 = -1"
    using trade_auto_join_reply [OF trade_ok_one_server b(1), of 1 7 25] by (simp add: b w full_rooms Let_def)
  ultimately show ?thesis by auto
qed

text \<open>
  A leave from an empty room makes its counter wrap to \<open>2 ^ 32 - 1\<close>, so the empty room counts
  as full.
\<close>
lemma trade_leave_empty_room:
  assumes "trade_ok s" and "counts s svr = Some l" and "valid_room i" and "l ! nat i = 0"
  shows "\<exists>l'. counts (fst (player_leave_trade_room p svr i s)) svr = Some l' \<and> unat (l' ! nat i) = 2 ^ 32 - 1 \<and>
    \<not> room_free (fst (player_leave_trade_room p svr i s)) svr i"
proof -
  let ?s = "fst (player_leave_trade_room p svr i s)"
  from assms(2) obtain info where info: "sm_find (trade_info_map s) svr = Some info" "l = map player_count (room_list info)"
    by (auto simp: counts_def)
  have s: "?s = update_room svr (nat i) (del_player_id p) s"
    using assms(3) info(1) by (simp add: player_leave_trade_room_def get_trade_info_by_id_def)
  have len: "nat i < length (room_list info)"
    using trade_okD(3) [OF assms(1) info(1)] assms(3) by (simp add: valid_room_def nat_less_iff)
  have c: "counts ?s = bump svr i (-1) (counts s)"
    unfolding s by (rule counts_update_room [OF assms(1,3)]) (simp add: del_player_id_def)
  have l': "counts ?s svr = Some (l[nat i := -1])" using c assms(2,3,4) by (simp add: bump_def)
  moreover have "l[nat i := -1] ! nat i = (-1 :: u32)" using len info(2) by simp
  moreover have "unat (-1 :: u32) = 2 ^ 32 - 1" by (rule unat_minus1)
  moreover have "\<not> room_free ?s svr i"
  proof
    assume "room_free ?s svr i"
    then obtain info' where "sm_find (trade_info_map ?s) svr = Some info'" "check_player_limit (room_list info' ! nat i)"
      by (auto simp: room_free_def)
    moreover from this l' have "player_count (room_list info' ! nat i) = -1"
      using len info(2) by (auto simp: counts_def) (metis length_list_update length_map nth_list_update_eq nth_map)
    ultimately show False 
      using unat_minus1 by (simp add: check_player_limit_def MAX_ROOM_PLAYER_COUNT_def word_less_nat_alt)
  qed
  ultimately show ?thesis by metis
qed

lemma trade_leave_empty_room_witness:
  "\<exists>l'. counts (fst (player_leave_trade_room 1 7 3 (one_server 7 0))) 7 = Some l' \<and> unat (l' ! 3) = 2 ^ 32 - 1 \<and>
    \<not> room_free (fst (player_leave_trade_room 1 7 3 (one_server 7 0))) 7 3"
proof -
  have "counts (one_server 7 0) 7 = Some (replicate MAX_TRADE_ROOM_COUNT 0)"
    by (simp add: counts_def one_server_def)
  moreover have "valid_room 3" "replicate MAX_TRADE_ROOM_COUNT (0::u32) ! nat 3 = 0"
    by (simp_all add: valid_room_def MAX_TRADE_ROOM_COUNT_def)
  ultimately show ?thesis using trade_leave_empty_room [OF trade_ok_one_server, of 7 0 7 _ 3 1] by auto
qed

text \<open>
  C34: the server of a closed connection stays in the map with all its counters at 0, so each of its
  rooms is offered to players although the server is gone.
\<close>
theorem trade_closed_server_offered:
  assumes "trade_ok s" and "sm_find (trade_fd_maps s) fd = Some (sint svr)"
  shows "\<exists>s'. clear_trade_info fd s = Some (s', 0) \<and> sm_find (trade_fd_maps s') fd = None \<and>
    (\<forall>i. valid_room i \<longrightarrow> room_free s' svr i)"
proof -
  have w: "word_of_int (sint svr) = svr" by simp
  from trade_okD(4) [OF assms] obtain info where info: "sm_find (trade_info_map s) svr = Some info"
    by (auto simp: w)
  let ?s = "s\<lparr>trade_info_map := sm_modify svr reset_trade_info (trade_info_map s),
              trade_fd_maps := sm_erase fd (trade_fd_maps s)\<rparr>"
  have c: "clear_trade_info fd s = Some (?s, 0)"
    using assms(2) info by (simp add: clear_trade_info_def get_trade_info_by_id_def Let_def)
  have "room_free ?s svr i" if "valid_room i" for i
    using that trade_okD(1) [OF assms(1)] trade_okD(3) [OF assms(1) info]
    by (simp add: room_free_def info reset_trade_info_def check_player_limit_def MAX_ROOM_PLAYER_COUNT_def
      valid_room_def nat_less_iff)
  with c show ?thesis using trade_okD(2) [OF assms(1)] by auto
qed

theorem trade_closed_server_offered_witness:
  "\<exists>s'. clear_trade_info 9 (one_server 7 25) = Some (s', 0) \<and> sm_find (trade_fd_maps s') 9 = None \<and>
    (\<forall>i. valid_room i \<longrightarrow> room_free s' 7 i)"
  by (rule trade_closed_server_offered [OF trade_ok_one_server]) (simp add: one_server_def)

end
