(* ===== verification/Timer.thy ===== *)
theory Timer
  imports Prelude
begin

text \<open>
  The timers of the mole game server, \<open>src/mole/gamesvr/timer.c\<close>: five lists of timers by the time
  they still have (\<open>vec\<close>), each with the earliest expiry it holds. Every second the timers of the
  first list that have expired are called, and the other lists are gone through when their
  earliest timer comes near.

  A pointer to a timer is a number, \<open>tw_heap\<close> gives the timer it points to; what \<open>g_slice_alloc\<close>
  returns is an argument. A list head is the list of the timers linked to it; \<open>tm_list\<close> is the
  owner's list a timer is linked to by its \<open>sprite_list\<close>, \<open>None\<close> once it was taken out (\<open>next\<close> is
  null). Functions, owners and data are numbers, the function 0 marks a timer that is to be deleted.
\<close>

section \<open>The lists\<close>

record timer_struct =
  tm_id :: u32
  tm_expire :: int
  tm_owner :: nat
  tm_data :: nat
  tm_function :: nat
  tm_list :: "nat option"

record tvec_root =
  tv_head :: "nat list"
  tv_expire :: int
  tv_min :: int

record timers =
  tw_heap :: "nat \<Rightarrow> timer_struct option"
  tw_lists :: "nat \<Rightarrow> nat list"
  tw_vec :: "tvec_root list"
  tw_baseid :: u32
  tw_now :: int

datatype timer_op_t =
    TIMER_replace_unconditionally
  | TIMER_replace_earlier_timer
  | TIMER_replace_later_timer

abbreviation timer_at :: "'a timers_scheme \<Rightarrow> nat \<Rightarrow> timer_struct" where
  "timer_at w a \<equiv> the (tw_heap w a)"

abbreviation vec_at :: "'a timers_scheme \<Rightarrow> nat \<Rightarrow> nat list" where
  "vec_at w i \<equiv> tv_head (tw_vec w ! i)"

definition upd_timer :: "nat \<Rightarrow> (timer_struct \<Rightarrow> timer_struct) \<Rightarrow> 'a timers_scheme \<Rightarrow> 'a timers_scheme" where
  "upd_timer a f w = w\<lparr>tw_heap := (tw_heap w)(a \<mapsto> f (timer_at w a))\<rparr>"

text \<open>\<open>list_add_tail\<close> and \<open>list_del\<close> on \<open>entry\<close>, \<open>list_del\<close> on \<open>sprite_list\<close>.\<close>

definition entry_add_tail :: "nat \<Rightarrow> nat \<Rightarrow> 'a timers_scheme \<Rightarrow> 'a timers_scheme" where
  "entry_add_tail a i w =
     w\<lparr>tw_vec := (tw_vec w)[i := (tw_vec w ! i)\<lparr>tv_head := vec_at w i @ [a]\<rparr>]\<rparr>"

definition entry_del :: "nat \<Rightarrow> 'a timers_scheme \<Rightarrow> 'a timers_scheme" where
  "entry_del a w = w\<lparr>tw_vec := map (\<lambda>v. v\<lparr>tv_head := remove1 a (tv_head v)\<rparr>) (tw_vec w)\<rparr>"

definition sprite_list_del :: "nat \<Rightarrow> 'a timers_scheme \<Rightarrow> 'a timers_scheme" where
  "sprite_list_del a w =
     (case tm_list (timer_at w a) of
        None \<Rightarrow> w
      | Some l \<Rightarrow> upd_timer a (tm_list_update (\<lambda>_. None)) (w\<lparr>tw_lists := (tw_lists w)(l := remove1 a (tw_lists w l))\<rparr>))"

definition setup_timer :: "int \<Rightarrow> 'a timers_scheme \<Rightarrow> 'a timers_scheme" where
  "setup_timer now w =
     w\<lparr>tw_now := now, tw_vec := map (\<lambda>i. (tw_vec w ! i)\<lparr>tv_head := [], tv_expire := 2 ^ (i + 2)\<rparr>) [0..<5]\<rparr>"

definition set_min_exptm :: "int \<Rightarrow> nat \<Rightarrow> 'a timers_scheme \<Rightarrow> 'a timers_scheme" where
  "set_min_exptm exptm idx w =
     (if exptm < tv_min (tw_vec w ! idx) \<or> tv_min (tw_vec w ! idx) = 0
      then w\<lparr>tw_vec := (tw_vec w)[idx := (tw_vec w ! idx)\<lparr>tv_min := exptm\<rparr>]\<rparr> else w)"

fun find_min_idx :: "tvec_root list \<Rightarrow> int \<Rightarrow> nat \<Rightarrow> nat" where
  "find_min_idx vec diff 0 = 0"
| "find_min_idx vec diff (Suc k) = (if diff \<le> tv_expire (vec ! k) then find_min_idx vec diff k else Suc k)"

text \<open>The loop over \<open>vec\<close> of \<open>add_timer\<close> and \<open>do_mod_expire_time\<close>: the first list but the last one.\<close>

fun first_idx :: "int \<Rightarrow> tvec_root list \<Rightarrow> nat" where
  "first_idx diff (v # u # vs) = (if diff \<le> tv_expire v then 0 else Suc (first_idx diff (u # vs)))"
| "first_idx diff vs = 0"

definition add_timer :: "nat \<Rightarrow> 'a timers_scheme \<Rightarrow> 'a timers_scheme" where
  "add_timer a w =
     (let diff = wrap32 (tm_expire (timer_at w a) - tw_now w); i = first_idx diff (tw_vec w)
      in set_min_exptm (tm_expire (timer_at w a)) i (entry_add_tail a i w))"

definition do_remove_timer :: "nat \<Rightarrow> bool \<Rightarrow> 'a timers_scheme \<Rightarrow> 'a timers_scheme" where
  "do_remove_timer a freed w =
     (let w1 = sprite_list_del a w in
      if freed then (entry_del a w1)\<lparr>tw_heap := (tw_heap w1)(a := None)\<rparr>
      else upd_timer a (tm_function_update (\<lambda>_. 0)) w1)"

definition do_mod_expire_time :: "nat \<Rightarrow> int \<Rightarrow> 'a timers_scheme \<Rightarrow> 'a timers_scheme" where
  "do_mod_expire_time a expiretime w =
     (let diff = expiretime - tw_now w;
          w1 = upd_timer a (tm_expire_update (\<lambda>_. expiretime)) w;
          i = first_idx diff (tw_vec w1)
      in set_min_exptm expiretime i (entry_add_tail a i (entry_del a w1)))"

section \<open>What a game does with its timers\<close>

definition add_timer_event ::
    "nat \<Rightarrow> nat \<Rightarrow> nat \<Rightarrow> nat \<Rightarrow> nat \<Rightarrow> int \<Rightarrow> 'a timers_scheme \<Rightarrow> 'a timers_scheme \<times> u32" where
  "add_timer_event a l func owner data expire w =
     (let b1 = tw_baseid w + 1; b = (if b1 = 0 then b1 + 1 else b1);
          t = \<lparr>tm_id = b, tm_expire = expire, tm_owner = owner, tm_data = data, tm_function = func, tm_list = Some l\<rparr>;
          w1 = w\<lparr>tw_baseid := b, tw_heap := (tw_heap w)(a \<mapsto> t), tw_lists := (tw_lists w)(l := tw_lists w l @ [a])\<rparr>
      in (add_timer a w1, b))"

definition find_timer :: "nat \<Rightarrow> nat \<Rightarrow> 'a timers_scheme \<Rightarrow> nat option" where
  "find_timer l func w = find (\<lambda>a. tm_function (timer_at w a) = func) (tw_lists w l)"

definition find_timer_id :: "nat \<Rightarrow> u32 \<Rightarrow> 'a timers_scheme \<Rightarrow> nat option" where
  "find_timer_id l tid w = find (\<lambda>a. tm_id (timer_at w a) = tid) (tw_lists w l)"

definition op_timer_event :: "nat \<Rightarrow> nat \<Rightarrow> int \<Rightarrow> timer_op_t \<Rightarrow> 'a timers_scheme \<Rightarrow> 'a timers_scheme \<times> u32" where
  "op_timer_event l func expire flag w =
     (case find_timer l func w of
        None \<Rightarrow> (w, 0)
      | Some a \<Rightarrow>
          (if flag = TIMER_replace_unconditionally \<or>
              flag = TIMER_replace_later_timer \<and> expire < tm_expire (timer_at w a) \<or>
              flag = TIMER_replace_earlier_timer \<and> tm_expire (timer_at w a) < expire
           then do_mod_expire_time a expire w else w, tm_id (timer_at w a)))"

definition mod_expire_time :: "nat \<Rightarrow> u32 \<Rightarrow> int \<Rightarrow> 'a timers_scheme \<Rightarrow> 'a timers_scheme" where
  "mod_expire_time l tid exptm w =
     (case find_timer_id l tid w of None \<Rightarrow> w | Some a \<Rightarrow> do_mod_expire_time a exptm w)"

definition remove_timer :: "nat \<Rightarrow> u32 \<Rightarrow> 'a timers_scheme \<Rightarrow> 'a timers_scheme" where
  "remove_timer l tid w =
     (case find_timer_id l tid w of None \<Rightarrow> w | Some a \<Rightarrow> do_remove_timer a False w)"

definition remove_timers :: "nat \<Rightarrow> 'a timers_scheme \<Rightarrow> 'a timers_scheme" where
  "remove_timers l w = fold (\<lambda>a. do_remove_timer a False) (tw_lists w l) w"

section \<open>The scan\<close>

text \<open>
  \<open>scan_timer_list\<close>: the loop takes the current timer out of the list at most, so it goes over the
  list as it was at the start; \<open>m\<close> is \<open>min_exptm\<close>.
\<close>

definition scan_timer_entry :: "nat \<Rightarrow> nat \<Rightarrow> 'a timers_scheme \<times> int \<Rightarrow> 'a timers_scheme \<times> int" where
  "scan_timer_entry idx a = (\<lambda>(w, m).
     if tm_function (timer_at w a) \<noteq> 0 then
       let e = tm_expire (timer_at w a); i = find_min_idx (tw_vec w) (e - tw_now w) idx in
       if i \<noteq> idx then (set_min_exptm e i (entry_add_tail a i (entry_del a w)), m)
       else if e < m \<or> m = 0 then (w, e) else (w, m)
     else (do_remove_timer a True w, m))"

definition scan_timer_list :: "nat \<Rightarrow> 'a timers_scheme \<Rightarrow> 'a timers_scheme" where
  "scan_timer_list idx w =
     (let (w1, m) = fold (scan_timer_entry idx) (vec_at w idx) (w, 0)
      in w1\<lparr>tw_vec := (tw_vec w1)[idx := (tw_vec w1 ! idx)\<lparr>tv_min := m\<rparr>]\<rparr>)"

text \<open>
  The loop over the first list keeps a pointer to the next timer while it calls the current one.
  The called function (\<open>cb\<close>, with owner and data) may change the timers; \<open>None\<close> stands for a call
  that fails and for a next timer that is no longer in the first list. The timers called are listed.
\<close>

type_synonym 'a timer_cb = "nat \<Rightarrow> nat \<Rightarrow> nat \<Rightarrow> 'a timers_scheme \<Rightarrow> ('a timers_scheme \<times> int) option"

fun next_entry :: "nat list \<Rightarrow> nat \<Rightarrow> nat option" where
  "next_entry (x # y # xs) a = (if x = a then Some y else next_entry (y # xs) a)"
| "next_entry xs a = None"

partial_function (option) seconds_loop ::
    "'a timer_cb \<Rightarrow> nat option \<Rightarrow> 'a timers_scheme \<Rightarrow> nat list \<Rightarrow> ('a timers_scheme \<times> nat list) option" where
  "seconds_loop cb cur w called =
     (case cur of
        None \<Rightarrow> Some (w, called)
      | Some a \<Rightarrow>
          if a \<notin> set (vec_at w 0) then None
          else
            let nx = next_entry (vec_at w 0) a; t = timer_at w a in
            if tm_function t = 0 then seconds_loop cb nx (do_remove_timer a True w) called
            else if tm_expire t \<le> tw_now w then
              case cb (tm_function t) (tm_owner t) (tm_data t) w of
                None \<Rightarrow> None
              | Some (w1, rv) \<Rightarrow>
                  seconds_loop cb nx (if rv = 0 then do_remove_timer a True w1 else w1) (called @ [a])
            else seconds_loop cb nx w called)"

definition scan_far_lists :: "'a timers_scheme \<Rightarrow> 'a timers_scheme" where
  "scan_far_lists w =
     fold (\<lambda>i w. if tv_min (tw_vec w ! i) - tw_now w < 2 then scan_timer_list i w else w) [1, 2, 3, 4] w"

definition scan_seconds_timer :: "'a timer_cb \<Rightarrow> 'a timers_scheme \<Rightarrow> ('a timers_scheme \<times> nat list) option" where
  "scan_seconds_timer cb w =
     map_option (\<lambda>(w1, called). (scan_far_lists w1, called))
       (seconds_loop cb (case vec_at w 0 of [] \<Rightarrow> None | a # as \<Rightarrow> Some a) w [])"

text \<open>\<open>handle_timer\<close> reads the clock; \<open>lastsec\<close> is its static variable.\<close>

definition handle_timer ::
    "'a timer_cb \<Rightarrow> int \<Rightarrow> int \<Rightarrow> 'a timers_scheme \<Rightarrow> ('a timers_scheme \<times> int \<times> nat list) option" where
  "handle_timer cb clock lastsec w =
     (let w1 = w\<lparr>tw_now := clock\<rparr> in
      if lastsec \<noteq> clock then map_option (\<lambda>(w2, called). (w2, clock, called)) (scan_seconds_timer cb w1)
      else Some (w1, lastsec, []))"

definition destroy_timer :: "'a timers_scheme \<Rightarrow> 'a timers_scheme" where
  "destroy_timer w = fold (\<lambda>i w. fold (\<lambda>a. do_remove_timer a True) (vec_at w i) w) [0, 1, 2, 3, 4] w"

end
