(* ===== verification/TimerWheel.thy ===== *)
theory TimerWheel
  imports Timer
begin

text \<open>
  The invariant of the timer lists and what the primitive steps do to them: every timer in memory is
  linked into exactly one of the five lists, a timer in use is linked to its owner too, and a list
  but the first does not hold a timer in use that expires before its \<open>min_expiring_time\<close>.
\<close>

section \<open>The invariant\<close>

definition in_use :: "'a timers_scheme \<Rightarrow> nat \<Rightarrow> bool" where
  "in_use w a \<longleftrightarrow> (\<exists>t. tw_heap w a = Some t \<and> tm_function t \<noteq> 0)"

abbreviation expiry :: "'a timers_scheme \<Rightarrow> nat \<Rightarrow> int" where
  "expiry w a \<equiv> tm_expire (timer_at w a)"

definition vec_shape :: "'a timers_scheme \<Rightarrow> bool" where
  "vec_shape w \<longleftrightarrow> length (tw_vec w) = 5 \<and> (\<forall>i<5. tv_expire (tw_vec w ! i) = 2 ^ (i + 2))"

definition vec_disjoint :: "'a timers_scheme \<Rightarrow> bool" where
  "vec_disjoint w \<longleftrightarrow> (\<forall>i<5. distinct (vec_at w i)) \<and>
     (\<forall>i<5. \<forall>j<5. i \<noteq> j \<longrightarrow> set (vec_at w i) \<inter> set (vec_at w j) = {}) \<and>
     (\<forall>a. tw_heap w a \<noteq> None \<longleftrightarrow> (\<exists>i<5. a \<in> set (vec_at w i)))"

definition lists_ok :: "'a timers_scheme \<Rightarrow> bool" where
  "lists_ok w \<longleftrightarrow> (\<forall>l. distinct (tw_lists w l)) \<and>
     (\<forall>l a. a \<in> set (tw_lists w l) \<longleftrightarrow> (\<exists>t. tw_heap w a = Some t \<and> tm_list t = Some l)) \<and>
     (\<forall>a t. tw_heap w a = Some t \<longrightarrow> (tm_function t \<noteq> 0 \<longleftrightarrow> tm_list t \<noteq> None))"

definition mins_ok :: "'a timers_scheme \<Rightarrow> bool" where
  "mins_ok w \<longleftrightarrow> (\<forall>a. in_use w a \<longrightarrow> 0 < expiry w a) \<and>
     (\<forall>i a. 1 \<le> i \<and> i < 5 \<and> a \<in> set (vec_at w i) \<and> in_use w a \<longrightarrow>
        tv_min (tw_vec w ! i) \<noteq> 0 \<and> tv_min (tw_vec w ! i) \<le> expiry w a)"

definition wheel_ok :: "'a timers_scheme \<Rightarrow> bool" where
  "wheel_ok w \<longleftrightarrow> vec_shape w \<and> vec_disjoint w \<and> lists_ok w \<and> mins_ok w"

lemma wheel_okD:
  assumes "wheel_ok w"
  shows "vec_shape w" "vec_disjoint w" "lists_ok w" "mins_ok w" "length (tw_vec w) = 5"
  using assms by (simp_all add: wheel_ok_def vec_shape_def)

lemma mins_okD:
  assumes "mins_ok w"
  shows "in_use w a \<Longrightarrow> 0 < expiry w a"
    and "1 \<le> i \<Longrightarrow> i < 5 \<Longrightarrow> a \<in> set (vec_at w i) \<Longrightarrow> in_use w a \<Longrightarrow> tv_min (tw_vec w ! i) \<noteq> 0 \<and> tv_min (tw_vec w ! i) \<le> expiry w a"
  using assms unfolding mins_ok_def by blast+

lemma mins_okI:
  assumes "\<And>a. in_use w a \<Longrightarrow> 0 < expiry w a"
    and "\<And>i a. 1 \<le> i \<Longrightarrow> i < 5 \<Longrightarrow> a \<in> set (vec_at w i) \<Longrightarrow> in_use w a \<Longrightarrow> tv_min (tw_vec w ! i) \<noteq> 0 \<and> tv_min (tw_vec w ! i) \<le> expiry w a"
  shows "mins_ok w"
  using assms unfolding mins_ok_def by blast

lemma vec_disjointD:
  assumes "vec_disjoint w"
  shows "i < 5 \<Longrightarrow> distinct (vec_at w i)" "i < 5 \<Longrightarrow> j < 5 \<Longrightarrow> i \<noteq> j \<Longrightarrow> a \<in> set (vec_at w i) \<Longrightarrow> a \<notin> set (vec_at w j)"
    "tw_heap w a \<noteq> None \<longleftrightarrow> (\<exists>i<5. a \<in> set (vec_at w i))"
  using assms unfolding vec_disjoint_def by blast+

lemma in_use_heap: "in_use w a \<Longrightarrow> tw_heap w a \<noteq> None"
  by (auto simp: in_use_def)

lemma in_use_at: "in_use w a \<longleftrightarrow> tw_heap w a \<noteq> None \<and> tm_function (timer_at w a) \<noteq> 0"
  by (auto simp: in_use_def)

section \<open>The primitive steps\<close>

lemma nth_upd: "xs[i := x] ! j = (if i < length xs \<and> j = i then x else xs ! j)"
  by (cases "i < length xs") (auto simp: nth_list_update list_update_beyond not_less)

lemma upd_timer_fields [simp]:
  "tw_vec (upd_timer a f w) = tw_vec w" "tw_lists (upd_timer a f w) = tw_lists w" "tw_now (upd_timer a f w) = tw_now w"
  "tw_baseid (upd_timer a f w) = tw_baseid w" "timers.more (upd_timer a f w) = timers.more w"
  "tw_heap (upd_timer a f w) b = (if b = a then Some (f (timer_at w a)) else tw_heap w b)"
  by (simp_all add: upd_timer_def)

lemma entry_add_tail_fields [simp]:
  "tw_heap (entry_add_tail a i w) = tw_heap w" "tw_lists (entry_add_tail a i w) = tw_lists w"
  "tw_now (entry_add_tail a i w) = tw_now w" "tw_baseid (entry_add_tail a i w) = tw_baseid w"
  "timers.more (entry_add_tail a i w) = timers.more w" "length (tw_vec (entry_add_tail a i w)) = length (tw_vec w)"
  "tv_min (tw_vec (entry_add_tail a i w) ! j) = tv_min (tw_vec w ! j)"
  "tv_expire (tw_vec (entry_add_tail a i w) ! j) = tv_expire (tw_vec w ! j)"
  by (simp_all add: entry_add_tail_def nth_upd)

lemma vec_at_add_tail [simp]:
  "i < length (tw_vec w) \<Longrightarrow> vec_at (entry_add_tail a i w) j = (if j = i then vec_at w i @ [a] else vec_at w j)"
  by (simp add: entry_add_tail_def nth_upd)

lemma entry_del_fields [simp]:
  "tw_heap (entry_del a w) = tw_heap w" "tw_lists (entry_del a w) = tw_lists w"
  "tw_now (entry_del a w) = tw_now w" "tw_baseid (entry_del a w) = tw_baseid w"
  "timers.more (entry_del a w) = timers.more w" "length (tw_vec (entry_del a w)) = length (tw_vec w)"
  "i < length (tw_vec w) \<Longrightarrow> tv_min (tw_vec (entry_del a w) ! i) = tv_min (tw_vec w ! i)"
  "i < length (tw_vec w) \<Longrightarrow> tv_expire (tw_vec (entry_del a w) ! i) = tv_expire (tw_vec w ! i)"
  "i < length (tw_vec w) \<Longrightarrow> vec_at (entry_del a w) i = remove1 a (vec_at w i)"
  by (simp_all add: entry_del_def)

lemma sprite_list_del_fields [simp]:
  "tw_vec (sprite_list_del a w) = tw_vec w" "tw_now (sprite_list_del a w) = tw_now w"
  "tw_baseid (sprite_list_del a w) = tw_baseid w" "timers.more (sprite_list_del a w) = timers.more w"
  by (simp_all add: sprite_list_del_def split: option.split)

lemma set_min_fields [simp]:
  "tw_heap (set_min_exptm e i w) = tw_heap w" "tw_lists (set_min_exptm e i w) = tw_lists w"
  "tw_now (set_min_exptm e i w) = tw_now w" "tw_baseid (set_min_exptm e i w) = tw_baseid w"
  "timers.more (set_min_exptm e i w) = timers.more w" "length (tw_vec (set_min_exptm e i w)) = length (tw_vec w)"
  "vec_at (set_min_exptm e i w) j = vec_at w j"
  "tv_expire (tw_vec (set_min_exptm e i w) ! j) = tv_expire (tw_vec w ! j)"
  by (simp_all add: set_min_exptm_def nth_upd)

lemma set_min_min:
  "j < length (tw_vec w) \<Longrightarrow> tv_min (tw_vec (set_min_exptm e i w) ! j) =
     (if j = i \<and> (e < tv_min (tw_vec w ! i) \<or> tv_min (tw_vec w ! i) = 0) then e else tv_min (tw_vec w ! j))"
  by (simp add: set_min_exptm_def nth_upd)

lemma find_min_idx_le: "find_min_idx vec d k \<le> k"
  by (induction k) auto

lemma find_min_idx_0:
  assumes "\<forall>i<k. d \<le> tv_expire (vec ! i)"
  shows "find_min_idx vec d k = 0"
  using assms by (induction k) auto

lemma first_idx_less: "vs \<noteq> [] \<Longrightarrow> first_idx d vs < length vs"
  by (induction d vs rule: first_idx.induct) auto

lemma first_idx_0: "length vs \<noteq> 0 \<Longrightarrow> d \<le> tv_expire (vs ! 0) \<Longrightarrow> first_idx d vs = 0"
  by (cases "(d, vs)" rule: first_idx.cases) auto

text \<open>Linking a timer, which no list holds, into the list \<open>i\<close>.\<close>

definition link :: "nat \<Rightarrow> nat \<Rightarrow> 'a timers_scheme \<Rightarrow> 'a timers_scheme" where
  "link a i w = set_min_exptm (expiry w a) i (entry_add_tail a i w)"

lemma link_fields [simp]:
  "tw_heap (link a i w) = tw_heap w" "tw_lists (link a i w) = tw_lists w" "tw_now (link a i w) = tw_now w"
  "tw_baseid (link a i w) = tw_baseid w" "timers.more (link a i w) = timers.more w"
  "i < length (tw_vec w) \<Longrightarrow> vec_at (link a i w) j = (if j = i then vec_at w i @ [a] else vec_at w j)"
  "length (tw_vec (link a i w)) = length (tw_vec w)"
  "tv_expire (tw_vec (link a i w) ! j) = tv_expire (tw_vec w ! j)"
  by (simp_all add: link_def)

lemma in_use_link [simp]: "in_use (link a i w) b = in_use w b"
  by (simp add: in_use_def)

text \<open>The invariant with one timer taken out of the lists.\<close>

definition wheel_without :: "nat \<Rightarrow> 'a timers_scheme \<Rightarrow> bool" where
  "wheel_without a w \<longleftrightarrow> vec_shape w \<and> lists_ok w \<and> mins_ok w \<and> tw_heap w a \<noteq> None \<and>
     (\<forall>i<5. distinct (vec_at w i)) \<and>
     (\<forall>i<5. \<forall>j<5. i \<noteq> j \<longrightarrow> set (vec_at w i) \<inter> set (vec_at w j) = {}) \<and>
     (\<forall>b. (\<exists>i<5. b \<in> set (vec_at w i)) \<longleftrightarrow> tw_heap w b \<noteq> None \<and> b \<noteq> a)"

lemma link_ok:
  assumes ok: "wheel_without a w" and i: "i < 5" and u: "in_use w a"
  shows "wheel_ok (link a i w)"
proof -
  have len: "length (tw_vec w) = 5" and na: "\<forall>j<5. a \<notin> set (vec_at w j)"
    using ok by (auto simp: wheel_without_def vec_shape_def)
  have shape: "vec_shape (link a i w)" using ok by (simp add: wheel_without_def vec_shape_def)
  have ls: "lists_ok (link a i w)" using ok by (simp add: wheel_without_def lists_ok_def)
  have dj: "vec_disjoint (link a i w)"
  proof -
    have "distinct (vec_at (link a i w) j)" if "j < 5" for j
      using that ok na len i by (auto simp: wheel_without_def)
    moreover have "set (vec_at (link a i w) j) \<inter> set (vec_at (link a i w) k) = {}" if "j < 5" "k < 5" "j \<noteq> k" for j k
      using that ok na len i by (auto simp: wheel_without_def)
    moreover have "tw_heap (link a i w) b \<noteq> None \<longleftrightarrow> (\<exists>j<5. b \<in> set (vec_at (link a i w) j))" for b
    proof -
      have "(\<exists>j<5. b \<in> set (vec_at (link a i w) j)) \<longleftrightarrow> (\<exists>j<5. b \<in> set (vec_at w j)) \<or> b = a"
        using i len by auto
      then show ?thesis using ok by (simp add: wheel_without_def) blast
    qed
    ultimately show ?thesis by (simp only: vec_disjoint_def) blast
  qed
  have "mins_ok (link a i w)"
  proof -
    have M: "mins_ok w" using ok by (simp add: wheel_without_def)
    have "tv_min (tw_vec (link a i w) ! j) \<noteq> 0 \<and> tv_min (tw_vec (link a i w) ! j) \<le> expiry w b"
      if "1 \<le> j" "j < 5" "b \<in> set (vec_at (link a i w) j)" "in_use w b" for j b
    proof -
      have pos: "0 < expiry w b" using M that(4) by (simp add: mins_ok_def)
      show ?thesis
      proof (cases "b \<in> set (vec_at w j)")
        case True
        then have "tv_min (tw_vec w ! j) \<noteq> 0 \<and> tv_min (tw_vec w ! j) \<le> expiry w b" using M that by (simp add: mins_ok_def)
        moreover have "0 < expiry w a" using M u by (simp add: mins_ok_def)
        ultimately show ?thesis using len that(2) by (auto simp: link_def set_min_min)
      next
        case False
        then have "b = a" "j = i" using that len i by (auto split: if_splits)
        then show ?thesis using pos len i by (auto simp: link_def set_min_min)
      qed
    qed
    moreover have "\<forall>b. in_use w b \<longrightarrow> 0 < expiry w b" using M by (simp add: mins_ok_def)
    ultimately show ?thesis unfolding mins_ok_def in_use_link link_fields(1) by blast
  qed
  with shape ls dj show ?thesis by (simp add: wheel_ok_def)
qed

lemma unlink_ok:
  assumes ok: "wheel_ok w" and a: "tw_heap w a \<noteq> None"
  shows "wheel_without a (entry_del a w)"
proof -
  note D = wheel_okD [OF ok]
  have v: "vec_at (entry_del a w) i = remove1 a (vec_at w i)" if "i < 5" for i using D(5) that by simp
  have d: "\<forall>i<5. distinct (vec_at w i)" "\<forall>i<5. \<forall>j<5. i \<noteq> j \<longrightarrow> set (vec_at w i) \<inter> set (vec_at w j) = {}"
    "\<forall>a. tw_heap w a \<noteq> None \<longleftrightarrow> (\<exists>i<5. a \<in> set (vec_at w i))" using D(2) by (auto simp: vec_disjoint_def)
  have s: "set (vec_at (entry_del a w) i) = set (vec_at w i) - {a}" if "i < 5" for i using d(1) v that by (simp add: set_remove1_eq)
  have "vec_shape (entry_del a w)" using D(1) by (simp add: vec_shape_def)
  moreover have "lists_ok (entry_del a w)" using D(3) by (simp add: lists_ok_def)
  moreover have "mins_ok (entry_del a w)"
  proof -
    have "tv_min (tw_vec (entry_del a w) ! i) \<noteq> 0 \<and> tv_min (tw_vec (entry_del a w) ! i) \<le> expiry w b"
      if "1 \<le> i" "i < 5" "b \<in> set (vec_at (entry_del a w) i)" "in_use w b" for i b
      using mins_okD(2) [OF D(4) that(1,2) _ that(4)] D(5) that(2,3) s by simp
    moreover have "\<forall>b. in_use w b \<longrightarrow> 0 < expiry w b" using D(4) by (simp add: mins_ok_def)
    ultimately show ?thesis unfolding mins_ok_def in_use_def entry_del_fields(1) by blast
  qed
  moreover have "\<forall>i<5. distinct (vec_at (entry_del a w) i)" using d(1) v by simp
  moreover have "\<forall>i<5. \<forall>j<5. i \<noteq> j \<longrightarrow> set (vec_at (entry_del a w) i) \<inter> set (vec_at (entry_del a w) j) = {}"
  proof (intro allI impI)
    fix i j :: nat assume "i < 5" "j < 5" "i \<noteq> j"
    with d(2) have "set (vec_at w i) \<inter> set (vec_at w j) = {}" by blast
    then show "set (vec_at (entry_del a w) i) \<inter> set (vec_at (entry_del a w) j) = {}"
      unfolding s [OF \<open>i < 5\<close>] s [OF \<open>j < 5\<close>] by blast
  qed
  moreover have "(\<exists>i<5. b \<in> set (vec_at (entry_del a w) i)) \<longleftrightarrow> tw_heap w b \<noteq> None \<and> b \<noteq> a" for b
    using d(3) s by auto
  ultimately show ?thesis using a by (simp add: wheel_without_def)
qed

lemma without_expire:
  assumes ok: "wheel_without a w" and e: "0 < e"
  shows "wheel_without a (upd_timer a (tm_expire_update (\<lambda>_. e)) w)" (is "wheel_without a ?w")
proof -
  have u: "in_use ?w b = in_use w b" for b using ok by (auto simp: in_use_def wheel_without_def)
  have na: "\<forall>i<5. a \<notin> set (vec_at w i)" and M: "mins_ok w" using ok by (auto simp: wheel_without_def)
  have "0 < expiry ?w b" if "in_use w b" for b using M e that by (simp add: mins_ok_def)
  moreover have "tv_min (tw_vec w ! i) \<noteq> 0 \<and> tv_min (tw_vec w ! i) \<le> expiry ?w b"
    if "1 \<le> i" "i < 5" "b \<in> set (vec_at w i)" "in_use w b" for i b
    using M na that by (auto simp: mins_ok_def)
  ultimately have "mins_ok ?w" unfolding mins_ok_def u upd_timer_fields(1) by blast
  moreover have "lists_ok ?w" using ok by (auto simp: wheel_without_def lists_ok_def)
  ultimately show ?thesis using ok by (simp add: wheel_without_def vec_shape_def)
qed

lemma vec_ne: "vec_shape w \<Longrightarrow> tw_vec w \<noteq> []"
  by (auto simp: vec_shape_def)

lemma idx_less: "vec_shape w \<Longrightarrow> first_idx d (tw_vec w) < 5"
  using first_idx_less [of "tw_vec w" d] vec_ne [of w] by (auto simp: vec_shape_def)

lemma mod_is_link:
  "do_mod_expire_time a e w =
     link a (first_idx (e - tw_now w) (tw_vec w)) (upd_timer a (tm_expire_update (\<lambda>_. e)) (entry_del a w))"
proof -
  have "entry_del a (upd_timer a f w) = upd_timer a f (entry_del a w)" for f by (simp add: entry_del_def upd_timer_def)
  then show ?thesis by (simp add: do_mod_expire_time_def Let_def link_def)
qed

lemma do_mod_ok:
  assumes ok: "wheel_ok w" and a: "in_use w a" and e: "0 < e"
  shows "wheel_ok (do_mod_expire_time a e w)"
proof -
  have "wheel_without a (upd_timer a (tm_expire_update (\<lambda>_. e)) (entry_del a w))"
    using without_expire [OF unlink_ok [OF ok in_use_heap [OF a]] e] .
  moreover have "in_use (upd_timer a (tm_expire_update (\<lambda>_. e)) (entry_del a w)) a" using a by (auto simp: in_use_def)
  ultimately show ?thesis using idx_less wheel_okD(1) [OF ok] unfolding mod_is_link by (intro link_ok) auto
qed

text \<open>Taking a timer out of its owner's list, and marking it.\<close>

lemma remove_mark:
  assumes ok: "wheel_ok w" and a: "tw_heap w a \<noteq> None"
  shows "wheel_ok (do_remove_timer a False w)" and "in_use (do_remove_timer a False w) b \<longleftrightarrow> in_use w b \<and> b \<noteq> a"
    and "b \<noteq> a \<Longrightarrow> tw_heap (do_remove_timer a False w) b = tw_heap w b" and "tw_vec (do_remove_timer a False w) = tw_vec w"
    and "tw_now (do_remove_timer a False w) = tw_now w" and "timers.more (do_remove_timer a False w) = timers.more w"
    and "tw_heap (do_remove_timer a False w) a = Some ((timer_at w a)\<lparr>tm_list := None, tm_function := 0\<rparr>)"
    and "tw_baseid (do_remove_timer a False w) = tw_baseid w"
    and "tw_lists (do_remove_timer a False w) l = remove1 a (tw_lists w l)"
proof -
  note D = wheel_okD [OF ok]
  let ?w = "do_remove_timer a False w"
  obtain t where t: "tw_heap w a = Some t" using a by auto
  have L: "distinct (tw_lists w l)" "b \<in> set (tw_lists w l) \<longleftrightarrow> (\<exists>t. tw_heap w b = Some t \<and> tm_list t = Some l)" for l b
    using D(3) by (auto simp: lists_ok_def)
  have ha: "tw_heap ?w a = Some ((timer_at w a)\<lparr>tm_list := None, tm_function := 0\<rparr>)"
    using t by (cases "tm_list t") (auto simp: do_remove_timer_def Let_def sprite_list_del_def)
  have hb: "tw_heap ?w b = tw_heap w b" if "b \<noteq> a" for b
    using t that by (cases "tm_list t") (auto simp: do_remove_timer_def Let_def sprite_list_del_def)
  have ls: "tw_lists ?w l = remove1 a (tw_lists w l)" for l
    using t L(2) [of a l] by (cases "tm_list t") (auto simp: do_remove_timer_def Let_def sprite_list_del_def remove1_idem)
  show vec: "tw_vec ?w = tw_vec w" and nw: "tw_now ?w = tw_now w" and "timers.more ?w = timers.more w" "tw_baseid ?w = tw_baseid w"
    by (simp_all add: do_remove_timer_def Let_def)
  show "b \<noteq> a \<Longrightarrow> tw_heap ?w b = tw_heap w b" for b by (rule hb)
  show "tw_heap ?w a = Some ((timer_at w a)\<lparr>tm_list := None, tm_function := 0\<rparr>)" by (rule ha)
  show "tw_lists ?w l = remove1 a (tw_lists w l)" for l by (rule ls)
  have u: "in_use ?w b \<longleftrightarrow> in_use w b \<and> b \<noteq> a" for b using ha hb [of b] by (cases "b = a") (auto simp: in_use_def)
  then show "in_use ?w b \<longleftrightarrow> in_use w b \<and> b \<noteq> a" .
  have "vec_shape ?w" using D(1) by (simp add: vec_shape_def vec)
  moreover have "vec_disjoint ?w"
  proof -
    have "tw_heap ?w b \<noteq> None \<longleftrightarrow> tw_heap w b \<noteq> None" for b using ha hb [of b] a by (cases "b = a") auto
    then show ?thesis using D(2) by (simp add: vec_disjoint_def vec)
  qed
  moreover have "lists_ok ?w"
  proof -
    have "b \<in> set (tw_lists ?w l) \<longleftrightarrow> (\<exists>t. tw_heap ?w b = Some t \<and> tm_list t = Some l)" for l b
      using L(1) [of l] L(2) [of b l] ha hb [of b] by (cases "b = a") (auto simp: ls)
    moreover have "tm_function t' \<noteq> 0 \<longleftrightarrow> tm_list t' \<noteq> None" if "tw_heap ?w b = Some t'" for b t'
      using D(3) ha hb [of b] that by (cases "b = a") (auto simp: lists_ok_def)
    ultimately show ?thesis using L(1) unfolding lists_ok_def by (simp add: ls)
  qed
  moreover have "mins_ok ?w"
    using D(4) hb unfolding mins_ok_def u vec by metis
  ultimately show "wheel_ok ?w" by (simp add: wheel_ok_def)
qed

lemma sprite_list_del_heap:
  assumes ok: "wheel_ok w" and a: "tw_heap w a \<noteq> None"
  shows "b \<noteq> a \<Longrightarrow> tw_heap (sprite_list_del a w) b = tw_heap w b" and "tw_lists (sprite_list_del a w) l = remove1 a (tw_lists w l)"
proof -
  obtain t where t: "tw_heap w a = Some t" using a by auto
  have L: "a \<in> set (tw_lists w l) \<longleftrightarrow> tm_list t = Some l" for l using wheel_okD(3) [OF ok] t by (auto simp: lists_ok_def)
  show "b \<noteq> a \<Longrightarrow> tw_heap (sprite_list_del a w) b = tw_heap w b"
    using t by (cases "tm_list t") (auto simp: sprite_list_del_def)
  show "tw_lists (sprite_list_del a w) l = remove1 a (tw_lists w l)"
    using t L [of l] by (cases "tm_list t") (auto simp: sprite_list_del_def remove1_idem)
qed

lemma remove_free:
  assumes ok: "wheel_ok w" and a: "tw_heap w a \<noteq> None"
  shows "wheel_ok (do_remove_timer a True w)" and "in_use (do_remove_timer a True w) b \<longleftrightarrow> in_use w b \<and> b \<noteq> a"
    and "b \<noteq> a \<Longrightarrow> tw_heap (do_remove_timer a True w) b = tw_heap w b" and "tw_heap (do_remove_timer a True w) a = None"
    and "i < 5 \<Longrightarrow> vec_at (do_remove_timer a True w) i = remove1 a (vec_at w i)"
    and "tw_now (do_remove_timer a True w) = tw_now w" and "timers.more (do_remove_timer a True w) = timers.more w"
    and "i < 5 \<Longrightarrow> tv_min (tw_vec (do_remove_timer a True w) ! i) = tv_min (tw_vec w ! i)"
    and "tw_baseid (do_remove_timer a True w) = tw_baseid w"
    and "tw_lists (do_remove_timer a True w) l = remove1 a (tw_lists w l)"
proof -
  note D = wheel_okD [OF ok]
  let ?w = "do_remove_timer a True w"
  have U: "wheel_without a (entry_del a w)" by (rule unlink_ok [OF ok a])
  have hb: "tw_heap ?w b = tw_heap w b" if "b \<noteq> a" for b
    using sprite_list_del_heap(1) [OF ok a that] that by (simp add: do_remove_timer_def Let_def)
  have ha: "tw_heap ?w a = None" by (simp add: do_remove_timer_def Let_def)
  have ls: "tw_lists ?w l = remove1 a (tw_lists w l)" for l
    using sprite_list_del_heap(2) [OF ok a] by (simp add: do_remove_timer_def Let_def)
  have vec: "tw_vec ?w = tw_vec (entry_del a w)" by (simp add: do_remove_timer_def Let_def entry_del_def)
  show "tw_now ?w = tw_now w" "timers.more ?w = timers.more w" "tw_baseid ?w = tw_baseid w"
    by (simp_all add: do_remove_timer_def Let_def entry_del_def)
  show "b \<noteq> a \<Longrightarrow> tw_heap ?w b = tw_heap w b" for b by (rule hb)
  show "tw_heap ?w a = None" by (rule ha)
  show "tw_lists ?w l = remove1 a (tw_lists w l)" for l by (rule ls)
  show "i < 5 \<Longrightarrow> vec_at ?w i = remove1 a (vec_at w i)" "i < 5 \<Longrightarrow> tv_min (tw_vec ?w ! i) = tv_min (tw_vec w ! i)" for i
    using D(5) by (simp_all add: vec)
  have u: "in_use ?w b \<longleftrightarrow> in_use w b \<and> b \<noteq> a" for b using ha hb [of b] by (cases "b = a") (auto simp: in_use_def)
  then show "in_use ?w b \<longleftrightarrow> in_use w b \<and> b \<noteq> a" .
  have "vec_shape ?w" using D(1) by (simp add: vec_shape_def vec)
  moreover have "vec_disjoint ?w"
  proof -
    have "tw_heap ?w b \<noteq> None \<longleftrightarrow> tw_heap w b \<noteq> None \<and> b \<noteq> a" for b using ha hb [of b] by (cases "b = a") auto
    then show ?thesis using U by (simp add: wheel_without_def vec_disjoint_def vec)
  qed
  moreover have "lists_ok ?w"
  proof -
    have L: "distinct (tw_lists w l)" "b \<in> set (tw_lists w l) \<longleftrightarrow> (\<exists>t. tw_heap w b = Some t \<and> tm_list t = Some l)" for l b
      using D(3) by (auto simp: lists_ok_def)
    have "b \<in> set (tw_lists ?w l) \<longleftrightarrow> (\<exists>t. tw_heap ?w b = Some t \<and> tm_list t = Some l)" for l b
      using L(1) [of l] L(2) [of b l] ha hb [of b] by (cases "b = a") (auto simp: ls)
    moreover have "tm_function t' \<noteq> 0 \<longleftrightarrow> tm_list t' \<noteq> None" if "tw_heap ?w b = Some t'" for b t'
      using D(3) ha hb [of b] that by (cases "b = a") (auto simp: lists_ok_def)
    ultimately show ?thesis using L(1) unfolding lists_ok_def by (simp add: ls)
  qed
  moreover have "mins_ok ?w"
  proof -
    have M: "mins_ok (entry_del a w)" using U by (simp add: wheel_without_def)
    have v: "in_use (entry_del a w) b = in_use w b" for b by (simp add: in_use_def)
    have "0 < expiry ?w b" if "in_use ?w b" for b
      using mins_okD(1) [OF M, of b] that hb [of b] by (simp add: u v)
    moreover have "tv_min (tw_vec ?w ! i) \<noteq> 0 \<and> tv_min (tw_vec ?w ! i) \<le> expiry ?w b"
      if "1 \<le> i" "i < 5" "b \<in> set (vec_at ?w i)" "in_use ?w b" for i b
      using mins_okD(2) [OF M that(1,2), of b] that(3,4) hb [of b] by (simp add: u v vec)
    ultimately show ?thesis unfolding mins_ok_def by blast
  qed
  ultimately show "wheel_ok ?w" by (simp add: wheel_ok_def)
qed

lemma add_event_ok:
  assumes ok: "wheel_ok w" and a: "tw_heap w a = None" and f: "func \<noteq> 0" and e: "0 < expire"
    and r: "add_timer_event a l func owner data expire w = (w', tid)"
  shows "wheel_ok w'" and "in_use w' b \<longleftrightarrow> in_use w b \<or> b = a" and "b \<noteq> a \<Longrightarrow> tw_heap w' b = tw_heap w b"
    and "tw_heap w' a = Some \<lparr>tm_id = tid, tm_expire = expire, tm_owner = owner, tm_data = data, tm_function = func, tm_list = Some l\<rparr>"
    and "i < 5 \<Longrightarrow> vec_at w' i = (if i = first_idx (wrap32 (expire - tw_now w)) (tw_vec w) then vec_at w i @ [a] else vec_at w i)"
    and "tw_now w' = tw_now w" and "timers.more w' = timers.more w"
proof -
  note D = wheel_okD [OF ok]
  let ?t = "\<lparr>tm_id = tid, tm_expire = expire, tm_owner = owner, tm_data = data, tm_function = func, tm_list = Some l\<rparr>"
  let ?w1 = "w\<lparr>tw_baseid := tid, tw_heap := (tw_heap w)(a \<mapsto> ?t), tw_lists := (tw_lists w)(l := tw_lists w l @ [a])\<rparr>"
  let ?i = "first_idx (wrap32 (expire - tw_now w)) (tw_vec w)"
  have w': "w' = link a ?i ?w1"
    using r by (auto simp: add_timer_event_def add_timer_def Let_def link_def)
  have i: "?i < 5" using idx_less [OF D(1)] .
  have u1: "in_use ?w1 b \<longleftrightarrow> in_use w b \<or> b = a" for b using a f by (auto simp: in_use_def)
  have na: "\<forall>i<5. a \<notin> set (vec_at w i)" using vec_disjointD(3) [OF D(2), of a] a by blast
  have nl: "a \<notin> set (tw_lists w k)" for k using D(3) a by (simp add: lists_ok_def)
  have "wheel_without a ?w1"
  proof -
    have "lists_ok ?w1"
    proof -
      have "distinct (tw_lists ?w1 k)" for k using D(3) nl by (simp add: lists_ok_def)
      moreover have "b \<in> set (tw_lists ?w1 k) \<longleftrightarrow> (\<exists>t. tw_heap ?w1 b = Some t \<and> tm_list t = Some k)" for k b
        using D(3) nl [of k] by (cases "b = a") (auto simp: lists_ok_def)
      moreover have "tm_function t' \<noteq> 0 \<longleftrightarrow> tm_list t' \<noteq> None" if "tw_heap ?w1 b = Some t'" for b t'
        using D(3) f that by (auto simp: lists_ok_def split: if_splits)
      ultimately show ?thesis unfolding lists_ok_def by blast
    qed
    moreover have "mins_ok ?w1"
    proof -
      have "0 < expiry ?w1 b" if "in_use ?w1 b" for b using mins_okD(1) [OF D(4), of b] that e by (auto simp: u1)
      moreover have "tv_min (tw_vec ?w1 ! i) \<noteq> 0 \<and> tv_min (tw_vec ?w1 ! i) \<le> expiry ?w1 b"
        if "1 \<le> i" "i < 5" "b \<in> set (vec_at ?w1 i)" "in_use ?w1 b" for i b
      proof -
        have "b \<noteq> a" using na that by auto
        with mins_okD(2) [OF D(4) that(1,2), of b] that(3,4) show ?thesis by (simp add: u1)
      qed
      ultimately show ?thesis by (rule mins_okI)
    qed
    moreover have "vec_shape ?w1" using D(1) by (simp add: vec_shape_def)
    moreover have "(\<exists>i<5. b \<in> set (vec_at w i)) \<longleftrightarrow> tw_heap ?w1 b \<noteq> None \<and> b \<noteq> a" for b
      using vec_disjointD(3) [OF D(2), of b] na by auto
    ultimately show ?thesis using D(2) by (simp add: wheel_without_def vec_disjoint_def)
  qed
  then show "wheel_ok w'" unfolding w' using i by (intro link_ok) (simp_all add: u1)
  show "in_use w' b \<longleftrightarrow> in_use w b \<or> b = a" for b by (simp add: w' u1)
  show "b \<noteq> a \<Longrightarrow> tw_heap w' b = tw_heap w b" for b by (simp add: w')
  show "tw_heap w' a = Some ?t" by (simp add: w')
  show "i < 5 \<Longrightarrow> vec_at w' i = (if i = ?i then vec_at w i @ [a] else vec_at w i)" for i using i D(5) by (simp add: w')
  show "tw_now w' = tw_now w" "timers.more w' = timers.more w" by (simp_all add: w')
qed

end
