(* ===== verification/TimerScan.thy ===== *)
theory TimerScan
  imports TimerWheel
begin

text \<open>
  What the games do with timers keeps the invariant, and what a scan calls. The locale
  \<open>timer_client\<close> states what a scan relies on in the function it calls.
\<close>

lemma in_use_rest [simp]: "in_use (timers.more_update f w) a = in_use w a"
  by (simp add: in_use_def)

lemma in_use_now [simp]: "in_use (w\<lparr>tw_now := n\<rparr>) a = in_use w a"
  by (simp add: in_use_def)

lemma wheel_ok_now [simp]: "wheel_ok (w\<lparr>tw_now := n\<rparr>) = wheel_ok w"
  by (simp add: wheel_ok_def vec_shape_def vec_disjoint_def lists_ok_def mins_ok_def)

lemma wheel_ok_rest [simp]: "wheel_ok (timers.more_update f w) = wheel_ok w"
  by (simp add: wheel_ok_def vec_shape_def vec_disjoint_def lists_ok_def mins_ok_def)

section \<open>Steps of the games\<close>

text \<open>
  What a called function may do: add timers that expire later than now, remove timers, and change
  the rest of the server. Between scans a game may also change the expiry of a timer.
\<close>

inductive cb_step :: "'a timers_scheme \<Rightarrow> 'a timers_scheme \<Rightarrow> bool" where
  cb_add: "tw_heap w a = None \<Longrightarrow> func \<noteq> 0 \<Longrightarrow> 0 < expire \<Longrightarrow> tw_now w < expire \<Longrightarrow>
     cb_step w (fst (add_timer_event a l func owner data expire w))"
| cb_remove: "cb_step w (remove_timer l tid w)"
| cb_remove_all: "cb_step w (remove_timers l w)"
| cb_rest: "cb_step w (timers.more_update (\<lambda>_. x) w)"

inductive game_step :: "'a timers_scheme \<Rightarrow> 'a timers_scheme \<Rightarrow> bool" where
  game_cb: "cb_step w w' \<Longrightarrow> game_step w w'"
| game_add: "tw_heap w a = None \<Longrightarrow> func \<noteq> 0 \<Longrightarrow> 0 < expire \<Longrightarrow>
     game_step w (fst (add_timer_event a l func owner data expire w))"
| game_mod: "0 < expire \<Longrightarrow> game_step w (mod_expire_time l tid expire w)"
| game_op: "0 < expire \<Longrightarrow> game_step w (fst (op_timer_event l func expire flag w))"

definition grows :: "'a timers_scheme \<Rightarrow> 'a timers_scheme \<Rightarrow> bool" where
  "grows w w' \<longleftrightarrow> tw_now w' = tw_now w \<and>
     (\<exists>xs. vec_at w' 0 = vec_at w 0 @ xs) \<and>
     (\<forall>b. tw_heap w b \<noteq> None \<longrightarrow> tw_heap w' b \<noteq> None \<and> expiry w' b = expiry w b) \<and>
     (\<forall>b. in_use w' b \<longrightarrow> in_use w b \<or> tw_now w < expiry w' b)"

lemma grows_refl [simp]: "grows w w"
  by (simp add: grows_def)

lemma grows_trans:
  assumes g: "grows w1 w2" and h: "grows w2 w3"
  shows "grows w1 w3"
proof -
  have "in_use w1 b \<or> tw_now w1 < expiry w3 b" if "in_use w3 b" for b
  proof (cases "in_use w2 b")
    case True
    then have "expiry w3 b = expiry w2 b" using h in_use_heap [OF True] by (simp add: grows_def)
    with True g show ?thesis by (simp add: grows_def)
  next
    case False
    have "in_use w2 b \<or> tw_now w2 < expiry w3 b" using h that unfolding grows_def by blast
    with False g show ?thesis by (simp add: grows_def)
  qed
  moreover have "\<exists>xs. vec_at w3 0 = vec_at w1 0 @ xs" using g h by (auto simp: grows_def)
  ultimately show ?thesis using g h unfolding grows_def by simp
qed

lemma mark_grows:
  assumes "wheel_ok w" and "tw_heap w a \<noteq> None"
  shows "grows w (do_remove_timer a False w)"
proof -
  note R = remove_mark [OF assms]
  have "tw_heap (do_remove_timer a False w) b \<noteq> None \<and> expiry (do_remove_timer a False w) b = expiry w b"
    if "tw_heap w b \<noteq> None" for b
    using that R(3) [of b] R(7) by (cases "b = a") auto
  then show ?thesis using R(2,4,5) by (auto simp: grows_def)
qed

lemma listed_heap: "wheel_ok w \<Longrightarrow> a \<in> set (tw_lists w l) \<Longrightarrow> in_use w a"
  using wheel_okD(3) [of w] by (auto simp: lists_ok_def in_use_def)

lemma found_listed:
  "find_timer_id l tid w = Some a \<Longrightarrow> a \<in> set (tw_lists w l)" "find_timer l f w = Some a \<Longrightarrow> a \<in> set (tw_lists w l)"
  by (auto simp: find_timer_id_def find_timer_def find_Some_iff)

lemma remove_timer_ok:
  assumes ok: "wheel_ok w"
  shows "wheel_ok (remove_timer l tid w) \<and> grows w (remove_timer l tid w) \<and> (in_use (remove_timer l tid w) b \<longrightarrow> in_use w b)"
proof (cases "find_timer_id l tid w")
  case None
  then show ?thesis using ok by (simp add: remove_timer_def)
next
  case (Some a)
  have "tw_heap w a \<noteq> None" by (rule in_use_heap [OF listed_heap [OF ok found_listed(1) [OF Some]]])
  from remove_mark(1,2) [OF ok this] mark_grows [OF ok this] Some show ?thesis by (simp add: remove_timer_def)
qed

lemma marks_ok:
  assumes "wheel_ok w" and "\<forall>a \<in> set as. tw_heap w a \<noteq> None"
  shows "wheel_ok (fold (\<lambda>a. do_remove_timer a False) as w) \<and> grows w (fold (\<lambda>a. do_remove_timer a False) as w) \<and>
    (\<forall>b. in_use (fold (\<lambda>a. do_remove_timer a False) as w) b \<longleftrightarrow> in_use w b \<and> b \<notin> set as)"
  using assms
proof (induction as arbitrary: w)
  case (Cons a as)
  have a: "tw_heap w a \<noteq> None" using Cons.prems by simp
  let ?w = "do_remove_timer a False w"
  note R = remove_mark [OF Cons.prems(1) a]
  have "\<forall>a \<in> set as. tw_heap ?w a \<noteq> None"
    using Cons.prems(2) mark_grows [OF Cons.prems(1) a] by (simp add: grows_def)
  from Cons.IH [OF R(1) this] R(2) mark_grows [OF Cons.prems(1) a] grows_trans show ?case
    by (auto intro: grows_trans)
qed simp

lemma remove_timers_ok:
  assumes "wheel_ok w"
  shows "wheel_ok (remove_timers l w)" "grows w (remove_timers l w)"
    "in_use (remove_timers l w) b \<longleftrightarrow> in_use w b \<and> b \<notin> set (tw_lists w l)"
proof -
  have "\<forall>a \<in> set (tw_lists w l). tw_heap w a \<noteq> None" using listed_heap [OF assms] in_use_heap by blast
  from marks_ok [OF assms this] show "wheel_ok (remove_timers l w)" "grows w (remove_timers l w)"
    "in_use (remove_timers l w) b \<longleftrightarrow> in_use w b \<and> b \<notin> set (tw_lists w l)" by (simp_all add: remove_timers_def)
qed

lemma cb_step_ok:
  assumes "cb_step w w'" and "wheel_ok w"
  shows "wheel_ok w' \<and> grows w w'"
  using assms
proof (cases rule: cb_step.cases)
  case (cb_add a func expire l owner data)
  obtain tid where e: "add_timer_event a l func owner data expire w = (w', tid)" using cb_add(1) by (metis prod.collapse)
  note A = add_event_ok [OF assms(2) cb_add(2,3,4) e]
  have ne: "b \<noteq> a" if "tw_heap w b \<noteq> None" for b using that cb_add(2) by auto
  have "tw_heap w' b \<noteq> None \<and> expiry w' b = expiry w b" if "tw_heap w b \<noteq> None" for b
    using A(3) [OF ne [OF that]] that by simp
  moreover have "in_use w b \<or> tw_now w < expiry w' b" if "in_use w' b" for b using that A(2) [of b] A(4) cb_add(5) by auto
  moreover have "\<exists>xs. vec_at w' 0 = vec_at w 0 @ xs" using A(5) [of 0] by auto
  ultimately show ?thesis using A(1,6) by (simp add: grows_def)
next
  case cb_remove
  then show ?thesis using remove_timer_ok [OF assms(2)] by simp
next
  case cb_remove_all
  then show ?thesis using remove_timers_ok [OF assms(2)] by simp
next
  case (cb_rest x)
  have "wheel_ok w'" using assms(2) unfolding cb_rest by simp
  then show ?thesis by (simp add: cb_rest grows_def in_use_def)
qed

lemma cb_steps_ok: "cb_step\<^sup>*\<^sup>* w w' \<Longrightarrow> wheel_ok w \<Longrightarrow> wheel_ok w' \<and> grows w w'"
  by (induction rule: rtranclp_induct) (auto dest: cb_step_ok intro: grows_trans)

section \<open>Timers that expire soon\<close>

text \<open>\<open>soon d w\<close>: every timer in use that expires within \<open>d\<close> seconds is in the first list.\<close>

definition soon :: "int \<Rightarrow> 'a timers_scheme \<Rightarrow> bool" where
  "soon d w \<longleftrightarrow> (\<forall>a. in_use w a \<and> expiry w a \<le> tw_now w + d \<longrightarrow> a \<in> set (vec_at w 0))"

definition clock_ok :: "'a timers_scheme \<Rightarrow> bool" where
  "clock_ok w \<longleftrightarrow> 0 \<le> tw_now w \<and> tw_now w < 2147483648"

lemma shape_0: "vec_shape w \<Longrightarrow> tv_expire (tw_vec w ! 0) = 4"
  by (simp add: vec_shape_def)

lemma near_idx: "vec_shape w \<Longrightarrow> d \<le> 4 \<Longrightarrow> first_idx d (tw_vec w) = 0"
  using first_idx_0 [of "tw_vec w" d] by (simp add: vec_shape_def)

lemma add_soon:
  assumes ok: "wheel_ok w" "clock_ok w" "soon 1 w" and a: "tw_heap w a = None" "func \<noteq> 0" "0 < expire"
  shows "soon 1 (fst (add_timer_event a l func owner data expire w))"
proof -
  obtain w' tid where e: "add_timer_event a l func owner data expire w = (w', tid)" by fastforce
  note A = add_event_ok [OF ok(1) a e]
  have "b \<in> set (vec_at w' 0)" if b: "in_use w' b" "expiry w' b \<le> tw_now w + 1" for b
  proof (cases "b = a")
    case True
    then have le: "expire \<le> tw_now w + 1" using b(2) A(4) by simp
    then have "wrap32 (expire - tw_now w) = expire - tw_now w" using ok(2) a(3) by (intro wrap32_id) (simp add: in_int32_def clock_ok_def)
    then have "first_idx (wrap32 (expire - tw_now w)) (tw_vec w) = 0" using le near_idx [OF wheel_okD(1) [OF ok(1)]] by simp
    then show ?thesis using A(5) [of 0] True by simp
  next
    case False
    then have "b \<in> set (vec_at w 0)" using b A(2,3) [of b] ok(3) by (simp add: soon_def)
    then show ?thesis using A(5) [of 0] by simp
  qed
  then show ?thesis using A(6) by (simp add: soon_def e)
qed

lemma mod_soon:
  assumes ok: "wheel_ok w" "soon 1 w" and a: "in_use w a" "0 < e"
  shows "soon 1 (do_mod_expire_time a e w)" "tw_now (do_mod_expire_time a e w) = tw_now w"
proof -
  note D = wheel_okD [OF ok(1)]
  let ?i = "first_idx (e - tw_now w) (tw_vec w)"
  let ?w = "do_mod_expire_time a e w"
  have i: "?i < 5" using idx_less [OF D(1)] .
  have v: "vec_at ?w 0 = (if 0 = ?i then remove1 a (vec_at w 0) @ [a] else remove1 a (vec_at w 0))"
    unfolding mod_is_link using D(5) i by simp
  have h: "tw_heap ?w b = (if b = a then Some ((timer_at w a)\<lparr>tm_expire := e\<rparr>) else tw_heap w b)" for b
    unfolding mod_is_link by simp
  show n: "tw_now ?w = tw_now w" unfolding mod_is_link by simp
  have "b \<in> set (vec_at ?w 0)" if b: "in_use ?w b" "expiry ?w b \<le> tw_now w + 1" for b
  proof (cases "b = a")
    case True
    then have "e - tw_now w \<le> 4" using b(2) h [of b] by simp
    then show ?thesis using near_idx [OF D(1)] v True by simp
  next
    case False
    then have "in_use w b" "expiry w b \<le> tw_now w + 1" using b h [of b] by (auto simp: in_use_def)
    then have "b \<in> set (vec_at w 0)" using ok(2) by (simp add: soon_def)
    then show ?thesis using v False by simp
  qed
  then show "soon 1 ?w" using n by (simp add: soon_def)
qed

lemma grows_soon:
  assumes g: "grows w w'" and n: "soon 0 w"
  shows "soon 0 w'"
proof -
  have "b \<in> set (vec_at w' 0)" if "in_use w' b" "expiry w' b \<le> tw_now w" for b
  proof -
    have "in_use w b" using g that by (auto simp: grows_def)
    moreover have "expiry w b \<le> tw_now w" using g in_use_heap [OF \<open>in_use w b\<close>] that(2) by (simp add: grows_def)
    ultimately have "b \<in> set (vec_at w 0)" using n by (simp add: soon_def)
    then show ?thesis using g by (auto simp: grows_def)
  qed
  then show ?thesis using g by (simp add: soon_def grows_def)
qed

lemma cb_step_soon:
  assumes c: "cb_step w w'" and w: "wheel_ok w" "clock_ok w" "soon 1 w"
  shows "soon 1 w'"
  using c
proof (cases rule: cb_step.cases)
  case (cb_add a func expire l owner data)
  then show ?thesis using add_soon [OF w] by simp
next
  case (cb_remove l tid)
  have "grows w w'" "in_use w' b \<Longrightarrow> in_use w b" for b using remove_timer_ok [OF w(1)] cb_remove by auto
  then show ?thesis using w(3) in_use_heap unfolding soon_def grows_def by fastforce
next
  case (cb_remove_all l)
  have "grows w w'" "in_use w' b \<Longrightarrow> in_use w b" for b using remove_timers_ok [OF w(1)] cb_remove_all by auto
  then show ?thesis using w(3) in_use_heap unfolding soon_def grows_def by fastforce
next
  case (cb_rest x)
  then show ?thesis using w(3) by (simp add: soon_def)
qed

lemma game_step_ok:
  assumes "game_step w w'" and w: "wheel_ok w" "clock_ok w" "soon 1 w"
  shows "wheel_ok w' \<and> clock_ok w' \<and> soon 1 w' \<and> tw_now w' = tw_now w"
  using assms(1)
proof (cases rule: game_step.cases)
  case game_cb
  then have "tw_now w' = tw_now w" using cb_step_ok [OF game_cb w(1)] by (simp add: grows_def)
  with game_cb show ?thesis using cb_step_ok [OF game_cb w(1)] cb_step_soon [OF game_cb w] w(2) by (simp add: clock_ok_def)
next
  case (game_add a func expire l owner data)
  obtain tid where e: "add_timer_event a l func owner data expire w = (w', tid)" using game_add(1) by (metis prod.collapse)
  show ?thesis using add_event_ok(1,6) [OF w(1) game_add(2-4) e] add_soon [OF w game_add(2-4), of l owner data] w(2)
    by (simp add: e clock_ok_def)
next
  case (game_mod expire l tid)
  have "in_use w a" if "find_timer_id l tid w = Some a" for a by (rule listed_heap [OF w(1) found_listed(1) [OF that]])
  with do_mod_ok [OF w(1) _ game_mod(2)] mod_soon [OF w(1,3) _ game_mod(2)] game_mod(1) w show ?thesis
    by (auto simp: mod_expire_time_def clock_ok_def split: option.splits)
next
  case (game_op expire l func flag)
  have "in_use w a" if "find_timer l func w = Some a" for a by (rule listed_heap [OF w(1) found_listed(2) [OF that]])
  with do_mod_ok [OF w(1) _ game_op(2)] mod_soon [OF w(1,3) _ game_op(2)] game_op(1) w show ?thesis
    by (auto simp: op_timer_event_def clock_ok_def split: option.splits)
qed

lemma game_steps_ok:
  "game_step\<^sup>*\<^sup>* w w' \<Longrightarrow> wheel_ok w \<Longrightarrow> clock_ok w \<Longrightarrow> soon 1 w \<Longrightarrow> wheel_ok w' \<and> clock_ok w' \<and> soon 1 w' \<and> tw_now w' = tw_now w"
  by (induction rule: rtranclp_induct) (auto dest: game_step_ok)

section \<open>The lists of timers that expire later\<close>

definition same_use :: "'a timers_scheme \<Rightarrow> 'a timers_scheme \<Rightarrow> bool" where
  "same_use w w' \<longleftrightarrow> tw_now w' = tw_now w \<and> timers.more w' = timers.more w \<and> tw_lists w' = tw_lists w \<and> tw_baseid w' = tw_baseid w \<and>
     (\<forall>a. in_use w' a = in_use w a \<and> (in_use w a \<longrightarrow> tw_heap w' a = tw_heap w a))"

lemma same_use_refl [simp]: "same_use w w"
  by (simp add: same_use_def)

lemma same_use_trans: "same_use w1 w2 \<Longrightarrow> same_use w2 w3 \<Longrightarrow> same_use w1 w3"
  by (simp add: same_use_def)

lemma free_dead:
  assumes "wheel_ok w" and "tw_heap w a \<noteq> None" and "\<not> in_use w a"
  shows "same_use w (do_remove_timer a True w)"
proof -
  note R = remove_free [OF assms(1,2)]
  have "a \<notin> set (tw_lists w l)" for l using listed_heap [OF assms(1)] assms(3) by blast
  then have "tw_lists (do_remove_timer a True w) = tw_lists w" using R(10) by (simp add: fun_eq_iff remove1_idem)
  moreover have "in_use (do_remove_timer a True w) b = in_use w b \<and> (in_use w b \<longrightarrow> tw_heap (do_remove_timer a True w) b = tw_heap w b)" for b
    using R(2) [of b] R(3) [of b] assms(3) by auto
  ultimately show ?thesis using R(6,7,9) by (simp add: same_use_def)
qed

definition far_list :: "nat \<Rightarrow> 'a timers_scheme \<Rightarrow> bool" where
  "far_list j w \<longleftrightarrow> (\<forall>b \<in> set (vec_at w j). in_use w b \<longrightarrow> tw_now w + 1 < expiry w b)"

lemma find_min_idx_gt: "find_min_idx vec d k = Suc i \<Longrightarrow> tv_expire (vec ! i) < d"
  by (induction k) (auto split: if_splits)

lemma shape_ge: "vec_shape w \<Longrightarrow> i < 5 \<Longrightarrow> 4 \<le> tv_expire (tw_vec w ! i)"
  by (simp add: vec_shape_def)

lemma scan_entry:
  assumes ok: "wheel_ok w" and idx: "1 \<le> idx" "idx < 5" and a: "a \<in> set (vec_at w idx)"
    and r: "scan_timer_entry idx a (w, m) = (w', m')"
  shows "wheel_ok w'" "same_use w w'" "set (vec_at w' idx) \<subseteq> set (vec_at w idx)"
    "a \<in> set (vec_at w' idx) \<Longrightarrow> in_use w a \<and> m' \<noteq> 0 \<and> m' \<le> expiry w a \<and> tw_now w + 1 < expiry w a"
    "0 < m \<Longrightarrow> 0 < m' \<and> m' \<le> m" "0 \<le> m \<Longrightarrow> 0 \<le> m'" "set (vec_at w idx) - {a} \<subseteq> set (vec_at w' idx)"
    "\<And>j. 1 \<le> j \<Longrightarrow> j < 5 \<Longrightarrow> far_list j w \<Longrightarrow> far_list j w'"
proof -
  note D = wheel_okD [OF ok]
  have h: "tw_heap w a \<noteq> None" using vec_disjointD(3) [OF D(2), of a] a idx by blast
  let ?i = "find_min_idx (tw_vec w) (expiry w a - tw_now w) idx"
  consider (dead) "\<not> in_use w a" | (move) "in_use w a" "?i \<noteq> idx" | (stay) "in_use w a" "?i = idx" by blast
  then have "wheel_ok w' \<and> same_use w w' \<and> set (vec_at w' idx) \<subseteq> set (vec_at w idx) \<and>
    (a \<in> set (vec_at w' idx) \<longrightarrow> in_use w a \<and> m' \<noteq> 0 \<and> m' \<le> expiry w a \<and> tw_now w + 1 < expiry w a) \<and>
    (0 < m \<longrightarrow> 0 < m' \<and> m' \<le> m) \<and> (0 \<le> m \<longrightarrow> 0 \<le> m') \<and> set (vec_at w idx) - {a} \<subseteq> set (vec_at w' idx) \<and>
    (\<forall>j. 1 \<le> j \<and> j < 5 \<and> far_list j w \<longrightarrow> far_list j w')"
  proof cases
    case dead
    then have w': "w' = do_remove_timer a True w" "m' = m" using r h by (auto simp: scan_timer_entry_def in_use_at)
    note R = remove_free [OF ok h]
    have v: "set (vec_at w' j) = set (vec_at w j) - {a}" if "j < 5" for j
      using R(5) [OF that] vec_disjointD(1) [OF D(2) that] by (simp add: w' set_remove1_eq)
    have s: "same_use w w'" using free_dead [OF ok h dead] w' by simp
    then have "far_list j w \<Longrightarrow> far_list j w'" if "j < 5" for j
      using v [OF that] by (auto simp: far_list_def same_use_def)
    then show ?thesis using R(1) s v [OF idx(2)] w' by auto
  next
    case move
    let ?w = "entry_del a w"
    have i: "?i < idx" using find_min_idx_le [of "tw_vec w" "expiry w a - tw_now w" idx] move(2) by simp
    have w': "w' = link a ?i ?w" "m' = m" using r move by (auto simp: scan_timer_entry_def in_use_at link_def Let_def)
    have wo: "wheel_without a ?w" by (rule unlink_ok [OF ok h])
    have "wheel_ok w'" unfolding w' using wo i idx move(1) by (intro link_ok) (auto simp: in_use_def)
    moreover have s: "same_use w w'" by (simp add: w' same_use_def in_use_def)
    moreover have v: "set (vec_at w' j) = (if j = ?i then insert a (set (vec_at w j)) else set (vec_at w j) - {a})" if "j < 5" for j
      using that i idx D(5) vec_disjointD(1) [OF D(2) that] by (auto simp: w' set_remove1_eq)
    moreover have "far_list j w'" if j: "1 \<le> j" "j < 5" "far_list j w" for j
    proof -
      have "tw_now w + 1 < expiry w a" if "j = ?i"
      proof -
        have "?i \<noteq> 0" using j(1) that by simp
        then obtain k where k: "?i = Suc k" by (metis not0_implies_Suc)
        have "k < 5" using k i idx by simp
        from find_min_idx_gt [OF k] shape_ge [OF D(1) this] show ?thesis by simp
      qed
      then show ?thesis using v [OF j(2)] j(3) s by (auto simp: far_list_def same_use_def split: if_splits)
    qed
    ultimately show ?thesis using v [OF idx(2)] i w'(2) by auto
  next
    case stay
    then have w': "w' = w" "m' = (if expiry w a < m \<or> m = 0 then expiry w a else m)"
      using r by (auto simp: scan_timer_entry_def in_use_at Let_def split: if_splits)
    have pos: "0 < expiry w a" by (rule mins_okD(1) [OF D(4) stay(1)])
    obtain k where k: "idx = Suc k" using idx by (cases idx) auto
    have "find_min_idx (tw_vec w) (expiry w a - tw_now w) (Suc k) = Suc k" using stay(2) unfolding k .
    from find_min_idx_gt [OF this] shape_ge [OF D(1), of k] idx k have "4 < expiry w a - tw_now w" by linarith
    then show ?thesis using ok stay(1) pos by (auto simp: w')
  qed
  then show "wheel_ok w'" "same_use w w'" "set (vec_at w' idx) \<subseteq> set (vec_at w idx)"
    "a \<in> set (vec_at w' idx) \<Longrightarrow> in_use w a \<and> m' \<noteq> 0 \<and> m' \<le> expiry w a \<and> tw_now w + 1 < expiry w a"
    "0 < m \<Longrightarrow> 0 < m' \<and> m' \<le> m" "0 \<le> m \<Longrightarrow> 0 \<le> m'" "set (vec_at w idx) - {a} \<subseteq> set (vec_at w' idx)"
    "\<And>j. 1 \<le> j \<Longrightarrow> j < 5 \<Longrightarrow> far_list j w \<Longrightarrow> far_list j w'"
    by blast+
qed

lemma scan_entries:
  assumes "wheel_ok w" and idx: "1 \<le> idx" "idx < 5" and "distinct as" and "set as \<subseteq> set (vec_at w idx)" and "0 \<le> m"
    and "\<forall>b \<in> set (vec_at w idx) - set as. in_use w b \<longrightarrow> m \<noteq> 0 \<and> m \<le> expiry w b \<and> tw_now w + 1 < expiry w b"
    and "fold (scan_timer_entry idx) as (w, m) = (w', m')"
  shows "wheel_ok w' \<and> same_use w w' \<and>
    (\<forall>b \<in> set (vec_at w' idx). in_use w' b \<longrightarrow> m' \<noteq> 0 \<and> m' \<le> expiry w' b \<and> tw_now w' + 1 < expiry w' b) \<and>
    (\<forall>j. 1 \<le> j \<and> j < 5 \<and> far_list j w \<longrightarrow> far_list j w')"
  using assms(1,4-)
proof (induction as arbitrary: w m)
  case Nil
  then show ?case by auto
next
  case (Cons a as)
  obtain w1 m1 where e: "scan_timer_entry idx a (w, m) = (w1, m1)" by fastforce
  have a: "a \<in> set (vec_at w idx)" using Cons.prems by simp
  note S = scan_entry [OF Cons.prems(1) idx a e]
  have f: "fold (scan_timer_entry idx) as (w1, m1) = (w', m')" using Cons.prems(6) e by simp
  have sub: "set as \<subseteq> set (vec_at w1 idx)" using Cons.prems(2,3) S(7) by auto
  have "m1 \<noteq> 0 \<and> m1 \<le> expiry w1 b \<and> tw_now w1 + 1 < expiry w1 b"
    if b: "b \<in> set (vec_at w1 idx) - set as" "in_use w1 b" for b
  proof -
    have u: "in_use w b" "tw_heap w1 b = tw_heap w b" "tw_now w1 = tw_now w" using S(2) b(2) by (auto simp: same_use_def)
    show ?thesis
    proof (cases "b = a")
      case True
      with S(4) b(1) u show ?thesis by simp
    next
      case False
      then have "m \<noteq> 0 \<and> m \<le> expiry w b \<and> tw_now w + 1 < expiry w b" using Cons.prems(5) b S(3) u(1) by auto
      then show ?thesis using S(5) Cons.prems(4) u by auto
    qed
  qed
  with Cons.IH [OF S(1) _ sub _ _ f] Cons.prems(2,4) S(6)
  have I: "wheel_ok w' \<and> same_use w1 w' \<and>
    (\<forall>b \<in> set (vec_at w' idx). in_use w' b \<longrightarrow> m' \<noteq> 0 \<and> m' \<le> expiry w' b \<and> tw_now w' + 1 < expiry w' b) \<and>
    (\<forall>j. 1 \<le> j \<and> j < 5 \<and> far_list j w1 \<longrightarrow> far_list j w')" by auto
  then show ?case using same_use_trans [OF S(2)] S(8) by blast
qed

lemma scan_list_ok:
  assumes ok: "wheel_ok w" and idx: "1 \<le> idx" "idx < 5"
  shows "wheel_ok (scan_timer_list idx w)" "same_use w (scan_timer_list idx w)" "far_list idx (scan_timer_list idx w)"
    "\<And>j. 1 \<le> j \<Longrightarrow> j < 5 \<Longrightarrow> far_list j w \<Longrightarrow> far_list j (scan_timer_list idx w)"
proof -
  obtain w1 m where f: "fold (scan_timer_entry idx) (vec_at w idx) (w, 0) = (w1, m)" by fastforce
  let ?w = "w1\<lparr>tw_vec := (tw_vec w1)[idx := (tw_vec w1 ! idx)\<lparr>tv_min := m\<rparr>]\<rparr>"
  have e: "scan_timer_list idx w = ?w" by (simp add: scan_timer_list_def f)
  have "distinct (vec_at w idx)" by (rule vec_disjointD(1) [OF wheel_okD(2) [OF ok] idx(2)])
  from scan_entries [OF ok idx this _ _ _ f]
  have S: "wheel_ok w1" "same_use w w1"
    "\<And>b. b \<in> set (vec_at w1 idx) \<Longrightarrow> in_use w1 b \<Longrightarrow> m \<noteq> 0 \<and> m \<le> expiry w1 b \<and> tw_now w1 + 1 < expiry w1 b"
    "\<And>j. 1 \<le> j \<Longrightarrow> j < 5 \<Longrightarrow> far_list j w \<Longrightarrow> far_list j w1" by auto
  have v: "vec_at ?w j = vec_at w1 j" for j by (simp add: nth_upd)
  have u: "in_use ?w b = in_use w1 b" for b by (simp add: in_use_def)
  have x: "tv_expire (tw_vec ?w ! j) = tv_expire (tw_vec w1 ! j)" for j by (simp add: nth_upd)
  note D = wheel_okD [OF S(1)]
  have "mins_ok ?w"
  proof (rule mins_okI)
    show "0 < expiry ?w b" if "in_use ?w b" for b using mins_okD(1) [OF D(4), of b] that by (simp add: u)
    show "tv_min (tw_vec ?w ! i) \<noteq> 0 \<and> tv_min (tw_vec ?w ! i) \<le> expiry ?w b"
      if "1 \<le> i" "i < 5" "b \<in> set (vec_at ?w i)" "in_use ?w b" for i b
      using mins_okD(2) [OF D(4) that(1,2), of b] S(3) [of b] that(3,4) D(5) unfolding u v
      by (cases "i = idx") (auto simp: nth_upd)
  qed
  moreover have "vec_shape ?w" using D(1) unfolding vec_shape_def x by simp
  moreover have "vec_disjoint ?w" using D(2) unfolding vec_disjoint_def v by simp
  moreover have "lists_ok ?w" using D(3) by (simp add: lists_ok_def)
  ultimately show "wheel_ok (scan_timer_list idx w)" by (simp add: e wheel_ok_def)
  show "same_use w (scan_timer_list idx w)" using S(2) by (simp add: e same_use_def u)
  have fl: "far_list j ?w = far_list j w1" for j unfolding far_list_def u v by simp
  show "far_list idx (scan_timer_list idx w)" using S(3) unfolding e fl by (simp add: far_list_def)
  show "far_list j (scan_timer_list idx w)" if "1 \<le> j" "j < 5" "far_list j w" for j using S(4) that unfolding e fl by simp
qed

lemma far_scan_ok:
  assumes ok: "wheel_ok w"
  shows "wheel_ok (scan_far_lists w)" "same_use w (scan_far_lists w)" "soon 1 (scan_far_lists w)"
proof -
  define step where "step = (\<lambda>i (w::'a timers_scheme). if tv_min (tw_vec w ! i) - tw_now w < 2 then scan_timer_list i w else w)"
  have S: "wheel_ok (step i v) \<and> same_use v (step i v) \<and> far_list i (step i v) \<and>
      (\<forall>j. 1 \<le> j \<and> j < 5 \<and> far_list j v \<longrightarrow> far_list j (step i v))" if "wheel_ok v" "1 \<le> i" "i < 5" for i v
  proof (cases "tv_min (tw_vec v ! i) - tw_now v < 2")
    case True
    then show ?thesis using scan_list_ok [OF that] by (simp add: step_def)
  next
    case False
    then have "far_list i v" using mins_okD(2) [OF wheel_okD(4) [OF that(1)] that(2,3)] by (fastforce simp: far_list_def)
    with False that(1) show ?thesis by (simp add: step_def)
  qed
  let ?w1 = "step 1 w" let ?w2 = "step 2 ?w1" let ?w3 = "step 3 ?w2" let ?w4 = "step 4 ?w3"
  have r: "scan_far_lists w = ?w4" by (simp add: scan_far_lists_def step_def)
  have 1: "wheel_ok ?w1" "same_use w ?w1" "far_list 1 ?w1" using S [OF ok, of 1] by auto
  have 2: "wheel_ok ?w2" "same_use ?w1 ?w2" "far_list 1 ?w2" "far_list 2 ?w2" using S [OF 1(1), of 2] 1 by auto
  have 3: "wheel_ok ?w3" "same_use ?w2 ?w3" "far_list 1 ?w3" "far_list 2 ?w3" "far_list 3 ?w3" using S [OF 2(1), of 3] 2 by auto
  have 4: "wheel_ok ?w4" "same_use ?w3 ?w4" "far_list 1 ?w4" "far_list 2 ?w4" "far_list 3 ?w4" "far_list 4 ?w4"
    using S [OF 3(1), of 4] 3 by auto
  show "wheel_ok (scan_far_lists w)" using 4(1) r by simp
  show "same_use w (scan_far_lists w)" unfolding r
    by (rule same_use_trans [OF same_use_trans [OF same_use_trans [OF 1(2) 2(2)] 3(2)] 4(2)])
  have "b \<in> set (vec_at ?w4 0)" if b: "in_use ?w4 b" "expiry ?w4 b \<le> tw_now ?w4 + 1" for b
  proof -
    obtain i where i: "i < 5" "b \<in> set (vec_at ?w4 i)"
      using vec_disjointD(3) [OF wheel_okD(2) [OF 4(1)], of b] in_use_heap [OF b(1)] by blast
    have "\<not> (1 \<le> i \<and> far_list i ?w4)" using b i(2) by (auto simp: far_list_def)
    moreover have "i = 0 \<or> i = 1 \<or> i = 2 \<or> i = 3 \<or> i = 4" using i(1) by linarith
    ultimately have "i = 0" using 4(3-6) by (elim disjE) simp_all
    with i show ?thesis by simp
  qed
  then show "soon 1 (scan_far_lists w)" unfolding r soon_def by simp
qed

section \<open>The loop over the first list\<close>

lemma next_in_skip: "x \<noteq> a \<Longrightarrow> next_entry (x # xs) a = next_entry xs a"
  by (cases xs) auto

lemma next_in_split: "distinct (xs @ a # ys) \<Longrightarrow> next_entry (xs @ a # ys) a = (case ys of [] \<Rightarrow> None | y # _ \<Rightarrow> Some y)"
  by (induction xs) (auto simp: next_in_skip split: list.split)

abbreviation first_of :: "'a list \<Rightarrow> 'a option" where
  "first_of xs \<equiv> (case xs of [] \<Rightarrow> None | x # _ \<Rightarrow> Some x)"

abbreviation due :: "'a timers_scheme \<Rightarrow> nat \<Rightarrow> bool" where
  "due w a \<equiv> in_use w a \<and> expiry w a \<le> tw_now w"

text \<open>
  What a scan relies on: a call of a timer in use that has expired returns, having done only what
  \<open>cb_step\<close> allows, and the timer is no longer due; \<open>inv\<close> is the client's own invariant, which does
  not depend on timers that are no longer in use.
\<close>

locale timer_client =
  fixes cb :: "'a timer_cb" and inv :: "'a timers_scheme \<Rightarrow> bool"
  assumes cb_law: "inv w \<Longrightarrow> wheel_ok w \<Longrightarrow> tw_heap w a = Some t \<Longrightarrow> tm_function t \<noteq> 0 \<Longrightarrow> tm_expire t \<le> tw_now w \<Longrightarrow>
      \<exists>w' rv. cb (tm_function t) (tm_owner t) (tm_data t) w = Some (w', rv) \<and> cb_step\<^sup>*\<^sup>* w w' \<and>
        inv (if rv = 0 then do_remove_timer a True w' else w') \<and> (rv \<noteq> 0 \<longrightarrow> \<not> due w' a)"
    and inv_same: "inv w \<Longrightarrow> same_use w w' \<Longrightarrow> inv w'"
    and inv_clock: "inv w \<Longrightarrow> tw_now w \<le> n \<Longrightarrow> inv (w\<lparr>tw_now := n\<rparr>)"

context timer_client begin

lemma loop_spec:
  assumes "inv w" and "wheel_ok w" and "soon 0 w" and "vec_at w 0 = pre @ suf"
  shows "\<exists>w' cs suf'. seconds_loop cb (first_of suf) w called = Some (w', called @ cs) \<and> wheel_ok w' \<and> inv w' \<and>
    tw_now w' = tw_now w \<and> vec_at w' 0 = pre @ suf' \<and> distinct cs \<and> (\<forall>b \<in> set cs. b \<notin> set pre \<and> due w b) \<and>
    (\<forall>b \<in> set pre. expiry w' b = expiry w b \<and> (in_use w' b \<longrightarrow> in_use w b \<or> tw_now w < expiry w b)) \<and>
    (\<forall>b \<in> set suf'. \<not> due w' b) \<and> soon 0 w'"
  using assms
proof (induction "(w, suf)" arbitrary: w suf pre called
    rule: wf_induct_rule [OF wf_measures [of "[\<lambda>(w, suf). length (filter (due w) suf), \<lambda>(w, suf). length suf]"]])
  case 1
  note IH = "1.hyps" and inv = "1.prems"(1) and ok = "1.prems"(2) and sn = "1.prems"(3) and v = "1.prems"(4)
  show ?case
  proof (cases suf)
    case Nil
    then show ?thesis using inv ok v sn by (subst seconds_loop.simps) auto
  next
    case (Cons a rest)
    have d: "distinct (pre @ a # rest)" using vec_disjointD(1) [OF wheel_okD(2) [OF ok], of 0] v Cons by simp
    have h: "tw_heap w a \<noteq> None" using vec_disjointD(3) [OF wheel_okD(2) [OF ok], of a] v Cons by (metis in_set_conv_decomp zero_less_numeral)
    then obtain t where t: "tw_heap w a = Some t" by auto
    have nx: "next_entry (vec_at w 0) a = first_of rest" using next_in_split [OF d] v Cons by simp
    have L: "seconds_loop cb (first_of suf) w called =
      (if tm_function t = 0 then seconds_loop cb (first_of rest) (do_remove_timer a True w) called
       else if tm_expire t \<le> tw_now w then
         case cb (tm_function t) (tm_owner t) (tm_data t) w of
           None \<Rightarrow> None
         | Some (w1, rv) \<Rightarrow> seconds_loop cb (first_of rest) (if rv = 0 then do_remove_timer a True w1 else w1) (called @ [a])
       else seconds_loop cb (first_of rest) w called)"
      using v Cons nx t by (subst seconds_loop.simps) (simp add: Let_def)
    consider (dead) "tm_function t = 0" | (call) "tm_function t \<noteq> 0" "tm_expire t \<le> tw_now w"
      | (wait) "tm_function t \<noteq> 0" "tw_now w < tm_expire t" by linarith
    then show ?thesis
    proof cases
      case dead
      let ?w = "do_remove_timer a True w"
      have nu: "\<not> in_use w a" using dead t by (simp add: in_use_def)
      note R = remove_free [OF ok h]
      have s: "same_use w ?w" by (rule free_dead [OF ok h nu])
      have v1: "vec_at ?w 0 = pre @ rest" using R(5) [of 0] v Cons d by (simp add: remove1_append)
      have u: "in_use ?w b = in_use w b" "in_use w b \<Longrightarrow> expiry ?w b = expiry w b" for b using s by (auto simp: same_use_def)
      have du1: "due ?w b = due w b" for b using u R(6) by auto
      then have du: "due ?w = due w" by blast
      have m: "((?w, rest), (w, suf)) \<in> measures [\<lambda>(w, suf). length (filter (due w) suf), \<lambda>(w, suf). length suf]"
        using nu unfolding Cons by (simp add: du)
      have sn1: "soon 0 ?w" using s sn v v1 Cons nu by (auto simp: soon_def same_use_def)
      from IH [OF m inv_same [OF inv s] R(1) sn1 v1, of called] obtain w' cs suf' where
        I: "seconds_loop cb (first_of rest) ?w called = Some (w', called @ cs)" "wheel_ok w'" "inv w'"
        "tw_now w' = tw_now ?w" "vec_at w' 0 = pre @ suf'" "distinct cs" "\<forall>b \<in> set cs. b \<notin> set pre \<and> due ?w b"
        "\<forall>b \<in> set pre. expiry w' b = expiry ?w b \<and> (in_use w' b \<longrightarrow> in_use ?w b \<or> tw_now ?w < expiry ?w b)"
        "\<forall>b \<in> set suf'. \<not> due w' b" "soon 0 w'"
        by blast
      have hp: "tw_heap ?w b = tw_heap w b" if "b \<in> set pre" for b
      proof -
        have "b \<noteq> a" using d that by auto
        then show ?thesis by (rule R(3))
      qed
      have c: "\<forall>b \<in> set cs. b \<notin> set pre \<and> due w b" using I(7) du1 by blast
      show ?thesis unfolding L using dead I(1-3,5,6,9) I(4,8,10) R(6) c hp u(1)
        by (intro exI [of _ w'] exI [of _ cs] exI [of _ suf']) auto
    next
      case wait
      have v1: "vec_at w 0 = (pre @ [a]) @ rest" using v Cons by simp
      have m: "((w, rest), (w, suf)) \<in> measures [\<lambda>(w, suf). length (filter (due w) suf), \<lambda>(w, suf). length suf]"
        unfolding Cons by simp
      from IH [OF m inv ok sn v1, of called] obtain w' cs suf' where
        I: "seconds_loop cb (first_of rest) w called = Some (w', called @ cs)" "wheel_ok w'" "inv w'"
        "tw_now w' = tw_now w" "vec_at w' 0 = (pre @ [a]) @ suf'" "distinct cs" "\<forall>b \<in> set cs. b \<notin> set (pre @ [a]) \<and> due w b"
        "\<forall>b \<in> set (pre @ [a]). expiry w' b = expiry w b \<and> (in_use w' b \<longrightarrow> in_use w b \<or> tw_now w < expiry w b)"
        "\<forall>b \<in> set suf'. \<not> due w' b" "soon 0 w'"
        by blast
      have "\<not> due w' a" using I(4,8) wait t by auto
      then show ?thesis unfolding L using wait I
        by (intro exI [of _ w'] exI [of _ cs] exI [of _ "a # suf'"]) auto
    next
      case call
      obtain w1 rv where c: "cb (tm_function t) (tm_owner t) (tm_data t) w = Some (w1, rv)" "cb_step\<^sup>*\<^sup>* w w1"
        "inv (if rv = 0 then do_remove_timer a True w1 else w1)" "rv \<noteq> 0 \<longrightarrow> \<not> due w1 a"
        using cb_law [OF inv ok t call] by blast
      have g: "wheel_ok w1" "grows w w1" using cb_steps_ok [OF c(2) ok] by auto
      obtain xs where xs: "vec_at w1 0 = pre @ a # rest @ xs" using g(2) v Cons by (auto simp: grows_def)
      have h1: "tw_heap w1 a \<noteq> None" using g(2) h by (simp add: grows_def)
      have d1: "distinct (pre @ a # rest @ xs)" using vec_disjointD(1) [OF wheel_okD(2) [OF g(1)], of 0] xs by simp
      define w2 where "w2 = (if rv = 0 then do_remove_timer a True w1 else w1)"
      define pre2 where "pre2 = (if rv = 0 then pre else pre @ [a])"
      note R = remove_free [OF g(1) h1]
      have n2: "tw_now w2 = tw_now w" using R(6) g(2) by (simp add: w2_def grows_def)
      have ok2: "wheel_ok w2" using R(1) g(1) by (simp add: w2_def)
      have v2: "vec_at w2 0 = pre2 @ rest @ xs" using R(5) [of 0] xs d1 by (simp add: w2_def pre2_def remove1_append)
      have hb: "tw_heap w2 b = tw_heap w1 b" if "b \<noteq> a \<or> rv \<noteq> 0" for b using R(3) that by (auto simp: w2_def)
      have u2: "in_use w2 b \<longleftrightarrow> in_use w1 b \<and> (b = a \<longrightarrow> rv \<noteq> 0)" for b using R(2) by (auto simp: w2_def)
      have bk: "due w b" if "due w2 b" for b
      proof -
        have "in_use w1 b" "expiry w1 b \<le> tw_now w" using that u2 [of b] hb [of b] n2 by auto
        then have "in_use w b" using g(2) by (auto simp: grows_def)
        then show ?thesis using g(2) in_use_heap [OF \<open>in_use w b\<close>] \<open>expiry w1 b \<le> tw_now w\<close> by (simp add: grows_def)
      qed
      have da: "due w a" using call t by (simp add: in_use_def)
      have na: "\<not> due w2 a" using c(4) u2 [of a] hb [of a] n2 g(2) by (auto simp: grows_def)
      have new: "\<not> due w2 b" if "b \<in> set xs" for b
      proof
        assume "due w2 b"
        then have "b \<in> set (vec_at w 0)" using sn bk [of b] by (simp add: soon_def)
        then show False using d1 that v Cons by auto
      qed
      have "filter (due w2) xs = []" using new by (simp add: filter_empty_conv)
      moreover have "length (filter (due w2) rest) \<le> length (filter (due w) rest)"
        using bk by (induction rest) auto
      ultimately have m: "((w2, rest @ xs), (w, suf)) \<in> measures [\<lambda>(w, suf). length (filter (due w) suf), \<lambda>(w, suf). length suf]"
        unfolding Cons using da by simp
      have sn2: "soon 0 w2"
        using grows_soon [OF g(2) sn] u2 hb n2 g(2) v2 xs unfolding soon_def pre2_def grows_def by (auto split: if_splits)
      have kept: "expiry w2 b = expiry w b \<and> (in_use w2 b \<longrightarrow> in_use w b \<or> tw_now w < expiry w b)" if "b \<in> set pre" for b
      proof -
        have ne: "b \<noteq> a" using d that by auto
        have "tw_heap w b \<noteq> None" using vec_disjointD(3) [OF wheel_okD(2) [OF ok], of b] v that
          by (metis Un_iff set_append zero_less_numeral)
        then have "expiry w1 b = expiry w b" using g(2) by (simp add: grows_def)
        moreover have "in_use w1 b \<longrightarrow> in_use w b \<or> tw_now w < expiry w1 b" using g(2) by (simp add: grows_def)
        ultimately show ?thesis using hb [of b] u2 [of b] ne by simp
      qed
      have L2: "seconds_loop cb (first_of suf) w called = seconds_loop cb (first_of rest) w2 (called @ [a])"
        unfolding L using call c(1) by (simp add: w2_def)
      have apre: "a \<notin> set pre" using d by simp
      show ?thesis
      proof (cases rest)
        case Nil
        have "seconds_loop cb (first_of suf) w called = Some (w2, called @ [a])"
          unfolding L2 Nil by (subst seconds_loop.simps) simp
        then show ?thesis using ok2 c(3) n2 v2 Nil da apre kept new sn2 unfolding w2_def [symmetric]
          by (intro exI [of _ w2] exI [of _ "[a]"] exI [of _ "if rv = 0 then xs else a # xs"]) (use na in \<open>auto simp: pre2_def\<close>)
      next
        case (Cons r rs)
        then have fr: "first_of rest = first_of (rest @ xs)" by simp
        from IH [OF m c(3) [folded w2_def] ok2 sn2 v2, of "called @ [a]"] obtain w' cs suf' where
          I: "seconds_loop cb (first_of (rest @ xs)) w2 (called @ [a]) = Some (w', (called @ [a]) @ cs)" "wheel_ok w'" "inv w'"
          "tw_now w' = tw_now w2" "vec_at w' 0 = pre2 @ suf'" "distinct cs" "\<forall>b \<in> set cs. b \<notin> set pre2 \<and> due w2 b"
          "\<forall>b \<in> set pre2. expiry w' b = expiry w2 b \<and> (in_use w' b \<longrightarrow> in_use w2 b \<or> tw_now w2 < expiry w2 b)"
          "\<forall>b \<in> set suf'. \<not> due w' b" "soon 0 w'"
          by blast
        have ac: "a \<notin> set cs" using I(7) u2 [of a] by (auto simp: pre2_def split: if_splits)
        have aw: "rv \<noteq> 0 \<longrightarrow> \<not> due w' a" using I(4,8) na by (auto simp: pre2_def)
        have sub: "set pre \<subseteq> set pre2" by (auto simp: pre2_def)
        have p: "\<forall>b \<in> set pre. expiry w' b = expiry w b \<and> (in_use w' b \<longrightarrow> in_use w b \<or> tw_now w < expiry w b)"
          using I(8) kept sub n2 by (metis subsetD)
        have q: "\<forall>b \<in> set (a # cs). b \<notin> set pre \<and> due w b" using I(7) bk da apre sub by auto
        have e: "seconds_loop cb (first_of suf) w called = Some (w', called @ (a # cs))" using I(1) by (simp add: L2 fr)
        show ?thesis
          by (intro exI [of _ w'] exI [of _ "a # cs"] exI [of _ "if rv = 0 then suf' else a # suf'"] conjI e I(2,3,10) p q)
            (use I(4,5,6,9) n2 ac aw in \<open>auto simp: pre2_def\<close>)
      qed
    qed
  qed
qed

lemma scan_spec:
  assumes "inv w" and "wheel_ok w" and "soon 0 w"
  shows "\<exists>w' cs. scan_seconds_timer cb w = Some (w', cs) \<and> wheel_ok w' \<and> inv w' \<and> tw_now w' = tw_now w \<and> soon 1 w' \<and>
    distinct cs \<and> (\<forall>b \<in> set cs. due w b) \<and> (\<forall>b. \<not> due w' b)"
proof -
  from loop_spec [OF assms, of "[]" "vec_at w 0" "[]"] obtain w1 cs suf where
    L: "seconds_loop cb (first_of (vec_at w 0)) w [] = Some (w1, cs)" "wheel_ok w1" "inv w1" "tw_now w1 = tw_now w"
    "vec_at w1 0 = suf" "distinct cs" "\<forall>b \<in> set cs. due w b" "\<forall>b \<in> set suf. \<not> due w1 b" "soon 0 w1"
    by auto
  note F = far_scan_ok [OF L(2)]
  have "\<not> due (scan_far_lists w1) b" for b
  proof
    assume "due (scan_far_lists w1) b"
    then have d: "due w1 b" using F(2) by (auto simp: same_use_def)
    then have "b \<in> set suf" using L(5,9) by (simp add: soon_def)
    then show False using L(8) d by blast
  qed
  then show ?thesis using L F inv_same [OF L(3) F(2)]
    by (intro exI [of _ "scan_far_lists w1"] exI [of _ cs]) (auto simp: scan_seconds_timer_def same_use_def)
qed

text \<open>A second passes: what was soon is due, and nothing that is due is left.\<close>

lemma tick_spec:
  assumes "inv w" and "wheel_ok w" and "soon 1 w"
  shows "\<exists>w' cs. handle_timer cb (tw_now w + 1) (tw_now w) w = Some (w', tw_now w + 1, cs) \<and> wheel_ok w' \<and> inv w' \<and>
    tw_now w' = tw_now w + 1 \<and> soon 1 w' \<and> distinct cs \<and>
    (\<forall>b \<in> set cs. in_use w b \<and> expiry w b \<le> tw_now w + 1) \<and> (\<forall>b. in_use w' b \<longrightarrow> tw_now w + 1 < expiry w' b)"
proof -
  let ?w = "w\<lparr>tw_now := tw_now w + 1\<rparr>"
  have "wheel_ok ?w" using assms(2) by simp
  moreover have "soon 0 ?w" using assms(3) by (simp add: soon_def)
  moreover have "inv ?w" using inv_clock [OF assms(1)] by simp
  ultimately obtain w' cs where "scan_seconds_timer cb ?w = Some (w', cs)" "wheel_ok w'" "inv w'" "tw_now w' = tw_now w + 1"
    "soon 1 w'" "distinct cs" "\<forall>b \<in> set cs. in_use w b \<and> expiry w b \<le> tw_now w + 1" "\<forall>b. \<not> due w' b"
    using scan_spec [of ?w] by auto
  then show ?thesis
    by (intro exI [of _ w'] exI [of _ cs]) (auto simp: handle_timer_def not_le [symmetric])
qed

end

end
