(* ===== verification/GameGroup.thy ===== *)
theory GameGroup
  imports StdMap
begin

text \<open>
  What the board games of \<open>src/mole/gamesvr/games\<close> share: players and game groups
  (\<open>sprite.h\<close>, \<open>game.h\<close>), the checks before a handler, and what a handler sends. A sprite
  pointer is the sprite's record; the sprites of a group have different ids, so pointers are
  compared by id. \<open>p->group\<close> is the group of the game that handles \<open>p\<close>. Packets, timers, scores
  and database requests a handler gives out are the list of its \<open>game_out\<close> events in order.
\<close>

section \<open>Sprites and groups\<close>

record sprite =
  sp_id :: u32
  sp_pos_id :: u8
  sp_status :: u16

abbreviation IS_GAME_PLAYER :: "sprite \<Rightarrow> bool" where
  "IS_GAME_PLAYER p \<equiv> bit (sp_status p) 0"

abbreviation IS_GAME_WATCHER :: "sprite \<Rightarrow> bool" where
  "IS_GAME_WATCHER p \<equiv> bit (sp_status p) 1"

abbreviation IS_SPRITE_ESCAPE :: "sprite \<Rightarrow> bool" where
  "IS_SPRITE_ESCAPE p \<equiv> bit (sp_status p) 4"

record game_t =
  game_IQ :: int
  game_exp :: int
  game_yxb :: int

record game_group =
  gg_flag :: u8
  gg_players :: "sprite list"
  gg_watchers :: "sprite list"
  gg_game :: game_t

definition GAME_READY :: "game_group \<Rightarrow> bool" where
  "GAME_READY g \<longleftrightarrow> bit (gg_flag g) 0"

definition GAME_STARTED :: "game_group \<Rightarrow> bool" where
  "GAME_STARTED g \<longleftrightarrow> bit (gg_flag g) 1"

definition SET_GAME_START :: "game_group \<Rightarrow> game_group" where
  "SET_GAME_START g = g\<lparr>gg_flag := set_bit 1 (gg_flag g)\<rparr>"

lemma started_after_start [simp]: "GAME_STARTED (SET_GAME_START g)"
  by (simp add: GAME_STARTED_def SET_GAME_START_def bit_set_bit_iff)

lemma SET_GAME_START_group [simp]:
  "gg_players (SET_GAME_START g) = gg_players g" "gg_watchers (SET_GAME_START g) = gg_watchers g"
  "gg_game (SET_GAME_START g) = gg_game g"
  by (simp_all add: SET_GAME_START_def)

fun get_sprite_from_gamegrp :: "u32 \<Rightarrow> sprite list \<Rightarrow> sprite option" where
  "get_sprite_from_gamegrp uid [] = None"
| "get_sprite_from_gamegrp uid (p # ps) =
     (if sp_id p = uid then Some p else get_sprite_from_gamegrp uid ps)"

definition started_check :: "game_group \<Rightarrow> sprite \<Rightarrow> nat \<Rightarrow> nat \<Rightarrow> int" where
  "started_check g p rcvlen pkglen =
     (if rcvlen \<noteq> pkglen then -1
      else if \<not> GAME_STARTED g \<or> IS_GAME_WATCHER p then -1
      else 0)"

definition started_check_ge :: "game_group \<Rightarrow> sprite \<Rightarrow> nat \<Rightarrow> nat \<Rightarrow> int" where
  "started_check_ge g p rcvlen pkglen =
     (if rcvlen < pkglen then -1
      else if \<not> GAME_STARTED g \<or> IS_GAME_WATCHER p then -1
      else 0)"

lemma started_check_0 [simp]:
  "started_check g p n m = 0 \<longleftrightarrow> n = m \<and> GAME_STARTED g \<and> \<not> IS_GAME_WATCHER p"
  by (simp add: started_check_def)

lemma started_check_m1 [simp]:
  "started_check g p n m = -1 \<longleftrightarrow> n \<noteq> m \<or> \<not> GAME_STARTED g \<or> IS_GAME_WATCHER p"
  by (simp add: started_check_def)

lemma started_check_ge_m1 [simp]:
  "started_check_ge g p n m = -1 \<longleftrightarrow> n < m \<or> \<not> GAME_STARTED g \<or> IS_GAME_WATCHER p"
  by (simp add: started_check_ge_def)

text \<open>\<open>game_end_reason_t\<close> and the commands of \<open>proto.h\<close> the games handle.\<close>

definition proto_player_leave :: int where "proto_player_leave = 30003"
definition proto_player_req :: int where "proto_player_req = 30007"
definition proto_notify_player_req :: int where "proto_notify_player_req = 30008"
definition proto_player_action :: int where "proto_player_action = 30010"

definition GER_end_of_game :: int where "GER_end_of_game = 1"
definition GER_draw_game :: int where "GER_draw_game = 4"
definition GER_player_req_draw :: int where "GER_player_req_draw = 4"
definition GER_player_surrender :: int where "GER_player_surrender = 5"

text \<open>The fields of \<open>game_score_t\<close> the games set; the others are zero.\<close>

record game_score =
  gs_iq :: int
  gs_exp :: int
  gs_coins :: int

definition zero_score :: game_score where
  "zero_score = \<lparr>gs_iq = 0, gs_exp = 0, gs_coins = 0\<rparr>"

datatype 'pkg game_out =
    ToSelf sprite 'pkg
  | ToPlayers 'pkg
  | ToWatchers 'pkg
  | ToGroup 'pkg
  | ToOthers u32 'pkg
  | ErrorToSelf sprite int
  | DbRequest u32 int "u32 list"
  | SubmitScore sprite game_score
  | AddTimer sprite int
  | RemoveTimer sprite nat

text \<open>
  The sprites a packet goes to, as \<open>send_to_players\<close>, \<open>send_to_watchers\<close>, \<open>send_to_group\<close> and
  \<open>send_to_group_except_self\<close> loop over them.
\<close>

fun receivers :: "game_group \<Rightarrow> 'pkg game_out \<Rightarrow> sprite list" where
  "receivers g (ToSelf p x) = [p]"
| "receivers g (ToPlayers x) = gg_players g"
| "receivers g (ToWatchers x) = gg_watchers g"
| "receivers g (ToGroup x) = gg_players g @ gg_watchers g"
| "receivers g (ToOthers uid x) = filter (\<lambda>p. sp_id p \<noteq> uid) (gg_players g @ gg_watchers g)"
| "receivers g _ = []"

section \<open>Scores\<close>

text \<open>
  \<open>static_cast<int>(round(n * rate))\<close> with a \<open>float\<close> rate. A rate is its numerator over
  \<open>2 ^ 25\<close>; \<open>f32_round\<close> rounds to the 24 significant bits of a \<open>float\<close>, ties to even, and
  \<open>c_round\<close> is \<open>round\<close>, halves away from zero.
\<close>

fun bitlen :: "int \<Rightarrow> nat" where
  "bitlen n = (if n \<le> 0 then 0 else Suc (bitlen (n div 2)))"

declare bitlen.simps [simp del]

definition f32_round :: "int \<Rightarrow> int" where
  "f32_round n =
     (let a = \<bar>n\<bar>; e = bitlen a - 24; q = a div 2 ^ e; r = a mod 2 ^ e;
          q' = (if 2 * r > 2 ^ e \<or> 2 * r = 2 ^ e \<and> odd q then q + 1 else q)
      in sgn n * (q' * 2 ^ e))"

definition c_round :: "int \<Rightarrow> int" where
  "c_round x = sgn x * ((\<bar>x\<bar> + 16777216) div 33554432)"

definition rated :: "int \<Rightarrow> int \<Rightarrow> int" where
  "rated n rate = c_round (f32_round (f32_round n * rate))"

lemma bitlen_bound: "0 \<le> n \<Longrightarrow> n < 2 ^ bitlen n"
proof (induction n rule: bitlen.induct)
  case (1 n)
  show ?case
  proof (cases "n \<le> 0")
    case True
    with 1 show ?thesis by (simp add: bitlen.simps)
  next
    case False
    with 1 have "n div 2 < 2 ^ bitlen (n div 2)" by simp
    then have "n < 2 * 2 ^ bitlen (n div 2)" by linarith
    with False show ?thesis by (simp add: bitlen.simps [of n])
  qed
qed

lemma bitlen_le: "n < 2 ^ k \<Longrightarrow> bitlen n \<le> k"
proof (induction n arbitrary: k rule: bitlen.induct)
  case (1 n)
  show ?case
  proof (cases "n \<le> 0")
    case True
    then show ?thesis by (simp add: bitlen.simps)
  next
    case False
    with 1(2) obtain k' where k: "k = Suc k'" by (cases k) auto
    with False 1(2) have "bitlen (n div 2) \<le> k'" by (intro 1(1)) auto
    with False k show ?thesis by (simp add: bitlen.simps [of n])
  qed
qed

lemma f32_round_small: "\<bar>n\<bar> < 16777216 \<Longrightarrow> f32_round n = n"
  using bitlen_le [of "\<bar>n\<bar>" 24] by (simp add: f32_round_def Let_def abs_sgn mult.commute)

text \<open>The full rate and the zero rate, on the values a game's configuration holds.\<close>

lemma rated_zero [simp]: "rated n 0 = 0"
  by (simp add: rated_def f32_round_def c_round_def Let_def)

end
