(* ===== verification/Gobang.thy ===== *)
theory Gobang
  imports GameGroup
begin

text \<open>
  Gobang, \<open>src/mole/gamesvr/games/gobang\<close> (\<open>gobang.hpp\<close>, \<open>gobang.cpp\<close>): the board of 15 rows and
  columns, the turns, the winner, and the requests for a draw or to surrender. A handler returns
  the object, what it sends, and its return value; \<open>None\<close> is a failed assertion or a null pointer.
  The clock (\<open>now\<close>) and the identifier of a new timer (\<open>tid\<close>) are arguments.
\<close>

section \<open>The object\<close>

definition maxrows :: u16 where "maxrows = 15"
definition maxcols :: u16 where "maxcols = 15"
definition maxsteps :: u8 where "maxsteps = 225"

definition white :: nat where "white = 1"
definition black :: nat where "black = 2"

definition gobang_start :: int where "gobang_start = 31031"
definition gobang_action :: int where "gobang_action = 31032"
definition gobang_winner :: int where "gobang_winner = 31033"
definition gobang_board_info :: int where "gobang_board_info = 31034"
definition db_proto_modify_items :: int where "db_proto_modify_items = 0x114D"

type_synonym coord = "u16 \<times> u16"

datatype gb_pkg =
    StartPkg u32
  | ActPkg "byte list"
  | WinPkg u32
  | Win5Pkg u32 "coord list"
  | BoardInfoPkg u32 nat u32 nat "nat list list"
  | NotifReqPkg u32 u8
  | RspPkg u32 u32 u8

record gobang =
  gb_grp :: game_group
  gb_nxmover :: u32
  gb_nsteps :: u8
  gb_chesscolor :: "(u32, nat) smap"
  gb_req :: "(u32, u8) smap"
  gb_board :: "nat list list"
  gb_timerid :: nat

type_synonym gb_result = "(gobang \<times> gb_pkg game_out list \<times> int) option"

definition gobang_new :: "game_group \<Rightarrow> gobang option" where
  "gobang_new g =
     (case gg_players g of
        p0 # p1 # ps \<Rightarrow>
          Some \<lparr>gb_grp = g, gb_nxmover = sp_id p0, gb_nsteps = 0,
                gb_chesscolor = sm_assign (sp_id p1) black (sm_assign (sp_id p0) white []),
                gb_req = [], gb_board = replicate 15 (replicate 15 0), gb_timerid = 0\<rparr>
      | _ \<Rightarrow> None)"

text \<open>\<open>m_chesscolor[uid]\<close>, which makes an entry 0 where there is none.\<close>

definition color_index :: "u32 \<Rightarrow> gobang \<Rightarrow> gobang \<times> nat" where
  "color_index uid s =
     (case sm_find (gb_chesscolor s) uid of
        Some c \<Rightarrow> (s, c)
      | None \<Rightarrow> (s\<lparr>gb_chesscolor := sm_assign uid 0 (gb_chesscolor s)\<rparr>, 0))"

abbreviation cell :: "nat list list \<Rightarrow> u16 \<Rightarrow> u16 \<Rightarrow> nat" where
  "cell b r c \<equiv> b ! unat r ! unat c"

definition draw :: "gobang \<Rightarrow> bool" where
  "draw s \<longleftrightarrow> gb_nsteps s = maxsteps"

section \<open>What the game sends\<close>

definition broadcast_action :: "byte list \<Rightarrow> u32 \<Rightarrow> gb_pkg game_out list" where
  "broadcast_action buf uid = [ToOthers uid (ActPkg (take 8 buf))]"

definition pack_board_info :: "gobang \<Rightarrow> (gobang \<times> gb_pkg) option" where
  "pack_board_info s =
     (case gg_players (gb_grp s) of
        p0 # p1 # ps \<Rightarrow>
          let (s1, c1) = color_index (sp_id p0) s;
              (s2, c2) = color_index (sp_id p1) s1
          in Some (s2, BoardInfoPkg (sp_id p0) c1 (sp_id p1) c2 (gb_board s2))
      | _ \<Rightarrow> None)"

definition notify_board_info :: "gobang \<Rightarrow> (gobang \<times> gb_pkg game_out list) option" where
  "notify_board_info s =
     (if \<not> GAME_STARTED (gb_grp s) then None
      else if gg_watchers (gb_grp s) \<noteq> [] then
        map_option (\<lambda>(s1, b). (s1, [ToWatchers b])) (pack_board_info s)
      else Some (s, []))"

definition notify_board_info_to :: "sprite \<Rightarrow> gobang \<Rightarrow> (gobang \<times> gb_pkg game_out list) option" where
  "notify_board_info_to p s =
     (if \<not> (IS_GAME_WATCHER p \<and> GAME_STARTED (gb_grp s)) then None
      else map_option (\<lambda>(s1, b). (s1, [ToSelf p b])) (pack_board_info s))"

definition notify_game_start :: "gobang \<Rightarrow> gb_pkg game_out list" where
  "notify_game_start s = [ToPlayers (StartPkg (gb_nxmover s))]"

definition notify_player_req :: "u32 \<Rightarrow> u8 \<Rightarrow> gobang \<Rightarrow> gb_pkg game_out list option" where
  "notify_player_req uid reason s =
     (if GAME_STARTED (gb_grp s) then Some [ToOthers uid (NotifReqPkg uid reason)] else None)"

definition winner_db_buf :: "u32 list" where
  "winner_db_buf = [0, 1, 0, 0, 99, 1351372, 1, 1]"

definition notify_winner :: "u32 \<Rightarrow> gb_pkg game_out list" where
  "notify_winner uid = [DbRequest uid db_proto_modify_items winner_db_buf, ToGroup (WinPkg uid)]"

definition notify_winner5 :: "u32 \<Rightarrow> coord list \<Rightarrow> gb_pkg game_out list option" where
  "notify_winner5 uid adj =
     (if length adj = 5 then Some [DbRequest uid db_proto_modify_items winner_db_buf, ToGroup (Win5Pkg uid adj)]
      else None)"

definition rsp_player_req :: "u32 \<Rightarrow> u32 \<Rightarrow> u8 \<Rightarrow> gobang \<Rightarrow> gb_pkg game_out list option" where
  "rsp_player_req approver asker result s =
     (if GAME_STARTED (gb_grp s) then Some [ToOthers approver (RspPkg approver asker result)] else None)"

section \<open>Scores\<close>

definition credit_cond_met :: "nat \<Rightarrow> gobang \<Rightarrow> bool" where
  "credit_cond_met reason s \<longleftrightarrow> \<not> (1 < reason \<and> gb_nsteps s < 30 \<or> reason < 2 \<and> gb_nsteps s < 15)"

text \<open>\<open>rates\<close> (1, 0.5, 0.82, 1, 0.5, 0) over \<open>2 ^ 25\<close>, 0.82 as the nearest \<open>float\<close>.\<close>

definition gb_rates :: "int list" where
  "gb_rates = [33554432, 16777216, 27514634, 33554432, 16777216, 0]"

definition rated_score :: "game_t \<Rightarrow> nat \<Rightarrow> game_score" where
  "rated_score game reason =
     \<lparr>gs_iq = rated (game_IQ game) (gb_rates ! reason), gs_exp = rated (game_exp game) (gb_rates ! reason),
      gs_coins = rated (game_yxb game) (gb_rates ! reason)\<rparr>"

definition send_game_score :: "sprite \<Rightarrow> nat \<Rightarrow> nat \<Rightarrow> gobang \<Rightarrow> gb_pkg game_out list option" where
  "send_game_score p preason opreason s =
     (let g = gb_grp s in
      if \<not> GAME_STARTED g then None
      else Some (map (\<lambda>q. SubmitScore q
        (if credit_cond_met preason s \<or> IS_SPRITE_ESCAPE p \<and> sp_id q = sp_id p then
           if sp_id q = sp_id p then
             if IS_SPRITE_ESCAPE p then zero_score\<lparr>gs_iq := -1\<rparr>
             else rated_score (gg_game g) preason
           else rated_score (gg_game g) opreason
         else zero_score)) (gg_players g)))"

section \<open>Placing a stone and finding five in a row\<close>

definition place_chess :: "u16 \<Rightarrow> u16 \<Rightarrow> gobang \<Rightarrow> gobang \<times> int" where
  "place_chess row col s =
     (if maxrows \<le> row \<or> maxcols \<le> col \<or> cell (gb_board s) row col \<noteq> 0 then (s, -1)
      else
        let (s1, c) = color_index (gb_nxmover s) s
        in (s1\<lparr>gb_board := (gb_board s1)[unat row := (gb_board s1 ! unat row)[unat col := c]]\<rparr>, 0))"

text \<open>
  The inner loop of \<open>determine_winner\<close> along one direction: \<open>turned\<close> is \<open>j = 1\<close>, the second half
  of the line. The result is whether five stones were found, and \<open>adjchesses\<close>.
\<close>

partial_function (option) gb_scan ::
    "nat list list \<Rightarrow> nat \<Rightarrow> u16 \<Rightarrow> u16 \<Rightarrow> u16 \<Rightarrow> u16 \<Rightarrow> bool \<Rightarrow> u16 \<Rightarrow> u16 \<Rightarrow> coord list \<Rightarrow>
     (bool \<times> coord list) option" where
  "gb_scan b color row col dr dc turned x y adj =
     (if maxrows \<le> x + dr \<or> maxcols \<le> y + dc \<or> cell b (x + dr) (y + dc) \<noteq> color then
        if turned then Some (False, [])
        else gb_scan b color row col (- dr) (- dc) True row col adj
      else
        if length (adj @ [(x + dr, y + dc)]) = 5 then Some (True, adj @ [(x + dr, y + dc)])
        else gb_scan b color row col dr dc turned (x + dr) (y + dc) (adj @ [(x + dr, y + dc)]))"

declare gb_scan.simps [code]

fun gb_dirs :: "nat list list \<Rightarrow> nat \<Rightarrow> u16 \<Rightarrow> u16 \<Rightarrow> coord list \<Rightarrow> (bool \<times> coord list) option" where
  "gb_dirs b color row col [] = Some (False, [])"
| "gb_dirs b color row col ((dr, dc) # ds) =
     (case gb_scan b color row col dr dc False row col [(row, col)] of
        None \<Rightarrow> None
      | Some (True, adj) \<Rightarrow> Some (True, adj)
      | Some (False, _) \<Rightarrow> gb_dirs b color row col ds)"

definition gb_adjust :: "coord list" where
  "gb_adjust = [(1, 1), (0, 1), (-1, 1), (-1, 0)]"

definition determine_winner :: "u16 \<Rightarrow> u16 \<Rightarrow> gobang \<Rightarrow> (bool \<times> coord list) option" where
  "determine_winner row col s =
     (if cell (gb_board s) row col \<noteq> 0 \<and> cell (gb_board s) row col = snd (color_index (gb_nxmover s) s) \<and>
         row < maxrows \<and> col < maxcols
      then gb_dirs (gb_board s) (cell (gb_board s) row col) row col gb_adjust
      else None)"

fun other_player :: "u32 \<Rightarrow> sprite list \<Rightarrow> u32" where
  "other_player uid [] = uid"
| "other_player uid (p # ps) = (if sp_id p \<noteq> uid then sp_id p else other_player uid ps)"

definition set_nxmover :: "gobang \<Rightarrow> gobang" where
  "set_nxmover s = s\<lparr>gb_nxmover := other_player (gb_nxmover s) (gg_players (gb_grp s))\<rparr>"

section \<open>Handlers\<close>

definition add_move_timer :: "int \<Rightarrow> nat \<Rightarrow> gobang \<Rightarrow> (gobang \<times> gb_pkg game_out list) option" where
  "add_move_timer now tid s =
     (case get_sprite_from_gamegrp (gb_nxmover s) (gg_players (gb_grp s)) of
        None \<Rightarrow> None
      | Some op \<Rightarrow> Some (s\<lparr>gb_timerid := tid\<rparr>, [AddTimer op (now + 62)]))"

definition gobang_init :: "int \<Rightarrow> nat \<Rightarrow> sprite \<Rightarrow> gobang \<Rightarrow> (gobang \<times> gb_pkg game_out list) option" where
  "gobang_init now tid p s =
     (if \<not> GAME_READY (gb_grp s) then None
      else if IS_GAME_PLAYER p then
        let s1 = s\<lparr>gb_grp := SET_GAME_START (gb_grp s)\<rparr> in
        Option.bind (notify_board_info s1) (\<lambda>(s2, o2).
        Option.bind (add_move_timer now tid s2) (\<lambda>(s3, o3).
        Some (s3, notify_game_start s1 @ o2 @ o3)))
      else notify_board_info_to p s)"

definition handle_player_action :: "int \<Rightarrow> nat \<Rightarrow> sprite \<Rightarrow> byte list \<Rightarrow> gobang \<Rightarrow> gb_result" where
  "handle_player_action now tid p body s =
     (if started_check (gb_grp s) p (length body) 8 = -1 then Some (s, [], -1)
      else
        let uid = be_u32 body 0; row = be_u16 body 4; col = be_u16 body 6 in
        if sp_id p \<noteq> uid \<or> gb_nxmover s \<noteq> uid then Some (s, [], -1)
        else
          let o0 = [RemoveTimer p (gb_timerid s)];
              (s1, rv) = place_chess row col s
          in if rv = -1 then Some (s1, o0, -1)
             else
               let o1 = o0 @ broadcast_action body (sp_id p);
                   s2 = s1\<lparr>gb_nsteps := gb_nsteps s1 + 1\<rparr>
               in (case determine_winner row col s2 of
                     None \<Rightarrow> None
                   | Some (True, adj) \<Rightarrow>
                       Option.bind (notify_winner5 (sp_id p) adj) (\<lambda>ow.
                       let s3 = s2\<lparr>gb_nxmover := 0\<rparr> in
                       Option.bind (send_game_score p 0 1 s3) (\<lambda>os.
                       Some (s3, o1 @ ow @ os, GER_end_of_game)))
                   | Some (False, _) \<Rightarrow>
                       if draw s2 then
                         let s3 = s2\<lparr>gb_nxmover := 0\<rparr> in
                         Option.bind (send_game_score p 2 2 s3) (\<lambda>os.
                         Some (s3, o1 @ notify_winner 0 @ os, GER_draw_game))
                       else
                         Option.bind (add_move_timer now tid (set_nxmover s2)) (\<lambda>(s3, ot).
                         Some (s3, o1 @ ot, 0))))"

definition add_player_req :: "u32 \<Rightarrow> u8 \<Rightarrow> gobang \<Rightarrow> gobang \<times> bool" where
  "add_player_req uid reason s =
     (let (m, ok) = sm_insert uid reason (gb_req s) in (s\<lparr>gb_req := m\<rparr>, ok))"

definition chk_player_req :: "u32 \<Rightarrow> u8 \<Rightarrow> gobang \<Rightarrow> gobang \<times> bool" where
  "chk_player_req uid result s =
     (case sm_find (gb_req s) uid of
        Some r \<Rightarrow> if r = result \<or> result = 0 then (s\<lparr>gb_req := sm_erase uid (gb_req s)\<rparr>, True) else (s, False)
      | None \<Rightarrow> (s, False))"

definition handle_player_req :: "sprite \<Rightarrow> byte list \<Rightarrow> gobang \<Rightarrow> gb_result" where
  "handle_player_req p body s =
     (if started_check (gb_grp s) p (length body) 1 = -1 then Some (s, [], -1)
      else
        let reason = body ! 0 in
        if reason \<noteq> 1 \<and> reason \<noteq> 2 then Some (s, [], -1)
        else
          let (s1, ok) = add_player_req (sp_id p) reason s in
          if \<not> ok then Some (s1, [], -1)
          else map_option (\<lambda>os. (s1, os, 0)) (notify_player_req (sp_id p) reason s1))"

definition handle_rsp_player_req :: "sprite \<Rightarrow> byte list \<Rightarrow> gobang \<Rightarrow> gb_result" where
  "handle_rsp_player_req p body s =
     (if started_check (gb_grp s) p (length body) 5 = -1 then Some (s, [], -1)
      else
        let uid = be_u32 body 0; result = body ! 4 in
        if 2 < result then Some (s, [], -1)
        else
          let (s1, ok) = chk_player_req uid result s in
          if \<not> ok then Some (s1, [], -1)
          else
            Option.bind (rsp_player_req (sp_id p) uid result s1) (\<lambda>o1.
            if result = 1 then
              Option.bind (send_game_score p 2 2 s1) (\<lambda>os.
              Some (s1, o1 @ notify_winner 0 @ os, GER_player_req_draw))
            else if result = 2 then
              Option.bind (send_game_score p 3 4 s1) (\<lambda>os.
              Some (s1, o1 @ notify_winner (sp_id p) @ os, GER_player_surrender))
            else Some (s1, o1, 0)))"

definition handle_player_leave :: "sprite \<Rightarrow> gobang \<Rightarrow> gb_result" where
  "handle_player_leave p s =
     (if IS_GAME_PLAYER p then map_option (\<lambda>os. (s, os, 1)) (send_game_score p 5 0 s)
      else Some (s, [], 0))"

definition handle_data :: "int \<Rightarrow> nat \<Rightarrow> sprite \<Rightarrow> int \<Rightarrow> byte list \<Rightarrow> gobang \<Rightarrow> gb_result" where
  "handle_data now tid p cmd body s =
     (if cmd = gobang_action then handle_player_action now tid p body s
      else if cmd = proto_player_req then handle_player_req p body s
      else if cmd = proto_notify_player_req then handle_rsp_player_req p body s
      else if cmd = proto_player_leave then handle_player_leave p s
      else Some (s, [], -1))"

end
