(* ===== verification/GobangProps.thy ===== *)
theory GobangProps
  imports Gobang
begin

text \<open>
  The properties of Gobang: the search for five in a row finds exactly what the rule says, the
  stones and turns stay consistent over any game, and what the requests and the timer allow.
\<close>

section \<open>Five in a row\<close>

text \<open>The rule: five adjacent cells of the colour in one of four directions, through the cell.\<close>

definition on_line :: "nat list list \<Rightarrow> nat \<Rightarrow> int \<Rightarrow> int \<Rightarrow> bool" where
  "on_line b color x y \<longleftrightarrow> 0 \<le> x \<and> x < 15 \<and> 0 \<le> y \<and> y < 15 \<and> b ! nat x ! nat y = color"

definition five_in_row :: "nat list list \<Rightarrow> nat \<Rightarrow> int \<Rightarrow> int \<Rightarrow> bool" where
  "five_in_row b color r c \<longleftrightarrow>
     (\<exists>(dr, dc) \<in> {(1, 1), (0, 1), (-1, 1), (-1, 0)}. \<exists>t \<in> {0..4}. \<forall>i \<in> {t - 4..t}.
        on_line b color (r + i * dr) (c + i * dc))"

text \<open>The loop, in the 16-bit coordinates it computes with.\<close>

definition stone_at :: "nat list list \<Rightarrow> nat \<Rightarrow> coord \<Rightarrow> bool" where
  "stone_at b color = (\<lambda>(x, y). x < maxrows \<and> y < maxcols \<and> cell b x y = color)"

definition along :: "u16 \<Rightarrow> u16 \<Rightarrow> u16 \<Rightarrow> u16 \<Rightarrow> nat \<Rightarrow> coord" where
  "along x y dr dc i = (x + of_nat i * dr, y + of_nat i * dc)"

lemma along_Suc: "along (x + dr) (y + dc) dr dc i = along x y dr dc (Suc i)"
  by (simp add: along_def algebra_simps)

lemma along_1: "along x y dr dc (Suc 0) = (x + dr, y + dc)"
  by (simp add: along_def)

lemma map_along_Suc: "map (along (x + dr) (y + dc) dr dc) [1..<Suc k] = map (along x y dr dc) [2..<Suc (Suc k)]"
  by (simp add: map_Suc_upt [symmetric] along_Suc comp_def numeral_2_eq_2 del: upt_Suc)

lemma upt_1_Suc: "[1..<Suc (Suc k)] = 1 # [2..<Suc (Suc k)]"
  by (simp add: upt_conv_Cons numeral_2_eq_2 del: upt_Suc)

lemma gb_scan_step:
  "gb_scan b color row col dr dc turned x y adj =
     (if stone_at b color (along x y dr dc 1) then
        if length adj = 4 then Some (True, adj @ [along x y dr dc 1])
        else gb_scan b color row col dr dc turned (x + dr) (y + dc) (adj @ [along x y dr dc 1])
      else if turned then Some (False, [])
      else gb_scan b color row col (- dr) (- dc) True row col adj)"
proof -
  have "maxrows \<le> x + dr \<or> maxcols \<le> y + dc \<or> cell b (x + dr) (y + dc) \<noteq> color \<longleftrightarrow>
    \<not> stone_at b color (along x y dr dc 1)"
    by (auto simp: stone_at_def along_1 not_less)
  moreover have "length (adj @ [(x + dr, y + dc)]) = 5 \<longleftrightarrow> length adj = 4" by simp
  ultimately show ?thesis by (subst gb_scan.simps) (simp only: along_1 One_nat_def if_not_P if_P not_not split: if_split, simp)
qed

lemma all_upto_Suc: "(\<forall>i \<in> {1..Suc k}. P i) \<longleftrightarrow> P 1 \<and> (\<forall>i \<in> {1..k}. P (Suc i))"
  by (auto simp: Ball_def) (metis Suc_le_D le_SucE le_zero_eq not_less_eq_eq One_nat_def le_Suc_eq)

lemma gb_scan_turned:
  "length adj + Suc k = 5 \<Longrightarrow>
   gb_scan b color row col dr dc True x y adj =
     (if \<forall>i \<in> {1..Suc k}. stone_at b color (along x y dr dc i)
      then Some (True, adj @ map (along x y dr dc) [1..<Suc (Suc k)]) else Some (False, []))"
proof (induction k arbitrary: x y adj)
  case 0
  then show ?case by (simp add: gb_scan_step [of _ _ _ _ _ _ True])
next
  case (Suc k)
  have "length (adj @ [along x y dr dc 1]) + Suc k = 5" using Suc.prems by simp
  note IH = Suc.IH [OF this, of "x + dr" "y + dc"]
  show ?case
  proof (cases "stone_at b color (along x y dr dc 1)")
    case False
    then show ?thesis by (auto simp: gb_scan_step [of _ _ _ _ _ _ True])
  next
    case True
    then have "gb_scan b color row col dr dc True x y adj =
      gb_scan b color row col dr dc True (x + dr) (y + dc) (adj @ [along x y dr dc 1])"
      using Suc.prems by (subst gb_scan_step) simp
    then show ?thesis unfolding IH map_along_Suc upt_1_Suc [of "Suc k"] along_Suc
      all_upto_Suc [of "Suc k" "\<lambda>i. stone_at b color (along x y dr dc i)"] using True by simp
  qed
qed

lemma gb_scan_first:
  "length adj + Suc k = 5 \<Longrightarrow>
   if \<forall>i \<in> {1..Suc k}. stone_at b color (along x y dr dc i)
   then gb_scan b color row col dr dc False x y adj = Some (True, adj @ map (along x y dr dc) [1..<Suc (Suc k)])
   else \<exists>t \<le> k. (\<forall>i \<in> {1..t}. stone_at b color (along x y dr dc i)) \<and> \<not> stone_at b color (along x y dr dc (Suc t)) \<and>
     gb_scan b color row col dr dc False x y adj =
     gb_scan b color row col (- dr) (- dc) True row col (adj @ map (along x y dr dc) [1..<Suc t])"
proof (induction k arbitrary: x y adj)
  case 0
  then show ?case using gb_scan_step [of b color row col dr dc False x y adj] by simp
next
  case (Suc k)
  let ?P = "\<lambda>i. stone_at b color (along x y dr dc i)"
  have "length (adj @ [along x y dr dc 1]) + Suc k = 5" using Suc.prems by simp
  note IH = Suc.IH [OF this, of "x + dr" "y + dc"]
  show ?case
  proof (cases "?P 1")
    case False
    then have "\<not> (\<forall>i \<in> {1..Suc (Suc k)}. ?P i)" by (auto intro!: bexI [of _ 1])
    moreover have "gb_scan b color row col dr dc False x y adj =
      gb_scan b color row col (- dr) (- dc) True row col (adj @ map (along x y dr dc) [1..<Suc 0])"
      using False by (subst gb_scan_step) simp
    ultimately show ?thesis using False by (auto intro!: exI [of _ 0])
  next
    case True
    then have e: "gb_scan b color row col dr dc False x y adj =
      gb_scan b color row col dr dc False (x + dr) (y + dc) (adj @ [along x y dr dc 1])"
      using Suc.prems by (subst gb_scan_step) simp
    have a: "(\<forall>i \<in> {1..Suc (Suc k)}. ?P i) \<longleftrightarrow> (\<forall>i \<in> {1..Suc k}. ?P (Suc i))"
      using True all_upto_Suc [of "Suc k" ?P] by simp
    show ?thesis
    proof (cases "\<forall>i \<in> {1..Suc k}. ?P (Suc i)")
      case all: True
      have "gb_scan b color row col dr dc False (x + dr) (y + dc) (adj @ [along x y dr dc 1]) =
        Some (True, (adj @ [along x y dr dc 1]) @ map (along (x + dr) (y + dc) dr dc) [1..<Suc (Suc k)])"
      proof -
        have "\<forall>i \<in> {1..Suc k}. stone_at b color (along (x + dr) (y + dc) dr dc i)"
          using all by (simp only: along_Suc)
        from IH [unfolded if_P [OF this]] show ?thesis .
      qed
      with all a e show ?thesis unfolding map_along_Suc upt_1_Suc [of "Suc k"] by simp
    next
      case False
      have f: "\<not> (\<forall>i \<in> {1..Suc k}. stone_at b color (along (x + dr) (y + dc) dr dc i))"
        using False by (simp only: along_Suc not_False_eq_True)
      from IH [unfolded if_not_P [OF f], unfolded along_Suc] obtain t where t: "t \<le> k" "\<forall>i \<in> {1..t}. ?P (Suc i)" "\<not> ?P (Suc (Suc t))"
        "gb_scan b color row col dr dc False (x + dr) (y + dc) (adj @ [along x y dr dc 1]) =
         gb_scan b color row col (- dr) (- dc) True row col
           ((adj @ [along x y dr dc 1]) @ map (along (x + dr) (y + dc) dr dc) [1..<Suc t])"
        by (elim exE conjE)
      have n: "\<not> (\<forall>i \<in> {1..Suc (Suc k)}. ?P i)" using False a by blast
      have 1: "\<forall>i \<in> {1..Suc t}. ?P i" using all_upto_Suc [of t ?P] True t(2) by simp
      have "(adj @ [along x y dr dc 1]) @ map (along (x + dr) (y + dc) dr dc) [1..<Suc t] =
        adj @ map (along x y dr dc) [1..<Suc (Suc t)]"
        unfolding map_along_Suc upt_1_Suc [of t] by simp
      then have 2: "gb_scan b color row col dr dc False x y adj = gb_scan b color row col (- dr) (- dc) True row col
          (adj @ map (along x y dr dc) [1..<Suc (Suc t)])" using e t(4) by (simp only:)
      show ?thesis unfolding if_not_P [OF n]
        by (intro exI [of _ "Suc t"] conjI) (use t(1) in simp, rule 1, rule t(3), rule 2)
    qed
  qed
qed

text \<open>Both halves: some window of five around the cell, and what is collected then.\<close>

lemma gb_scan_both:
  assumes "stone_at b color (row, col)"
  shows "\<exists>w adj. gb_scan b color row col dr dc False row col [(row, col)] = Some (w, adj) \<and>
    (w \<longleftrightarrow> (\<exists>t \<le> 4. (\<forall>i \<in> {1..t}. stone_at b color (along row col dr dc i)) \<and>
                   (\<forall>i \<in> {1..4 - t}. stone_at b color (along row col (- dr) (- dc) i)))) \<and>
    (w \<longrightarrow> length adj = 5 \<and> (row, col) \<in> set adj \<and> (\<forall>c \<in> set adj. stone_at b color c))"
    (is "\<exists>w adj. ?scan = Some (w, adj) \<and> (w \<longleftrightarrow> ?win) \<and> ?adj w adj")
proof -
  let ?P = "\<lambda>i. stone_at b color (along row col dr dc i)"
  let ?N = "\<lambda>i. stone_at b color (along row col (- dr) (- dc) i)"
  have four: "{1..Suc 3} = {1..4 :: nat}" by simp
  have "length [(row, col)] + Suc 3 = 5" by simp
  note F = gb_scan_first [OF this, of b color row col dr dc row col, unfolded four]
  show ?thesis
  proof (cases "\<forall>i \<in> {1..4}. ?P i")
    case True
    with F have "?scan = Some (True, [(row, col)] @ map (along row col dr dc) [1..<Suc (Suc 3)])" by simp
    moreover have "?win" using True by (intro exI [of _ 4]) simp
    moreover have "\<forall>c \<in> set ([(row, col)] @ map (along row col dr dc) [1..<Suc (Suc 3)]). stone_at b color c"
      using True assms by auto
    ultimately show ?thesis
      by (intro exI [of _ True] exI [of _ "[(row, col)] @ map (along row col dr dc) [1..<Suc (Suc 3)]"]) simp
  next
    case False
    from F [unfolded if_not_P [OF False]] obtain t where t: "t \<le> 3" "\<forall>i \<in> {1..t}. ?P i" "\<not> ?P (Suc t)"
      "?scan = gb_scan b color row col (- dr) (- dc) True row col ([(row, col)] @ map (along row col dr dc) [1..<Suc t])"
      by (elim exE conjE)
    let ?adj0 = "[(row, col)] @ map (along row col dr dc) [1..<Suc t]"
    have "length ?adj0 + Suc (3 - t) = 5" using t(1) by (cases "t = 0") auto
    note T = gb_scan_turned [OF this, of b color row col "- dr" "- dc" row col]
    have k: "Suc (3 - t) = 4 - t" using t(1) by simp
    have win: "?win \<longleftrightarrow> (\<forall>i \<in> {1..4 - t}. ?N i)"
    proof
      assume ?win
      then obtain u where u: "u \<le> 4" "\<forall>i \<in> {1..u}. ?P i" "\<forall>i \<in> {1..4 - u}. ?N i" by blast
      have "u \<le> t"
      proof (rule ccontr)
        assume "\<not> u \<le> t"
        then have "Suc t \<in> {1..u}" by simp
        with u(2) t(3) show False by blast
      qed
      then have "{1..4 - t} \<subseteq> {1..4 - u}" by auto
      with u(3) show "\<forall>i \<in> {1..4 - t}. ?N i" by blast
    next
      assume "\<forall>i \<in> {1..4 - t}. ?N i"
      with t show ?win by (intro exI [of _ t]) simp
    qed
    show ?thesis
    proof (cases "\<forall>i \<in> {1..4 - t}. ?N i")
      case all: True
      let ?adj1 = "?adj0 @ map (along row col (- dr) (- dc)) [1..<Suc (4 - t)]"
      have "?scan = Some (True, ?adj1)" using T [unfolded k, unfolded if_P [OF all]] t(4) by (simp only:)
      moreover have "\<forall>c \<in> set ?adj1. stone_at b color c" using all t(2) assms by auto
      moreover have "length ?adj1 = 5" using t(1) by (simp del: upt_Suc)
      ultimately show ?thesis using win all by (intro exI [of _ True] exI [of _ ?adj1]) simp
    next
      case none: False
      have "?scan = Some (False, [])" using T [unfolded k, unfolded if_not_P [OF none]] t(4) by (simp only:)
      with win none show ?thesis by simp
    qed
  qed
qed

text \<open>The 16-bit coordinates agree with the integers: a step off the board is never on it.\<close>

lemma word_step:
  fixes x :: u16
  assumes "x < 15" and "-4 \<le> d" and "d \<le> 4"
  shows "x + word_of_int d < 15 \<longleftrightarrow> 0 \<le> uint x + d \<and> uint x + d < 15"
    and "0 \<le> uint x + d \<Longrightarrow> uint x + d < 15 \<Longrightarrow> unat (x + word_of_int d) = nat (uint x + d)"
proof -
  have x: "0 \<le> uint x" "uint x < 15" using assms(1) by (simp_all add: word_less_def)
  have u: "uint (x + word_of_int d) = (uint x + d) mod 65536"
    by (simp add: uint_word_ariths mod_add_right_eq uint_word_of_int)
  show "x + word_of_int d < 15 \<longleftrightarrow> 0 \<le> uint x + d \<and> uint x + d < 15"
  proof (cases "0 \<le> uint x + d")
    case True
    then have "(uint x + d) mod 65536 = uint x + d" using x assms(3) by simp
    then show ?thesis using True by (simp add: word_less_def u)
  next
    case False
    then have "0 \<le> uint x + d + 65536" "uint x + d + 65536 < 65536" using False x assms(2) by linarith+
    then have "(uint x + d + 65536) mod 65536 = uint x + d + 65536" by (rule mod_pos_pos_trivial)
    then have "(uint x + d) mod 65536 = uint x + d + 65536" by simp
    moreover have "\<not> uint x + d + 65536 < 15" using x assms(2) by linarith
    ultimately have "\<not> uint (x + word_of_int d) < 15" unfolding u by simp
    then show ?thesis using False by (simp add: word_less_def)
  qed
  show "unat (x + word_of_int d) = nat (uint x + d)" if "0 \<le> uint x + d" "uint x + d < 15"
    using that by (simp add: unat_eq_nat_uint u)
qed

lemma stone_at_step:
  assumes "x < 15" and "y < 15" and "-4 \<le> i * dr" "i * dr \<le> 4" "-4 \<le> i * dc" "i * dc \<le> 4"
  shows "stone_at b color (x + word_of_int (i * dr), y + word_of_int (i * dc)) \<longleftrightarrow>
    on_line b color (uint x + i * dr) (uint y + i * dc)"
  using word_step [OF assms(1,3,4)] word_step [OF assms(2,5,6)]
  by (auto simp: stone_at_def on_line_def maxrows_def maxcols_def)

lemma along_int:
  "along x y (word_of_int dr) (word_of_int dc) i = (x + word_of_int (int i * dr), y + word_of_int (int i * dc))"
  "along x y (- word_of_int dr) (- word_of_int dc) i = (x + word_of_int (- int i * dr), y + word_of_int (- int i * dc))"
  by (simp_all add: along_def)

lemma gb_scan_line:
  assumes "row < 15" and "col < 15" and "cell b row col = color"
    and "dr \<in> {-1, 0, 1}" and "dc \<in> {-1, 0, 1}"
  shows "\<exists>w adj. gb_scan b color row col (word_of_int dr) (word_of_int dc) False row col [(row, col)] = Some (w, adj) \<and>
    (w \<longleftrightarrow> (\<exists>t \<in> {0..4}. \<forall>i \<in> {t - 4..t}. on_line b color (uint row + i * dr) (uint col + i * dc))) \<and>
    (w \<longrightarrow> length adj = 5 \<and> (row, col) \<in> set adj \<and> (\<forall>c \<in> set adj. stone_at b color c))"
proof -
  let ?L = "\<lambda>i. on_line b color (uint row + i * dr) (uint col + i * dc)"
  have s0: "stone_at b color (row, col)" using assms(1-3) by (simp add: stone_at_def maxrows_def maxcols_def)
  have bd: "-4 \<le> i * dr \<and> i * dr \<le> 4 \<and> -4 \<le> i * dc \<and> i * dc \<le> 4" if "-4 \<le> i" "i \<le> 4" for i
    using that assms(4,5) by auto
  have st: "stone_at b color (row + word_of_int (i * dr), col + word_of_int (i * dc)) \<longleftrightarrow> ?L i" if "-4 \<le> i" "i \<le> 4" for i
    using bd [OF that] by (intro stone_at_step assms(1,2)) auto
  have L0: "?L 0" using st [of 0] s0 by simp
  have p: "stone_at b color (along row col (word_of_int dr) (word_of_int dc) i) \<longleftrightarrow> ?L (int i)" if "i \<le> 4" for i
    unfolding along_int using that by (intro st) auto
  have n: "stone_at b color (along row col (- word_of_int dr) (- word_of_int dc) i) \<longleftrightarrow> ?L (- int i)" if "i \<le> 4" for i
    unfolding along_int using that by (intro st) auto
  have "(\<exists>t \<le> 4. (\<forall>i \<in> {1..t}. stone_at b color (along row col (word_of_int dr) (word_of_int dc) i)) \<and>
      (\<forall>i \<in> {1..4 - t}. stone_at b color (along row col (- word_of_int dr) (- word_of_int dc) i))) \<longleftrightarrow>
    (\<exists>t \<in> {0..4}. \<forall>i \<in> {t - 4..t}. ?L i)" (is "?A \<longleftrightarrow> ?B")
  proof
    assume ?A
    then obtain t where t0: "t \<le> 4"
      "\<forall>i \<in> {1..t}. stone_at b color (along row col (word_of_int dr) (word_of_int dc) i)"
      "\<forall>i \<in> {1..4 - t}. stone_at b color (along row col (- word_of_int dr) (- word_of_int dc) i)" by blast
    have t: "t \<le> 4" "\<forall>i \<in> {1..t}. ?L (int i)" "\<forall>i \<in> {1..4 - t}. ?L (- int i)"
    proof -
      show "t \<le> 4" by fact
      show "\<forall>i \<in> {1..t}. ?L (int i)"
      proof
        fix i assume i: "i \<in> {1..t}"
        with t0(1) have "i \<le> 4" by simp
        with i t0(2) p show "?L (int i)" by blast
      qed
      show "\<forall>i \<in> {1..4 - t}. ?L (- int i)"
      proof
        fix i assume i: "i \<in> {1..4 - t}"
        then have "i \<le> 4 - t" by simp
        then have "i \<le> 4" by linarith
        with i t0(3) n show "?L (- int i)" by blast
      qed
    qed
    have "?L i" if "i \<in> {int t - 4..int t}" for i
    proof -
      consider "i = 0" | "0 < i" | "i < 0" by linarith
      then show ?thesis
      proof cases
        case 2
        with that t(2) have "?L (int (nat i))" by (metis atLeastAtMost_iff int_nat_eq nat_int nat_mono
            One_nat_def Suc_leI zero_less_nat_eq)
        with 2 show ?thesis by simp
      next
        case 3
        with that t(1) have "nat (- i) \<in> {1..4 - t}" by auto
        with t(3) have "?L (- int (nat (- i)))" by blast
        with 3 show ?thesis by simp
      qed (use L0 in simp)
    qed
    with t(1) show ?B by (intro bexI [of _ "int t"]) auto
  next
    assume ?B
    then obtain t where t: "0 \<le> t" "t \<le> 4" "\<forall>i \<in> {t - 4..t}. ?L i" by auto
    have "\<forall>i \<in> {1..nat t}. ?L (int i)" using t by auto
    moreover have "\<forall>i \<in> {1..4 - nat t}. ?L (- int i)"
    proof
      fix i assume "i \<in> {1..4 - nat t}"
      then have "- int i \<in> {t - 4..t}" using t(1,2) by auto
      with t(3) show "?L (- int i)" by blast
    qed
    moreover have "nat t \<le> 4" using t by simp
    moreover have "i \<le> 4" if "i \<in> {1..nat t} \<or> i \<in> {1..4 - nat t}" for i using that t by auto
    ultimately show ?A using p n by (intro exI [of _ "nat t"]) blast
  qed
  with gb_scan_both [OF s0, of "word_of_int dr" "word_of_int dc"] show ?thesis by simp
qed

lemma gb_dirs_spec:
  assumes "row < 15" and "col < 15" and "cell b row col = color"
    and "\<forall>(dr, dc) \<in> set ds. dr \<in> {-1, 0, 1} \<and> dc \<in> {-1, 0, 1}"
  shows "\<exists>w adj. gb_dirs b color row col (map (\<lambda>(dr, dc). (word_of_int dr, word_of_int dc)) ds) = Some (w, adj) \<and>
    (w \<longleftrightarrow> (\<exists>(dr, dc) \<in> set ds. \<exists>t \<in> {0..4}. \<forall>i \<in> {t - 4..t}.
       on_line b color (uint row + i * dr) (uint col + i * dc))) \<and>
    (w \<longrightarrow> length adj = 5 \<and> (row, col) \<in> set adj \<and> (\<forall>c \<in> set adj. stone_at b color c))"
  using assms(4)
proof (induction ds)
  case Nil
  show ?case by (intro exI [of _ False] exI [of _ "[]"]) simp
next
  case (Cons d ds)
  obtain dr dc where d: "d = (dr, dc)" by (cases d)
  from Cons.prems d have dd: "dr \<in> {-1, 0, 1}" "dc \<in> {-1, 0, 1}" by auto
  from gb_scan_line [OF assms(1-3) dd] obtain w adj where
    s: "gb_scan b color row col (word_of_int dr) (word_of_int dc) False row col [(row, col)] = Some (w, adj)"
    "w \<longleftrightarrow> (\<exists>t \<in> {0..4}. \<forall>i \<in> {t - 4..t}. on_line b color (uint row + i * dr) (uint col + i * dc))"
    "w \<longrightarrow> length adj = 5 \<and> (row, col) \<in> set adj \<and> (\<forall>c \<in> set adj. stone_at b color c)" by blast
  show ?case
  proof (cases w)
    case True
    with s d show ?thesis by (intro exI [of _ True] exI [of _ adj]) simp
  next
    case False
    from Cons obtain w' adj' where
      r: "gb_dirs b color row col (map (\<lambda>(dr, dc). (word_of_int dr, word_of_int dc)) ds) = Some (w', adj')"
      "w' \<longleftrightarrow> (\<exists>(dr, dc) \<in> set ds. \<exists>t \<in> {0..4}. \<forall>i \<in> {t - 4..t}.
         on_line b color (uint row + i * dr) (uint col + i * dc))"
      "w' \<longrightarrow> length adj' = 5 \<and> (row, col) \<in> set adj' \<and> (\<forall>c \<in> set adj'. stone_at b color c)" by auto
    have "gb_dirs b color row col (map (\<lambda>(dr, dc). (word_of_int dr, word_of_int dc)) (d # ds)) = Some (w', adj')"
      using s(1) False r(1) d by simp
    moreover have "(\<exists>(dr, dc) \<in> set (d # ds). \<exists>t \<in> {0..4}. \<forall>i \<in> {t - 4..t}.
         on_line b color (uint row + i * dr) (uint col + i * dc)) \<longleftrightarrow> w'"
    proof -
      let ?T = "\<lambda>(dr, dc). \<exists>t \<in> {0..4}. \<forall>i \<in> {t - 4..t}. on_line b color (uint row + i * dr) (uint col + i * dc)"
      have "\<not> ?T d" unfolding d prod.case using s(2) False by (simp only: not_False_eq_True)
      then have "(\<exists>e \<in> set (d # ds). ?T e) \<longleftrightarrow> (\<exists>e \<in> set ds. ?T e)" by (simp only: list.set bex_simps(5) simp_thms)
      then show ?thesis unfolding r(2) .
    qed
    ultimately show ?thesis using r(3) by blast
  qed
qed

lemma gb_dirs_winner:
  assumes "row < 15" and "col < 15" and "cell b row col = color"
  shows "\<exists>adj. gb_dirs b color row col gb_adjust = Some (five_in_row b color (uint row) (uint col), adj) \<and>
    (five_in_row b color (uint row) (uint col) \<longrightarrow>
      length adj = 5 \<and> (row, col) \<in> set adj \<and> (\<forall>c \<in> set adj. stone_at b color c))"
proof -
  have a: "gb_adjust = map (\<lambda>(dr, dc). (word_of_int dr, word_of_int dc)) [(1, 1), (0, 1), (-1, 1), (-1, 0)]"
    by (simp add: gb_adjust_def)
  have "\<forall>(dr, dc) \<in> set [(1, 1), (0, 1), (-1, 1), (-1, 0)]. dr \<in> {-1, 0, 1 :: int} \<and> dc \<in> {-1, 0, 1 :: int}" by simp
  from gb_dirs_spec [OF assms this] obtain w adj where
    1: "gb_dirs b color row col gb_adjust = Some (w, adj)"
    and 2: "w \<longleftrightarrow> (\<exists>(dr, dc) \<in> set [(1, 1), (0, 1), (-1, 1), (-1, 0)]. \<exists>t \<in> {0..4}. \<forall>i \<in> {t - 4..t}.
       on_line b color (uint row + i * dr) (uint col + i * dc))"
    and 3: "w \<longrightarrow> length adj = 5 \<and> (row, col) \<in> set adj \<and> (\<forall>c \<in> set adj. stone_at b color c)"
    unfolding a [symmetric] by (elim exE conjE)
  have "w = five_in_row b color (uint row) (uint col)" unfolding 2 five_in_row_def list.set ..
  with 1 3 show ?thesis by blast
qed

text \<open>
  C9: after a stone of the mover has been placed, \<open>determine_winner\<close> ends and answers yes exactly
  when five adjacent stones of its colour lie on a row, a column or a diagonal through the cell;
  then \<open>adjchesses\<close> holds five cells of the board with that colour, the new one among them.
\<close>
theorem gb_winner_correct:
  assumes "row < 15" and "col < 15" and "cell (gb_board s) row col \<noteq> 0"
    and "cell (gb_board s) row col = snd (color_index (gb_nxmover s) s)"
  shows "\<exists>adj. determine_winner row col s =
      Some (five_in_row (gb_board s) (cell (gb_board s) row col) (uint row) (uint col), adj) \<and>
    (five_in_row (gb_board s) (cell (gb_board s) row col) (uint row) (uint col) \<longrightarrow>
      length adj = 5 \<and> (row, col) \<in> set adj \<and>
      (\<forall>(x, y) \<in> set adj. x < 15 \<and> y < 15 \<and> cell (gb_board s) x y = cell (gb_board s) row col))"
proof -
  have e: "determine_winner row col s = gb_dirs (gb_board s) (cell (gb_board s) row col) row col gb_adjust"
    using assms by (simp add: determine_winner_def maxrows_def maxcols_def)
  obtain adj where "gb_dirs (gb_board s) (cell (gb_board s) row col) row col gb_adjust =
      Some (five_in_row (gb_board s) (cell (gb_board s) row col) (uint row) (uint col), adj)"
    "five_in_row (gb_board s) (cell (gb_board s) row col) (uint row) (uint col) \<longrightarrow>
      length adj = 5 \<and> (row, col) \<in> set adj \<and> (\<forall>c \<in> set adj. stone_at (gb_board s) (cell (gb_board s) row col) c)"
    using gb_dirs_winner [OF assms(1,2) refl, of "gb_board s"] by blast
  then show ?thesis unfolding e by (intro exI [of _ adj]) (auto simp: stone_at_def maxrows_def maxcols_def)
qed

text \<open>A board for the witnesses: four black stones in a row on an otherwise empty board.\<close>

definition two_players :: game_group where
  "two_players = \<lparr>gg_flag = 3,
     gg_players = [\<lparr>sp_id = 100001, sp_pos_id = 1, sp_status = 1\<rparr>, \<lparr>sp_id = 100002, sp_pos_id = 2, sp_status = 1\<rparr>],
     gg_watchers = [], gg_game = \<lparr>game_IQ = 10, game_exp = 20, game_yxb = 30\<rparr>\<rparr>"

definition five_board :: "nat list list" where
  "five_board = (replicate 15 (replicate 15 0))[7 := [0, 0, 0, 0, 1, 1, 1, 1, 1, 0, 0, 0, 0, 0, 0]]"

definition five_game :: gobang where
  "five_game = \<lparr>gb_grp = two_players, gb_nxmover = 100001, gb_nsteps = 5,
     gb_chesscolor = [(100001, 1), (100002, 2)], gb_req = [], gb_board = five_board, gb_timerid = 3\<rparr>"

theorem gb_winner_correct_witness:
  "\<exists>adj. determine_winner 7 6 five_game = Some (five_in_row five_board 1 7 6, adj) \<and>
    (five_in_row five_board 1 7 6 \<longrightarrow> length adj = 5 \<and> (7, 6) \<in> set adj \<and>
      (\<forall>(x, y) \<in> set adj. x < 15 \<and> y < 15 \<and> cell five_board x y = 1))"
proof -
  have c: "cell (gb_board five_game) 7 6 = 1"
    by (simp add: five_game_def five_board_def)
  have "color_index (gb_nxmover five_game) five_game = (five_game, 1)"
    by (simp add: color_index_def five_game_def)
  with c gb_winner_correct [of 7 6 five_game] show ?thesis by (simp add: five_game_def)
qed

section \<open>Stones and turns\<close>

definition stones :: "nat \<Rightarrow> nat list list \<Rightarrow> nat" where
  "stones c b = sum_list (map (\<lambda>r. count_list r c) b)"

definition board_ok :: "nat list list \<Rightarrow> bool" where
  "board_ok b \<longleftrightarrow> length b = 15 \<and> (\<forall>r \<in> set b. length r = 15 \<and> (\<forall>x \<in> set r. x \<le> 2))"

lemma count_list_update:
  "i < length xs \<Longrightarrow> count_list (xs[i := v]) c + (if xs ! i = c then 1 else 0) = count_list xs c + (if v = c then 1 else 0)"
proof (induction xs arbitrary: i)
  case (Cons x xs)
  show ?case
  proof (cases i)
    case (Suc j)
    with Cons.prems have "j < length xs" by simp
    from Cons.IH [OF this] Suc show ?thesis by (auto split: if_splits)
  qed simp
qed simp

lemma stones_place:
  assumes "board_ok b" and "r < 15" and "k < 15" and "b ! r ! k = 0" and "v \<noteq> 0" and "v \<le> 2"
  defines "b' \<equiv> b[r := (b ! r)[k := v]]"
  shows "board_ok b'" and "c \<noteq> 0 \<Longrightarrow> stones c b' = stones c b + (if c = v then 1 else 0)"
    and "0 < stones 0 b" and "b' ! r ! k = v"
proof -
  have r: "r < length b" "length (b ! r) = 15" "\<forall>x \<in> set (b ! r). x \<le> 2"
    using assms(1,2) by (auto simp: board_ok_def)
  show "board_ok b'"
    using assms(1,6) r unfolding board_ok_def b'_def
    by (auto dest!: subsetD [OF set_update_subset_insert])
  have u: "map (\<lambda>r. count_list r c) b' = (map (\<lambda>r. count_list r c) b)[r := count_list ((b ! r)[k := v]) c]" for c
    by (simp add: b'_def map_update)
  have le: "count_list (b ! r) c \<le> sum_list (map (\<lambda>r. count_list r c) b)" for c
    using r(1) by (intro member_le_sum_list) auto
  have 1: "stones c b' + count_list (b ! r) c = stones c b + count_list ((b ! r)[k := v]) c" for c
    unfolding stones_def u using sum_list_update [of r "map (\<lambda>r. count_list r c) b"] r(1) le [of c] by simp
  have 2: "count_list ((b ! r)[k := v]) c = count_list (b ! r) c + (if c = v then 1 else 0)" if "c \<noteq> 0" for c
    using count_list_update [of k "b ! r" v c] r(2) assms(3,4) that by auto
  show "stones c b' = stones c b + (if c = v then 1 else 0)" if "c \<noteq> 0"
    using 1 [of c] 2 [OF that] by simp
  have "0 < count_list (b ! r) 0"
    using assms(3,4) r(2) by (metis count_list_0_iff gr0I nth_mem)
  with le [of 0] show "0 < stones 0 b" by (simp add: stones_def)
  show "b' ! r ! k = v" using r assms(3) by (simp add: b'_def)
qed

lemma stones_total: "board_ok b \<Longrightarrow> stones 0 b + stones 1 b + stones 2 b = 225"
proof -
  assume b: "board_ok b"
  have row: "count_list r 0 + count_list r 1 + count_list r 2 = length r" if "\<forall>x \<in> set r. x \<le> 2" for r :: "nat list"
    using that by (induction r) (auto simp: le_Suc_eq numeral_2_eq_2)
  have "stones 0 b + stones 1 b + stones 2 b = sum_list (map (\<lambda>r. count_list r 0 + count_list r 1 + count_list r 2) b)"
    by (simp add: stones_def sum_list_addf)
  also have "map (\<lambda>r. count_list r 0 + count_list r 1 + count_list r 2) b = map (\<lambda>r. 15) b"
    using b row by (intro map_cong refl) (simp add: board_ok_def)
  also have "sum_list (map (\<lambda>r. 15 :: nat) b) = 15 * length b" by (simp add: sum_list_triv)
  finally show ?thesis using b by (simp add: board_ok_def)
qed

text \<open>
  The invariant: two players with different ids, white and black; as many steps as stones; the
  turns alternate, white first (mover 0: the game has been decided).
\<close>

definition gb_ok :: "gobang \<Rightarrow> sprite \<Rightarrow> sprite \<Rightarrow> bool" where
  "gb_ok s p0 p1 \<longleftrightarrow> gg_players (gb_grp s) = [p0, p1] \<and> sp_id p0 \<noteq> sp_id p1 \<and> sp_id p0 \<noteq> 0 \<and> sp_id p1 \<noteq> 0 \<and>
     sm_find (gb_chesscolor s) = [sp_id p0 \<mapsto> white, sp_id p1 \<mapsto> black] \<and> board_ok (gb_board s) \<and>
     unat (gb_nsteps s) = stones white (gb_board s) + stones black (gb_board s) \<and>
     (gb_nxmover s = sp_id p0 \<and> stones white (gb_board s) = stones black (gb_board s) \<or>
      gb_nxmover s = sp_id p1 \<and> stones white (gb_board s) = stones black (gb_board s) + 1 \<or>
      gb_nxmover s = 0 \<and> stones white (gb_board s) \<in> {stones black (gb_board s), stones black (gb_board s) + 1})"

lemma color_index_known: "sm_find (gb_chesscolor s) uid = Some c \<Longrightarrow> color_index uid s = (s, c)"
  by (simp add: color_index_def)

lemma gb_okD:
  assumes "gb_ok s p0 p1"
  shows "gg_players (gb_grp s) = [p0, p1]" "sp_id p0 \<noteq> sp_id p1" "sp_id p0 \<noteq> 0" "sp_id p1 \<noteq> 0"
    "sm_find (gb_chesscolor s) (sp_id p0) = Some white" "sm_find (gb_chesscolor s) (sp_id p1) = Some black"
    "board_ok (gb_board s)" "unat (gb_nsteps s) = stones white (gb_board s) + stones black (gb_board s)"
  using assms by (auto simp: gb_ok_def)

definition mover_color :: "gobang \<Rightarrow> sprite \<Rightarrow> nat" where
  "mover_color s p0 = (if gb_nxmover s = sp_id p0 then white else black)"

definition put_stone :: "u16 \<Rightarrow> u16 \<Rightarrow> nat \<Rightarrow> nat list list \<Rightarrow> nat list list" where
  "put_stone row col c b = b[unat row := (b ! unat row)[unat col := c]]"

definition legal_cell :: "nat list list \<Rightarrow> u16 \<Rightarrow> u16 \<Rightarrow> bool" where
  "legal_cell b row col \<longleftrightarrow> row < 15 \<and> col < 15 \<and> cell b row col = 0"

lemma gb_mover:
  assumes "gb_ok s p0 p1" and "gb_nxmover s \<noteq> 0"
  shows "color_index (gb_nxmover s) s = (s, mover_color s p0)" "mover_color s p0 \<noteq> 0" "mover_color s p0 \<le> 2"
    "gb_nxmover s \<in> {sp_id p0, sp_id p1}"
  using assms gb_okD [OF assms(1)]
  by (auto simp: gb_ok_def mover_color_def white_def black_def intro!: color_index_known)

lemma place_chess_spec:
  assumes "gb_ok s p0 p1" and "gb_nxmover s \<noteq> 0"
  shows "place_chess row col s =
    (if legal_cell (gb_board s) row col
     then (s\<lparr>gb_board := put_stone row col (mover_color s p0) (gb_board s)\<rparr>, 0) else (s, -1))"
  using gb_mover(1) [OF assms]
  by (auto simp: place_chess_def legal_cell_def maxrows_def maxcols_def put_stone_def not_le)

text \<open>What a legal move does, and that the invariant survives it.\<close>

definition next_mover :: "gobang \<Rightarrow> sprite \<Rightarrow> sprite \<Rightarrow> u32" where
  "next_mover s p0 p1 = (if gb_nxmover s = sp_id p0 then sp_id p1 else sp_id p0)"

definition after_move :: "gobang \<Rightarrow> sprite \<Rightarrow> u16 \<Rightarrow> u16 \<Rightarrow> gobang" where
  "after_move s p0 row col = s\<lparr>gb_board := put_stone row col (mover_color s p0) (gb_board s),
     gb_nsteps := gb_nsteps s + 1\<rparr>"

lemma after_move_board:
  assumes "gb_ok s p0 p1" and "gb_nxmover s \<noteq> 0" and "legal_cell (gb_board s) row col"
  defines "b' \<equiv> gb_board (after_move s p0 row col)"
  shows "board_ok b'" "cell b' row col = mover_color s p0"
    "\<And>c. c \<noteq> 0 \<Longrightarrow> stones c b' = stones c (gb_board s) + (if c = mover_color s p0 then 1 else 0)"
    "unat (gb_nsteps s + 1) = unat (gb_nsteps s) + 1"
proof -
  note D = gb_okD [OF assms(1)] and M = gb_mover [OF assms(1,2)]
  have rc: "unat row < 15" "unat col < 15" "gb_board s ! unat row ! unat col = 0"
    using assms(3) by (simp_all add: legal_cell_def word_less_nat_alt)
  note P = stones_place [OF D(7) rc M(2,3)]
  show "board_ok b'" "cell b' row col = mover_color s p0"
    "\<And>c. c \<noteq> 0 \<Longrightarrow> stones c b' = stones c (gb_board s) + (if c = mover_color s p0 then 1 else 0)"
    using P by (simp_all add: b'_def after_move_def put_stone_def)
  have "unat (gb_nsteps s) < 225" using stones_total [OF D(7)] P(3) D(8) by (simp add: white_def black_def)
  then have "unat (gb_nsteps s) + 1 < 256" by simp
  then show "unat (gb_nsteps s + 1) = unat (gb_nsteps s) + 1"
    by (simp add: unat_word_ariths)
qed

lemma after_move_ok:
  assumes "gb_ok s p0 p1" and "gb_nxmover s \<noteq> 0" and "legal_cell (gb_board s) row col"
    and "m = next_mover s p0 p1 \<or> m = 0"
  shows "gb_ok ((after_move s p0 row col)\<lparr>gb_nxmover := m, gb_timerid := t\<rparr>) p0 p1"
    and "gb_ok ((after_move s p0 row col)\<lparr>gb_nxmover := m\<rparr>) p0 p1"
proof -
  note B = after_move_board [OF assms(1-3)] and M = gb_mover [OF assms(1,2)] and D = gb_okD [OF assms(1)]
  have w: "stones white (gb_board (after_move s p0 row col)) =
      stones white (gb_board s) + (if gb_nxmover s = sp_id p0 then 1 else 0)"
    "stones black (gb_board (after_move s p0 row col)) =
      stones black (gb_board s) + (if gb_nxmover s = sp_id p0 then 0 else 1)"
    using B(3) [of white] B(3) [of black] by (simp_all add: white_def black_def mover_color_def)
  have "gb_ok ((after_move s p0 row col)\<lparr>gb_nxmover := m\<rparr>) p0 p1"
    using assms(1,2,4) B(1,4) w D(8) unfolding gb_ok_def
    by (auto simp: next_mover_def after_move_def)
  then show "gb_ok ((after_move s p0 row col)\<lparr>gb_nxmover := m\<rparr>) p0 p1"
    "gb_ok ((after_move s p0 row col)\<lparr>gb_nxmover := m, gb_timerid := t\<rparr>) p0 p1"
    by (simp_all add: gb_ok_def)
qed

definition board_full :: "nat list list \<Rightarrow> bool" where
  "board_full b \<longleftrightarrow> stones 0 b = 0"

lemma draw_iff_full:
  assumes "gb_ok s p0 p1" and "gb_nxmover s \<noteq> 0" and "legal_cell (gb_board s) row col"
  shows "draw (after_move s p0 row col) \<longleftrightarrow> board_full (gb_board (after_move s p0 row col))"
proof -
  note B = after_move_board [OF assms] and D = gb_okD [OF assms(1)]
  let ?b = "gb_board (after_move s p0 row col)"
  have "stones white ?b + stones black ?b = unat (gb_nsteps s) + 1"
    using B(3) [of white] B(3) [of black] gb_mover(2,3) [OF assms(1,2)] D(8)
    by (auto simp: white_def black_def mover_color_def)
  moreover have "stones 0 ?b + stones white ?b + stones black ?b = 225"
    using stones_total [OF B(1)] by (simp add: white_def black_def)
  moreover have "draw (after_move s p0 row col) \<longleftrightarrow> unat (gb_nsteps s) + 1 = 225"
    using B(4) by (simp add: draw_def after_move_def maxsteps_def word_unat_eq_iff)
  ultimately show ?thesis by (auto simp: board_full_def)
qed

lemma gb_players_cases: "gb_ok s p0 p1 \<Longrightarrow> other_player (gb_nxmover s) (gg_players (gb_grp s)) =
  (if gb_nxmover s = sp_id p0 then sp_id p1 else sp_id p0)"
  by (auto simp: gb_okD)

lemma after_move_fields [simp]:
  "gb_grp (after_move s p0 row col) = gb_grp s" "gb_nxmover (after_move s p0 row col) = gb_nxmover s"
  "gb_timerid (after_move s p0 row col) = gb_timerid s" "gb_chesscolor (after_move s p0 row col) = gb_chesscolor s"
  "gb_req (after_move s p0 row col) = gb_req s"
  by (simp_all add: after_move_def)

text \<open>The whole move, by its three outcomes.\<close>

lemma handle_move:
  assumes ok: "gb_ok s p0 p1" and st: "GAME_STARTED (gb_grp s)" "\<not> IS_GAME_WATCHER p" "length body = 8"
    and me: "sp_id p = be_u32 body 0" "gb_nxmover s = be_u32 body 0" "sp_id p \<noteq> 0"
    and rc: "row = be_u16 body 4" "col = be_u16 body 6"
  defines "s2 \<equiv> after_move s p0 row col"
  defines "five \<equiv> five_in_row (gb_board s2) (mover_color s p0) (uint row) (uint col)"
  shows "if \<not> legal_cell (gb_board s) row col
    then handle_player_action now tid p body s = Some (s, [RemoveTimer p (gb_timerid s)], -1)
    else \<exists>outs. handle_player_action now tid p body s =
      Some (if five then (s2\<lparr>gb_nxmover := 0\<rparr>, RemoveTimer p (gb_timerid s) # outs, GER_end_of_game)
            else if board_full (gb_board s2) then (s2\<lparr>gb_nxmover := 0\<rparr>, RemoveTimer p (gb_timerid s) # outs, GER_draw_game)
            else (s2\<lparr>gb_nxmover := next_mover s p0 p1, gb_timerid := tid\<rparr>, RemoveTimer p (gb_timerid s) # outs, 0))"
proof -
  have nx: "gb_nxmover s \<noteq> 0" using me by simp
  note P = place_chess_spec [OF ok nx, of row col]
  have chk: "started_check (gb_grp s) p (length body) 8 \<noteq> -1" using st by simp
  note H = handle_player_action_def [of now tid p body s, unfolded Let_def, folded rc, unfolded P if_not_P [OF chk]]
  show ?thesis
  proof (cases "legal_cell (gb_board s) row col")
    case False
    with me show ?thesis by (simp add: H)
  next
    case True
    note B = after_move_board [OF ok nx True]
    have s2: "(s\<lparr>gb_board := put_stone row col (mover_color s p0) (gb_board s)\<rparr>)\<lparr>gb_nsteps :=
      gb_nsteps (s\<lparr>gb_board := put_stone row col (mover_color s p0) (gb_board s)\<rparr>) + 1\<rparr> = s2"
      by (simp add: s2_def after_move_def)
    have ci: "color_index (gb_nxmover s2) s2 = (s2, mover_color s p0)"
    proof (rule color_index_known)
      show "sm_find (gb_chesscolor s2) (gb_nxmover s2) = Some (mover_color s p0)"
        using ok nx gb_okD(2) [OF ok] by (auto simp: gb_ok_def mover_color_def s2_def)
    qed
    have c: "cell (gb_board s2) row col = mover_color s p0" using B(2) by (simp add: s2_def)
    have "row < 15" "col < 15" using True by (simp_all add: legal_cell_def)
    with gb_winner_correct [of row col s2] c ci gb_mover(2) [OF ok nx] obtain adj where
      w: "determine_winner row col s2 = Some (five, adj)" "five \<longrightarrow> length adj = 5"
      unfolding five_def by (metis snd_conv)
    have dr: "draw s2 \<longleftrightarrow> board_full (gb_board s2)" unfolding s2_def by (rule draw_iff_full [OF ok nx True])
    have started: "GAME_STARTED (gb_grp s2)" using st by (simp add: s2_def)
    have nm: "set_nxmover s2 = s2\<lparr>gb_nxmover := next_mover s p0 p1\<rparr>"
      using gb_players_cases [OF ok] by (simp add: set_nxmover_def next_mover_def s2_def)
    have gs: "get_sprite_from_gamegrp (next_mover s p0 p1) (gg_players (gb_grp s2)) \<noteq> None"
      using gb_okD [OF ok] by (simp add: next_mover_def s2_def)
    then obtain op where op: "get_sprite_from_gamegrp (next_mover s p0 p1) (gg_players (gb_grp s2)) = Some op" by blast
    have sc: "\<exists>os. send_game_score p a b (s2\<lparr>gb_nxmover := 0\<rparr>) = Some os" for a b
      using started by (simp add: send_game_score_def Let_def)
    obtain os where os: "send_game_score p 0 1 (s2\<lparr>gb_nxmover := 0\<rparr>) = Some os" using sc by blast
    obtain os2 where os2: "send_game_score p 2 2 (s2\<lparr>gb_nxmover := 0\<rparr>) = Some os2" using sc by blast
    show ?thesis
      unfolding H if_P [OF True] prod.case s2 w(1)
      using True me w(2) dr os os2 nm op
      by (cases five; cases "board_full (gb_board s2)")
        (auto simp: notify_winner5_def add_move_timer_def)
  qed
qed

lemma gb_ok_req: "gb_ok (s\<lparr>gb_req := m\<rparr>) p0 p1 = gb_ok s p0 p1"
  by (simp add: gb_ok_def)

lemma gb_ok_grp: "gg_players g = gg_players (gb_grp s) \<Longrightarrow> gb_ok (s\<lparr>gb_grp := g\<rparr>) p0 p1 = gb_ok s p0 p1"
  by (simp add: gb_ok_def)

lemma gb_ok_timer: "gb_ok (s\<lparr>gb_timerid := t\<rparr>) p0 p1 = gb_ok s p0 p1"
  by (simp add: gb_ok_def)

lemma action_ok:
  assumes "gb_ok s p0 p1" and "sp_id p \<noteq> 0"
  shows "\<exists>s' outs rv. handle_player_action now tid p body s = Some (s', outs, rv) \<and> gb_ok s' p0 p1 \<and> gb_grp s' = gb_grp s"
proof (cases "started_check (gb_grp s) p (length body) 8 = -1 \<or> sp_id p \<noteq> be_u32 body 0 \<or> gb_nxmover s \<noteq> be_u32 body 0")
  case True
  with assms show ?thesis by (auto simp: handle_player_action_def Let_def)
next
  case False
  then have st: "GAME_STARTED (gb_grp s)" "\<not> IS_GAME_WATCHER p" "length body = 8"
    "sp_id p = be_u32 body 0" "gb_nxmover s = be_u32 body 0" by auto
  let ?row = "be_u16 body 4" and ?col = "be_u16 body 6"
  note H = handle_move [OF assms(1) st assms(2) refl refl, of now tid]
  show ?thesis
  proof (cases "legal_cell (gb_board s) ?row ?col")
    case False
    with H assms(1) show ?thesis by simp
  next
    case True
    have nx: "gb_nxmover s \<noteq> 0" using st assms(2) by simp
    note A = after_move_ok [OF assms(1) nx True]
    have "gb_grp ((after_move s p0 ?row ?col)\<lparr>gb_nxmover := m\<rparr>) = gb_grp s"
      "gb_grp ((after_move s p0 ?row ?col)\<lparr>gb_nxmover := m, gb_timerid := t\<rparr>) = gb_grp s" for m t by simp_all
    moreover have "\<not> \<not> legal_cell (gb_board s) ?row ?col" using True by simp
    note H [unfolded if_not_P [OF this]]
    ultimately show ?thesis using A by (auto split: if_splits)
  qed
qed

lemma req_ok:
  assumes "gb_ok s p0 p1"
  shows "\<exists>s' outs rv. handle_player_req p body s = Some (s', outs, rv) \<and> gb_ok s' p0 p1 \<and> gb_grp s' = gb_grp s"
  using assms
  by (auto simp: handle_player_req_def add_player_req_def notify_player_req_def Let_def gb_ok_req split: prod.split)

lemma rsp_ok:
  assumes "gb_ok s p0 p1"
  shows "\<exists>s' outs rv. handle_rsp_player_req p body s = Some (s', outs, rv) \<and> gb_ok s' p0 p1 \<and> gb_grp s' = gb_grp s"
proof -
  obtain s1 b where c: "chk_player_req (be_u32 body 0) (body ! 4) s = (s1, b)" by (metis prod.collapse)
  note H = handle_rsp_player_req_def [of p body s, unfolded Let_def c prod.case]
  have s1: "gb_ok s1 p0 p1" "gb_grp s1 = gb_grp s"
    using assms c by (auto simp: chk_player_req_def gb_ok_req split: option.splits if_splits)
  show ?thesis
  proof (cases "started_check (gb_grp s) p (length body) 5 = -1 \<or> 2 < body ! 4 \<or> \<not> b")
    case True
    with assms s1 show ?thesis by (auto simp: H)
  next
    case False
    then have "GAME_STARTED (gb_grp s)" by simp
    then have "\<exists>os. send_game_score p i j s1 = Some os" "\<exists>o1. rsp_player_req a u r s1 = Some o1" for i j a u r
      using s1(2) by (simp_all add: send_game_score_def rsp_player_req_def Let_def)
    then obtain o1 o2 o3 where
      "rsp_player_req (sp_id p) (be_u32 body 0) (body ! 4) s1 = Some o1"
      "send_game_score p 2 2 s1 = Some o2" "send_game_score p 3 4 s1 = Some o3" by metis
    with False s1 show ?thesis by (auto simp: H)
  qed
qed

text \<open>The games: constructed on two players, initialised, and fed with any data.\<close>

inductive gb_reach :: "sprite \<Rightarrow> sprite \<Rightarrow> gobang \<Rightarrow> bool" for p0 p1 where
  gb_start: "gobang_new g = Some s \<Longrightarrow> gg_players g = [p0, p1] \<Longrightarrow> sp_id p0 \<noteq> sp_id p1 \<Longrightarrow>
     sp_id p0 \<noteq> 0 \<Longrightarrow> sp_id p1 \<noteq> 0 \<Longrightarrow> gb_reach p0 p1 s"
| gb_begin: "gb_reach p0 p1 s \<Longrightarrow> gobang_init now tid p s = Some (s', outs) \<Longrightarrow> gb_reach p0 p1 s'"
| gb_data: "gb_reach p0 p1 s \<Longrightarrow> sp_id p \<noteq> 0 \<Longrightarrow> handle_data now tid p cmd body s = Some (s', outs, rv) \<Longrightarrow>
     gb_reach p0 p1 s'"

lemma gobang_new_ok:
  assumes "gobang_new g = Some s" "gg_players g = [p0, p1]" "sp_id p0 \<noteq> sp_id p1" "sp_id p0 \<noteq> 0" "sp_id p1 \<noteq> 0"
  shows "gb_ok s p0 p1"
proof -
  have "stones c (replicate 15 (replicate 15 0)) = 0" if "c \<noteq> 0" for c
    using that by (simp add: stones_def count_list_0_iff)
  moreover have "sm_ok (sm_assign (sp_id p0) white [])" by simp
  ultimately show ?thesis using assms
    by (auto simp: gobang_new_def gb_ok_def board_ok_def white_def black_def fun_upd_twist)
qed

lemma pack_board_ok: "gb_ok s p0 p1 \<Longrightarrow> \<exists>b. pack_board_info s = Some (s, b)"
  using gb_okD [of s p0 p1] by (simp add: pack_board_info_def color_index_known)

lemma gobang_init_ok:
  assumes "gb_ok s p0 p1" and "gobang_init now tid p s = Some (s', outs)"
  shows "gb_ok s' p0 p1"
proof -
  let ?s1 = "s\<lparr>gb_grp := SET_GAME_START (gb_grp s)\<rparr>"
  have 1: "gb_ok ?s1 p0 p1" using assms(1) gb_ok_grp [of "SET_GAME_START (gb_grp s)" s] by simp
  from pack_board_ok [OF 1] have n: "\<exists>os. notify_board_info ?s1 = Some (?s1, os)"
    by (auto simp: notify_board_info_def)
  from pack_board_ok [OF assms(1)] have m: "notify_board_info_to p s = Some (t, os) \<Longrightarrow> t = s" for t os
    by (auto simp: notify_board_info_to_def split: if_splits)
  show ?thesis
  proof (cases "IS_GAME_PLAYER p")
    case True
    with assms(2) n 1 show ?thesis
      by (auto simp: gobang_init_def Let_def add_move_timer_def gb_ok_timer split: if_splits option.splits)
  next
    case False
    with assms m show ?thesis by (auto simp: gobang_init_def split: if_splits)
  qed
qed

lemma data_ok:
  assumes "gb_ok s p0 p1" and "sp_id p \<noteq> 0" and "handle_data now tid p cmd body s = Some (s', outs, rv)"
  shows "gb_ok s' p0 p1"
  using assms(3) action_ok [OF assms(1,2), of now tid body] req_ok [OF assms(1), of p body]
    rsp_ok [OF assms(1), of p body] assms(1)
  by (auto simp: handle_data_def handle_player_leave_def split: if_splits)

lemma gb_reach_ok: "gb_reach p0 p1 s \<Longrightarrow> gb_ok s p0 p1"
  by (induction rule: gb_reach.induct) (auto intro: gobang_new_ok gobang_init_ok data_ok)

section \<open>Properties of the games\<close>

text \<open>
  C5: in every game of two different players, whatever data arrives from whomever: the board keeps
  its shape and colours, the step counter is the number of stones, white has as many stones as
  black or one more, and the next mover is white's or black's player accordingly (0 once the game
  is decided). While the game is on, no data makes an assertion fail or a null pointer be followed.
\<close>
theorem gb_game_invariant:
  assumes "gb_reach p0 p1 s"
  shows "board_ok (gb_board s) \<and>
    unat (gb_nsteps s) = stones white (gb_board s) + stones black (gb_board s) \<and>
    (gb_nxmover s = sp_id p0 \<and> stones white (gb_board s) = stones black (gb_board s) \<or>
     gb_nxmover s = sp_id p1 \<and> stones white (gb_board s) = stones black (gb_board s) + 1 \<or>
     gb_nxmover s = 0 \<and> stones white (gb_board s) \<in> {stones black (gb_board s), stones black (gb_board s) + 1}) \<and>
    (GAME_STARTED (gb_grp s) \<and> sp_id p \<noteq> 0 \<longrightarrow> handle_data now tid p cmd body s \<noteq> None)"
proof -
  note ok = gb_reach_ok [OF assms]
  have "handle_data now tid p cmd body s \<noteq> None" if "GAME_STARTED (gb_grp s)" "sp_id p \<noteq> 0"
    using action_ok [OF ok that(2), of now tid body] req_ok [OF ok, of p body] rsp_ok [OF ok, of p body] that(1)
    by (auto simp: handle_data_def handle_player_leave_def send_game_score_def Let_def)
  with ok show ?thesis unfolding gb_ok_def by blast
qed

definition new_game :: gobang where
  "new_game = the (gobang_new two_players)"

lemma new_game_reach: "gb_reach \<lparr>sp_id = 100001, sp_pos_id = 1, sp_status = 1\<rparr> \<lparr>sp_id = 100002, sp_pos_id = 2, sp_status = 1\<rparr> new_game"
  by (rule gb_start [of two_players]) (simp_all add: new_game_def gobang_new_def two_players_def)

theorem gb_game_invariant_witness:
  "handle_data 0 7 \<lparr>sp_id = 100001, sp_pos_id = 1, sp_status = 1\<rparr> gobang_action
      [0, 1, 134, 161, 0, 7, 0, 7] new_game \<noteq> None"
proof -
  have "GAME_STARTED (gb_grp new_game)"
    by (simp add: new_game_def gobang_new_def two_players_def GAME_STARTED_def)
  then show ?thesis
    using gb_game_invariant [OF new_game_reach, of "\<lparr>sp_id = 100001, sp_pos_id = 1, sp_status = 1\<rparr>" 0 7 gobang_action] by simp
qed

text \<open>
  C20: an action of the mover on an empty cell puts one stone of the mover's colour there and changes
  no other cell; the move ends the game as won exactly when it makes five in a row, as drawn
  exactly when it fills the board without, and otherwise hands the turn to the other player.
\<close>
theorem gb_move_outcome:
  assumes "gb_reach p0 p1 s" and "GAME_STARTED (gb_grp s)" and "\<not> IS_GAME_WATCHER p" and "length body = 8"
    and "sp_id p = be_u32 body 0" and "gb_nxmover s = be_u32 body 0" and "sp_id p \<noteq> 0"
    and "legal_cell (gb_board s) (be_u16 body 4) (be_u16 body 6)"
  shows "\<exists>s' outs rv. handle_data now tid p gobang_action body s = Some (s', outs, rv) \<and>
    cell (gb_board s') (be_u16 body 4) (be_u16 body 6) = mover_color s p0 \<and>
    (\<forall>x y. (x, y) \<noteq> (be_u16 body 4, be_u16 body 6) \<longrightarrow> x < 15 \<longrightarrow> y < 15 \<longrightarrow>
       cell (gb_board s') x y = cell (gb_board s) x y) \<and>
    (let five = five_in_row (gb_board s') (mover_color s p0) (uint (be_u16 body 4)) (uint (be_u16 body 6));
         full = stones 0 (gb_board s') = 0
     in (rv = GER_end_of_game \<longleftrightarrow> five) \<and> (rv = GER_draw_game \<longleftrightarrow> \<not> five \<and> full) \<and>
        (rv = 0 \<longleftrightarrow> \<not> five \<and> \<not> full) \<and>
        (rv = 0 \<longrightarrow> gb_nxmover s' = (if gb_nxmover s = sp_id p0 then sp_id p1 else sp_id p0)) \<and>
        (rv \<noteq> 0 \<longrightarrow> gb_nxmover s' = 0))"
proof -
  note ok = gb_reach_ok [OF assms(1)]
  let ?row = "be_u16 body 4" and ?col = "be_u16 body 6"
  let ?s2 = "after_move s p0 ?row ?col"
  have nx: "gb_nxmover s \<noteq> 0" using assms(5-7) by simp
  have nl: "\<not> \<not> legal_cell (gb_board s) ?row ?col" using assms(8) by simp
  note H = handle_move [OF ok assms(2-7) refl refl, of now tid, unfolded if_not_P [OF nl]]
  then obtain outs where h: "handle_data now tid p gobang_action body s =
      Some (if five_in_row (gb_board ?s2) (mover_color s p0) (uint ?row) (uint ?col)
            then (?s2\<lparr>gb_nxmover := 0\<rparr>, RemoveTimer p (gb_timerid s) # outs, GER_end_of_game)
            else if board_full (gb_board ?s2) then (?s2\<lparr>gb_nxmover := 0\<rparr>, RemoveTimer p (gb_timerid s) # outs, GER_draw_game)
            else (?s2\<lparr>gb_nxmover := next_mover s p0 p1, gb_timerid := tid\<rparr>, RemoveTimer p (gb_timerid s) # outs, 0))"
    by (auto simp: handle_data_def)
  have c: "cell (gb_board ?s2) ?row ?col = mover_color s p0" by (rule after_move_board(2) [OF ok nx assms(8)])
  have o: "cell (gb_board ?s2) x y = cell (gb_board s) x y" if "(x, y) \<noteq> (?row, ?col)" for x y
  proof (cases "x = ?row")
    case True
    with that have "unat y \<noteq> unat ?col" by (simp add: word_unat_eq_iff)
    with True show ?thesis
      by (cases "unat ?row < length (gb_board s)") (simp_all add: after_move_def put_stone_def list_update_beyond not_less)
  next
    case False
    then have "unat x \<noteq> unat ?row" by (simp add: word_unat_eq_iff)
    then show ?thesis by (simp add: after_move_def put_stone_def)
  qed
  show ?thesis
    by (simp only: h)
      (use c o in \<open>auto simp: board_full_def next_mover_def GER_end_of_game_def GER_draw_game_def Let_def split: if_splits\<close>)
qed

lemma new_game_facts:
  "GAME_STARTED (gb_grp new_game)" "gb_nxmover new_game = 100001" "gb_req new_game = []"
  "gb_board new_game = replicate 15 (replicate 15 0)" "gb_timerid new_game = 0"
  by (simp_all add: new_game_def gobang_new_def two_players_def GAME_STARTED_def)

lemma move_body:
  "be_u32 [0, 1, 134, 161, 0, 7, 0, 7] 0 = 100001" "be_u16 [0, 1, 134, 161, 0, 7, 0, 7] 4 = 7"
  "be_u16 [0, 1, 134, 161, 0, 7, 0, 7] 6 = 7"
  by (simp_all add: be_u32_def be_u16_def)

theorem gb_move_outcome_witness:
  "\<exists>s' outs rv. handle_data 0 7 \<lparr>sp_id = 100001, sp_pos_id = 1, sp_status = 1\<rparr> gobang_action [0, 1, 134, 161, 0, 7, 0, 7] new_game =
      Some (s', outs, rv) \<and> cell (gb_board s') 7 7 = white \<and>
    (\<forall>x y. (x, y) \<noteq> (7, 7) \<longrightarrow> x < 15 \<longrightarrow> y < 15 \<longrightarrow> cell (gb_board s') x y = cell (gb_board new_game) x y) \<and>
    (rv = 0 \<longrightarrow> gb_nxmover s' = 100002)"
proof -
  have l: "legal_cell (gb_board new_game) (be_u16 [0, 1, 134, 161, 0, 7, 0, 7] 4) (be_u16 [0, 1, 134, 161, 0, 7, 0, 7] 6)"
    by (simp add: move_body legal_cell_def new_game_facts)
  have "mover_color new_game \<lparr>sp_id = 100001, sp_pos_id = 1, sp_status = 1\<rparr> = white"
    by (simp add: mover_color_def new_game_facts)
  then show ?thesis
    using gb_move_outcome [OF new_game_reach new_game_facts(1) _ _ _ _ _ l, of "\<lparr>sp_id = 100001, sp_pos_id = 1, sp_status = 1\<rparr>" 0 7]
    by (simp add: move_body new_game_facts Let_def) blast
qed

text \<open>
  C35: a player can win by surrendering: nobody checks that the answer to a request comes from the
  other player, so a player who asks to surrender and then agrees to the own request is announced
  as the winner.
\<close>
theorem gb_self_surrender_wins:
  assumes "gb_reach p0 p1 s" and "GAME_STARTED (gb_grp s)" and "\<not> IS_GAME_WATCHER p"
    and "sm_find (gb_req s) (sp_id p) = None"
    and "length body = 5" and "be_u32 body 0 = sp_id p" and "body ! 4 = 2"
  shows "\<exists>s1 o1 s2 o2. handle_data now tid p proto_player_req [2] s = Some (s1, o1, 0) \<and>
    handle_data now tid p proto_notify_player_req body s1 = Some (s2, o2, GER_player_surrender) \<and>
    ToGroup (WinPkg (sp_id p)) \<in> set o2"
proof -
  let ?s1 = "s\<lparr>gb_req := sm_assign (sp_id p) 2 (gb_req s)\<rparr>"
  have a: "sm_insert (sp_id p) 2 (gb_req s) = (sm_assign (sp_id p) 2 (gb_req s), True)"
    using assms(4) by (simp add: sm_insert_def)
  have 1: "handle_data now tid p proto_player_req [2] s = Some (?s1, [ToOthers (sp_id p) (NotifReqPkg (sp_id p) 2)], 0)"
    using assms(2,3) a
    by (simp add: handle_data_def gobang_action_def proto_player_req_def handle_player_req_def add_player_req_def
      notify_player_req_def Let_def)
  let ?s2 = "?s1\<lparr>gb_req := sm_erase (sp_id p) (gb_req ?s1)\<rparr>"
  have c: "chk_player_req (sp_id p) 2 ?s1 = (?s2, True)"
    by (simp add: chk_player_req_def)
  have "\<exists>os. send_game_score p 3 4 ?s2 = Some os" using assms(2) by (simp add: send_game_score_def Let_def)
  then obtain os where "send_game_score p 3 4 ?s2 = Some os" by blast
  then have 2: "handle_data now tid p proto_notify_player_req body ?s1 =
    Some (?s2, [ToOthers (sp_id p) (RspPkg (sp_id p) (sp_id p) 2)] @ notify_winner (sp_id p) @ os, GER_player_surrender)"
    using assms(2,3,5,6,7) c
    by (simp add: handle_data_def gobang_action_def proto_player_req_def proto_notify_player_req_def
      handle_rsp_player_req_def rsp_player_req_def Let_def)
  show ?thesis by (intro exI conjI, rule 1, rule 2) (simp add: notify_winner_def)
qed

theorem gb_self_surrender_wins_witness:
  "\<exists>s1 o1 s2 o2. handle_data 0 7 \<lparr>sp_id = 100002, sp_pos_id = 2, sp_status = 1\<rparr> proto_player_req [2] new_game = Some (s1, o1, 0) \<and>
    handle_data 0 7 \<lparr>sp_id = 100002, sp_pos_id = 2, sp_status = 1\<rparr> proto_notify_player_req [0, 1, 134, 162, 2] s1 =
      Some (s2, o2, GER_player_surrender) \<and>
    ToGroup (WinPkg 100002) \<in> set o2"
  using gb_self_surrender_wins [OF new_game_reach new_game_facts(1), of "\<lparr>sp_id = 100002, sp_pos_id = 2, sp_status = 1\<rparr>"
      "[0, 1, 134, 162, 2]" 0 7]
  by (simp add: new_game_facts be_u32_def)

end
