(* ===== verification/ChessRule.thy ===== *)
theory ChessRule
  imports GameGroup
begin

unbundle bit_operations_syntax

text \<open>
  The rules of Chinese chess, \<open>src/mole/gamesvr/games/chinesechess/cnchessrule.hpp\<close>: the board of 10
  rows and 9 columns, the movements of the pieces, check, and the end of a game. The fields
  \<open>from_x_\<close>, \<open>from_y_\<close>, \<open>to_x_\<close>, \<open>to_y_\<close> are written at the start of \<open>place_chess\<close> and read only during
  it: they are arguments here. A failed assertion and a read outside the board by one of the loops
  of the check are \<open>None\<close>. An array of two is a list, a \<open>std::multimap\<close> its pairs in order.
\<close>

section \<open>Pieces and the object\<close>

definition CNCHESS_Chariot :: u8 where "CNCHESS_Chariot = 1"
definition CNCHESS_Horse :: u8 where "CNCHESS_Horse = 2"
definition CNCHESS_Elephant :: u8 where "CNCHESS_Elephant = 3"
definition CNCHESS_Mandarin :: u8 where "CNCHESS_Mandarin = 4"
definition CNCHESS_General :: u8 where "CNCHESS_General = 5"
definition CNCHESS_Cannon :: u8 where "CNCHESS_Cannon = 6"
definition CNCHESS_Soldier :: u8 where "CNCHESS_Soldier = 7"
definition CNCHESS_Mask :: u8 where "CNCHESS_Mask = 7"
definition CNCHESS_RedSide :: u8 where "CNCHESS_RedSide = 64"
definition CNCHESS_BlackSide :: u8 where "CNCHESS_BlackSide = 128"

lemmas cn_consts = CNCHESS_Chariot_def CNCHESS_Horse_def CNCHESS_Elephant_def CNCHESS_Mandarin_def
  CNCHESS_General_def CNCHESS_Cannon_def CNCHESS_Soldier_def CNCHESS_Mask_def CNCHESS_RedSide_def
  CNCHESS_BlackSide_def

type_synonym coordinate = "u8 \<times> u8"
type_synonym chess_multimap = "(u8 \<times> coordinate) list"

record cn_rule =
  cn_board :: "u8 list list"
  cn_flag :: u8
  cn_nsteps :: u8
  cn_move_order :: "u32 list"
  cn_nxmover :: nat
  cn_nx_mover :: u32
  cn_maps :: "chess_multimap list"
  cn_gpos :: "coordinate list"

datatype chess_pkg =
    CgStart u32
  | CgAct u32 "byte list" u8
  | CgBoard u32 u32 u8 "u8 list list"
  | CgWinner u32
  | CgReq u32 u8
  | CgRsp u32 u32 u8

definition chess :: "u8 \<Rightarrow> u8" where
  "chess v = v AND CNCHESS_Mask"

abbreviation sq :: "u8 list list \<Rightarrow> u8 \<Rightarrow> u8 \<Rightarrow> u8" where
  "sq b x y \<equiv> b ! unat x ! unat y"

definition chess_at :: "u8 list list \<Rightarrow> u8 \<Rightarrow> u8 \<Rightarrow> u8" where
  "chess_at b x y = chess (sq b x y)"

definition set_square :: "u8 \<Rightarrow> u8 \<Rightarrow> u8 \<Rightarrow> cn_rule \<Rightarrow> cn_rule" where
  "set_square x y v s = s\<lparr>cn_board := (cn_board s)[unat x := (cn_board s ! unat x)[unat y := v]]\<rparr>"

section \<open>The initial position\<close>

text \<open>\<open>insert\<close> of a multimap puts a pair behind those with the same key.\<close>

definition mm_insert :: "u8 \<Rightarrow> coordinate \<Rightarrow> chess_multimap \<Rightarrow> chess_multimap" where
  "mm_insert k c m = takeWhile (\<lambda>e. fst e \<le> k) m @ (k, c) # dropWhile (\<lambda>e. fst e \<le> k) m"

definition side_index :: "u8 \<Rightarrow> nat" where
  "side_index side = (if side = CNCHESS_BlackSide then 1 else 0)"

definition enter_chess :: "u8 \<Rightarrow> u8 \<Rightarrow> u8 \<Rightarrow> cn_rule \<Rightarrow> cn_rule" where
  "enter_chess x y side s =
     s\<lparr>cn_maps := (cn_maps s)[side_index side := mm_insert (sq (cn_board s) x y) (x, y) (cn_maps s ! side_index side)]\<rparr>"

definition base_square :: "u8 \<Rightarrow> u8 \<Rightarrow> u8 \<Rightarrow> u8 \<Rightarrow> cn_rule \<Rightarrow> cn_rule" where
  "base_square x side y t s =
     (let s1 = set_square x y (t OR side) s; c = chess_at (cn_board s1) x y in
      if c = CNCHESS_Chariot \<or> c = CNCHESS_Horse then enter_chess x y side s1
      else if c = CNCHESS_General then s1\<lparr>cn_gpos := (cn_gpos s1)[side_index side := (x, y)]\<rparr>
      else s1)"

definition setbaseline :: "u8 \<Rightarrow> u8 \<Rightarrow> cn_rule \<Rightarrow> cn_rule" where
  "setbaseline x side s =
     fold (\<lambda>(i, rl). base_square x side i rl) [(5, 4), (6, 3), (7, 2), (8, 1)]
       (fold (\<lambda>i. base_square x side i (i + 1)) [0, 1, 2, 3, 4] s)"

definition setcannons :: "u8 \<Rightarrow> u8 \<Rightarrow> cn_rule \<Rightarrow> cn_rule" where
  "setcannons x side s =
     enter_chess x 7 side (enter_chess x 1 side
       (set_square x 7 (CNCHESS_Cannon OR side) (set_square x 1 (CNCHESS_Cannon OR side) s)))"

definition setsoldiers :: "u8 \<Rightarrow> u8 \<Rightarrow> cn_rule \<Rightarrow> cn_rule" where
  "setsoldiers x side s =
     fold (\<lambda>i s. enter_chess x i side (set_square x i (CNCHESS_Soldier OR side) s)) [0, 2, 4, 6, 8] s"

text \<open>
  The players in the order of their positions; \<open>None\<close> where the search for a position runs past the
  players of the group.
\<close>

fun arrange_players :: "u8 list \<Rightarrow> sprite list \<Rightarrow> u32 list option" where
  "arrange_players [] ps = Some []"
| "arrange_players (i # is) ps =
     (case find (\<lambda>q. sp_pos_id q = i) ps of
        None \<Rightarrow> None
      | Some q \<Rightarrow> map_option (Cons (sp_id q)) (arrange_players is ps))"

definition cn_rule_new :: "game_group \<Rightarrow> cn_rule option" where
  "cn_rule_new g =
     (let s0 = \<lparr>cn_board = replicate 10 (replicate 9 0), cn_flag = 0, cn_nsteps = 0, cn_move_order = [],
                cn_nxmover = 0, cn_nx_mover = 0, cn_maps = [[], []], cn_gpos = [(0, 0), (0, 0)]\<rparr>;
          s1 = setcannons 7 CNCHESS_BlackSide (setcannons 2 CNCHESS_RedSide
                 (setsoldiers 6 CNCHESS_BlackSide (setsoldiers 3 CNCHESS_RedSide
                   (setbaseline 9 CNCHESS_BlackSide (setbaseline 0 CNCHESS_RedSide s0)))))
      in (case arrange_players (map of_nat [1..<length (gg_players g) + 1]) (gg_players g) of
            Some (u # us) \<Rightarrow> Some (s1\<lparr>cn_move_order := u # us, cn_nxmover := 0, cn_nx_mover := u\<rparr>)
          | _ \<Rightarrow> None))"

text \<open>\<open>nextmover\<close>, with the iterator as an index.\<close>

definition cn_nextmover :: "cn_rule \<Rightarrow> cn_rule \<times> u32" where
  "cn_nextmover s =
     (let i = (if cn_nxmover s = length (cn_move_order s) then 0 else cn_nxmover s);
          u = cn_move_order s ! i
      in (s\<lparr>cn_nxmover := i + 1, cn_nx_mover := u\<rparr>, u))"

section \<open>Movements\<close>

definition side_type :: "sprite \<Rightarrow> u8" where
  "side_type p = [CNCHESS_RedSide, CNCHESS_BlackSide] ! (unat (sp_pos_id p) - 1)"

definition isyourchess :: "sprite \<Rightarrow> u8 \<Rightarrow> bool" where
  "isyourchess p v \<longleftrightarrow> v AND side_type p \<noteq> 0"

definition isyourchess_at :: "sprite \<Rightarrow> u8 \<Rightarrow> u8 \<Rightarrow> cn_rule \<Rightarrow> bool" where
  "isyourchess_at p x y s \<longleftrightarrow> sq (cn_board s) x y AND side_type p \<noteq> 0"

definition isvalid :: "sprite \<Rightarrow> u8 \<Rightarrow> u8 \<Rightarrow> u8 \<Rightarrow> u8 \<Rightarrow> cn_rule \<Rightarrow> bool" where
  "isvalid p fx fy tx ty s \<longleftrightarrow>
     \<not> (9 < fx \<or> 8 < fy \<or> 9 < tx \<or> 8 < ty \<or> fx = tx \<and> fy = ty \<or>
        \<not> isyourchess_at p fx fy s \<or> isyourchess_at p tx ty s)"

definition offpalace :: "sprite \<Rightarrow> u8 \<Rightarrow> u8 \<Rightarrow> bool" where
  "offpalace p tx ty \<longleftrightarrow> ty < 3 \<or> 5 < ty \<or> (if sp_pos_id p = 1 then 2 < tx else tx < 7)"

definition offriver :: "sprite \<Rightarrow> u8 \<Rightarrow> bool" where
  "offriver p tx \<longleftrightarrow> (if sp_pos_id p = 1 then 4 < tx else tx < 5)"

lemma word_step_less: "i \<noteq> u \<Longrightarrow> unat (u - (i + 1)) < unat (u - i)" for i u :: u8
proof -
  assume "i \<noteq> u"
  then have "u - i \<noteq> 0" by simp
  moreover have "u - (i + 1) = (u - i) - 1" by simp
  ultimately show ?thesis by (metis measure_unat)
qed

text \<open>The loops of \<open>chariot_movable\<close> and \<open>cannon_movable\<close> along a row or column \<open>f\<close>.\<close>

function line_empty :: "(u8 \<Rightarrow> u8) \<Rightarrow> u8 \<Rightarrow> u8 \<Rightarrow> bool" where
  "line_empty f i upbound =
     (if i = upbound then True else if f i \<noteq> 0 then False else line_empty f (i + 1) upbound)"
  by pat_completeness auto
termination by (relation "measure (\<lambda>(f, i, u). unat (u - i))") (auto intro: word_step_less)

declare line_empty.simps [simp del]

function cannon_line :: "(u8 \<Rightarrow> u8) \<Rightarrow> u8 \<Rightarrow> u8 \<Rightarrow> u8 \<Rightarrow> u8 option" where
  "cannon_line f i upbound cnt =
     (if i = upbound then Some cnt
      else if f i \<noteq> 0 then if cnt + 1 = 2 then None else cannon_line f (i + 1) upbound (cnt + 1)
      else cannon_line f (i + 1) upbound cnt)"
  by pat_completeness auto
termination by (relation "measure (\<lambda>(f, i, u, c). unat (u - i))") (auto intro: word_step_less)

declare cannon_line.simps [simp del]

definition chariot_movable :: "u8 \<Rightarrow> u8 \<Rightarrow> bool \<Rightarrow> u8 \<Rightarrow> u8 \<Rightarrow> cn_rule \<Rightarrow> bool" where
  "chariot_movable beg endp flag tx ty s =
     (let (i, upbound) = (if beg < endp then (beg + 1, endp) else (endp + 1, beg)) in
      if flag then line_empty (\<lambda>i. sq (cn_board s) i ty) i upbound
      else line_empty (\<lambda>i. sq (cn_board s) tx i) i upbound)"

definition cannon_movable :: "u8 \<Rightarrow> u8 \<Rightarrow> bool \<Rightarrow> u8 \<Rightarrow> u8 \<Rightarrow> cn_rule \<Rightarrow> bool" where
  "cannon_movable beg endp flag tx ty s =
     (let (i, upbound) = (if beg < endp then (beg + 1, endp) else (endp + 1, beg)) in
      case (if flag then cannon_line (\<lambda>i. sq (cn_board s) i ty) i upbound 0
            else cannon_line (\<lambda>i. sq (cn_board s) tx i) i upbound 0) of
        None \<Rightarrow> False
      | Some cnt \<Rightarrow> (if chess_at (cn_board s) tx ty \<noteq> 0 then cnt \<noteq> 0 else cnt = 0))"

definition horse_movable :: "u8 \<Rightarrow> u8 \<Rightarrow> u8 \<Rightarrow> u8 \<Rightarrow> cn_rule \<Rightarrow> bool" where
  "horse_movable fx fy tx ty s \<longleftrightarrow>
     \<bar>uint ty - uint fy\<bar> = 1 \<and>
       (uint tx - uint fx = 2 \<and> sq (cn_board s) (fx + 1) fy = 0 \<or>
        uint fx - uint tx = 2 \<and> sq (cn_board s) (fx - 1) fy = 0) \<or>
     \<bar>uint tx - uint fx\<bar> = 1 \<and>
       (uint ty - uint fy = 2 \<and> sq (cn_board s) fx (fy + 1) = 0 \<or>
        uint fy - uint ty = 2 \<and> sq (cn_board s) fx (fy - 1) = 0)"

definition elephant_movable :: "sprite \<Rightarrow> u8 \<Rightarrow> u8 \<Rightarrow> u8 \<Rightarrow> u8 \<Rightarrow> cn_rule \<Rightarrow> bool" where
  "elephant_movable p fx fy tx ty s \<longleftrightarrow>
     \<bar>uint fx - uint tx\<bar> = 2 \<and> \<bar>uint fy - uint ty\<bar> = 2 \<and> \<not> offriver p tx \<and>
     chess_at (cn_board s) (fx + (if fx < tx then 1 else 255)) (fy + (if fy < ty then 1 else 255)) = 0"

definition mandarin_movable :: "sprite \<Rightarrow> u8 \<Rightarrow> u8 \<Rightarrow> u8 \<Rightarrow> u8 \<Rightarrow> bool" where
  "mandarin_movable p fx fy tx ty \<longleftrightarrow>
     \<bar>uint fx - uint tx\<bar> = 1 \<and> \<bar>uint fy - uint ty\<bar> = 1 \<and> \<not> offpalace p tx ty"

definition soldier_movable :: "sprite \<Rightarrow> u8 \<Rightarrow> u8 \<Rightarrow> u8 \<Rightarrow> u8 \<Rightarrow> bool" where
  "soldier_movable p fx fy tx ty =
     (if fx = tx then \<bar>uint fy - uint ty\<bar> = 1 \<and> offriver p tx
      else if fy = ty then uint tx - uint fx = 1 * (if sp_pos_id p = 1 then 1 else -1)
      else False)"

definition general_movable :: "sprite \<Rightarrow> u8 \<Rightarrow> u8 \<Rightarrow> u8 \<Rightarrow> u8 \<Rightarrow> bool" where
  "general_movable p fx fy tx ty \<longleftrightarrow>
     \<not> offpalace p tx ty \<and>
     (if fx = tx then \<bar>uint fy - uint ty\<bar> = 1 else if fy = ty then \<bar>uint fx - uint tx\<bar> = 1 else False)"

definition movable :: "sprite \<Rightarrow> u8 \<Rightarrow> u8 \<Rightarrow> u8 \<Rightarrow> u8 \<Rightarrow> cn_rule \<Rightarrow> bool" where
  "movable p fx fy tx ty s =
     (let c = chess_at (cn_board s) fx fy in
      if c = CNCHESS_Chariot then
        if fx \<noteq> tx \<and> fy \<noteq> ty then False
        else if fx \<noteq> tx then chariot_movable fx tx True tx ty s else chariot_movable fy ty False tx ty s
      else if c = CNCHESS_Horse then horse_movable fx fy tx ty s
      else if c = CNCHESS_Cannon then
        if fx \<noteq> tx \<and> fy \<noteq> ty then False
        else if fx \<noteq> tx then cannon_movable fx tx True tx ty s else cannon_movable fy ty False tx ty s
      else if c = CNCHESS_Elephant then elephant_movable p fx fy tx ty s
      else if c = CNCHESS_Mandarin then mandarin_movable p fx fy tx ty
      else if c = CNCHESS_Soldier then soldier_movable p fx fy tx ty
      else if c = CNCHESS_General then general_movable p fx fy tx ty
      else False)"

section \<open>The pieces by kind\<close>

text \<open>The loops over an \<open>equal_range\<close>: they change or erase the first pair with the key and place.\<close>

fun mm_move :: "u8 \<Rightarrow> coordinate \<Rightarrow> coordinate \<Rightarrow> chess_multimap \<Rightarrow> chess_multimap" where
  "mm_move k c c' [] = []"
| "mm_move k c c' (e # m) = (if e = (k, c) then (k, c') # m else e # mm_move k c c' m)"

fun mm_erase :: "u8 \<Rightarrow> coordinate \<Rightarrow> chess_multimap \<Rightarrow> chess_multimap" where
  "mm_erase k c [] = []"
| "mm_erase k c (e # m) = (if e = (k, c) then m else e # mm_erase k c m)"

definition adjust_chessmap :: "sprite \<Rightarrow> u8 \<Rightarrow> u8 \<Rightarrow> u8 \<Rightarrow> u8 \<Rightarrow> cn_rule \<Rightarrow> cn_rule" where
  "adjust_chessmap p fx fy tx ty s =
     (let idx = unat (sp_pos_id p) - 1;
          s1 = (if chess_at (cn_board s) fx fy = CNCHESS_General
                then s\<lparr>cn_gpos := (cn_gpos s)[idx := (tx, ty)]\<rparr>
                else s\<lparr>cn_maps := (cn_maps s)[idx :=
                         mm_move (sq (cn_board s) fx fy) (fx, fy) (tx, ty) (cn_maps s ! idx)]\<rparr>)
      in if sq (cn_board s1) tx ty \<noteq> 0 then
           let idx = unat (sp_pos_id p) mod 2
           in s1\<lparr>cn_maps := (cn_maps s1)[idx :=
                   mm_erase (sq (cn_board s1) tx ty) (tx, ty) (cn_maps s1 ! idx)]\<rparr>
         else s1)"

section \<open>Check\<close>

definition sq_opt :: "u8 list list \<Rightarrow> u8 \<Rightarrow> u8 \<Rightarrow> u8 option" where
  "sq_opt b x y = (if 9 < x \<or> 8 < y then None else Some (sq b x y))"

definition straight_check :: "u8 \<Rightarrow> u8 \<Rightarrow> nat \<Rightarrow> cn_rule \<Rightarrow> bool" where
  "straight_check x y idx s \<longleftrightarrow> x = fst (cn_gpos s ! idx) \<or> y = snd (cn_gpos s ! idx)"

definition adjs :: "bool \<Rightarrow> u8" where
  "adjs i = (if i then 255 else 1)"

text \<open>The first piece on a row or column from a place, at steps of \<open>d\<close>.\<close>

partial_function (option) ray_first :: "(u8 \<Rightarrow> u8 option) \<Rightarrow> u8 \<Rightarrow> u8 \<Rightarrow> u8 option" where
  "ray_first f d i =
     (case f i of
        None \<Rightarrow> None
      | Some v \<Rightarrow> if chess v = 0 then ray_first f d (i + d) else Some v)"

partial_function (option) cannon_ray :: "sprite \<Rightarrow> (u8 \<Rightarrow> u8 option) \<Rightarrow> u8 \<Rightarrow> u8 \<Rightarrow> int \<Rightarrow> int option" where
  "cannon_ray p f d i cnt =
     (case f i of
        None \<Rightarrow> None
      | Some v \<Rightarrow>
          if chess v = 0 then cannon_ray p f d (i + d) cnt
          else if cnt \<noteq> 0 then Some (cnt + (if chess v = CNCHESS_General \<and> \<not> isyourchess p v then 1 else 0))
          else if chess v \<noteq> CNCHESS_General \<or> isyourchess p v then cannon_ray p f d (i + d) (cnt + 1)
          else Some cnt)"

declare ray_first.simps [code] cannon_ray.simps [code]

definition checked_by_chariot :: "sprite \<Rightarrow> u8 \<Rightarrow> u8 \<Rightarrow> cn_rule \<Rightarrow> bool option" where
  "checked_by_chariot p x y s =
     (let idx = unat (sp_pos_id p) mod 2; (gx, gy) = cn_gpos s ! idx in
      if \<not> straight_check x y idx s then Some False
      else
        map_option (\<lambda>v. chess v = CNCHESS_General \<and> \<not> isyourchess p v)
          (if y = gy then
             ray_first (\<lambda>i. sq_opt (cn_board s) i y) (adjs (gx < x)) (x + adjs (gx < x))
           else
             ray_first (\<lambda>i. sq_opt (cn_board s) x i) (adjs (gy < y)) (y + adjs (gy < y))))"

definition checked_by_horse :: "sprite \<Rightarrow> u8 \<Rightarrow> u8 \<Rightarrow> cn_rule \<Rightarrow> bool option" where
  "checked_by_horse p x y s =
     (let idx = unat (sp_pos_id p) mod 2; (gx, gy) = cn_gpos s ! idx in
      if x = gx \<or> y = gy then Some False
      else
        let i = gy < y;
            hit = (\<lambda>x' y'. if horse_movable x y x' y' s
                           then map_option (\<lambda>v. chess v = CNCHESS_General \<and> \<not> isyourchess p v)
                                  (sq_opt (cn_board s) x' y')
                           else Some False)
        in if x - gx = 1 then hit (x - 1) (y + (if i then 254 else 2))
           else if x - gx = 255 then hit (x + 1) (y + (if i then 254 else 2))
           else if x - gx = 2 then hit (x - 2) (y + adjs i)
           else if x - gx = 254 then hit (x + 2) (y + adjs i)
           else Some False)"

definition checked_by_cannon :: "sprite \<Rightarrow> u8 \<Rightarrow> u8 \<Rightarrow> cn_rule \<Rightarrow> bool option" where
  "checked_by_cannon p x y s =
     (let idx = unat (sp_pos_id p) mod 2; (gx, gy) = cn_gpos s ! idx in
      if \<not> straight_check x y idx s then Some False
      else
        map_option (\<lambda>cnt. cnt = 2)
          (if y = gy then
             cannon_ray p (\<lambda>i. sq_opt (cn_board s) i y) (adjs (gx < x)) (x + adjs (gx < x)) 0
           else
             cannon_ray p (\<lambda>i. sq_opt (cn_board s) x i) (adjs (gy < y)) (y + adjs (gy < y)) 0))"

definition checked_by_soldier :: "sprite \<Rightarrow> u8 \<Rightarrow> u8 \<Rightarrow> cn_rule \<Rightarrow> bool option" where
  "checked_by_soldier p x y s =
     (let idx = unat (sp_pos_id p) mod 2; (gx, gy) = cn_gpos s ! idx in
      if \<not> straight_check x y idx s then Some False
      else
        map_option (\<lambda>v. chess v = CNCHESS_General)
          (if y = gy then
             if (if gx < x then 1 else 0) = int (unat (sp_pos_id p)) - 1
             then sq_opt (cn_board s) (x + adjs (gx < x)) y else Some 0
           else sq_opt (cn_board s) x (y + adjs (gy < y))))"

fun ischeck_loop :: "sprite \<Rightarrow> cn_rule \<Rightarrow> chess_multimap \<Rightarrow> bool option" where
  "ischeck_loop p s [] = Some False"
| "ischeck_loop p s ((k, (x, y)) # m) =
     (if isyourchess p k then
        case (if chess k = CNCHESS_Chariot then checked_by_chariot p x y s
              else if chess k = CNCHESS_Horse then checked_by_horse p x y s
              else if chess k = CNCHESS_Cannon then checked_by_cannon p x y s
              else if chess k = CNCHESS_Soldier then checked_by_soldier p x y s
              else Some False) of
          None \<Rightarrow> None
        | Some True \<Rightarrow> Some True
        | Some False \<Rightarrow> ischeck_loop p s m
      else ischeck_loop p s m)"

definition ischeck :: "sprite \<Rightarrow> cn_rule \<Rightarrow> bool option" where
  "ischeck p s = ischeck_loop p s (cn_maps s ! (unat (sp_pos_id p) - 1))"

definition general_face_to_face :: "cn_rule \<Rightarrow> bool" where
  "general_face_to_face s =
     (if snd (cn_gpos s ! 0) = snd (cn_gpos s ! 1) then
        let idx = (if fst (cn_gpos s ! 1) < fst (cn_gpos s ! 0) then 1 else 0)
        in line_empty (\<lambda>i. sq (cn_board s) i (snd (cn_gpos s ! 1)))
             (fst (cn_gpos s ! idx) + 1) (fst (cn_gpos s ! (1 - idx)))
      else False)"

section \<open>A move\<close>

text \<open>The first assertion reads the order of moves at \<open>pos_id - 1\<close>; the one of \<open>isvalid\<close> bounds \<open>pos_id\<close> too.\<close>

definition cn_place_chess :: "sprite \<Rightarrow> byte list \<Rightarrow> cn_rule \<Rightarrow> (cn_rule \<times> int \<times> u8) option" where
  "cn_place_chess p inbuf s =
     (if sp_pos_id p \<notin> {1, 2} \<or> cn_move_order s ! (unat (sp_pos_id p) - 1) \<noteq> sp_id p then None
      else if length inbuf \<noteq> 4 then Some (s, -1, 0)
      else
        let fx = inbuf ! 0; fy = inbuf ! 1; tx = inbuf ! 2; ty = inbuf ! 3 in
        if \<not> isvalid p fx fy tx ty s then Some (s, -2, 0)
        else if movable p fx fy tx ty s then
          let s1 = adjust_chessmap p fx fy tx ty s;
              s2 = (if chess_at (cn_board s1) tx ty = CNCHESS_General then s1\<lparr>cn_flag := 1\<rparr> else s1);
              s3 = set_square tx ty (sq (cn_board s2) fx fy) s2;
              s4 = set_square fx fy 0 s3;
              s5 = (if general_face_to_face s4 then s4\<lparr>cn_flag := 9\<rparr> else s4)
          in map_option (\<lambda>c. (s5\<lparr>cn_nsteps := cn_nsteps s5 + 1\<rparr>, 0, of_bool c))
               (if cn_flag s5 \<noteq> 0 then Some False else ischeck p s5)
        else Some (s, -2, 0))"

definition winner_determinate :: "cn_rule \<Rightarrow> bool" where
  "winner_determinate s \<longleftrightarrow> cn_flag s = 1 \<or> cn_flag s = 9"

definition cn_draw :: "cn_rule \<Rightarrow> bool" where
  "cn_draw s \<longleftrightarrow> cn_flag s = 3"

section \<open>Announcements and scores\<close>

definition cn_notify_board_info :: "game_group \<Rightarrow> sprite \<Rightarrow> bool \<Rightarrow> cn_rule \<Rightarrow> chess_pkg game_out list" where
  "cn_notify_board_info g p toself s =
     (if toself \<or> gg_watchers g \<noteq> [] then
        let b = CgBoard (cn_move_order s ! 0) (cn_move_order s ! 1)
                  (of_bool (cn_nx_mover s = cn_move_order s ! 1)) (cn_board s)
        in if toself then [ToSelf p b] else [ToWatchers b]
      else [])"

definition cn_notify_winner :: "sprite \<Rightarrow> bool \<Rightarrow> cn_rule \<Rightarrow> chess_pkg game_out list" where
  "cn_notify_winner p isdraw s =
     (let uid = (if cn_flag s = 7 \<or> cn_flag s = 9 then cn_move_order s ! (unat (sp_pos_id p) mod 2) else sp_id p)
      in [ToGroup (CgWinner (if cn_draw s \<or> isdraw then 0 else uid))])"

definition cn_credit_cond_met :: "cn_rule \<Rightarrow> bool" where
  "cn_credit_cond_met s \<longleftrightarrow> 25 < cn_nsteps s"

text \<open>\<open>rates\<close> over \<open>2 ^ 25\<close>, 0.4 as the nearest \<open>float\<close>.\<close>

definition cn_rates :: "int list" where
  "cn_rates = [33554432, 13421773, 16777216, 16777216, 33554432, 13421773, 0, 33554432, 13421773, 33554432]"

definition cn_rated_score :: "game_t \<Rightarrow> nat \<Rightarrow> game_score" where
  "cn_rated_score game i =
     \<lparr>gs_iq = rated (game_IQ game) (cn_rates ! i), gs_exp = rated (game_exp game) (cn_rates ! i),
      gs_coins = rated (game_yxb game) (cn_rates ! i)\<rparr>"

definition cn_send_gamescore :: "game_group \<Rightarrow> sprite \<Rightarrow> cn_rule \<Rightarrow> chess_pkg game_out list" where
  "cn_send_gamescore g p s =
     map (\<lambda>q. SubmitScore q
       (if cn_credit_cond_met s \<or> IS_SPRITE_ESCAPE p \<and> sp_id q = sp_id p then
          if sp_id q = sp_id p then
            if IS_SPRITE_ESCAPE p then zero_score\<lparr>gs_iq := -1\<rparr>
            else cn_rated_score (gg_game g) (unat (cn_flag s) - 1)
          else cn_rated_score (gg_game g) (unat (cn_flag s))
        else zero_score)) (gg_players g)"

definition REQ_rejected :: u8 where "REQ_rejected = 0"
definition REQ_draw :: u8 where "REQ_draw = 1"
definition REQ_surrender :: u8 where "REQ_surrender = 2"
definition REQ_max :: u8 where "REQ_max = 2"
definition REQ_invalid :: u8 where "REQ_invalid = 255"
definition REQ_unconfirmed :: u8 where "REQ_unconfirmed = 255"

definition cn_handle_confirmed_req ::
    "game_group \<Rightarrow> sprite \<Rightarrow> u32 \<times> u8 \<Rightarrow> cn_rule \<Rightarrow> cn_rule \<times> chess_pkg game_out list \<times> int" where
  "cn_handle_confirmed_req g p ur s =
     (let (s1, o1) =
        (if snd ur = REQ_draw then (s\<lparr>cn_flag := 3\<rparr>, cn_notify_winner p True s)
         else if snd ur = REQ_surrender then (s\<lparr>cn_flag := 5\<rparr>, cn_notify_winner p False s)
         else (s, []))
      in (s1, o1 @ cn_send_gamescore g p s1, GER_end_of_game))"

definition cn_handle_player_leave ::
    "game_group \<Rightarrow> sprite \<Rightarrow> cn_rule \<Rightarrow> cn_rule \<times> chess_pkg game_out list \<times> int" where
  "cn_handle_player_leave g p s =
     (if IS_GAME_PLAYER p then
        let s1 = s\<lparr>cn_flag := 7\<rparr> in (s1, cn_send_gamescore g p s1, GER_end_of_game)
      else (s, [], 0))"

end
