(* ===== verification/ChessLegal.thy ===== *)
theory ChessLegal
  imports ChessRule
begin

unbundle bit_operations_syntax

text \<open>
  The moves of Chinese chess as the rules of the game state them, and that \<open>isvalid\<close> and \<open>movable\<close>
  of the code accept exactly these.
\<close>

section \<open>Words\<close>

lemma u8_bound [simp]: "uint (x :: u8) < 256" "0 \<le> uint (x :: u8)"
  using uint_bounded [of x] by simp_all

lemma uint_inc: "(i::u8) < u \<Longrightarrow> uint (i + 1) = uint i + 1"
proof -
  assume "i < u"
  then have "uint i + 1 < 256" using u8_bound(1) [of u] unfolding word_less_def by linarith
  moreover have "0 \<le> uint i + 1" using u8_bound(2) [of i] by linarith
  ultimately show ?thesis by (simp add: uint_word_ariths mod_pos_pos_trivial)
qed

lemma uint_dec: "(u::u8) < i \<Longrightarrow> uint (i - 1) = uint i - 1"
proof -
  assume "u < i"
  then have "0 \<le> uint i - 1" using u8_bound(2) [of u] unfolding word_less_def by linarith
  moreover have "uint i - 1 < 256" using u8_bound(1) [of i] by linarith
  ultimately show ?thesis by (simp add: uint_word_ariths mod_pos_pos_trivial)
qed

lemma le_step_u8: "(i::u8) < u \<Longrightarrow> i \<le> k \<longleftrightarrow> k = i \<or> i + 1 \<le> k"
  unfolding word_le_def word_uint_eq_iff by (simp add: uint_inc) linarith

lemma inc_le_u8: "(i::u8) < u \<Longrightarrow> i + 1 \<le> u"
  by (simp add: word_le_def uint_inc) (simp add: word_less_def)

lemma not_inc_le_u8: "(i::u8) < u \<Longrightarrow> \<not> i + 1 \<le> i"
  by (simp add: word_le_def uint_inc)

lemma line_empty_iff: "i \<le> u \<Longrightarrow> line_empty f i u \<longleftrightarrow> (\<forall>k. i \<le> k \<and> k < u \<longrightarrow> f k = 0)"
proof (induction f i u rule: line_empty.induct)
  case (1 f i u)
  show ?case
  proof (cases "i = u")
    case True
    then show ?thesis by (subst line_empty.simps) auto
  next
    case False
    with 1(2) have lt: "i < u" by simp
    note le = inc_le_u8 [OF lt]
    note k = le_step_u8 [OF lt]
    show ?thesis
    proof (cases "f i = 0")
      case True
      with False 1(1) [OF False _ le] show ?thesis by (subst line_empty.simps) (auto simp: k)
    next
      case nz: False
      with False lt show ?thesis by (subst line_empty.simps) auto
    qed
  qed
qed

text \<open>The squares a line loop meets, as a finite set.\<close>

lemma range_step: "(i::u8) < u \<Longrightarrow> {k. i \<le> k \<and> k < u \<and> P k} = (if P i then insert i else id) {k. i + 1 \<le> k \<and> k < u \<and> P k}"
  by (auto simp: le_step_u8)

lemma range_step_notin: "(i::u8) < u \<Longrightarrow> i \<notin> {k. i + 1 \<le> k \<and> k < u \<and> P k}"
  by (simp add: not_inc_le_u8)

lemma cannon_line_count:
  "i \<le> u \<Longrightarrow> c \<le> 1 \<Longrightarrow> cannon_line f i u c =
     (let n = unat c + card {k. i \<le> k \<and> k < u \<and> f k \<noteq> 0} in if n < 2 then Some (of_nat n) else None)"
proof (induction f i u c rule: cannon_line.induct)
  case (1 f i u c)
  have c: "c = 0 \<or> c = 1" using 1(4) u8_bound(2) [of c] unfolding word_le_def word_uint_eq_iff unsigned_0 unsigned_1 by linarith
  show ?case
  proof (cases "i = u")
    case True
    have none: "{k. u \<le> k \<and> k < u \<and> f k \<noteq> 0} = {}" by auto
    from True c show ?thesis
      by (subst cannon_line.simps) (elim disjE; simp only: if_True Let_def none card.empty; simp)
  next
    case False
    with 1(3) have lt: "i < u" by simp
    let ?S = "{k. i + 1 \<le> k \<and> k < u \<and> f k \<noteq> 0}"
    have fin: "finite ?S" by (rule finite_subset [OF subset_UNIV]) simp
    show ?thesis
    proof (cases "f i = 0")
      case True
      then show ?thesis using 1(2) [OF False] inc_le_u8 [OF lt] 1(4) False
        by (subst cannon_line.simps) (simp add: range_step [OF lt])
    next
      case nz: False
      have card: "card {k. i \<le> k \<and> k < u \<and> f k \<noteq> 0} = Suc (card ?S)"
        using nz by (simp add: range_step [OF lt] card_insert_disjoint [OF fin range_step_notin [OF lt]])
      show ?thesis using c
      proof
        assume "c = 1"
        then show ?thesis using False nz card by (subst cannon_line.simps) simp
      next
        assume c0: "c = 0"
        then have "cannon_line f (i + 1) u 1 = (let n = Suc (card ?S) in if n < 2 then Some (of_nat n) else None)"
          using 1(1) [OF False nz] inc_le_u8 [OF lt] by simp
        with c0 False nz card show ?thesis by (subst cannon_line.simps) simp
      qed
    qed
  qed
qed

section \<open>The rules of the game\<close>

definition on_board :: "coordinate \<Rightarrow> bool" where
  "on_board c \<longleftrightarrow> fst c \<le> 9 \<and> snd c \<le> 8"

definition cell_ok :: "u8 \<Rightarrow> bool" where
  "cell_ok v \<longleftrightarrow> v \<in> {0, 65, 66, 67, 68, 69, 70, 71, 129, 130, 131, 132, 133, 134, 135}"

definition cn_board_ok :: "u8 list list \<Rightarrow> bool" where
  "cn_board_ok b \<longleftrightarrow> length b = 10 \<and> (\<forall>r \<in> set b. length r = 9) \<and>
     (\<forall>x y. on_board (x, y) \<longrightarrow> cell_ok (sq b x y))"

text \<open>\<open>red\<close> says whose side: red is the player at position 1, black the one at position 2.\<close>

definition owned :: "bool \<Rightarrow> u8 \<Rightarrow> bool" where
  "owned red v \<longleftrightarrow> v AND (if red then 64 else 128) \<noteq> 0"

definition squares_between :: "coordinate \<Rightarrow> coordinate \<Rightarrow> coordinate set" where
  "squares_between f t =
     {(x, y). x = fst f \<and> x = fst t \<and> (snd f < y \<and> y < snd t \<or> snd t < y \<and> y < snd f) \<or>
              y = snd f \<and> y = snd t \<and> (fst f < x \<and> x < fst t \<or> fst t < x \<and> x < fst f)}"

definition pieces_between :: "u8 list list \<Rightarrow> coordinate \<Rightarrow> coordinate \<Rightarrow> nat" where
  "pieces_between b f t = card {(x, y) \<in> squares_between f t. sq b x y \<noteq> 0}"

definition own_half :: "bool \<Rightarrow> u8 \<Rightarrow> bool" where
  "own_half red x \<longleftrightarrow> (if red then x \<le> 4 else 5 \<le> x)"

definition in_palace :: "bool \<Rightarrow> coordinate \<Rightarrow> bool" where
  "in_palace red c \<longleftrightarrow> 3 \<le> snd c \<and> snd c \<le> 5 \<and> (if red then fst c \<le> 2 else 7 \<le> fst c)"

definition midpoint :: "u8 \<Rightarrow> u8 \<Rightarrow> u8 \<Rightarrow> bool" where
  "midpoint m a c \<longleftrightarrow> 2 * uint m = uint a + uint c"

text \<open>How a piece of each kind reaches another square.\<close>

definition reaches :: "u8 list list \<Rightarrow> bool \<Rightarrow> coordinate \<Rightarrow> coordinate \<Rightarrow> bool" where
  "reaches b red f t \<longleftrightarrow>
     (let kind = chess_at b (fst f) (snd f);
          dx = uint (fst t) - uint (fst f); dy = uint (snd t) - uint (snd f)
      in kind = CNCHESS_Chariot \<and> (dx = 0 \<or> dy = 0) \<and> pieces_between b f t = 0 \<or>
         kind = CNCHESS_Cannon \<and> (dx = 0 \<or> dy = 0) \<and>
           pieces_between b f t = (if sq b (fst t) (snd t) = 0 then 0 else 1) \<or>
         kind = CNCHESS_Horse \<and>
           (\<bar>dx\<bar> = 2 \<and> \<bar>dy\<bar> = 1 \<and> (\<exists>m. midpoint m (fst f) (fst t) \<and> sq b m (snd f) = 0) \<or>
            \<bar>dx\<bar> = 1 \<and> \<bar>dy\<bar> = 2 \<and> (\<exists>m. midpoint m (snd f) (snd t) \<and> sq b (fst f) m = 0)) \<or>
         kind = CNCHESS_Elephant \<and> \<bar>dx\<bar> = 2 \<and> \<bar>dy\<bar> = 2 \<and> own_half red (fst t) \<and>
           (\<exists>m n. midpoint m (fst f) (fst t) \<and> midpoint n (snd f) (snd t) \<and> sq b m n = 0) \<or>
         kind = CNCHESS_Mandarin \<and> \<bar>dx\<bar> = 1 \<and> \<bar>dy\<bar> = 1 \<and> in_palace red t \<or>
         kind = CNCHESS_General \<and> \<bar>dx\<bar> + \<bar>dy\<bar> = 1 \<and> in_palace red t \<or>
         kind = CNCHESS_Soldier \<and>
           (dx = (if red then 1 else -1) \<and> dy = 0 \<or> dx = 0 \<and> \<bar>dy\<bar> = 1 \<and> \<not> own_half red (fst t)))"

definition legal_move :: "u8 list list \<Rightarrow> bool \<Rightarrow> coordinate \<Rightarrow> coordinate \<Rightarrow> bool" where
  "legal_move b red f t \<longleftrightarrow>
     on_board f \<and> on_board t \<and> f \<noteq> t \<and> owned red (sq b (fst f) (snd f)) \<and>
     \<not> owned red (sq b (fst t) (snd t)) \<and> reaches b red f t"

section \<open>The code's movements\<close>

lemma cell_ok_cases:
  assumes "cell_ok v"
  obtains "v = 0" | "v = 65" | "v = 66" | "v = 67" | "v = 68" | "v = 69" | "v = 70" | "v = 71"
    | "v = 129" | "v = 130" | "v = 131" | "v = 132" | "v = 133" | "v = 134" | "v = 135"
  using assms by (auto simp: cell_ok_def)

lemma chess_0_iff: "cell_ok v \<Longrightarrow> chess v = 0 \<longleftrightarrow> v = 0"
  by (erule cell_ok_cases) (simp_all add: chess_def CNCHESS_Mask_def)

lemma owned_nz: "cell_ok v \<Longrightarrow> v \<noteq> 0 \<longleftrightarrow> owned True v \<or> owned False v"
  by (erule cell_ok_cases) (simp_all add: owned_def)

lemma owned_excl: "cell_ok v \<Longrightarrow> owned red v \<Longrightarrow> \<not> owned (\<not> red) v"
  by (erule cell_ok_cases) (simp_all add: owned_def split: if_splits)

lemma gt_step_u8: "(i::u8) < u \<Longrightarrow> i + 1 \<le> k \<longleftrightarrow> i < k"
  unfolding word_le_def [of "i + 1"] by (subst uint_inc, assumption) (simp add: word_less_def zless_iff_Suc_zadd add1_zle_eq)

lemma pieces_row:
  "pieces_between b (x, fy) (x, ty) = card {k. min fy ty < k \<and> k < max fy ty \<and> sq b x k \<noteq> 0}"
proof -
  have "{(x', y) \<in> squares_between (x, fy) (x, ty). sq b x' y \<noteq> 0} =
    Pair x ` {k. min fy ty < k \<and> k < max fy ty \<and> sq b x k \<noteq> 0}"
    by (auto simp: squares_between_def min_def max_def split: if_splits)
  then show ?thesis by (simp add: pieces_between_def card_image inj_on_def)
qed

lemma pieces_col:
  "pieces_between b (fx, y) (tx, y) = card {k. min fx tx < k \<and> k < max fx tx \<and> sq b k y \<noteq> 0}"
proof -
  have "{(x', y') \<in> squares_between (fx, y) (tx, y). sq b x' y' \<noteq> 0} =
    (\<lambda>k. (k, y)) ` {k. min fx tx < k \<and> k < max fx tx \<and> sq b k y \<noteq> 0}"
    by (auto simp: squares_between_def min_def max_def split: if_splits)
  then show ?thesis by (simp add: pieces_between_def card_image inj_on_def)
qed

lemma finite_u8 [simp]: "finite (A :: u8 set)"
  by (rule finite_subset [OF subset_UNIV]) simp

lemma line_bounds:
  assumes "(a::u8) \<noteq> c"
  shows "(if a < c then (a + 1, c) else (c + 1, a)) = (min a c + 1, max a c)" "min a c + 1 \<le> max a c" "min a c < max a c"
  using assms inc_le_u8 [of a c] inc_le_u8 [of c a] by (auto simp: min_def max_def)

lemma line_empty_between:
  "a \<noteq> c \<Longrightarrow> line_empty f (min a c + 1) (max a c) \<longleftrightarrow> card {k. min a c < k \<and> k < max a c \<and> f k \<noteq> 0} = 0"
  using line_bounds [of a c] by (auto simp: line_empty_iff gt_step_u8)

lemma cannon_line_between:
  "a \<noteq> c \<Longrightarrow> cannon_line f (min a c + 1) (max a c) 0 =
     (let n = card {k. min a c < k \<and> k < max a c \<and> f k \<noteq> 0} in if n < 2 then Some (of_nat n) else None)"
  using line_bounds [of a c] by (simp add: cannon_line_count gt_step_u8)

lemma chariot_movable_iff:
  "fx \<noteq> tx \<Longrightarrow> chariot_movable fx tx True tx ty s \<longleftrightarrow> pieces_between (cn_board s) (fx, ty) (tx, ty) = 0"
  "fy \<noteq> ty \<Longrightarrow> chariot_movable fy ty False tx ty s \<longleftrightarrow> pieces_between (cn_board s) (tx, fy) (tx, ty) = 0"
  by (simp_all only: chariot_movable_def line_bounds Let_def prod.case if_True if_False line_empty_between
      pieces_row pieces_col not_False_eq_True)

lemma cannon_case: "(case (let n = m in if n < 2 then Some (of_nat n :: u8) else None) of None \<Rightarrow> False
   | Some cnt \<Rightarrow> if nz then cnt \<noteq> 0 else cnt = 0) \<longleftrightarrow> m = (if nz then 1 else 0)"
  by (cases "m = 0 \<or> m = 1") auto

lemma cannon_movable_iff:
  assumes "cell_ok (sq (cn_board s) tx ty)"
  shows "fx \<noteq> tx \<Longrightarrow> cannon_movable fx tx True tx ty s \<longleftrightarrow>
      pieces_between (cn_board s) (fx, ty) (tx, ty) = (if sq (cn_board s) tx ty = 0 then 0 else 1)"
    and "fy \<noteq> ty \<Longrightarrow> cannon_movable fy ty False tx ty s \<longleftrightarrow>
      pieces_between (cn_board s) (tx, fy) (tx, ty) = (if sq (cn_board s) tx ty = 0 then 0 else 1)"
  by (simp_all only: cannon_movable_def line_bounds Let_def prod.case if_True if_False not_False_eq_True
      cannon_line_between pieces_row pieces_col chess_at_def cannon_case [unfolded Let_def] chess_0_iff [OF assms])
    simp_all

lemma midpoint_up: "uint c - uint a = 2 \<Longrightarrow> midpoint m a c \<longleftrightarrow> m = a + 1"
proof -
  assume d: "uint c - uint a = 2"
  then have "a < c" by (simp add: word_less_def)
  then have u: "uint (a + 1) = uint a + 1" by (rule uint_inc)
  show ?thesis unfolding midpoint_def word_uint_eq_iff u using d by linarith
qed

lemma midpoint_down: "uint a - uint c = 2 \<Longrightarrow> midpoint m a c \<longleftrightarrow> m = a - 1"
proof -
  assume d: "uint a - uint c = 2"
  then have "c < a" by (simp add: word_less_def)
  then have u: "uint (a - 1) = uint a - 1" by (rule uint_dec)
  show ?thesis unfolding midpoint_def word_uint_eq_iff u using d by linarith
qed

lemma abs2_cases: "\<bar>uint (c::u8) - uint a\<bar> = 2 \<longleftrightarrow> uint c - uint a = 2 \<or> uint a - uint c = 2"
  by linarith

lemma horse_movable_iff:
  "horse_movable fx fy tx ty s \<longleftrightarrow>
     \<bar>uint tx - uint fx\<bar> = 2 \<and> \<bar>uint ty - uint fy\<bar> = 1 \<and> (\<exists>m. midpoint m fx tx \<and> sq (cn_board s) m fy = 0) \<or>
     \<bar>uint tx - uint fx\<bar> = 1 \<and> \<bar>uint ty - uint fy\<bar> = 2 \<and> (\<exists>m. midpoint m fy ty \<and> sq (cn_board s) fx m = 0)"
  unfolding horse_movable_def abs2_cases by (auto simp: midpoint_up midpoint_down)

lemma diag_step: "\<bar>uint (a::u8) - uint c\<bar> = 2 \<Longrightarrow> midpoint m a c \<longleftrightarrow> m = a + (if a < c then 1 else 255)"
proof -
  assume "\<bar>uint a - uint c\<bar> = 2"
  then consider "uint c - uint a = 2" | "uint a - uint c = 2" by linarith
  then show ?thesis
  proof cases
    case 1
    then show ?thesis by (simp add: midpoint_up word_less_def)
  next
    case 2
    moreover have "(255::u8) = -1" by simp
    ultimately show ?thesis by (simp only: midpoint_down) (simp add: word_less_def)
  qed
qed

lemma offriver_iff: "sp_pos_id p \<in> {1, 2} \<Longrightarrow> offriver p x \<longleftrightarrow> \<not> own_half (sp_pos_id p = 1) x"
  by (auto simp: offriver_def own_half_def word_less_def word_le_def)

lemma offpalace_iff: "sp_pos_id p \<in> {1, 2} \<Longrightarrow> offpalace p x y \<longleftrightarrow> \<not> in_palace (sp_pos_id p = 1) (x, y)"
  by (auto simp: offpalace_def in_palace_def not_less not_le)

lemma isyourchess_iff: "sp_pos_id p \<in> {1, 2} \<Longrightarrow> isyourchess p v \<longleftrightarrow> owned (sp_pos_id p = 1) v"
  by (auto simp: isyourchess_def side_type_def owned_def cn_consts)

lemma elephant_movable_iff:
  assumes "sp_pos_id p \<in> {1, 2}" and "cn_board_ok (cn_board s)" and "on_board (fx, fy)" and "on_board (tx, ty)"
  shows "elephant_movable p fx fy tx ty s \<longleftrightarrow>
     \<bar>uint tx - uint fx\<bar> = 2 \<and> \<bar>uint ty - uint fy\<bar> = 2 \<and> own_half (sp_pos_id p = 1) tx \<and>
     (\<exists>m n. midpoint m fx tx \<and> midpoint n fy ty \<and> sq (cn_board s) m n = 0)"
proof (cases "\<bar>uint fx - uint tx\<bar> = 2 \<and> \<bar>uint fy - uint ty\<bar> = 2")
  case True
  let ?m = "fx + (if fx < tx then 1 else 255)" and ?n = "fy + (if fy < ty then 1 else 255)"
  have mp: "midpoint ?m fx tx" "midpoint ?n fy ty" using True diag_step by blast+
  then have "on_board (?m, ?n)" using assms(3,4) by (auto simp: on_board_def midpoint_def word_le_def)
  then have "cell_ok (sq (cn_board s) ?m ?n)" using assms(2) by (auto simp: cn_board_ok_def)
  then have "chess_at (cn_board s) ?m ?n = 0 \<longleftrightarrow> sq (cn_board s) ?m ?n = 0" by (simp add: chess_at_def chess_0_iff)
  moreover have "(\<exists>m n. midpoint m fx tx \<and> midpoint n fy ty \<and> sq (cn_board s) m n = 0) \<longleftrightarrow> sq (cn_board s) ?m ?n = 0"
    using True by (simp only: diag_step) blast
  ultimately show ?thesis
    using True assms(1) by (simp add: elephant_movable_def offriver_iff abs_minus_commute del: if_distrib)
next
  case False
  then show ?thesis by (auto simp: elephant_movable_def abs_minus_commute)
qed

lemma movable_iff:
  assumes p: "sp_pos_id p \<in> {1, 2}" and b: "cn_board_ok (cn_board s)"
    and f: "on_board (fx, fy)" and t: "on_board (tx, ty)" and ne: "(fx, fy) \<noteq> (tx, ty)"
  shows "movable p fx fy tx ty s \<longleftrightarrow> reaches (cn_board s) (sp_pos_id p = 1) (fx, fy) (tx, ty)"
proof -
  let ?c = "chess_at (cn_board s) fx fy"
  have tc: "cell_ok (sq (cn_board s) tx ty)" using b t by (auto simp: cn_board_ok_def)
  have u: "fx = tx \<longleftrightarrow> uint tx - uint fx = 0" "fy = ty \<longleftrightarrow> uint ty - uint fy = 0" by (auto simp: word_uint_eq_iff)
  note R = reaches_def Let_def fst_conv snd_conv
  consider "?c = CNCHESS_Chariot" | "?c = CNCHESS_Cannon" | "?c = CNCHESS_Horse" | "?c = CNCHESS_Elephant"
    | "?c = CNCHESS_Mandarin" | "?c = CNCHESS_General" | "?c = CNCHESS_Soldier"
    | "?c \<notin> {CNCHESS_Chariot, CNCHESS_Cannon, CNCHESS_Horse, CNCHESS_Elephant, CNCHESS_Mandarin, CNCHESS_General, CNCHESS_Soldier}"
    by blast
  then show ?thesis
  proof cases
    case 1
    then have "movable p fx fy tx ty s \<longleftrightarrow> (fx = tx \<or> fy = ty) \<and> pieces_between (cn_board s) (fx, fy) (tx, ty) = 0"
      using ne by (auto simp: movable_def chariot_movable_iff)
    with 1 show ?thesis by (simp add: R cn_consts) (auto simp: u)
  next
    case 2
    then have "movable p fx fy tx ty s \<longleftrightarrow> (fx = tx \<or> fy = ty) \<and>
        pieces_between (cn_board s) (fx, fy) (tx, ty) = (if sq (cn_board s) tx ty = 0 then 0 else 1)"
      using ne by (auto simp: movable_def cannon_movable_iff [OF tc] cn_consts)
    with 2 show ?thesis by (simp add: R cn_consts) (auto simp: u)
  next
    case 3
    then show ?thesis by (simp add: movable_def R horse_movable_iff cn_consts)
  next
    case 4
    then show ?thesis by (simp add: movable_def R elephant_movable_iff [OF p b f t] cn_consts)
  next
    case 5
    then show ?thesis using p by (simp add: movable_def R mandarin_movable_def offpalace_iff abs_minus_commute cn_consts)
  next
    case 6
    then have "movable p fx fy tx ty s \<longleftrightarrow> general_movable p fx fy tx ty" by (simp add: movable_def cn_consts)
    also have "\<dots> \<longleftrightarrow> \<bar>uint tx - uint fx\<bar> + \<bar>uint ty - uint fy\<bar> = 1 \<and> in_palace (sp_pos_id p = 1) (tx, ty)"
      using p unfolding general_movable_def offpalace_iff [OF p] u by auto
    finally show ?thesis using 6 by (simp add: R cn_consts)
  next
    case 7
    then have "movable p fx fy tx ty s \<longleftrightarrow> soldier_movable p fx fy tx ty" by (simp add: movable_def cn_consts)
    also have "\<dots> \<longleftrightarrow> uint tx - uint fx = (if sp_pos_id p = 1 then 1 else -1) \<and> uint ty - uint fy = 0 \<or>
        uint tx - uint fx = 0 \<and> \<bar>uint ty - uint fy\<bar> = 1 \<and> \<not> own_half (sp_pos_id p = 1) tx"
      unfolding soldier_movable_def offriver_iff [OF p] u by auto
    finally show ?thesis using 7 by (simp add: R cn_consts)
  next
    case 8
    then show ?thesis by (simp add: movable_def R)
  qed
qed

lemma isvalid_iff:
  assumes "sp_pos_id p \<in> {1, 2}"
  shows "isvalid p fx fy tx ty s \<longleftrightarrow> on_board (fx, fy) \<and> on_board (tx, ty) \<and> (fx, fy) \<noteq> (tx, ty) \<and>
    owned (sp_pos_id p = 1) (sq (cn_board s) fx fy) \<and> \<not> owned (sp_pos_id p = 1) (sq (cn_board s) tx ty)"
  using isyourchess_iff [OF assms]
  by (auto simp: isvalid_def on_board_def isyourchess_at_def isyourchess_def not_less)

lemma movable_legal:
  assumes "sp_pos_id p \<in> {1, 2}" and "cn_board_ok (cn_board s)"
  shows "isvalid p fx fy tx ty s \<and> movable p fx fy tx ty s \<longleftrightarrow>
    legal_move (cn_board s) (sp_pos_id p = 1) (fx, fy) (tx, ty)"
  using movable_iff [OF assms] isvalid_iff [OF assms(1)] by (auto simp: legal_move_def)

end
