(* ===== verification/ChessCheck.thy ===== *)
theory ChessCheck
  imports ChessLegal
begin

unbundle bit_operations_syntax

text \<open>
  The invariant of a position (one general of each side, in its palace, where \<open>general_pos_\<close> says;
  \<open>chess_multimap_\<close> holds the pieces that can give check) and \<open>ischeck\<close> against the moves of the
  game.
\<close>

section \<open>The invariant of a position\<close>

definition side_ix :: "bool \<Rightarrow> nat" where
  "side_ix red = (if red then 0 else 1)"

definition general_of :: "bool \<Rightarrow> u8" where
  "general_of red = (if red then 69 else 133)"

definition hunter :: "u8 \<Rightarrow> bool" where
  "hunter v \<longleftrightarrow> chess v \<in> {CNCHESS_Chariot, CNCHESS_Horse, CNCHESS_Cannon, CNCHESS_Soldier}"

definition hunters :: "u8 list list \<Rightarrow> bool \<Rightarrow> (u8 \<times> coordinate) set" where
  "hunters b red = {(v, (x, y)). on_board (x, y) \<and> v = sq b x y \<and> owned red v \<and> hunter v}"

definition general_ok :: "u8 list list \<Rightarrow> bool \<Rightarrow> coordinate \<Rightarrow> bool" where
  "general_ok b red g \<longleftrightarrow> on_board g \<and> in_palace red g \<and>
     (\<forall>x y. on_board (x, y) \<longrightarrow> (sq b x y = general_of red \<longleftrightarrow> (x, y) = g))"

definition soldiers_ok :: "u8 list list \<Rightarrow> bool \<Rightarrow> bool" where
  "soldiers_ok b red \<longleftrightarrow> (\<forall>x y. on_board (x, y) \<and> chess_at b x y = CNCHESS_Soldier \<and> owned red (sq b x y) \<longrightarrow>
     (if red then 3 \<le> x else x \<le> 6))"

definition cn_ok :: "cn_rule \<Rightarrow> bool" where
  "cn_ok s \<longleftrightarrow> cn_board_ok (cn_board s) \<and> length (cn_maps s) = 2 \<and> length (cn_gpos s) = 2 \<and>
     (\<forall>red. general_ok (cn_board s) red (cn_gpos s ! side_ix red) \<and> soldiers_ok (cn_board s) red \<and>
       distinct (cn_maps s ! side_ix red) \<and> set (cn_maps s ! side_ix red) = hunters (cn_board s) red)"

lemma cn_okD:
  assumes "cn_ok s"
  shows "cn_board_ok (cn_board s)" "length (cn_maps s) = 2" "length (cn_gpos s) = 2"
    "general_ok (cn_board s) red (cn_gpos s ! side_ix red)" "soldiers_ok (cn_board s) red"
    "distinct (cn_maps s ! side_ix red)" "set (cn_maps s ! side_ix red) = hunters (cn_board s) red"
  using assms by (auto simp: cn_ok_def)

lemma pos_ix:
  "sp_pos_id p \<in> {1, 2} \<Longrightarrow> unat (sp_pos_id p) mod 2 = side_ix (sp_pos_id p \<noteq> 1)"
  "sp_pos_id p \<in> {1, 2} \<Longrightarrow> unat (sp_pos_id p) - 1 = side_ix (sp_pos_id p = 1)"
  by (auto simp: side_ix_def)

lemma enemy_general: "cell_ok v \<Longrightarrow> chess v = CNCHESS_General \<and> \<not> owned red v \<longleftrightarrow> v = general_of (\<not> red)"
  by (erule cell_ok_cases) (simp_all add: chess_def cn_consts owned_def general_of_def)

lemma any_general: "cell_ok v \<Longrightarrow> chess v = CNCHESS_General \<longleftrightarrow> v = general_of True \<or> v = general_of False"
  by (erule cell_ok_cases) (simp_all add: chess_def cn_consts general_of_def)

lemma general_of_facts [simp]: "cell_ok (general_of red)" "chess (general_of red) = CNCHESS_General"
  "owned red (general_of red)" "\<not> owned (\<not> red) (general_of red)" "general_of red \<noteq> 0" "\<not> hunter (general_of red)"
  by (cases red; simp add: cell_ok_def general_of_def chess_def cn_consts owned_def hunter_def)+

lemma cell_okI: "cn_board_ok b \<Longrightarrow> on_board (x, y) \<Longrightarrow> cell_ok (sq b x y)"
  by (auto simp: cn_board_ok_def)

lemma general_at:
  "general_ok b red g \<Longrightarrow> on_board (x, y) \<Longrightarrow> sq b x y = general_of red \<longleftrightarrow> (x, y) = g"
  by (auto simp: general_ok_def)

section \<open>Walking along a line\<close>

definition walk :: "u8 \<Rightarrow> u8 \<Rightarrow> nat \<Rightarrow> u8" where
  "walk i d n = i + of_nat n * d"

lemma walk_0 [simp]: "walk i d 0 = i"
  by (simp add: walk_def)

lemma walk_Suc: "walk i d (Suc n) = walk (i + d) d n"
  by (simp add: walk_def algebra_simps)

lemma ray_first_walk:
  assumes "\<forall>n \<le> N. f (walk i d n) = Some (h n)" and "chess (h N) \<noteq> 0"
  shows "\<exists>k \<le> N. chess (h k) \<noteq> 0 \<and> (\<forall>j < k. chess (h j) = 0) \<and> ray_first f d i = Some (h k)"
  using assms
proof (induction N arbitrary: i h)
  case 0
  then have "f i = Some (h 0)" by simp
  with 0 show ?case by (subst ray_first.simps) simp
next
  case (Suc N)
  have f0: "f i = Some (h 0)" using Suc.prems(1) by (metis walk_0 zero_le)
  show ?case
  proof (cases "chess (h 0) = 0")
    case False
    with f0 show ?thesis by (subst ray_first.simps) auto
  next
    case True
    have "\<forall>n \<le> N. f (walk (i + d) d n) = Some (h (Suc n))"
      using Suc.prems(1) by (metis walk_Suc Suc_le_mono)
    from Suc.IH [OF this Suc.prems(2)] obtain k where
      k: "k \<le> N" "chess (h (Suc k)) \<noteq> 0" "\<forall>j < k. chess (h (Suc j)) = 0" "ray_first f d (i + d) = Some (h (Suc k))" by blast
    have "ray_first f d i = Some (h (Suc k))" using f0 True k(4) by (subst ray_first.simps) simp
    moreover have "\<forall>j < Suc k. chess (h j) = 0" using True k(3) by (simp add: less_Suc_eq_0_disj) blast
    ultimately show ?thesis using k by (intro exI [of _ "Suc k"]) auto
  qed
qed

text \<open>A cannon's second look along the line, behind the first piece.\<close>

lemma cannon_ray_1:
  assumes "\<forall>n \<le> N. f (walk i d n) = Some (h n)" and "\<forall>n < N. \<not> (chess (h n) = CNCHESS_General \<and> \<not> isyourchess p (h n))"
    and "chess (h N) = CNCHESS_General \<and> \<not> isyourchess p (h N)"
  shows "\<exists>r. cannon_ray p f d i 1 = Some r \<and> (r = 2 \<longleftrightarrow> (\<forall>n < N. chess (h n) = 0))"
  using assms
proof (induction N arbitrary: i h)
  case 0
  then have "f i = Some (h 0)" by simp
  with 0 show ?case by (subst cannon_ray.simps) (simp add: cn_consts)
next
  case (Suc N)
  have f0: "f i = Some (h 0)" using Suc.prems(1) by (metis walk_0 zero_le)
  show ?case
  proof (cases "chess (h 0) = 0")
    case False
    with f0 Suc.prems(2) show ?thesis by (subst cannon_ray.simps) auto
  next
    case True
    have "\<forall>n \<le> N. f (walk (i + d) d n) = Some (h (Suc n))"
      using Suc.prems(1) by (metis walk_Suc Suc_le_mono)
    from Suc.IH [OF this] Suc.prems(2,3) obtain r where
      "cannon_ray p f d (i + d) 1 = Some r" "r = 2 \<longleftrightarrow> (\<forall>n < N. chess (h (Suc n)) = 0)" by auto
    with f0 True show ?thesis by (subst cannon_ray.simps) (simp add: All_less_Suc2)
  qed
qed

lemma card_less_Suc_shift: "card {j. j < Suc N \<and> P j} = (if P 0 then 1 else 0) + card {j. j < N \<and> P (Suc j)}"
proof -
  have "{j. j < Suc N \<and> P j} = (if P 0 then {0} else {}) \<union> Suc ` {j. j < N \<and> P (Suc j)}"
    by (auto simp: less_Suc_eq_0_disj)
  then show ?thesis by (simp add: card_image)
qed

lemma cannon_ray_0:
  assumes "\<forall>n \<le> N. f (walk i d n) = Some (h n)" and "\<forall>n < N. \<not> (chess (h n) = CNCHESS_General \<and> \<not> isyourchess p (h n))"
    and "chess (h N) = CNCHESS_General \<and> \<not> isyourchess p (h N)"
  shows "\<exists>r. cannon_ray p f d i 0 = Some r \<and> (r = 2 \<longleftrightarrow> card {n. n < N \<and> chess (h n) \<noteq> 0} = 1)"
  using assms
proof (induction N arbitrary: i h)
  case 0
  then have "f i = Some (h 0)" by simp
  with 0 show ?case by (subst cannon_ray.simps) (simp add: cn_consts)
next
  case (Suc N)
  have f0: "f i = Some (h 0)" using Suc.prems(1) by (metis walk_0 zero_le)
  have fS: "\<forall>n \<le> N. f (walk (i + d) d n) = Some (h (Suc n))"
    using Suc.prems(1) by (metis walk_Suc Suc_le_mono)
  show ?case
  proof (cases "chess (h 0) = 0")
    case True
    from Suc.IH [OF fS] Suc.prems(2,3) obtain r where
      "cannon_ray p f d (i + d) 0 = Some r" "r = 2 \<longleftrightarrow> card {n. n < N \<and> chess (h (Suc n)) \<noteq> 0} = 1" by auto
    with f0 True show ?thesis by (subst cannon_ray.simps) (simp add: card_less_Suc_shift)
  next
    case False
    have "\<forall>n < N. \<not> (chess (h (Suc n)) = CNCHESS_General \<and> \<not> isyourchess p (h (Suc n)))"
      using Suc.prems(2) by blast
    from cannon_ray_1 [OF fS this Suc.prems(3)] obtain r where
      r: "cannon_ray p f d (i + d) 1 = Some r" "r = 2 \<longleftrightarrow> (\<forall>n < N. chess (h (Suc n)) = 0)" by blast
    have "card {n. n < Suc N \<and> chess (h n) \<noteq> 0} = 1 + card {n. n < N \<and> chess (h (Suc n)) \<noteq> 0}"
      using False by (simp add: card_less_Suc_shift)
    moreover have "card {n. n < N \<and> chess (h (Suc n)) \<noteq> 0} = 0 \<longleftrightarrow> (\<forall>n < N. chess (h (Suc n)) = 0)" by auto
    ultimately show ?thesis using f0 False r Suc.prems(2) by (subst cannon_ray.simps) auto
  qed
qed

text \<open>From \<open>x\<close> a step towards \<open>g\<close>: the squares strictly between, and then \<open>g\<close>.\<close>

lemma unat_u8: "unat (x::u8) < 256"
  by (rule order_less_le_trans [OF unsigned_less]) simp

lemma walk_up:
  assumes "(x::u8) < g"
  shows "n \<le> unat g - unat x - 1 \<Longrightarrow> unat (walk (x + 1) 1 n) = unat x + 1 + n"
proof -
  assume n: "n \<le> unat g - unat x - 1"
  have "unat x < unat g" "unat g < 256" using assms unat_u8 [of g] by (simp_all add: word_less_nat_alt)
  with n have "unat x + 1 + n < 256" by linarith
  moreover have "walk (x + 1) 1 n = of_nat (unat x + 1 + n)" by (simp add: walk_def)
  ultimately show ?thesis by (simp only: unat_of_nat) simp
qed

lemma walk_down:
  assumes "(g::u8) < x"
  shows "n \<le> unat x - unat g - 1 \<Longrightarrow> unat (walk (x + 255) 255 n) = unat x - 1 - n"
proof -
  assume n: "n \<le> unat x - unat g - 1"
  have "unat g < unat x" "unat x < 256" using assms unat_u8 [of x] by (simp_all add: word_less_nat_alt)
  with n have n': "1 + n \<le> unat x" by linarith
  have m: "(255::u8) = -1" by simp
  have "walk (x + 255) 255 n = of_nat (unat x) - of_nat (1 + n)" unfolding walk_def m by simp
  also have "\<dots> = of_nat (unat x - (1 + n))" using n' by (simp only: of_nat_diff)
  finally show ?thesis using \<open>unat x < 256\<close> by (simp only: unat_of_nat) simp
qed

definition towards :: "u8 \<Rightarrow> u8 \<Rightarrow> nat \<Rightarrow> u8" where
  "towards x g n = walk (x + adjs (g < x)) (adjs (g < x)) n"

definition gap :: "u8 \<Rightarrow> u8 \<Rightarrow> nat" where
  "gap x g = (if x < g then unat g - unat x - 1 else unat x - unat g - 1)"

lemma unat_towards:
  "x < g \<Longrightarrow> n \<le> gap x g \<Longrightarrow> unat (towards x g n) = unat x + 1 + n"
  "g < x \<Longrightarrow> n \<le> gap x g \<Longrightarrow> unat (towards x g n) = unat x - 1 - n"
proof -
  assume l: "x < g" and n: "n \<le> gap x g"
  then have "\<not> g < x" by simp
  with walk_up [OF l] l n show "unat (towards x g n) = unat x + 1 + n" by (simp only: towards_def adjs_def gap_def if_True if_False)
next
  assume l: "g < x" and n: "n \<le> gap x g"
  then have nl: "\<not> x < g" by simp
  with walk_down [OF l] l n show "unat (towards x g n) = unat x - 1 - n" by (simp only: towards_def adjs_def gap_def if_True if_False)
qed

lemma gap_unat: "x < g \<Longrightarrow> unat x + 1 + gap x g = unat g" "g < x \<Longrightarrow> unat g + 1 + gap x g = unat x"
  by (auto simp: gap_def word_less_nat_alt)

lemma towards_gap: "x \<noteq> g \<Longrightarrow> towards x g (gap x g) = g"
proof -
  assume "x \<noteq> g"
  then consider "x < g" | "g < x" by fastforce
  then show ?thesis
  proof cases
    case 1
    then show ?thesis using unat_towards(1) [OF 1 order_refl] gap_unat(1) [OF 1] by (simp only: word_unat_eq_iff)
  next
    case 2
    then have "unat (towards x g (gap x g)) = unat g" using unat_towards(2) [OF 2 order_refl] gap_unat(2) [OF 2] by linarith
    then show ?thesis by (simp only: word_unat_eq_iff)
  qed
qed

lemma towards_between:
  assumes "x \<noteq> g"
  shows "bij_betw (towards x g) {..<gap x g} {k. min x g < k \<and> k < max x g}"
proof -
  consider "x < g" | "g < x" using assms by fastforce
  then show ?thesis
  proof cases
    case 1
    have mm: "min x g = x" "max x g = g" using 1 by (auto simp: min_def max_def)
    have inj: "inj_on (towards x g) {..<gap x g}"
    proof (rule inj_onI)
      fix n m assume nm: "n \<in> {..<gap x g}" "m \<in> {..<gap x g}" and e: "towards x g n = towards x g m"
      have "n \<le> gap x g" "m \<le> gap x g" using nm by simp_all
      from unat_towards(1) [OF 1 this(1)] unat_towards(1) [OF 1 this(2)] show "n = m" unfolding e by linarith
    qed
    have "towards x g n \<in> {k. x < k \<and> k < g}" if "n < gap x g" for n
    proof -
      have u: "unat (towards x g n) = unat x + 1 + n" by (rule unat_towards(1) [OF 1]) (use that in simp)
      have "unat x + 1 + n < unat g" using that gap_unat(1) [OF 1] by linarith
      then show ?thesis unfolding mem_Collect_eq word_less_nat_alt u by linarith
    qed
    moreover have "k \<in> towards x g ` {..<gap x g}" if "x < k" "k < g" for k
    proof -
      have n: "unat x < unat k" "unat k < unat g" using that by (simp_all add: word_less_nat_alt)
      then have "unat k - unat x - 1 < gap x g" using gap_unat(1) [OF 1] by linarith
      moreover from this have "unat (towards x g (unat k - unat x - 1)) = unat k" using unat_towards(1) [OF 1] n by simp
      ultimately show ?thesis by (intro image_eqI [where x = "unat k - unat x - 1"]) (simp_all add: word_unat_eq_iff)
    qed
    ultimately show ?thesis unfolding bij_betw_def mm using inj by blast
  next
    case 2
    have mm: "min x g = g" "max x g = x" using 2 by (auto simp: min_def max_def)
    have inj: "inj_on (towards x g) {..<gap x g}"
    proof (rule inj_onI)
      fix n m assume nm: "n \<in> {..<gap x g}" "m \<in> {..<gap x g}" "towards x g n = towards x g m"
      then have "unat x - 1 - n = unat x - 1 - m" using unat_towards(2) [OF 2, of n] unat_towards(2) [OF 2, of m] by simp
      with nm(1,2) gap_unat(2) [OF 2] show "n = m" by auto
    qed
    have "towards x g n \<in> {k. g < k \<and> k < x}" if "n < gap x g" for n
    proof -
      from that gap_unat(2) [OF 2] have "unat g < unat x - 1 - n" "unat x - 1 - n < unat x" by linarith+
      then show ?thesis using that unat_towards(2) [OF 2, of n] by (simp add: word_less_nat_alt)
    qed
    moreover have "k \<in> towards x g ` {..<gap x g}" if "g < k" "k < x" for k
    proof -
      have n: "unat g < unat k" "unat k < unat x" using that by (simp_all add: word_less_nat_alt)
      then have l: "unat x - unat k - 1 < gap x g" using gap_unat(2) [OF 2] by linarith
      then have "unat (towards x g (unat x - unat k - 1)) = unat k"
        using unat_towards(2) [OF 2, of "unat x - unat k - 1"] n by linarith
      with l show ?thesis by (intro image_eqI [where x = "unat x - unat k - 1"]) (simp_all add: word_unat_eq_iff)
    qed
    ultimately show ?thesis unfolding bij_betw_def mm using inj by blast
  qed
qed

lemma card_towards:
  assumes "x \<noteq> g"
  shows "card {k. min x g < k \<and> k < max x g \<and> P k} = card {n. n < gap x g \<and> P (towards x g n)}"
proof -
  have B: "inj_on (towards x g) {..<gap x g}" "towards x g ` {..<gap x g} = {k. min x g < k \<and> k < max x g}"
    using towards_between [OF assms] by (simp_all only: bij_betw_def)
  have "{k. min x g < k \<and> k < max x g \<and> P k} = {k \<in> {k. min x g < k \<and> k < max x g}. P k}" by blast
  also have "\<dots> = towards x g ` {n. n < gap x g \<and> P (towards x g n)}" unfolding B(2) [symmetric] by blast
  finally show ?thesis using card_image [OF inj_on_subset [OF B(1)], of "{n. n < gap x g \<and> P (towards x g n)}"] by fastforce
qed

lemma towards_le:
  assumes "x \<noteq> g" "n \<le> gap x g" "x \<le> m" "g \<le> m"
  shows "towards x g n \<le> m"
proof (cases "n = gap x g")
  case True
  with assms show ?thesis by (simp add: towards_gap)
next
  case False
  with assms(2) have "n < gap x g" by simp
  then have "min x g < towards x g n \<and> towards x g n < max x g"
    using towards_between [OF assms(1)] by (auto simp: bij_betw_def)
  with assms(3,4) show ?thesis by (auto simp: max_def split: if_splits)
qed

lemma towards_eq_iff: "x \<noteq> g \<Longrightarrow> n \<le> gap x g \<Longrightarrow> towards x g n = g \<longleftrightarrow> n = gap x g"
proof
  assume x: "x \<noteq> g" and n: "n \<le> gap x g" and e: "towards x g n = g"
  show "n = gap x g"
  proof (rule ccontr)
    assume "n \<noteq> gap x g"
    with n have "n \<in> {..<gap x g}" by simp
    then have "towards x g n \<in> towards x g ` {..<gap x g}" by (rule imageI)
    then have "g \<in> {k. min x g < k \<and> k < max x g}"
      unfolding conjunct2 [OF towards_between [OF x, unfolded bij_betw_def]] e .
    then show False
      unfolding mem_Collect_eq min_less_iff_disj less_max_iff_disj by (metis order_less_asym order_less_irrefl)
  qed
qed (simp add: towards_gap)

section \<open>Check by each kind of piece\<close>

text \<open>A line \<open>h\<close> of squares that ends, at index \<open>N\<close>, with the general of the side that is not \<open>red\<close>.\<close>

definition line_to_general :: "bool \<Rightarrow> (u8 \<Rightarrow> u8 option) \<Rightarrow> u8 \<Rightarrow> u8 \<Rightarrow> (nat \<Rightarrow> u8) \<Rightarrow> nat \<Rightarrow> bool" where
  "line_to_general red f i d h N \<longleftrightarrow>
     (\<forall>n \<le> N. f (walk i d n) = Some (h n) \<and> cell_ok (h n) \<and> (h n = general_of (\<not> red) \<longleftrightarrow> n = N))"

lemma line_no_general:
  assumes "line_to_general (sp_pos_id p = 1) f i d h N" and p: "sp_pos_id p \<in> {1, 2}" and "n \<le> N"
  shows "chess (h n) = CNCHESS_General \<and> \<not> isyourchess p (h n) \<longleftrightarrow> n = N"
  using assms enemy_general [of "h n" "sp_pos_id p = 1"] isyourchess_iff [OF p, of "h n"]
  by (auto simp: line_to_general_def)

lemma ray_check:
  assumes L: "line_to_general (sp_pos_id p = 1) f i d h N" and p: "sp_pos_id p \<in> {1, 2}"
  shows "map_option (\<lambda>v. chess v = CNCHESS_General \<and> \<not> isyourchess p v) (ray_first f d i) =
    Some (card {n. n < N \<and> h n \<noteq> 0} = 0)"
proof -
  have "\<forall>n \<le> N. f (walk i d n) = Some (h n)" using L by (auto simp: line_to_general_def)
  moreover have "chess (h N) \<noteq> 0" using L by (auto simp: line_to_general_def cn_consts)
  ultimately obtain k where k: "k \<le> N" "chess (h k) \<noteq> 0" "\<forall>j < k. chess (h j) = 0" "ray_first f d i = Some (h k)"
    using ray_first_walk by blast
  have z: "chess (h j) = 0 \<longleftrightarrow> h j = 0" if "j \<le> N" for j
    using L that by (intro chess_0_iff) (simp add: line_to_general_def)
  have "k = N \<longleftrightarrow> (\<forall>n < N. h n = 0)"
    using k z by (metis le_neq_implies_less less_imp_le_nat)
  then have "k = N \<longleftrightarrow> card {n. n < N \<and> h n \<noteq> 0} = 0" by auto
  then show ?thesis using line_no_general [OF L p k(1)] k(4) by simp
qed

lemma cannon_check:
  assumes L: "line_to_general (sp_pos_id p = 1) f i d h N" and p: "sp_pos_id p \<in> {1, 2}"
  shows "map_option (\<lambda>r. r = 2) (cannon_ray p f d i 0) = Some (card {n. n < N \<and> h n \<noteq> 0} = 1)"
proof -
  have 1: "\<forall>n \<le> N. f (walk i d n) = Some (h n)" using L by (auto simp: line_to_general_def)
  have 2: "\<forall>n < N. \<not> (chess (h n) = CNCHESS_General \<and> \<not> isyourchess p (h n))"
    using line_no_general [OF L p] by (metis less_imp_le nat_neq_iff)
  have 3: "chess (h N) = CNCHESS_General \<and> \<not> isyourchess p (h N)" using line_no_general [OF L p, of N] by simp
  obtain r where r: "cannon_ray p f d i 0 = Some r" "r = 2 \<longleftrightarrow> card {n. n < N \<and> chess (h n) \<noteq> 0} = 1"
    using cannon_ray_0 [OF 1 2 3] by (elim exE conjE)
  have "chess (h j) = 0 \<longleftrightarrow> h j = 0" if "j < N" for j
    using L that by (intro chess_0_iff) (simp add: line_to_general_def)
  then have "{n. n < N \<and> chess (h n) \<noteq> 0} = {n. n < N \<and> h n \<noteq> 0}" by blast
  with r show ?thesis by simp
qed

text \<open>The two lines, along a column of the board (\<open>y = gy\<close>) and along a row.\<close>

lemma column_to_general:
  assumes b: "cn_board_ok b" and g: "general_ok b (\<not> red) (gx, y)" and xy: "on_board (x, y)" "x \<noteq> gx"
  shows "line_to_general red (\<lambda>i. sq_opt b i y) (x + adjs (gx < x)) (adjs (gx < x)) (\<lambda>n. sq b (towards x gx n) y) (gap x gx)"
proof -
  have gb: "gx \<le> 9" "y \<le> 8" "x \<le> 9" using g xy by (auto simp: general_ok_def on_board_def)
  {
    fix n assume n: "n \<le> gap x gx"
    have o: "on_board (towards x gx n, y)" using towards_le [OF xy(2) n, of 9] gb by (simp add: on_board_def)
    note towards_eq_iff [OF xy(2) n]
    then have "sq b (towards x gx n) y = general_of (\<not> red) \<longleftrightarrow> n = gap x gx" using general_at [OF g o] by simp
    moreover have "sq_opt b (towards x gx n) y = Some (sq b (towards x gx n) y)"
      using o by (auto simp: sq_opt_def on_board_def not_less)
    ultimately have "sq_opt b (walk (x + adjs (gx < x)) (adjs (gx < x)) n) y = Some (sq b (towards x gx n) y) \<and>
      cell_ok (sq b (towards x gx n) y) \<and> (sq b (towards x gx n) y = general_of (\<not> red) \<longleftrightarrow> n = gap x gx)"
      using cell_okI [OF b o] by (simp add: towards_def)
  }
  then show ?thesis by (simp add: line_to_general_def)
qed

lemma row_to_general:
  assumes b: "cn_board_ok b" and g: "general_ok b (\<not> red) (x, gy)" and xy: "on_board (x, y)" "y \<noteq> gy"
  shows "line_to_general red (\<lambda>i. sq_opt b x i) (y + adjs (gy < y)) (adjs (gy < y)) (\<lambda>n. sq b x (towards y gy n)) (gap y gy)"
proof -
  have gb: "gy \<le> 8" "y \<le> 8" "x \<le> 9" using g xy by (auto simp: general_ok_def on_board_def)
  {
    fix n assume n: "n \<le> gap y gy"
    have o: "on_board (x, towards y gy n)" using towards_le [OF xy(2) n, of 8] gb by (simp add: on_board_def)
    note towards_eq_iff [OF xy(2) n]
    then have "sq b x (towards y gy n) = general_of (\<not> red) \<longleftrightarrow> n = gap y gy" using general_at [OF g o] by simp
    moreover have "sq_opt b x (towards y gy n) = Some (sq b x (towards y gy n))"
      using o by (auto simp: sq_opt_def on_board_def not_less)
    ultimately have "sq_opt b x (walk (y + adjs (gy < y)) (adjs (gy < y)) n) = Some (sq b x (towards y gy n)) \<and>
      cell_ok (sq b x (towards y gy n)) \<and> (sq b x (towards y gy n) = general_of (\<not> red) \<longleftrightarrow> n = gap y gy)"
      using cell_okI [OF b o] by (simp add: towards_def)
  }
  then show ?thesis by (simp add: line_to_general_def)
qed

lemma pieces_towards:
  "x \<noteq> gx \<Longrightarrow> pieces_between b (x, y) (gx, y) = card {n. n < gap x gx \<and> sq b (towards x gx n) y \<noteq> 0}"
  "y \<noteq> gy \<Longrightarrow> pieces_between b (x, y) (x, gy) = card {n. n < gap y gy \<and> sq b x (towards y gy n) \<noteq> 0}"
  by (simp_all only: pieces_col pieces_row card_towards not_False_eq_True)

text \<open>The facts about a piece and the general it aims at.\<close>

definition aims :: "sprite \<Rightarrow> cn_rule \<Rightarrow> coordinate \<Rightarrow> coordinate \<Rightarrow> bool" where
  "aims p s c g \<longleftrightarrow> sp_pos_id p \<in> {1, 2} \<and> cn_board_ok (cn_board s) \<and> on_board c \<and> c \<noteq> g \<and>
     g = cn_gpos s ! side_ix (sp_pos_id p \<noteq> 1) \<and> general_ok (cn_board s) (sp_pos_id p \<noteq> 1) g"

lemma aimsD:
  assumes "aims p s c g"
  shows "sp_pos_id p \<in> {1, 2}" "cn_board_ok (cn_board s)" "on_board c" "c \<noteq> g" "on_board g"
    "cn_gpos s ! (unat (sp_pos_id p) mod 2) = g" "general_ok (cn_board s) (\<not> (sp_pos_id p = 1)) g"
    "in_palace (sp_pos_id p \<noteq> 1) g"
  using assms by (auto simp: aims_def pos_ix general_ok_def)

lemma aims_target: "aims p s c g \<Longrightarrow> sq (cn_board s) (fst g) (snd g) = general_of (sp_pos_id p \<noteq> 1)"
  using general_at [of "cn_board s" "sp_pos_id p \<noteq> 1" g "fst g" "snd g"] aimsD [of p s c g] by simp

lemma uint_diff_0: "uint (a::u8) - uint c = 0 \<longleftrightarrow> c = a" "uint a = uint c \<longleftrightarrow> c = a"
  by (auto simp: word_uint_eq_iff)

lemma checked_by_chariot_iff:
  assumes a: "aims p s (x, y) (gx, gy)" and k: "chess_at (cn_board s) x y = CNCHESS_Chariot"
  shows "checked_by_chariot p x y s = Some (reaches (cn_board s) (sp_pos_id p = 1) (x, y) (gx, gy))"
proof -
  note A = aimsD [OF a]
  have R: "reaches (cn_board s) (sp_pos_id p = 1) (x, y) (gx, gy) \<longleftrightarrow>
      (x = gx \<or> y = gy) \<and> pieces_between (cn_board s) (x, y) (gx, gy) = 0"
    using k by (auto simp: reaches_def Let_def cn_consts uint_diff_0)
  consider "y = gy" "x \<noteq> gx" | "x = gx" "y \<noteq> gy" | "x \<noteq> gx" "y \<noteq> gy" using A(4) by blast
  then show ?thesis
  proof cases
    case 1
    from ray_check [OF column_to_general [OF A(2) A(7) [folded 1(1)] A(3) 1(2)] A(1)]
    show ?thesis unfolding R using 1 A(6) by (simp add: checked_by_chariot_def straight_check_def pieces_towards Let_def)
  next
    case 2
    from ray_check [OF row_to_general [OF A(2) A(7) [folded 2(1)] A(3) 2(2)] A(1)]
    show ?thesis unfolding R using 2 A(6) by (simp add: checked_by_chariot_def straight_check_def pieces_towards Let_def)
  next
    case 3
    then show ?thesis unfolding R using A(6) by (simp add: checked_by_chariot_def straight_check_def Let_def)
  qed
qed

lemma checked_by_cannon_iff:
  assumes a: "aims p s (x, y) (gx, gy)" and k: "chess_at (cn_board s) x y = CNCHESS_Cannon"
  shows "checked_by_cannon p x y s = Some (reaches (cn_board s) (sp_pos_id p = 1) (x, y) (gx, gy))"
proof -
  note A = aimsD [OF a]
  have R: "reaches (cn_board s) (sp_pos_id p = 1) (x, y) (gx, gy) \<longleftrightarrow>
      (x = gx \<or> y = gy) \<and> pieces_between (cn_board s) (x, y) (gx, gy) = 1"
    using k aims_target [OF a] by (auto simp: reaches_def Let_def cn_consts uint_diff_0)
  consider "y = gy" "x \<noteq> gx" | "x = gx" "y \<noteq> gy" | "x \<noteq> gx" "y \<noteq> gy" using A(4) by blast
  then show ?thesis
  proof cases
    case 1
    from cannon_check [OF column_to_general [OF A(2) A(7) [folded 1(1)] A(3) 1(2)] A(1)]
    show ?thesis unfolding R using 1 A(6) by (simp add: checked_by_cannon_def straight_check_def pieces_towards Let_def)
  next
    case 2
    from cannon_check [OF row_to_general [OF A(2) A(7) [folded 2(1)] A(3) 2(2)] A(1)]
    show ?thesis unfolding R using 2 A(6) by (simp add: checked_by_cannon_def straight_check_def pieces_towards Let_def)
  next
    case 3
    then show ?thesis unfolding R using A(6) by (simp add: checked_by_cannon_def straight_check_def Let_def)
  qed
qed

lemma u8_plus: "uint (x::u8) + uint k < 256 \<Longrightarrow> uint (x + k) = uint x + uint k"
  by (simp add: uint_word_ariths mod_pos_pos_trivial)

lemma u8_minus: "uint (k::u8) \<le> uint (x::u8) \<Longrightarrow> uint (x - k) = uint x - uint k"
proof -
  assume "uint k \<le> uint x"
  then have "0 \<le> uint x - uint k" "uint x - uint k < 256" using u8_bound(1) [of x] u8_bound(2) [of k] by linarith+
  then show ?thesis by (simp add: uint_word_ariths mod_pos_pos_trivial)
qed

lemma aims_bounds:
  assumes "aims p s (x, y) (gx, gy)"
  shows "uint x \<le> 9" "uint y \<le> 8" "uint gx \<le> 9" "3 \<le> uint gy" "uint gy \<le> 5"
  using aimsD(3,5,8) [OF assms] by (auto simp: on_board_def in_palace_def word_le_def)

lemma horse_hit:
  assumes a: "aims p s (x, y) (gx, gy)" and o: "on_board (x', y')"
  shows "(if horse_movable x y x' y' s
      then map_option (\<lambda>v. chess v = CNCHESS_General \<and> \<not> isyourchess p v) (sq_opt (cn_board s) x' y')
      else Some False) = Some (horse_movable x y x' y' s \<and> (x', y') = (gx, gy))"
proof -
  note A = aimsD [OF a]
  have "sq_opt (cn_board s) x' y' = Some (sq (cn_board s) x' y')" using o by (auto simp: sq_opt_def on_board_def not_less)
  moreover have "chess (sq (cn_board s) x' y') = CNCHESS_General \<and> \<not> isyourchess p (sq (cn_board s) x' y') \<longleftrightarrow> (x', y') = (gx, gy)"
    using enemy_general [OF cell_okI [OF A(2) o], of "sp_pos_id p = 1"] isyourchess_iff [OF A(1)] general_at [OF A(7) o] by simp
  ultimately show ?thesis by simp
qed

text \<open>The square two, or one, from \<open>y\<close> towards the column of the general.\<close>

lemma horse_column:
  assumes "aims p s (x, y) (gx, gy)" and "y \<noteq> gy"
  shows "uint (y + (if gy < y then 254 else 2)) = (if gy < y then uint y - 2 else uint y + 2)"
    and "uint (y + adjs (gy < y)) = (if gy < y then uint y - 1 else uint y + 1)"
proof -
  note B = aims_bounds [OF assms(1)]
  have m: "(254::u8) = -2" "(255::u8) = -1" by simp_all
  have "uint (y - 2) = uint y - 2" "uint (y - 1) = uint y - 1" if "gy < y"
    using that B(4) by (simp_all add: u8_minus word_less_def)
  moreover have "uint (y + 2) = uint y + 2" "uint (y + 1) = uint y + 1" using B(2) by (simp_all add: u8_plus)
  ultimately show "uint (y + (if gy < y then 254 else 2)) = (if gy < y then uint y - 2 else uint y + 2)"
    "uint (y + adjs (gy < y)) = (if gy < y then uint y - 1 else uint y + 1)"
    unfolding adjs_def m by simp_all
qed

lemma checked_by_horse_iff:
  assumes a: "aims p s (x, y) (gx, gy)" and k: "chess_at (cn_board s) x y = CNCHESS_Horse"
  shows "checked_by_horse p x y s = Some (reaches (cn_board s) (sp_pos_id p = 1) (x, y) (gx, gy))"
proof -
  note A = aimsD [OF a] and B = aims_bounds [OF a]
  have R: "reaches (cn_board s) (sp_pos_id p = 1) (x, y) (gx, gy) \<longleftrightarrow> horse_movable x y gx gy s"
    using k by (simp add: reaches_def Let_def cn_consts horse_movable_iff)
  show ?thesis
  proof (cases "x = gx \<or> y = gy")
    case True
    then have "\<not> horse_movable x y gx gy s" by (auto simp: horse_movable_iff)
    with True show ?thesis unfolding R using A(6) by (simp add: checked_by_horse_def Let_def)
  next
    case False
    then have nx: "x \<noteq> gx" and ny: "y \<noteq> gy" by auto
    let ?y2 = "y + (if gy < y then 254 else 2)" and ?y1 = "y + adjs (gy < y)"
    note Y = horse_column [OF a ny]
    have gl: "gy < y \<longleftrightarrow> uint gy < uint y" by (simp add: word_less_def)
    have dy: "uint gy \<noteq> uint y" using ny by (auto simp: word_uint_eq_iff)
    have o: "on_board (gx, ?y2)" "on_board (gx, ?y1)"
      using B dy unfolding on_board_def word_le_def fst_conv snd_conv Y unfolding gl by auto
    have two: "horse_movable x y gx ?y2 s \<and> (gx, ?y2) = (gx, gy) \<longleftrightarrow> horse_movable x y gx gy s" if "\<bar>uint x - uint gx\<bar> = 1"
    proof -
      have "?y2 = gy" if "horse_movable x y gx gy s"
      proof -
        from that \<open>\<bar>uint x - uint gx\<bar> = 1\<close> have "\<bar>uint gy - uint y\<bar> = 2" by (auto simp: horse_movable_iff)
        then have "uint ?y2 = uint gy" unfolding Y unfolding gl by auto
        then show ?thesis by (simp only: word_uint_eq_iff)
      qed
      then show ?thesis by auto
    qed
    have one: "horse_movable x y gx ?y1 s \<and> (gx, ?y1) = (gx, gy) \<longleftrightarrow> horse_movable x y gx gy s" if "\<bar>uint x - uint gx\<bar> = 2"
    proof -
      have "?y1 = gy" if "horse_movable x y gx gy s"
      proof -
        from that \<open>\<bar>uint x - uint gx\<bar> = 2\<close> have "\<bar>uint gy - uint y\<bar> = 1" by (auto simp: horse_movable_iff)
        then have "uint ?y1 = uint gy" unfolding Y unfolding gl by auto
        then show ?thesis by (simp only: word_uint_eq_iff)
      qed
      then show ?thesis by auto
    qed
    have m: "(255::u8) = -1" "(254::u8) = -2" by simp_all
    have D: "x - gx = 1 \<longleftrightarrow> x = gx + 1" "x - gx = 2 \<longleftrightarrow> x = gx + 2" "x - gx = 255 \<longleftrightarrow> gx = x + 1" "x - gx = 254 \<longleftrightarrow> gx = x + 2"
      unfolding m by (auto simp: algebra_simps)
    have P: "uint (gx + 1) = uint gx + 1" "uint (gx + 2) = uint gx + 2" "uint (x + 1) = uint x + 1" "uint (x + 2) = uint x + 2"
      using B by (simp_all add: u8_plus)
    note C = checked_by_horse_def [of p x y s, unfolded Let_def A(6) prod.case if_not_P [OF False]]
    note H = horse_hit [OF a o(1)] horse_hit [OF a o(2)]
    consider "x = gx + 1" | "x = gx + 2" | "gx = x + 1" | "gx = x + 2"
      | "x \<noteq> gx + 1" "x \<noteq> gx + 2" "gx \<noteq> x + 1" "gx \<noteq> x + 2" by blast
    then show ?thesis
    proof cases
      case 1
      then have "x - 1 = gx" "\<bar>uint x - uint gx\<bar> = 1" by (simp_all add: P)
      then show ?thesis unfolding R C D if_P [OF 1] \<open>x - 1 = gx\<close> H two [OF \<open>\<bar>uint x - uint gx\<bar> = 1\<close>] by simp
    next
      case 2
      then have d: "x - 2 = gx" "\<bar>uint x - uint gx\<bar> = 2" by (simp_all add: P)
      then have n: "x \<noteq> gx + 1" "gx \<noteq> x + 1" using P 2 unfolding word_uint_eq_iff by linarith+
      show ?thesis unfolding R C D if_not_P [OF n(1)] if_not_P [OF n(2)] if_P [OF 2] d(1) H(2) one [OF d(2)] by simp
    next
      case 3
      then have d: "\<bar>uint x - uint gx\<bar> = 1" by (simp add: P)
      then have n: "x \<noteq> gx + 1" using 3 P unfolding word_uint_eq_iff by linarith
      show ?thesis unfolding R C D if_not_P [OF n] if_P [OF 3] 3 [symmetric] H(1) two [OF d] by simp
    next
      case 4
      then have d: "\<bar>uint x - uint gx\<bar> = 2" by (simp add: P)
      then have n: "x \<noteq> gx + 1" "gx \<noteq> x + 1" "x \<noteq> gx + 2" using 4 P unfolding word_uint_eq_iff by linarith+
      show ?thesis unfolding R C D if_not_P [OF n(1)] if_not_P [OF n(2)] if_not_P [OF n(3)] if_P [OF 4] 4 [symmetric] H(2) one [OF d]
        by simp
    next
      case 5
      then have "\<bar>uint gx - uint x\<bar> \<noteq> 1" "\<bar>uint gx - uint x\<bar> \<noteq> 2" using P unfolding word_uint_eq_iff by linarith+
      then have "\<not> horse_movable x y gx gy s" by (simp add: horse_movable_iff)
      then show ?thesis unfolding R C D using 5 by simp
    qed
  qed
qed

lemma checked_by_soldier_iff:
  assumes a: "aims p s (x, y) (gx, gy)" and k: "chess_at (cn_board s) x y = CNCHESS_Soldier"
    and side: "if sp_pos_id p = 1 then 3 \<le> x else x \<le> 6"
    and own: "general_ok (cn_board s) (sp_pos_id p = 1) g'"
  shows "checked_by_soldier p x y s = Some (reaches (cn_board s) (sp_pos_id p = 1) (x, y) (gx, gy))"
proof -
  note A = aimsD [OF a] and B = aims_bounds [OF a]
  let ?red = "sp_pos_id p = 1"
  have R: "reaches (cn_board s) ?red (x, y) (gx, gy) \<longleftrightarrow>
      uint gx - uint x = (if ?red then 1 else -1) \<and> y = gy \<or> x = gx \<and> \<bar>uint gy - uint y\<bar> = 1"
    using k A(8) by (auto simp: reaches_def Let_def cn_consts uint_diff_0 own_half_def in_palace_def word_le_def)
  have gen: "map_option (\<lambda>v. chess v = CNCHESS_General) (sq_opt (cn_board s) x' y') = Some ((x', y') = (gx, gy))"
    if o: "on_board (x', y')" and n: "(x', y') \<noteq> g'" for x' y'
  proof -
    have "sq_opt (cn_board s) x' y' = Some (sq (cn_board s) x' y')" using o by (auto simp: sq_opt_def on_board_def not_less)
    moreover have "sq (cn_board s) x' y' \<noteq> general_of ?red" using general_at [OF own o] n by simp
    ultimately show ?thesis
      using any_general [OF cell_okI [OF A(2) o]] general_at [OF A(7) o] by (cases ?red) auto
  qed
  have own': "if ?red then uint (fst g') \<le> 2 else 7 \<le> uint (fst g')"
    using own by (auto simp: general_ok_def in_palace_def word_le_def)
  have side': "if ?red then 3 \<le> uint x else uint x \<le> 6" using side by (auto simp: word_le_def)
  have m: "(255::u8) = -1" by simp
  have P: "uint (x + 1) = uint x + 1" using B by (simp add: u8_plus)
  note C = checked_by_soldier_def [of p x y s, unfolded Let_def A(6) prod.case]
  consider "y = gy" "x \<noteq> gx" | "x = gx" "y \<noteq> gy" | "x \<noteq> gx" "y \<noteq> gy" using A(4) by blast
  then show ?thesis
  proof cases
    case 3
    then show ?thesis unfolding R C using A(6) by (simp add: straight_check_def)
  next
    case 2
    note Y = horse_column(2) [OF a 2(2)]
    have gl: "gy < y \<longleftrightarrow> uint gy < uint y" by (simp add: word_less_def)
    have dy: "uint gy \<noteq> uint y" using 2 by (auto simp: word_uint_eq_iff)
    have o: "on_board (x, y + adjs (gy < y))"
      using B dy unfolding on_board_def word_le_def fst_conv snd_conv Y unfolding gl by auto
    have "(x, y + adjs (gy < y)) \<noteq> g'" using own' A(8) 2(1) by (cases ?red) (auto simp: in_palace_def word_le_def)
    from gen [OF o this] have "map_option (\<lambda>v. chess v = CNCHESS_General) (sq_opt (cn_board s) x (y + adjs (gy < y))) =
      Some (y + adjs (gy < y) = gy)" using 2 by simp
    moreover have "y + adjs (gy < y) = gy \<longleftrightarrow> \<bar>uint gy - uint y\<bar> = 1"
      unfolding word_uint_eq_iff [of "y + adjs (gy < y)"] Y unfolding gl using dy by auto
    ultimately show ?thesis unfolding R C using A(6) 2 by (simp add: straight_check_def)
  next
    case 1
    have dx: "uint gx \<noteq> uint x" using 1 by (auto simp: word_uint_eq_iff)
    show ?thesis
    proof (cases "gx < x \<longleftrightarrow> ?red")
      case True
      then have "\<not> (if gx < x then 1 else 0) = int (unat (sp_pos_id p)) - 1" using A(1) by auto
      moreover have "\<not> reaches (cn_board s) ?red (x, y) (gx, gy)"
        unfolding R using True 1 by (auto simp: word_less_def split: if_splits)
      ultimately show ?thesis unfolding C using A(6) 1 by (simp add: straight_check_def chess_def cn_consts)
    next
      case False
      then have e: "(if gx < x then 1 else 0) = int (unat (sp_pos_id p)) - 1" using A(1) by auto
      have X: "uint (x + adjs (gx < x)) = (if ?red then uint x + 1 else uint x - 1)"
      proof -
        have "uint (x - 1) = uint x - 1" if "gx < x"
        proof -
          have "1 \<le> uint x" using that u8_bound(2) [of gx] unfolding word_less_def by linarith
          then show ?thesis by (simp add: u8_minus)
        qed
        then show ?thesis using False P unfolding adjs_def m by auto
      qed
      have o: "on_board (x + adjs (gx < x), y)"
        using B False dx aimsD(3) [OF a] unfolding on_board_def word_le_def fst_conv snd_conv X
        by (auto simp: word_less_def split: if_splits)
      have "(x + adjs (gx < x), y) \<noteq> g'"
        using own' side' X by (cases ?red) auto
      from gen [OF o this] have "map_option (\<lambda>v. chess v = CNCHESS_General) (sq_opt (cn_board s) (x + adjs (gx < x)) y) =
        Some (x + adjs (gx < x) = gx)" using 1 by simp
      moreover have "x + adjs (gx < x) = gx \<longleftrightarrow> uint gx - uint x = (if ?red then 1 else -1)"
        unfolding word_uint_eq_iff [of "x + adjs (gx < x)"] X by auto
      ultimately show ?thesis unfolding R C if_P [OF e] using A(6) 1 by (simp add: straight_check_def)
    qed
  qed
qed

section \<open>Check\<close>

lemma ischeck_loop_iff:
  assumes ok: "cn_ok s" and p: "sp_pos_id p \<in> {1, 2}"
    and "set m \<subseteq> hunters (cn_board s) (sp_pos_id p = 1)"
  shows "ischeck_loop p s m =
    Some (\<exists>e \<in> set m. reaches (cn_board s) (sp_pos_id p = 1) (snd e) (cn_gpos s ! side_ix (sp_pos_id p \<noteq> 1)))"
  using assms(3)
proof (induction m)
  case Nil
  then show ?case by simp
next
  case (Cons e m)
  let ?red = "sp_pos_id p = 1"
  obtain k x y where e: "e = (k, (x, y))" by (cases e) auto
  obtain gx gy where g: "cn_gpos s ! side_ix (\<not> ?red) = (gx, gy)" by fastforce
  from Cons.prems e have h: "on_board (x, y)" "k = sq (cn_board s) x y" "owned ?red k" "hunter k"
    by (auto simp: hunters_def)
  have G: "general_ok (cn_board s) (\<not> ?red) (gx, gy)" using cn_okD(4) [OF ok, of "\<not> ?red"] g by simp
  have "sq (cn_board s) gx gy = general_of (\<not> ?red)"
    using general_at [OF G, of gx gy] G by (auto simp: general_ok_def)
  then have "(x, y) \<noteq> (gx, gy)" using h(2,4) by auto
  then have a: "aims p s (x, y) (gx, gy)" using p cn_okD(1) [OF ok] h(1) g G by (simp add: aims_def)
  have IH: "ischeck_loop p s m = Some (\<exists>e \<in> set m. reaches (cn_board s) ?red (snd e) (gx, gy))"
    using Cons g by simp
  have k: "chess_at (cn_board s) x y = chess k" by (simp add: chess_at_def h(2))
  have sol: "if ?red then 3 \<le> x else x \<le> 6" if "chess k = CNCHESS_Soldier"
    using cn_okD(5) [OF ok, of ?red, unfolded soldiers_ok_def, rule_format, of x y] h that k by simp
  consider "chess k = CNCHESS_Chariot" | "chess k = CNCHESS_Horse" | "chess k = CNCHESS_Cannon" | "chess k = CNCHESS_Soldier"
    using h(4) by (auto simp: hunter_def)
  then have "(if chess k = CNCHESS_Chariot then checked_by_chariot p x y s
      else if chess k = CNCHESS_Horse then checked_by_horse p x y s
      else if chess k = CNCHESS_Cannon then checked_by_cannon p x y s
      else if chess k = CNCHESS_Soldier then checked_by_soldier p x y s
      else Some False) = Some (reaches (cn_board s) ?red (x, y) (gx, gy))"
  proof cases
    case 1
    then show ?thesis using checked_by_chariot_iff [OF a] k by simp
  next
    case 2
    then show ?thesis using checked_by_horse_iff [OF a] k by (simp add: cn_consts)
  next
    case 3
    then show ?thesis using checked_by_cannon_iff [OF a] k by (simp add: cn_consts)
  next
    case 4
    then show ?thesis using checked_by_soldier_iff [OF a _ sol [OF 4] cn_okD(4) [OF ok]] k by (simp add: cn_consts)
  qed
  moreover have "isyourchess p k" using h(3) isyourchess_iff [OF p] by simp
  ultimately show ?case using e IH g by (cases "reaches (cn_board s) ?red (x, y) (gx, gy)") auto
qed

text \<open>A piece that reaches the other general is one of the hunters.\<close>

lemma reaches_general_hunter:
  assumes "cell_ok (sq b x y)" "owned red (sq b x y)" "reaches b red (x, y) g" "in_palace (\<not> red) g"
  shows "hunter (sq b x y)"
proof -
  have "chess_at b x y \<in> {CNCHESS_Chariot, CNCHESS_Horse, CNCHESS_Cannon, CNCHESS_Soldier}"
    using assms(3,4) by (cases red) (auto simp: reaches_def Let_def own_half_def in_palace_def word_le_def)
  then show ?thesis by (simp add: hunter_def chess_at_def)
qed

lemma ischeck_legal:
  assumes "cn_ok s" and "sp_pos_id p \<in> {1, 2}"
  shows "ischeck p s =
    Some (\<exists>f. legal_move (cn_board s) (sp_pos_id p = 1) f (cn_gpos s ! side_ix (sp_pos_id p \<noteq> 1)))"
proof -
  let ?red = "sp_pos_id p = 1" and ?b = "cn_board s" and ?g = "cn_gpos s ! side_ix (sp_pos_id p \<noteq> 1)"
  note D = cn_okD [OF assms(1)]
  have G: "general_ok ?b (\<not> ?red) ?g" using D(4) [of "\<not> ?red"] by simp
  have gsq: "sq ?b (fst ?g) (snd ?g) = general_of (\<not> ?red)" and gb: "on_board ?g" "in_palace (\<not> ?red) ?g"
    using general_at [OF G, of "fst ?g" "snd ?g"] G by (auto simp: general_ok_def)
  have "(\<exists>e \<in> hunters ?b ?red. reaches ?b ?red (snd e) ?g) \<longleftrightarrow> (\<exists>f. legal_move ?b ?red f ?g)"
  proof
    assume "\<exists>e \<in> hunters ?b ?red. reaches ?b ?red (snd e) ?g"
    then obtain x y where h: "on_board (x, y)" "owned ?red (sq ?b x y)" "hunter (sq ?b x y)" "reaches ?b ?red (x, y) ?g"
      by (auto simp: hunters_def)
    moreover have "(x, y) \<noteq> ?g" using h(3) gsq by (metis fst_conv general_of_facts(6) snd_conv)
    moreover have "\<not> owned ?red (general_of (\<not> ?red))" using general_of_facts(4) [of "\<not> ?red"] by simp
    ultimately have "legal_move ?b ?red (x, y) ?g" using gsq gb by (simp add: legal_move_def)
    then show "\<exists>f. legal_move ?b ?red f ?g" by blast
  next
    assume "\<exists>f. legal_move ?b ?red f ?g"
    then obtain x y where l: "legal_move ?b ?red (x, y) ?g" by auto
    then have o: "on_board (x, y)" "owned ?red (sq ?b x y)" "reaches ?b ?red (x, y) ?g" by (simp_all add: legal_move_def)
    from reaches_general_hunter [OF cell_okI [OF D(1) o(1)] o(2,3) gb(2)] o
    show "\<exists>e \<in> hunters ?b ?red. reaches ?b ?red (snd e) ?g"
      by (intro bexI [of _ "(sq ?b x y, (x, y))"]) (simp_all add: hunters_def)
  qed
  moreover have "set (cn_maps s ! side_ix ?red) = hunters ?b ?red" by (rule D(7))
  ultimately show ?thesis
    unfolding ischeck_def pos_ix(2) [OF assms(2)]
    using ischeck_loop_iff [OF assms, of "cn_maps s ! side_ix ?red"] by simp
qed

section \<open>The position at the start\<close>

definition start_board :: "u8 list list" where
  "start_board = [[65, 66, 67, 68, 69, 68, 67, 66, 65], [0, 0, 0, 0, 0, 0, 0, 0, 0],
     [0, 70, 0, 0, 0, 0, 0, 70, 0], [71, 0, 71, 0, 71, 0, 71, 0, 71],
     [0, 0, 0, 0, 0, 0, 0, 0, 0], [0, 0, 0, 0, 0, 0, 0, 0, 0],
     [135, 0, 135, 0, 135, 0, 135, 0, 135], [0, 134, 0, 0, 0, 0, 0, 134, 0],
     [0, 0, 0, 0, 0, 0, 0, 0, 0], [129, 130, 131, 132, 133, 132, 131, 130, 129]]"

definition start_maps :: "chess_multimap list" where
  "start_maps =
     [[(65, 0, 0), (65, 0, 8), (66, 0, 1), (66, 0, 7), (70, 2, 1), (70, 2, 7), (71, 3, 0), (71, 3, 2), (71, 3, 4),
       (71, 3, 6), (71, 3, 8)],
      [(129, 9, 0), (129, 9, 8), (130, 9, 1), (130, 9, 7), (134, 7, 1), (134, 7, 7), (135, 6, 0), (135, 6, 2),
       (135, 6, 4), (135, 6, 6), (135, 6, 8)]]"

definition all_squares :: "coordinate list" where
  "all_squares = List.product [0, 1, 2, 3, 4, 5, 6, 7, 8, 9] [0, 1, 2, 3, 4, 5, 6, 7, 8]"

lemma u8_le_set: "(x::u8) \<le> 9 \<longleftrightarrow> x \<in> set [0, 1, 2, 3, 4, 5, 6, 7, 8, 9]" "(x::u8) \<le> 8 \<longleftrightarrow> x \<in> set [0, 1, 2, 3, 4, 5, 6, 7, 8]"
proof -
  have "a \<in> {0, 1, 2, 3, 4, 5, 6, 7, 8, 9} \<longleftrightarrow> a \<le> 9" "a \<in> {0, 1, 2, 3, 4, 5, 6, 7, 8} \<longleftrightarrow> a \<le> 8" if "0 \<le> a" for a :: int
    unfolding insert_iff empty_iff using that by presburger+
  from this [OF u8_bound(2) [of x]] show "(x::u8) \<le> 9 \<longleftrightarrow> x \<in> set [0, 1, 2, 3, 4, 5, 6, 7, 8, 9]" "(x::u8) \<le> 8 \<longleftrightarrow> x \<in> set [0, 1, 2, 3, 4, 5, 6, 7, 8]"
    by (simp_all add: word_le_def word_uint_eq_iff)
qed

lemma on_board_iff: "on_board c \<longleftrightarrow> c \<in> set all_squares"
  by (simp only: on_board_def all_squares_def u8_le_set set_product mem_Times_iff)

text \<open>The invariant as a computation over the squares.\<close>

definition cn_ok_check :: "u8 list list \<Rightarrow> chess_multimap list \<Rightarrow> coordinate list \<Rightarrow> bool \<Rightarrow> bool" where
  "cn_ok_check b m g red \<longleftrightarrow>
     g ! side_ix red \<in> set all_squares \<and> in_palace red (g ! side_ix red) \<and>
     list_all (\<lambda>(x, y). cell_ok (sq b x y) \<and> (sq b x y = general_of red \<longleftrightarrow> (x, y) = g ! side_ix red) \<and>
       (chess_at b x y = CNCHESS_Soldier \<and> owned red (sq b x y) \<longrightarrow> (if red then 3 \<le> x else x \<le> 6))) all_squares \<and>
     distinct (m ! side_ix red) \<and>
     set (m ! side_ix red) = set (filter (\<lambda>(v, c). owned red v \<and> hunter v) (map (\<lambda>(x, y). (sq b x y, (x, y))) all_squares))"

lemma cn_ok_by_check:
  assumes "length (cn_board s) = 10" "list_all (\<lambda>r. length r = 9) (cn_board s)" "length (cn_maps s) = 2" "length (cn_gpos s) = 2"
    and c: "cn_ok_check (cn_board s) (cn_maps s) (cn_gpos s) True" "cn_ok_check (cn_board s) (cn_maps s) (cn_gpos s) False"
  shows "cn_ok s"
proof -
  have "general_ok (cn_board s) red (cn_gpos s ! side_ix red) \<and> soldiers_ok (cn_board s) red \<and>
      distinct (cn_maps s ! side_ix red) \<and> set (cn_maps s ! side_ix red) = hunters (cn_board s) red" for red
  proof -
    have k: "cn_ok_check (cn_board s) (cn_maps s) (cn_gpos s) red" using c by (cases red) auto
    have "hunters (cn_board s) red = set (filter (\<lambda>(v, c). owned red v \<and> hunter v) (map (\<lambda>(x, y). (sq (cn_board s) x y, (x, y))) all_squares))"
      by (force simp: hunters_def on_board_iff)
    with k show ?thesis
      by (auto simp: cn_ok_check_def general_ok_def soldiers_ok_def on_board_iff list_all_iff)
  qed
  moreover have "cn_board_ok (cn_board s)"
    using assms by (auto simp: cn_board_ok_def cn_ok_check_def on_board_iff list_all_iff)
  ultimately show ?thesis using assms(3,4) by (simp add: cn_ok_def)
qed

lemma start_check: "cn_ok_check start_board start_maps [(0, 4), (9, 4)] True" "cn_ok_check start_board start_maps [(0, 4), (9, 4)] False"
  by code_simp+

end
