(* ===== verification/ChessMove.thy ===== *)
theory ChessMove
  imports ChessCheck
begin

text \<open>
  A move on the board: what \<open>place_chess\<close> changes, that it keeps the invariant of a position while
  the game goes on, and when the game is decided.
\<close>

section \<open>The board after a move\<close>

definition cn_moved :: "u8 list list \<Rightarrow> coordinate \<Rightarrow> coordinate \<Rightarrow> u8 list list" where
  "cn_moved b f t =
     (let b1 = b[unat (fst t) := (b ! unat (fst t))[unat (snd t) := sq b (fst f) (snd f)]]
      in b1[unat (fst f) := (b1 ! unat (fst f))[unat (snd f) := 0]])"

lemma on_board_unat: "on_board (x, y) \<longleftrightarrow> unat x < 10 \<and> unat y < 9"
  by (auto simp: on_board_def word_le_nat_alt)

lemma board_row: "cn_board_ok b \<Longrightarrow> i < 10 \<Longrightarrow> length (b ! i) = 9"
  by (simp add: cn_board_ok_def)

lemma sq_update:
  assumes "length b = 10" "\<forall>r \<in> set b. length r = 9" "on_board (x, y)" "on_board (x', y')"
  shows "sq (b[unat x := (b ! unat x)[unat y := v]]) x' y' = (if (x', y') = (x, y) then v else sq b x' y')"
proof -
  have "length (b ! unat x) = 9" using assms by (simp add: on_board_unat)
  then show ?thesis using assms by (auto simp: on_board_unat nth_list_update word_unat_eq_iff)
qed

lemma shape_update:
  "length b = 10 \<and> (\<forall>r \<in> set b. length r = 9) \<Longrightarrow> on_board (x, y) \<Longrightarrow>
   length (b[unat x := (b ! unat x)[unat y := v]]) = 10 \<and> (\<forall>r \<in> set (b[unat x := (b ! unat x)[unat y := v]]). length r = 9)"
  by (auto simp: on_board_unat dest!: set_update_subset_insert [THEN subsetD])

lemma moved_shape:
  assumes "cn_board_ok b" "on_board f" "on_board t"
  shows "length (cn_moved b f t) = 10 \<and> (\<forall>r \<in> set (cn_moved b f t). length r = 9)"
  using shape_update [OF shape_update, of b "fst t" "snd t" "fst f" "snd f"] assms
  by (simp add: cn_moved_def Let_def cn_board_ok_def)

lemma sq_moved:
  assumes "cn_board_ok b" "on_board f" "on_board t" "on_board (x, y)"
  shows "sq (cn_moved b f t) x y =
    (if (x, y) = f then 0 else if (x, y) = t then sq b (fst f) (snd f) else sq b x y)"
proof -
  have s: "length b = 10" "\<forall>r \<in> set b. length r = 9" using assms(1) by (auto simp: cn_board_ok_def)
  let ?b1 = "b[unat (fst t) := (b ! unat (fst t))[unat (snd t) := sq b (fst f) (snd f)]]"
  have t: "on_board (fst t, snd t)" "on_board (fst f, snd f)" using assms by simp_all
  have s1: "length ?b1 = 10" "\<forall>r \<in> set ?b1. length r = 9" using shape_update [OF conjI [OF s] t(1)] by blast+
  show ?thesis
    unfolding cn_moved_def Let_def sq_update [OF s1 t(2) assms(4)] sq_update [OF s t(1) assms(4)] by simp
qed

section \<open>The pieces by kind after a move\<close>

lemma mm_move_id: "(k, c) \<notin> set m \<Longrightarrow> mm_move k c c' m = m"
  by (induction m) auto

lemma set_mm_move: "distinct m \<Longrightarrow> (k, c) \<in> set m \<Longrightarrow> set (mm_move k c c' m) = insert (k, c') (set m - {(k, c)})"
  by (induction m) auto

lemma distinct_mm_move: "distinct m \<Longrightarrow> (k, c') \<notin> set m \<Longrightarrow> distinct (mm_move k c c' m)"
proof (induction m)
  case (Cons e m)
  then show ?case using set_mm_move [of m k c c'] mm_move_id [of k c m c'] by (cases "(k, c) \<in> set m") auto
qed simp

lemma set_mm_erase: "distinct m \<Longrightarrow> set (mm_erase k c m) = set m - {(k, c)}"
  by (induction m) auto

lemma distinct_mm_erase: "distinct m \<Longrightarrow> distinct (mm_erase k c m)"
  by (induction m) (auto simp: set_mm_erase)

lemma hunters_mover:
  assumes b: "cn_board_ok b" and l: "legal_move b red f t"
  shows "hunters (cn_moved b f t) red =
    (if hunter (sq b (fst f) (snd f)) then insert (sq b (fst f) (snd f), t) (hunters b red - {(sq b (fst f) (snd f), f)})
     else hunters b red)"
proof -
  have L: "on_board f" "on_board t" "f \<noteq> t" "owned red (sq b (fst f) (snd f))" "\<not> owned red (sq b (fst t) (snd t))"
    using l by (auto simp: legal_move_def)
  have z: "\<not> owned red 0" by (simp add: owned_def)
  have "(v, (x, y)) \<in> hunters (cn_moved b f t) red \<longleftrightarrow>
      (v, (x, y)) \<in> (if hunter (sq b (fst f) (snd f)) then insert (sq b (fst f) (snd f), t) (hunters b red - {(sq b (fst f) (snd f), f)})
        else hunters b red)" for v x y
  proof (cases "on_board (x, y)")
    case False
    with L(2) show ?thesis by (auto simp: hunters_def)
  next
    case True
    note M = sq_moved [OF b L(1,2) True]
    consider "(x, y) = f" | "(x, y) = t" "(x, y) \<noteq> f" | "(x, y) \<noteq> t" "(x, y) \<noteq> f" by blast
    then show ?thesis
    proof cases
      case 1
      then have "f = (x, y)" by simp
      then show ?thesis using M z L by (auto simp: hunters_def)
    next
      case 2
      then have "t = (x, y)" by simp
      then show ?thesis using M L 2(2) by (auto simp: hunters_def)
    next
      case 3
      then show ?thesis using M by (auto simp: hunters_def)
    qed
  qed
  then show ?thesis by (metis (no_types, opaque_lifting) prod.collapse set_eqI)
qed

lemma hunters_other:
  assumes b: "cn_board_ok b" and l: "legal_move b red f t"
  shows "hunters (cn_moved b f t) (\<not> red) = hunters b (\<not> red) - {(sq b (fst t) (snd t), t)}"
proof -
  have L: "on_board f" "on_board t" "f \<noteq> t" "owned red (sq b (fst f) (snd f))" "\<not> owned red (sq b (fst t) (snd t))"
    using l by (auto simp: legal_move_def)
  have z: "\<not> owned (\<not> red) 0" by (simp add: owned_def)
  have o: "\<not> owned (\<not> red) (sq b (fst f) (snd f))"
    using owned_excl [OF cell_okI [OF b], of "fst f" "snd f" red] L(1,4) by simp
  have "(v, (x, y)) \<in> hunters (cn_moved b f t) (\<not> red) \<longleftrightarrow> (v, (x, y)) \<in> hunters b (\<not> red) - {(sq b (fst t) (snd t), t)}" for v x y
  proof (cases "on_board (x, y)")
    case False
    then show ?thesis by (auto simp: hunters_def)
  next
    case True
    note M = sq_moved [OF b L(1,2) True]
    consider "(x, y) = f" | "(x, y) = t" "(x, y) \<noteq> f" | "(x, y) \<noteq> t" "(x, y) \<noteq> f" by blast
    then show ?thesis
    proof cases
      case 1
      then have "f = (x, y)" by simp
      then show ?thesis using M z o L(3) by (auto simp: hunters_def)
    next
      case 2
      then have "t = (x, y)" by simp
      then show ?thesis using M o 2(2) by (auto simp: hunters_def)
    next
      case 3
      then show ?thesis using M by (auto simp: hunters_def)
    qed
  qed
  then show ?thesis by (metis (no_types, opaque_lifting) prod.collapse set_eqI)
qed

section \<open>The invariant after a move\<close>

lemma moved_board_ok:
  assumes b: "cn_board_ok b" and l: "on_board f" "on_board t"
  shows "cn_board_ok (cn_moved b f t)"
proof -
  have "cell_ok (sq (cn_moved b f t) x y)" if o: "on_board (x, y)" for x y
    using sq_moved [OF b l o] cell_okI [OF b o] cell_okI [OF b, of "fst f" "snd f"] l by (simp add: cell_ok_def)
  then show ?thesis using moved_shape [OF b l] by (simp add: cn_board_ok_def)
qed

lemma general_mover:
  assumes b: "cn_board_ok b" and l: "legal_move b red f t" and g: "general_ok b red g"
  shows "general_ok (cn_moved b f t) red (if f = g then t else g)"
proof -
  have L: "on_board f" "on_board t" "f \<noteq> t" "owned red (sq b (fst f) (snd f))" "\<not> owned red (sq b (fst t) (snd t))"
    "reaches b red f t" using l by (auto simp: legal_move_def)
  note G = general_at [OF g]
  have tg: "t \<noteq> g"
  proof
    assume "t = g"
    then have "sq b (fst t) (snd t) = general_of red" using G [of "fst t" "snd t"] L(2) by simp
    with L(5) show False by simp
  qed
  have pal: "in_palace red t" if "f = g"
  proof -
    have "sq b (fst f) (snd f) = general_of red" using G [of "fst f" "snd f"] L(1) that by simp
    then have "chess_at b (fst f) (snd f) = CNCHESS_General" by (simp add: chess_at_def)
    with L(6) show ?thesis by (auto simp: reaches_def Let_def cn_consts)
  qed
  have "sq (cn_moved b f t) x y = general_of red \<longleftrightarrow> (x, y) = (if f = g then t else g)" if o: "on_board (x, y)" for x y
    using sq_moved [OF b L(1,2) o] G [OF o] G [of "fst f" "snd f"] L(1,3) tg general_of_facts(5) [of red] by auto
  then show ?thesis using pal g L(2) by (auto simp: general_ok_def)
qed

lemma general_other:
  assumes b: "cn_board_ok b" and l: "legal_move b red f t" and g: "general_ok b (\<not> red) g" and n: "t \<noteq> g"
  shows "general_ok (cn_moved b f t) (\<not> red) g"
proof -
  have L: "on_board f" "on_board t" "f \<noteq> t" "owned red (sq b (fst f) (snd f))"
    using l by (auto simp: legal_move_def)
  have "sq b (fst f) (snd f) \<noteq> general_of (\<not> red)"
    using L(4) general_of_facts(4) [of "\<not> red"] by auto
  then have "f \<noteq> g" using general_at [OF g, of "fst f" "snd f"] L(1) by auto
  then have "sq (cn_moved b f t) x y = general_of (\<not> red) \<longleftrightarrow> (x, y) = g" if o: "on_board (x, y)" for x y
    using sq_moved [OF b L(1,2) o] general_at [OF g o] general_at [OF g, of "fst f" "snd f"] L(1) n
      general_of_facts(5) [of "\<not> red"] by auto
  then show ?thesis using g by (simp add: general_ok_def)
qed

lemma soldiers_mover:
  assumes b: "cn_board_ok b" and l: "legal_move b red f t" and g: "soldiers_ok b red"
  shows "soldiers_ok (cn_moved b f t) red"
proof -
  have L: "on_board f" "on_board t" "f \<noteq> t" "owned red (sq b (fst f) (snd f))" "reaches b red f t"
    using l by (auto simp: legal_move_def)
  have "if red then 3 \<le> x else x \<le> 6"
    if o: "on_board (x, y)" "chess_at (cn_moved b f t) x y = CNCHESS_Soldier" "owned red (sq (cn_moved b f t) x y)" for x y
  proof (cases "(x, y) = t \<and> (x, y) \<noteq> f")
    case True
    then have "sq (cn_moved b f t) x y = sq b (fst f) (snd f)" using sq_moved [OF b L(1,2) o(1)] by auto
    then have k: "chess_at b (fst f) (snd f) = CNCHESS_Soldier" using o(2) by (simp add: chess_at_def)
    then have "if red then 3 \<le> fst f else fst f \<le> 6" using g L(1,4) unfolding soldiers_ok_def by (metis prod.collapse)
    moreover have "uint x - uint (fst f) = (if red then 1 else -1) \<or> uint x = uint (fst f)"
      using L(5) k True by (auto simp: reaches_def Let_def cn_consts split: if_splits)
    ultimately show ?thesis by (cases red) (auto simp: word_le_def)
  next
    case False
    have "chess (0::u8) \<noteq> CNCHESS_Soldier" by (simp add: chess_def cn_consts)
    with False have "chess_at b x y = CNCHESS_Soldier" "owned red (sq b x y)"
      using sq_moved [OF b L(1,2) o(1)] o(2,3) by (auto simp: chess_at_def split: if_splits)
    then show ?thesis using g o(1) unfolding soldiers_ok_def by blast
  qed
  then show ?thesis unfolding soldiers_ok_def by blast
qed

lemma soldiers_other:
  assumes b: "cn_board_ok b" and l: "legal_move b red f t" and g: "soldiers_ok b (\<not> red)"
  shows "soldiers_ok (cn_moved b f t) (\<not> red)"
proof -
  have L: "on_board f" "on_board t" "owned red (sq b (fst f) (snd f))" using l by (auto simp: legal_move_def)
  have "\<not> owned (\<not> red) (sq b (fst f) (snd f))" "\<not> owned (\<not> red) 0"
    using owned_excl [OF cell_okI [OF b], of "fst f" "snd f" red] L(1,3) by (simp_all add: owned_def)
  then have "chess_at b x y = CNCHESS_Soldier \<and> owned (\<not> red) (sq b x y)"
    if "on_board (x, y)" "chess_at (cn_moved b f t) x y = CNCHESS_Soldier" "owned (\<not> red) (sq (cn_moved b f t) x y)" for x y
    using sq_moved [OF b L(1,2) that(1)] that(2,3) by (auto simp: chess_at_def split: if_splits)
  then show ?thesis using g unfolding soldiers_ok_def by blast
qed

text \<open>The two generals see each other along an empty column.\<close>

definition facing :: "u8 list list \<Rightarrow> coordinate \<Rightarrow> coordinate \<Rightarrow> bool" where
  "facing b g0 g1 \<longleftrightarrow> snd g0 = snd g1 \<and> pieces_between b g0 g1 = 0"

lemma face_to_face_iff:
  assumes "fst (cn_gpos s ! 0) \<noteq> fst (cn_gpos s ! 1)"
  shows "general_face_to_face s \<longleftrightarrow> facing (cn_board s) (cn_gpos s ! 0) (cn_gpos s ! 1)"
proof (cases "snd (cn_gpos s ! 0) = snd (cn_gpos s ! 1)")
  case False
  then show ?thesis by (simp add: general_face_to_face_def facing_def)
next
  case True
  obtain a y c where g: "cn_gpos s ! 0 = (a, y)" "cn_gpos s ! 1 = (c, y)" using True by (metis prod.collapse)
  have ne: "a \<noteq> c" using assms g by simp
  have "general_face_to_face s \<longleftrightarrow> line_empty (\<lambda>i. sq (cn_board s) i y) (min a c + 1) (max a c)"
    using ne by (cases "c < a") (auto simp: general_face_to_face_def g min_def max_def Let_def simp del: One_nat_def)
  then show ?thesis by (simp only: line_empty_between [OF ne] facing_def g fst_conv snd_conv pieces_col simp_thms)
qed

section \<open>place\_chess\<close>

definition gpos_after :: "bool \<Rightarrow> coordinate \<Rightarrow> coordinate \<Rightarrow> coordinate list \<Rightarrow> coordinate list" where
  "gpos_after red f t g = (if f = g ! side_ix red then g[side_ix red := t] else g)"

lemma adjust_facts:
  assumes ok: "cn_ok s" and p: "sp_pos_id p \<in> {1, 2}" and l: "legal_move (cn_board s) (sp_pos_id p = 1) f t"
  defines "red \<equiv> sp_pos_id p = 1"
  defines "s1 \<equiv> adjust_chessmap p (fst f) (snd f) (fst t) (snd t) s"
  shows "cn_gpos s1 = gpos_after red f t (cn_gpos s)"
    and "length (cn_maps s1) = 2"
    and "set (cn_maps s1 ! side_ix red) = hunters (cn_moved (cn_board s) f t) red"
    and "set (cn_maps s1 ! side_ix (\<not> red)) = hunters (cn_moved (cn_board s) f t) (\<not> red)"
    and "distinct (cn_maps s1 ! side_ix red)" and "distinct (cn_maps s1 ! side_ix (\<not> red))"
    and "cn_board s1 = cn_board s" "cn_flag s1 = cn_flag s" "cn_nsteps s1 = cn_nsteps s" "cn_move_order s1 = cn_move_order s"
      "cn_nxmover s1 = cn_nxmover s" "cn_nx_mover s1 = cn_nx_mover s"
proof -
  note D = cn_okD [OF ok]
  let ?b = "cn_board s"
  let ?v = "sq ?b (fst f) (snd f)" and ?w = "sq ?b (fst t) (snd t)"
  have L: "on_board f" "on_board t" "f \<noteq> t" "owned red ?v" "\<not> owned red ?w"
    using l by (auto simp: legal_move_def red_def)
  have lr: "legal_move ?b red f t" using l by (simp only: red_def)
  have ix: "side_ix red < 2" "side_ix (\<not> red) < 2" "side_ix red \<noteq> side_ix (\<not> red)" by (auto simp: side_ix_def)
  have cv: "cell_ok ?v" using cell_okI [OF D(1), of "fst f" "snd f"] L(1) by simp
  have isg: "chess_at ?b (fst f) (snd f) = CNCHESS_General \<longleftrightarrow> f = cn_gpos s ! side_ix red"
  proof -
    have "chess ?v = CNCHESS_General \<longleftrightarrow> ?v = general_of red"
      using any_general [OF cv] L(4) general_of_facts(4) [of True] general_of_facts(4) [of False] by (cases red) auto
    then show ?thesis using general_at [OF D(4), of "fst f" "snd f" red] L(1) by (simp add: chess_at_def)
  qed
  let ?m = "cn_maps s ! side_ix red" and ?m' = "cn_maps s ! side_ix (\<not> red)"
  define m1 where "m1 = (if f = cn_gpos s ! side_ix red then ?m else mm_move ?v f t ?m)"
  define m2 where "m2 = (if ?w \<noteq> 0 then mm_erase ?w t ?m' else ?m')"
  have same: "(cn_maps s)[side_ix red := a, side_ix (\<not> red) := ?m'] = (cn_maps s)[side_ix red := a]" for a
    using ix(3) by (metis list_update_id nth_list_update_neq)
  have maps: "cn_maps s1 = (cn_maps s)[side_ix red := m1, side_ix (\<not> red) := m2]"
    using D(2) ix isg unfolding s1_def adjust_chessmap_def Let_def pos_ix(1) [OF p] pos_ix(2) [OF p] m1_def m2_def
    using same by (auto simp: red_def)
  have nx1: "cn_maps s1 ! side_ix red = m1" "cn_maps s1 ! side_ix (\<not> red) = m2"
    using D(2) ix by (simp_all add: maps)
  show "cn_gpos s1 = gpos_after red f t (cn_gpos s)"
    using isg unfolding s1_def adjust_chessmap_def Let_def pos_ix(1) [OF p] pos_ix(2) [OF p] gpos_after_def
    by (auto simp: red_def)
  show "length (cn_maps s1) = 2" using D(2) by (simp add: maps)
  show "cn_board s1 = cn_board s" "cn_flag s1 = cn_flag s" "cn_nsteps s1 = cn_nsteps s" "cn_move_order s1 = cn_move_order s"
      "cn_nxmover s1 = cn_nxmover s" "cn_nx_mover s1 = cn_nx_mover s"
    by (simp_all add: s1_def adjust_chessmap_def Let_def)
  have nt: "(?v, t) \<notin> set ?m"
    using D(7) [of red] L(5) by (auto simp: hunters_def)
  have hv: "(?v, f) \<in> set ?m \<longleftrightarrow> hunter ?v"
    using D(7) [of red] L(1,4) by (cases f) (auto simp: hunters_def)
  have gh: "\<not> hunter ?v" if "f = cn_gpos s ! side_ix red"
  proof -
    have "?v = general_of red" using that general_at [OF D(4), of "fst f" "snd f" red] L(1) by simp
    then show ?thesis by simp
  qed
  have "set m1 = (if hunter ?v then insert (?v, t) (set ?m - {(?v, f)}) else set ?m) \<and> distinct m1"
    using gh hv set_mm_move [OF D(6), of ?v f red t] mm_move_id [of ?v f ?m t] distinct_mm_move [OF D(6) nt] D(6)
    by (auto simp: m1_def)
  then show "set (cn_maps s1 ! side_ix red) = hunters (cn_moved (cn_board s) f t) red" "distinct (cn_maps s1 ! side_ix red)"
    using hunters_mover [OF D(1) lr] D(7) [of red] by (simp_all add: nx1)
  have "(?w, t) \<notin> set ?m'" if "?w = 0"
    using that D(7) [of "\<not> red"] by (auto simp: hunters_def hunter_def chess_def cn_consts)
  then have "set m2 = set ?m' - {(?w, t)} \<and> distinct m2"
    using set_mm_erase [OF D(6)] distinct_mm_erase [OF D(6)] D(6) by (auto simp: m2_def)
  then show "set (cn_maps s1 ! side_ix (\<not> red)) = hunters (cn_moved (cn_board s) f t) (\<not> red)" "distinct (cn_maps s1 ! side_ix (\<not> red))"
    using hunters_other [OF D(1) lr] D(7) [of "\<not> red"] by (simp_all add: nx1)
qed

lemma gpos_after_facts:
  assumes ok: "cn_ok s" and l: "legal_move (cn_board s) red f t"
  defines "g' \<equiv> gpos_after red f t (cn_gpos s)" and "b' \<equiv> cn_moved (cn_board s) f t"
  shows "length g' = 2" "general_ok b' red (g' ! side_ix red)" "g' ! side_ix (\<not> red) = cn_gpos s ! side_ix (\<not> red)"
    "t \<noteq> cn_gpos s ! side_ix (\<not> red) \<Longrightarrow> general_ok b' (\<not> red) (g' ! side_ix (\<not> red))"
    "fst (g' ! 0) \<noteq> fst (g' ! 1)"
proof -
  note D = cn_okD [OF ok]
  have ix: "side_ix red < 2" "side_ix red \<noteq> side_ix (\<not> red)" by (auto simp: side_ix_def)
  have own: "g' ! side_ix red = (if f = cn_gpos s ! side_ix red then t else cn_gpos s ! side_ix red)"
    using D(3) ix by (simp add: g'_def gpos_after_def)
  show oth: "g' ! side_ix (\<not> red) = cn_gpos s ! side_ix (\<not> red)" using ix by (simp add: g'_def gpos_after_def)
  show "length g' = 2" using D(3) by (simp add: g'_def gpos_after_def)
  show gm: "general_ok b' red (g' ! side_ix red)" unfolding own b'_def by (rule general_mover [OF D(1) l D(4)])
  show "general_ok b' (\<not> red) (g' ! side_ix (\<not> red))" if "t \<noteq> cn_gpos s ! side_ix (\<not> red)"
    unfolding oth b'_def by (rule general_other [OF D(1) l D(4) that])
  have "in_palace red (g' ! side_ix red)" "in_palace (\<not> red) (g' ! side_ix (\<not> red))"
    using gm D(4) [of "\<not> red"] unfolding oth general_ok_def by blast+
  then show "fst (g' ! 0) \<noteq> fst (g' ! 1)"
    by (cases red) (auto simp: side_ix_def in_palace_def word_le_def)
qed

lemma place_chess_legal:
  assumes ok: "cn_ok s" and fl: "cn_flag s = 0" and p: "sp_pos_id p \<in> {1, 2}"
    and ord: "cn_move_order s ! (unat (sp_pos_id p) - 1) = sp_id p" and len: "length body = 4"
  defines "red \<equiv> sp_pos_id p = 1" and "f \<equiv> (body ! 0, body ! 1)" and "t \<equiv> (body ! 2, body ! 3)"
  defines "b' \<equiv> cn_moved (cn_board s) f t" and "g' \<equiv> gpos_after red f t (cn_gpos s)"
  assumes l: "legal_move (cn_board s) red f t"
  shows "\<exists>s' c. cn_place_chess p body s = Some (s', 0, c) \<and> cn_board s' = b' \<and> cn_gpos s' = g' \<and>
    cn_flag s' = (if facing b' (g' ! 0) (g' ! 1) then 9 else if t = cn_gpos s ! side_ix (\<not> red) then 1 else 0) \<and>
    cn_nsteps s' = cn_nsteps s + 1 \<and> cn_move_order s' = cn_move_order s \<and>
    cn_nxmover s' = cn_nxmover s \<and> cn_nx_mover s' = cn_nx_mover s \<and>
    (cn_flag s' = 0 \<longrightarrow> cn_ok s' \<and> c = of_bool (\<exists>f2. legal_move b' red f2 (g' ! side_ix (\<not> red)))) \<and>
    (cn_flag s' \<noteq> 0 \<longrightarrow> c = 0)"
proof -
  note D = cn_okD [OF ok]
  note G = gpos_after_facts [OF ok l, folded b'_def g'_def]
  have L: "on_board f" "on_board t" "\<not> owned red (sq (cn_board s) (fst t) (snd t))" using l by (auto simp: legal_move_def)
  define s1 where "s1 = adjust_chessmap p (body ! 0) (body ! 1) (body ! 2) (body ! 3) s"
  note A = adjust_facts [OF ok p, of f t, folded red_def, OF l]
  note A1 = A [unfolded f_def t_def fst_conv snd_conv, folded s1_def f_def t_def b'_def g'_def]
  have cap: "chess_at (cn_board s) (fst t) (snd t) = CNCHESS_General \<longleftrightarrow> t = cn_gpos s ! side_ix (\<not> red)"
    using enemy_general [OF cell_okI [OF D(1)], of "fst t" "snd t" red] L(2,3)
      general_at [OF D(4), of "fst t" "snd t" "\<not> red"] by (simp add: chess_at_def)
  define s2 where "s2 = (if t = cn_gpos s ! side_ix (\<not> red) then s1\<lparr>cn_flag := 1\<rparr> else s1)"
  define s4 where "s4 = set_square (body ! 0) (body ! 1) 0 (set_square (body ! 2) (body ! 3) (sq (cn_board s) (body ! 0) (body ! 1)) s2)"
  define s5 where "s5 = (if facing b' (g' ! 0) (g' ! 1) then s4\<lparr>cn_flag := 9\<rparr> else s4)"
  have b4: "cn_board s4 = b'"
    using A1(7) by (simp add: s4_def s2_def set_square_def b'_def cn_moved_def f_def t_def Let_def)
  have g4: "cn_gpos s4 = g'" using A1(1) by (simp add: s4_def s2_def set_square_def)
  have ff: "general_face_to_face s4 \<longleftrightarrow> facing b' (g' ! 0) (g' ! 1)"
    using face_to_face_iff [of s4] G(5) by (simp add: b4 g4)
  have s5f: "cn_board s5 = b'" "cn_gpos s5 = g'" "cn_maps s5 = cn_maps s1" "cn_nsteps s5 = cn_nsteps s"
    "cn_move_order s5 = cn_move_order s" "cn_nxmover s5 = cn_nxmover s" "cn_nx_mover s5 = cn_nx_mover s"
    using A1 b4 g4 by (simp_all add: s5_def) (simp_all add: s4_def s2_def set_square_def)
  have fl5: "cn_flag s5 = (if facing b' (g' ! 0) (g' ! 1) then 9 else if t = cn_gpos s ! side_ix (\<not> red) then 1 else 0)"
    using A1(8) fl by (simp add: s5_def s4_def s2_def set_square_def)
  have ok5: "cn_ok s5" if "cn_flag s5 = 0"
  proof -
    from that have n: "t \<noteq> cn_gpos s ! side_ix (\<not> red)" by (auto simp: fl5 split: if_splits)
    have "general_ok b' r (g' ! side_ix r) \<and> soldiers_ok b' r \<and> distinct (cn_maps s1 ! side_ix r) \<and>
        set (cn_maps s1 ! side_ix r) = hunters b' r" for r
    proof (cases "r = red")
      case True
      then show ?thesis using G(2) A1(3,5) soldiers_mover [OF D(1) l D(5)] by (simp add: b'_def)
    next
      case False
      then have "r = (\<not> red)" by simp
      then show ?thesis using G(4) [OF n] A1(4,6) soldiers_other [OF D(1) l D(5)] by (simp add: b'_def)
    qed
    then show ?thesis
      using moved_board_ok [OF D(1) L(1,2)] A1(2) G(1) unfolding cn_ok_def s5f by (simp add: b'_def)
  qed
  have P: "cn_place_chess p body s = map_option (\<lambda>c. (s5\<lparr>cn_nsteps := cn_nsteps s5 + 1\<rparr>, 0, of_bool c))
      (if cn_flag s5 \<noteq> 0 then Some False else ischeck p s5)"
  proof -
    have v: "isvalid p (body ! 0) (body ! 1) (body ! 2) (body ! 3) s" and
      mv: "movable p (body ! 0) (body ! 1) (body ! 2) (body ! 3) s"
      using movable_legal [OF p D(1)] l by (auto simp: f_def t_def red_def)
    have c2: "(if chess_at (cn_board s1) (body ! 2) (body ! 3) = CNCHESS_General then s1\<lparr>cn_flag := 1\<rparr> else s1) = s2"
      using cap A1(7) by (simp add: s2_def t_def)
    have q: "sq (cn_board s2) (body ! 0) (body ! 1) = sq (cn_board s) (body ! 0) (body ! 1)"
      using A1(7) by (simp add: s2_def)
    show ?thesis
      unfolding cn_place_chess_def Let_def s1_def [symmetric] c2 q s4_def [symmetric] ff s5_def [symmetric]
      using p ord len v mv by simp
  qed
  define s6 where "s6 = s5\<lparr>cn_nsteps := cn_nsteps s5 + 1\<rparr>"
  have K: "cn_ok s6 \<longleftrightarrow> cn_ok s5" by (simp add: cn_ok_def s6_def)
  have s6f: "cn_board s6 = b'" "cn_gpos s6 = g'" "cn_flag s6 = cn_flag s5" "cn_nsteps s6 = cn_nsteps s + 1"
    "cn_move_order s6 = cn_move_order s" "cn_nxmover s6 = cn_nxmover s" "cn_nx_mover s6 = cn_nx_mover s"
    by (simp_all add: s6_def s5f)
  show ?thesis
  proof (cases "cn_flag s5 = 0")
    case True
    have "ischeck p s5 = Some (\<exists>f2. legal_move b' red f2 (g' ! side_ix (\<not> red)))"
      using ischeck_legal [OF ok5 [OF True] p] by (simp only: s5f red_def)
    then have "cn_place_chess p body s = Some (s6, 0, of_bool (\<exists>f2. legal_move b' red f2 (g' ! side_ix (\<not> red))))"
      unfolding P using True by (simp add: s6_def)
    then show ?thesis
      using True ok5 K fl5 s6f by (intro exI [of _ s6] exI [of _ "of_bool (\<exists>f2. legal_move b' red f2 (g' ! side_ix (\<not> red)))"]) simp
  next
    case False
    then have "cn_place_chess p body s = Some (s6, 0, 0)" unfolding P by (simp add: s6_def)
    then show ?thesis using False fl5 s6f by (intro exI [of _ s6] exI [of _ 0]) simp
  qed
qed

lemma place_chess_illegal:
  assumes "cn_board_ok (cn_board s)" and p: "sp_pos_id p \<in> {1, 2}"
    and "cn_move_order s ! (unat (sp_pos_id p) - 1) = sp_id p"
    and "length body = 4" and "\<not> legal_move (cn_board s) (sp_pos_id p = 1) (body ! 0, body ! 1) (body ! 2, body ! 3)"
  shows "cn_place_chess p body s = Some (s, -2, 0)"
  using movable_legal [OF p assms(1), of "body ! 0" "body ! 1" "body ! 2" "body ! 3"] assms(2-5)
  by (auto simp: cn_place_chess_def Let_def)

end
