(* ===== verification/ChessGame.thy ===== *)
theory ChessGame
  imports ChessRule
begin

text \<open>
  The board game around the rules, \<open>src/mole/gamesvr/games/chessgame.hpp\<close>, and the requests for a
  draw or to surrender, \<open>reqhandler.hpp\<close>, as \<open>chinesechess/cnchess.cpp\<close> puts them together:
  \<open>ChessGame<ChineseChessRule, ReqHandler>\<close>. The group is \<open>cg_grp\<close> of the game; \<open>cur_sp_\<close>, which
  \<open>handle_data\<close> sets first of all, is the argument \<open>p\<close>. The clock (\<open>now\<close>), the identifier of a new
  timer (\<open>tid\<close>) and what \<open>send_to_self_error\<close> returns (\<open>sent\<close>) are arguments.
\<close>

section \<open>Requests\<close>

text \<open>
  \<open>reset\<close> does not set \<open>cntneeded\<close>, and the constructor leaves it as it finds it (\<open>junk\<close>). The
  fields of \<open>rsppkg_\<close> are written and read within \<open>handle_rsp_player_req\<close> only.
\<close>

record req_handler =
  rq_uid :: u32
  rq_req :: u8
  rq_nagree :: u8
  rq_ndisagree :: u8
  rq_cntneeded :: u8
  rq_rsp :: "u32 set"
  rq_made :: "u8 set"

definition req_reset :: "req_handler \<Rightarrow> req_handler" where
  "req_reset r = r\<lparr>rq_uid := 0, rq_nagree := 0, rq_ndisagree := 0, rq_req := REQ_invalid, rq_rsp := {}\<rparr>"

definition req_handler_new :: "u8 \<Rightarrow> req_handler" where
  "req_handler_new junk =
     \<lparr>rq_uid = 0, rq_req = REQ_invalid, rq_nagree = 0, rq_ndisagree = 0, rq_cntneeded = junk, rq_rsp = {}, rq_made = {}\<rparr>"

definition reset_reqs :: "req_handler \<Rightarrow> req_handler" where
  "reset_reqs r = r\<lparr>rq_made := {}\<rparr>"

definition has_pending_req :: "req_handler \<Rightarrow> bool" where
  "has_pending_req r \<longleftrightarrow> rq_uid r \<noteq> 0"

definition req_isvalid :: "u8 \<Rightarrow> bool" where
  "req_isvalid req \<longleftrightarrow> req = REQ_draw \<or> req = REQ_surrender"

definition add_req :: "game_group \<Rightarrow> u32 \<Rightarrow> u8 \<Rightarrow> req_handler \<Rightarrow> (req_handler \<times> bool) option" where
  "add_req g uid req r =
     (if \<not> GAME_STARTED g then None
      else if rq_uid r = 0 then
        if req \<notin> rq_made r then
          Some (r\<lparr>rq_made := insert req (rq_made r), rq_uid := uid, rq_req := req,
                  rq_cntneeded := of_nat (length (gg_players g)) - 1\<rparr>, True)
        else Some (r, False)
      else Some (r, False))"

definition add_rsp :: "game_group \<Rightarrow> u32 \<Rightarrow> u32 \<Rightarrow> u8 \<Rightarrow> req_handler \<Rightarrow> (req_handler \<times> bool) option" where
  "add_rsp g ruid uid result r =
     (if \<not> GAME_STARTED g then None
      else if rq_uid r = uid then
        if result = rq_req r \<or> result = REQ_rejected then
          if ruid \<notin> rq_rsp r then
            let r1 = r\<lparr>rq_rsp := insert ruid (rq_rsp r)\<rparr> in
            Some (if result \<noteq> 0 then r1\<lparr>rq_nagree := rq_nagree r1 + 1\<rparr>
                  else r1\<lparr>rq_ndisagree := rq_ndisagree r1 + 1\<rparr>, True)
          else Some (r, False)
        else Some (r, False)
      else Some (r, False))"

definition notify_req :: "game_group \<Rightarrow> u32 \<Rightarrow> u8 \<Rightarrow> chess_pkg game_out list option" where
  "notify_req g uid req = (if GAME_STARTED g then Some [ToOthers uid (CgReq uid req)] else None)"

definition req_rsp_player_req :: "game_group \<Rightarrow> u32 \<Rightarrow> u32 \<Rightarrow> u8 \<Rightarrow> chess_pkg game_out list option" where
  "req_rsp_player_req g approver asker result =
     (if GAME_STARTED g then Some [ToOthers approver (CgRsp approver asker result)] else None)"

type_synonym req_result = "(req_handler \<times> chess_pkg game_out list \<times> int) option"

definition req_handle_player_req :: "game_group \<Rightarrow> sprite \<Rightarrow> byte list \<Rightarrow> req_handler \<Rightarrow> req_result" where
  "req_handle_player_req g p body r =
     (if started_check g p (length body) 1 = -1 then Some (r, [], -1)
      else if \<not> req_isvalid (body ! 0) then Some (r, [], -1)
      else
        Option.bind (add_req g (sp_id p) (body ! 0) r) (\<lambda>(r1, ok).
        if \<not> ok then Some (r1, [], -1)
        else map_option (\<lambda>os. (r1, os, 0)) (notify_req g (sp_id p) (body ! 0))))"

definition req_handle_rsp_player_req :: "game_group \<Rightarrow> sprite \<Rightarrow> byte list \<Rightarrow> req_handler \<Rightarrow> req_result" where
  "req_handle_rsp_player_req g p body r =
     (if started_check g p (length body) 5 = -1 then Some (r, [], -1)
      else
        let uid = be_u32 body 0; result = body ! 4 in
        if sp_id p = uid \<or> REQ_max < result then Some (r, [], -1)
        else
          Option.bind (add_rsp g (sp_id p) uid result r) (\<lambda>(r1, ok).
          if \<not> ok then Some (r1, [], -1)
          else map_option (\<lambda>os. (r1, os, 0)) (req_rsp_player_req g (sp_id p) uid result)))"

definition req_handle_player_leave :: "u32 \<Rightarrow> req_handler \<Rightarrow> req_handler \<times> bool" where
  "req_handle_player_leave uid r =
     (if has_pending_req r \<and> rq_uid r \<noteq> uid \<and> uid \<notin> rq_rsp r
      then (r\<lparr>rq_cntneeded := rq_cntneeded r - 1\<rparr>, True) else (r, False))"

definition req_confirmed ::
    "game_group \<Rightarrow> req_handler \<Rightarrow> (req_handler \<times> chess_pkg game_out list \<times> (u32 \<times> u8)) option" where
  "req_confirmed g r =
     (if \<not> GAME_STARTED g then None
      else if unat (rq_nagree r) + unat (rq_ndisagree r) = unat (rq_cntneeded r) then
        let req = (if rq_ndisagree r < rq_nagree r then rq_req r else REQ_rejected) in
        map_option (\<lambda>os. (req_reset r, os, (rq_uid r, req))) (req_rsp_player_req g 0 (rq_uid r) req)
      else Some (r, [], (rq_uid r, REQ_unconfirmed)))"

section \<open>The game\<close>

record chess_game =
  cg_grp :: game_group
  cg_nxmover :: u32
  cg_timerid :: nat
  cg_rule :: cn_rule
  cg_reqs :: req_handler

type_synonym cg_result = "(chess_game \<times> chess_pkg game_out list \<times> int) option"

definition chess_game_new :: "u8 \<Rightarrow> game_group \<Rightarrow> chess_game option" where
  "chess_game_new junk g =
     map_option (\<lambda>rule.
       let (rule1, u) = cn_nextmover rule in
       \<lparr>cg_grp = g, cg_nxmover = u, cg_timerid = 0, cg_rule = rule1, cg_reqs = req_handler_new junk\<rparr>)
     (cn_rule_new g)"

definition cg_notify_game_start :: "chess_game \<Rightarrow> chess_pkg game_out list" where
  "cg_notify_game_start s = [ToPlayers (CgStart (cg_nxmover s))]"

definition cg_broadcast_action :: "sprite \<Rightarrow> byte list \<Rightarrow> u8 \<Rightarrow> chess_pkg game_out list" where
  "cg_broadcast_action p buf c = [ToGroup (CgAct (sp_id p) buf c)]"

definition cg_add_timer :: "int \<Rightarrow> nat \<Rightarrow> chess_game \<Rightarrow> (chess_game \<times> chess_pkg game_out list) option" where
  "cg_add_timer now tid s =
     (case get_sprite_from_gamegrp (cg_nxmover s) (gg_players (cg_grp s)) of
        None \<Rightarrow> None
      | Some op \<Rightarrow> Some (s\<lparr>cg_timerid := tid\<rparr>, [AddTimer op (now + 62)]))"

definition cg_init :: "int \<Rightarrow> nat \<Rightarrow> sprite \<Rightarrow> chess_game \<Rightarrow> (chess_game \<times> chess_pkg game_out list) option" where
  "cg_init now tid p s =
     (if \<not> GAME_READY (cg_grp s) then None
      else if IS_GAME_PLAYER p then
        let s1 = s\<lparr>cg_grp := SET_GAME_START (cg_grp s)\<rparr> in
        map_option (\<lambda>(s2, ot).
          (s2, cg_notify_game_start s1 @ cn_notify_board_info (cg_grp s1) p False (cg_rule s1) @ ot))
          (cg_add_timer now tid s1)
      else Some (s, cn_notify_board_info (cg_grp s) p True (cg_rule s)))"

definition cg_handle_player_action :: "int \<Rightarrow> nat \<Rightarrow> int \<Rightarrow> sprite \<Rightarrow> byte list \<Rightarrow> chess_game \<Rightarrow> cg_result" where
  "cg_handle_player_action now tid sent p body s =
     (if started_check_ge (cg_grp s) p (length body) 1 = -1 then Some (s, [], -1)
      else if cg_nxmover s \<noteq> sp_id p \<or> has_pending_req (cg_reqs s) then Some (s, [], -1)
      else
        Option.bind (cn_place_chess p body (cg_rule s)) (\<lambda>(rule, err, c).
        let s1 = s\<lparr>cg_rule := rule\<rparr> in
        if err = -2 then Some (s1, [ErrorToSelf p 1], sent)
        else if err = -1 then Some (s1, [], -1)
        else
          let o1 = [RemoveTimer p (cg_timerid s1)] @ cg_broadcast_action p body c;
              ow = cn_notify_winner p False rule @ cn_send_gamescore (cg_grp s1) p rule
          in if winner_determinate rule then Some (s1, o1 @ ow, GER_end_of_game)
             else if cn_draw rule then Some (s1, o1 @ ow, GER_draw_game)
             else
               let (rule2, u) = cn_nextmover rule;
                   s2 = s1\<lparr>cg_rule := rule2, cg_nxmover := u, cg_reqs := reset_reqs (cg_reqs s1)\<rparr>
               in map_option (\<lambda>(s3, ot). (s3, o1 @ ot, 0)) (cg_add_timer now tid s2)))"

text \<open>The second half of \<open>handle_rsp_player_req\<close>, which \<open>handle_player_leave\<close> enters directly.\<close>

definition cg_confirm :: "sprite \<Rightarrow> chess_game \<Rightarrow> cg_result" where
  "cg_confirm p s =
     Option.bind (req_confirmed (cg_grp s) (cg_reqs s)) (\<lambda>(r, o1, ret).
     let s1 = s\<lparr>cg_reqs := r\<rparr> in
     if snd ret \<noteq> REQ_unconfirmed \<and> snd ret \<noteq> REQ_rejected then
       let (rule, o2, err) = cn_handle_confirmed_req (cg_grp s1) p ret (cg_rule s1);
           (rule2, u) = cn_nextmover rule
       in Some (s1\<lparr>cg_rule := rule2, cg_nxmover := u, cg_reqs := reset_reqs r\<rparr>, o1 @ o2, err)
     else Some (s1, o1, 0))"

definition cg_handle_rsp_player_req :: "sprite \<Rightarrow> byte list \<Rightarrow> chess_game \<Rightarrow> cg_result" where
  "cg_handle_rsp_player_req p body s =
     Option.bind (req_handle_rsp_player_req (cg_grp s) p body (cg_reqs s)) (\<lambda>(r, o1, err).
     let s1 = s\<lparr>cg_reqs := r\<rparr> in
     if err = 0 then map_option (\<lambda>(s2, o2, err2). (s2, o1 @ o2, err2)) (cg_confirm p s1)
     else Some (s1, o1, err))"

definition cg_handle_player_leave :: "sprite \<Rightarrow> chess_game \<Rightarrow> cg_result" where
  "cg_handle_player_leave p s =
     (let (rule, o1, err) = cn_handle_player_leave (cg_grp s) p (cg_rule s);
          s1 = s\<lparr>cg_rule := rule\<rparr>
      in if err = 0 then
           let (r, changed) = req_handle_player_leave (sp_id p) (cg_reqs s1);
               s2 = s1\<lparr>cg_reqs := r\<rparr>
           in if changed then map_option (\<lambda>(s3, o2, err2). (s3, o1 @ o2, err2)) (cg_confirm p s2)
              else Some (s2, o1, 0)
         else Some (s1, o1, err))"

definition cg_handle_data :: "int \<Rightarrow> nat \<Rightarrow> int \<Rightarrow> sprite \<Rightarrow> int \<Rightarrow> byte list \<Rightarrow> chess_game \<Rightarrow> cg_result" where
  "cg_handle_data now tid sent p cmd body s =
     (if cmd = proto_player_action then cg_handle_player_action now tid sent p body s
      else if cmd = proto_player_req then
        if cg_nxmover s = sp_id p then
          map_option (\<lambda>(r, os, err). (s\<lparr>cg_reqs := r\<rparr>, os, err))
            (req_handle_player_req (cg_grp s) p body (cg_reqs s))
        else Some (s, [], -1)
      else if cmd = proto_notify_player_req then cg_handle_rsp_player_req p body s
      else if cmd = proto_player_leave then cg_handle_player_leave p s
      else Some (s, [], -1))"

end
