(* ===== verification/ChessProps.thy ===== *)
theory ChessProps
  imports ChessMove ChessGame
begin

unbundle bit_operations_syntax

text \<open>
  Games of Chinese chess: every state two players, watchers and their packets can bring a game to,
  and what moves, requests and leaves do in it.
\<close>

section \<open>Reachable games\<close>

definition setup_rule :: cn_rule where
  "setup_rule = \<lparr>cn_board = start_board, cn_flag = 0, cn_nsteps = 0, cn_move_order = [], cn_nxmover = 0,
     cn_nx_mover = 0, cn_maps = start_maps, cn_gpos = [(0, 4), (9, 4)]\<rparr>"

lemma setup_rule_eq:
  "setcannons 7 CNCHESS_BlackSide (setcannons 2 CNCHESS_RedSide
     (setsoldiers 6 CNCHESS_BlackSide (setsoldiers 3 CNCHESS_RedSide
       (setbaseline 9 CNCHESS_BlackSide (setbaseline 0 CNCHESS_RedSide
         \<lparr>cn_board = replicate 10 (replicate 9 0), cn_flag = 0, cn_nsteps = 0, cn_move_order = [],
          cn_nxmover = 0, cn_nx_mover = 0, cn_maps = [[], []], cn_gpos = [(0, 0), (0, 0)]\<rparr>))))) = setup_rule"
  by code_simp

lemma cn_ok_fields:
  "cn_ok (s\<lparr>cn_move_order := a\<rparr>) = cn_ok s" "cn_ok (s\<lparr>cn_nxmover := i\<rparr>) = cn_ok s"
  "cn_ok (s\<lparr>cn_nx_mover := u\<rparr>) = cn_ok s" "cn_ok (s\<lparr>cn_flag := f\<rparr>) = cn_ok s"
  by (simp_all add: cn_ok_def)

lemma cn_ok_setup: "cn_ok setup_rule"
  by (rule cn_ok_by_check) (simp_all add: setup_rule_def start_check, simp_all add: start_board_def start_maps_def)

text \<open>The players: \<open>p1\<close> at position 1 has red, \<open>p2\<close> at position 2 has black.\<close>

definition two_players :: "sprite \<Rightarrow> sprite \<Rightarrow> bool" where
  "two_players p1 p2 \<longleftrightarrow> sp_id p1 \<noteq> sp_id p2 \<and> sp_id p1 \<noteq> 0 \<and> sp_id p2 \<noteq> 0 \<and> sp_pos_id p1 = 1 \<and> sp_pos_id p2 = 2"

text \<open>A sprite that sends something: a player has the position it joined with.\<close>

definition known_sprite :: "sprite \<Rightarrow> sprite \<Rightarrow> sprite \<Rightarrow> bool" where
  "known_sprite p1 p2 p \<longleftrightarrow> sp_id p \<noteq> 0 \<and> (sp_id p = sp_id p1 \<longrightarrow> sp_pos_id p = 1) \<and> (sp_id p = sp_id p2 \<longrightarrow> sp_pos_id p = 2)"

definition cg_ok :: "sprite \<Rightarrow> sprite \<Rightarrow> chess_game \<Rightarrow> bool" where
  "cg_ok p1 p2 s \<longleftrightarrow> two_players p1 p2 \<and> gg_players (cg_grp s) \<in> {[p1, p2], [p2, p1]} \<and>
     cn_ok (cg_rule s) \<and> cn_flag (cg_rule s) = 0 \<and> cn_move_order (cg_rule s) = [sp_id p1, sp_id p2] \<and>
     cn_nx_mover (cg_rule s) = cg_nxmover s \<and>
     (cn_nxmover (cg_rule s) = 1 \<and> cg_nxmover s = sp_id p1 \<or> cn_nxmover (cg_rule s) = 2 \<and> cg_nxmover s = sp_id p2)"

text \<open>Data a handler answers with a positive value end the game: the object is deleted.\<close>

inductive cg_reach :: "sprite \<Rightarrow> sprite \<Rightarrow> chess_game \<Rightarrow> bool" for p1 p2 where
  cg_start: "chess_game_new junk g = Some s \<Longrightarrow> two_players p1 p2 \<Longrightarrow> gg_players g \<in> {[p1, p2], [p2, p1]} \<Longrightarrow>
     cg_reach p1 p2 s"
| cg_begin: "cg_reach p1 p2 s \<Longrightarrow> cg_init now tid p s = Some (s', outs) \<Longrightarrow> cg_reach p1 p2 s'"
| cg_data: "cg_reach p1 p2 s \<Longrightarrow> known_sprite p1 p2 p \<Longrightarrow> cg_handle_data now tid sent p cmd body s = Some (s', outs, rv) \<Longrightarrow>
     rv \<le> 0 \<Longrightarrow> cg_reach p1 p2 s'"

lemma cn_rule_new_eq:
  assumes "two_players p1 p2" "gg_players g \<in> {[p1, p2], [p2, p1]}"
  shows "cn_rule_new g = Some (setup_rule\<lparr>cn_move_order := [sp_id p1, sp_id p2], cn_nxmover := 0, cn_nx_mover := sp_id p1\<rparr>)"
proof -
  have "length (gg_players g) = 2" using assms(2) by auto
  then have "map of_nat [1..<length (gg_players g) + 1] = [1 :: u8, 2]" by (simp add: upt_rec)
  moreover have "arrange_players [1, 2] (gg_players g) = Some [sp_id p1, sp_id p2]"
    using assms by (auto simp: two_players_def)
  ultimately show ?thesis unfolding cn_rule_new_def Let_def setup_rule_eq by simp
qed

lemma chess_game_new_ok:
  assumes "chess_game_new junk g = Some s" "two_players p1 p2" "gg_players g \<in> {[p1, p2], [p2, p1]}"
  shows "cg_ok p1 p2 s"
proof -
  have "s = \<lparr>cg_grp = g, cg_nxmover = sp_id p1, cg_timerid = 0,
      cg_rule = setup_rule\<lparr>cn_move_order := [sp_id p1, sp_id p2], cn_nxmover := 1, cn_nx_mover := sp_id p1\<rparr>,
      cg_reqs = req_handler_new junk\<rparr>"
    using assms(1) unfolding chess_game_new_def cn_rule_new_eq [OF assms(2,3)] cn_nextmover_def Let_def by simp
  then show ?thesis using assms(2,3) by (simp add: cg_ok_def cn_ok_fields cn_ok_setup) (simp add: setup_rule_def)
qed

lemma cg_init_ok: "cg_ok p1 p2 s \<Longrightarrow> cg_init now tid p s = Some (s', outs) \<Longrightarrow> cg_ok p1 p2 s'"
  by (auto simp: cg_init_def cg_add_timer_def cg_ok_def Let_def split: if_splits option.splits)

lemma nextmover_turn:
  assumes "cg_ok p1 p2 s"
  shows "cn_nextmover r = (r', u) \<Longrightarrow> cn_move_order r = [sp_id p1, sp_id p2] \<Longrightarrow> cn_nxmover r = cn_nxmover (cg_rule s) \<Longrightarrow>
    u = (if cg_nxmover s = sp_id p1 then sp_id p2 else sp_id p1) \<and> cn_nx_mover r' = u \<and>
    (cn_nxmover r' = 1 \<and> u = sp_id p1 \<or> cn_nxmover r' = 2 \<and> u = sp_id p2) \<and>
    cn_move_order r' = cn_move_order r \<and> cn_flag r' = cn_flag r \<and> cn_board r' = cn_board r \<and> cn_gpos r' = cn_gpos r \<and>
    (cn_ok r' = cn_ok r)"
  using assms by (auto simp: cg_ok_def cn_nextmover_def Let_def two_players_def cn_ok_fields)

lemma find_player:
  assumes "cg_ok p1 p2 s" "u = sp_id p1 \<or> u = sp_id p2"
  shows "\<exists>op. get_sprite_from_gamegrp u (gg_players (cg_grp s)) = Some op \<and> sp_id op = u"
  using assms by (auto simp: cg_ok_def two_players_def)

section \<open>Moves\<close>

lemma mover_facts:
  assumes ok: "cg_ok p1 p2 s" and k: "known_sprite p1 p2 p" and m: "cg_nxmover s = sp_id p"
  shows "sp_pos_id p \<in> {1, 2}" "cn_move_order (cg_rule s) ! (unat (sp_pos_id p) - 1) = sp_id p"
    "sp_pos_id p = 1 \<longleftrightarrow> sp_id p = sp_id p1"
    "cn_move_order (cg_rule s) ! (unat (sp_pos_id p) mod 2) = (if sp_id p = sp_id p1 then sp_id p2 else sp_id p1)"
  using ok k m by (auto simp: cg_ok_def known_sprite_def two_players_def)

definition other_id :: "sprite \<Rightarrow> sprite \<Rightarrow> sprite \<Rightarrow> u32" where
  "other_id p1 p2 p = (if sp_id p = sp_id p1 then sp_id p2 else sp_id p1)"

lemma chess_action_illegal:
  assumes ok: "cg_ok p1 p2 s" and k: "known_sprite p1 p2 p" and st: "GAME_STARTED (cg_grp s)" "\<not> IS_GAME_WATCHER p"
    and m: "cg_nxmover s = sp_id p" "\<not> has_pending_req (cg_reqs s)" and len: "length body = 4"
    and n: "\<not> legal_move (cn_board (cg_rule s)) (sp_pos_id p = 1) (body ! 0, body ! 1) (body ! 2, body ! 3)"
  shows "cg_handle_player_action now tid sent p body s = Some (s, [ErrorToSelf p 1], sent)"
proof -
  have "cn_place_chess p body (cg_rule s) = Some (cg_rule s, -2, 0)"
    using place_chess_illegal [OF _ mover_facts(1,2) [OF ok k m(1)] len n] ok by (simp add: cg_ok_def cn_okD(1))
  then show ?thesis using st m len by (simp add: cg_handle_player_action_def)
qed

lemma chess_action_legal:
  assumes ok: "cg_ok p1 p2 s" and k: "known_sprite p1 p2 p" and st: "GAME_STARTED (cg_grp s)" "\<not> IS_GAME_WATCHER p"
    and m: "cg_nxmover s = sp_id p" "\<not> has_pending_req (cg_reqs s)" and len: "length body = 4"
  defines "red \<equiv> sp_pos_id p = 1" and "f \<equiv> (body ! 0, body ! 1)" and "t \<equiv> (body ! 2, body ! 3)"
  defines "b' \<equiv> cn_moved (cn_board (cg_rule s)) f t" and "g' \<equiv> gpos_after red f t (cn_gpos (cg_rule s))"
  assumes l: "legal_move (cn_board (cg_rule s)) red f t"
  shows "\<exists>s' outs rv c. cg_handle_player_action now tid sent p body s = Some (s', outs, rv) \<and>
    cn_board (cg_rule s') = b' \<and> cn_gpos (cg_rule s') = g' \<and>
    RemoveTimer p (cg_timerid s) \<in> set outs \<and> ToGroup (CgAct (sp_id p) body c) \<in> set outs \<and>
    (if facing b' (g' ! 0) (g' ! 1)
     then rv = GER_end_of_game \<and> ToGroup (CgWinner (other_id p1 p2 p)) \<in> set outs
     else if t = cn_gpos (cg_rule s) ! side_ix (\<not> red)
     then rv = GER_end_of_game \<and> ToGroup (CgWinner (sp_id p)) \<in> set outs
     else rv = 0 \<and> cg_nxmover s' = other_id p1 p2 p \<and> cg_ok p1 p2 s' \<and> cg_grp s' = cg_grp s \<and>
       c = of_bool (\<exists>f2. legal_move b' red f2 (g' ! side_ix (\<not> red))) \<and>
       (\<exists>op. AddTimer op (now + 62) \<in> set outs \<and> sp_id op = other_id p1 p2 p))"
proof -
  note M = mover_facts [OF ok k m(1)]
  have okr: "cn_ok (cg_rule s)" "cn_flag (cg_rule s) = 0" using ok by (auto simp: cg_ok_def)
  from place_chess_legal [OF okr M(1,2) len, folded red_def f_def t_def, OF l, folded b'_def g'_def]
  obtain r c where r: "cn_place_chess p body (cg_rule s) = Some (r, 0, c)" "cn_board r = b'" "cn_gpos r = g'"
    and rf: "cn_flag r = (if facing b' (g' ! 0) (g' ! 1) then 9 else if t = cn_gpos (cg_rule s) ! side_ix (\<not> red) then 1 else 0)"
    and ro: "cn_move_order r = cn_move_order (cg_rule s)" "cn_nxmover r = cn_nxmover (cg_rule s)" "cn_nx_mover r = cn_nx_mover (cg_rule s)"
    and rc: "cn_flag r = 0 \<longrightarrow> cn_ok r \<and> c = of_bool (\<exists>f2. legal_move b' red f2 (g' ! side_ix (\<not> red)))"
    by (elim exE conjE)
  have H: "cg_handle_player_action now tid sent p body s =
    (let s1 = s\<lparr>cg_rule := r\<rparr>;
         o1 = [RemoveTimer p (cg_timerid s1)] @ cg_broadcast_action p body c;
         ow = cn_notify_winner p False r @ cn_send_gamescore (cg_grp s1) p r
     in if winner_determinate r then Some (s1, o1 @ ow, GER_end_of_game)
        else if cn_draw r then Some (s1, o1 @ ow, GER_draw_game)
        else let (rule2, u) = cn_nextmover r;
                 s2 = s1\<lparr>cg_rule := rule2, cg_nxmover := u, cg_reqs := reset_reqs (cg_reqs s1)\<rparr>
             in map_option (\<lambda>(s3, ot). (s3, o1 @ ot, 0)) (cg_add_timer now tid s2))"
    using st m len r(1) by (simp add: cg_handle_player_action_def Let_def)
  show ?thesis
  proof (cases "cn_flag r = 0")
    case False
    then have w: "winner_determinate r" using rf by (auto simp: winner_determinate_def split: if_splits)
    have "cn_notify_winner p False r = [ToGroup (CgWinner (if facing b' (g' ! 0) (g' ! 1) then other_id p1 p2 p else sp_id p))]"
      using rf False M(4) ro(1) by (auto simp: cn_notify_winner_def Let_def cn_draw_def other_id_def split: if_splits)
    with w show ?thesis using False rf r(2,3) unfolding H Let_def
      by (intro exI [of _ c] exI conjI) (auto simp: cg_broadcast_action_def split: if_splits)
  next
    case True
    then have w: "\<not> winner_determinate r" "\<not> cn_draw r" by (auto simp: winner_determinate_def cn_draw_def)
    obtain r2 u where n: "cn_nextmover r = (r2, u)" by fastforce
    have ord: "cn_move_order r = [sp_id p1, sp_id p2]" using ok ro(1) by (simp add: cg_ok_def)
    note N = nextmover_turn [OF ok n ord ro(2)]
    have u: "u = other_id p1 p2 p" using N m(1) by (simp add: other_id_def)
    let ?s2 = "s\<lparr>cg_rule := r2, cg_nxmover := u, cg_reqs := reset_reqs (cg_reqs s)\<rparr>"
    have ok2: "cg_ok p1 p2 ?s2" using ok N rc True ord by (auto simp: cg_ok_def)
    obtain op where op: "get_sprite_from_gamegrp u (gg_players (cg_grp s)) = Some op" "sp_id op = u"
      using find_player [OF ok, of u] N by auto
    have "cg_handle_player_action now tid sent p body s = Some (?s2\<lparr>cg_timerid := tid\<rparr>,
        ([RemoveTimer p (cg_timerid s)] @ cg_broadcast_action p body c) @ [AddTimer op (now + 62)], 0)"
      unfolding H Let_def using w n op(1) by (simp add: cg_add_timer_def)
    moreover have "cg_ok p1 p2 (?s2\<lparr>cg_timerid := tid\<rparr>)" using ok2 by (simp add: cg_ok_def)
    moreover have nf: "\<not> facing b' (g' ! 0) (g' ! 1)" "t \<noteq> cn_gpos (cg_rule s) ! side_ix (\<not> red)"
      using True rf by (auto split: if_splits)
    moreover have "c = of_bool (\<exists>f2. legal_move b' red f2 (g' ! side_ix (\<not> red)))" using rc True by blast
    moreover have "cn_board r2 = b'" "cn_gpos r2 = g'" using N r(2,3) by simp_all
    ultimately show ?thesis using u op(2) unfolding if_not_P [OF nf(1)] if_not_P [OF nf(2)]
      by (intro exI [of _ "?s2\<lparr>cg_timerid := tid\<rparr>"] exI [of _ 0] exI [of _ c] conjI
            exI [of _ "([RemoveTimer p (cg_timerid s)] @ cg_broadcast_action p body c) @ [AddTimer op (now + 62)]"])
        (simp_all add: cg_broadcast_action_def)
  qed
qed

lemma chess_action_length:
  assumes ok: "cg_ok p1 p2 s" and k: "known_sprite p1 p2 p" and m: "cg_nxmover s = sp_id p" and len: "length body \<noteq> 4"
  shows "cn_place_chess p body (cg_rule s) = Some (cg_rule s, -1, 0)"
  using mover_facts(1,2) [OF ok k m] len by (simp add: cn_place_chess_def)

lemma chess_action_ok:
  assumes ok: "cg_ok p1 p2 s" and k: "known_sprite p1 p2 p"
  shows "\<exists>s' outs rv. cg_handle_player_action now tid sent p body s = Some (s', outs, rv) \<and> (rv \<le> 0 \<longrightarrow> cg_ok p1 p2 s')"
proof (cases "body \<noteq> [] \<and> GAME_STARTED (cg_grp s) \<and> \<not> IS_GAME_WATCHER p \<and> cg_nxmover s = sp_id p \<and> \<not> has_pending_req (cg_reqs s)")
  case False
  then have "cg_handle_player_action now tid sent p body s = Some (s, [], -1)"
    by (auto simp: cg_handle_player_action_def Suc_le_eq)
  with ok show ?thesis by auto
next
  case True
  then have st: "GAME_STARTED (cg_grp s)" "\<not> IS_GAME_WATCHER p" and m: "cg_nxmover s = sp_id p" "\<not> has_pending_req (cg_reqs s)" by auto
  show ?thesis
  proof (cases "length body = 4")
    case False
    with True chess_action_length [OF ok k m(1) False]
    have "cg_handle_player_action now tid sent p body s = Some (s, [], -1)" by (simp add: cg_handle_player_action_def)
    with ok show ?thesis by auto
  next
    case len: True
    show ?thesis
    proof (cases "legal_move (cn_board (cg_rule s)) (sp_pos_id p = 1) (body ! 0, body ! 1) (body ! 2, body ! 3)")
      case False
      from chess_action_illegal [OF ok k st m len False] ok show ?thesis by auto
    next
      case l: True
      from chess_action_legal [OF ok k st m len l, of now tid sent] obtain s' outs rv where
        a: "cg_handle_player_action now tid sent p body s = Some (s', outs, rv)" and "rv = GER_end_of_game \<or> cg_ok p1 p2 s'"
        by (auto split: if_splits)
      then have "rv \<le> 0 \<longrightarrow> cg_ok p1 p2 s'" by (auto simp: GER_end_of_game_def)
      with a show ?thesis by blast
    qed
  qed
qed

section \<open>Requests and leaves\<close>

lemma cg_ok_reqs [simp]: "cg_ok p1 p2 (s\<lparr>cg_reqs := r\<rparr>) = cg_ok p1 p2 s"
  by (simp add: cg_ok_def)

lemma confirm_ok:
  assumes "cg_ok p1 p2 s" and "GAME_STARTED (cg_grp s)"
  shows "\<exists>s' outs rv. cg_confirm p s = Some (s', outs, rv) \<and> (rv \<le> 0 \<longrightarrow> cg_ok p1 p2 s')"
proof -
  have "req_confirmed (cg_grp s) (cg_reqs s) \<noteq> None"
    using assms(2) by (simp add: req_confirmed_def req_rsp_player_req_def Let_def)
  then obtain r o1 ret where r: "req_confirmed (cg_grp s) (cg_reqs s) = Some (r, o1, ret)"
    by (metis not_None_eq prod.collapse)
  show ?thesis
  proof (cases "snd ret \<noteq> REQ_unconfirmed \<and> snd ret \<noteq> REQ_rejected")
    case False
    with r assms(1) show ?thesis by (auto simp: cg_confirm_def Let_def)
  next
    case True
    obtain rule o2 err where h: "cn_handle_confirmed_req (cg_grp s) p ret (cg_rule s) = (rule, o2, err)" by (metis prod.collapse)
    then have "err = GER_end_of_game" by (simp add: cn_handle_confirmed_req_def split: prod.splits)
    moreover obtain rule2 u where "cn_nextmover rule = (rule2, u)" by fastforce
    ultimately show ?thesis using r h True by (simp add: cg_confirm_def Let_def GER_end_of_game_def)
  qed
qed

lemma leave_ok:
  assumes ok: "cg_ok p1 p2 s" and st: "GAME_STARTED (cg_grp s)"
  shows "\<exists>s' outs rv. cg_handle_player_leave p s = Some (s', outs, rv) \<and> (rv \<le> 0 \<longrightarrow> cg_ok p1 p2 s')"
proof (cases "IS_GAME_PLAYER p")
  case True
  then show ?thesis by (simp add: cg_handle_player_leave_def cn_handle_player_leave_def Let_def GER_end_of_game_def)
next
  case False
  obtain r ch where h: "req_handle_player_leave (sp_id p) (cg_reqs s) = (r, ch)" by fastforce
  show ?thesis
  proof (cases ch)
    case False
    with h \<open>\<not> IS_GAME_PLAYER p\<close> ok show ?thesis
      by (simp add: cg_handle_player_leave_def cn_handle_player_leave_def Let_def)
  next
    case True
    have "cg_ok p1 p2 (s\<lparr>cg_reqs := r\<rparr>)" "GAME_STARTED (cg_grp (s\<lparr>cg_reqs := r\<rparr>))" using ok st by simp_all
    from confirm_ok [OF this, of p] h True \<open>\<not> IS_GAME_PLAYER p\<close> show ?thesis
      by (auto simp: cg_handle_player_leave_def cn_handle_player_leave_def Let_def)
  qed
qed

lemma req_results:
  assumes "GAME_STARTED g"
  shows "\<exists>r' outs rv. req_handle_player_req g p body r = Some (r', outs, rv)"
    and "\<exists>r' outs rv. req_handle_rsp_player_req g p body r = Some (r', outs, rv)"
proof -
  have "add_req g (sp_id p) (body ! 0) r \<noteq> None" using assms by (auto simp: add_req_def)
  then obtain r1 ok where a: "add_req g (sp_id p) (body ! 0) r = Some (r1, ok)" by (metis not_None_eq prod.collapse)
  show "\<exists>r' outs rv. req_handle_player_req g p body r = Some (r', outs, rv)"
    using assms a by (cases ok) (auto simp: req_handle_player_req_def notify_req_def)
  have "add_rsp g (sp_id p) (be_u32 body 0) (body ! 4) r \<noteq> None" using assms by (auto simp: add_rsp_def Let_def)
  then obtain r2 ok2 where b: "add_rsp g (sp_id p) (be_u32 body 0) (body ! 4) r = Some (r2, ok2)"
    by (metis not_None_eq prod.collapse)
  show "\<exists>r' outs rv. req_handle_rsp_player_req g p body r = Some (r', outs, rv)"
    using assms b by (cases ok2) (auto simp: req_handle_rsp_player_req_def req_rsp_player_req_def Let_def)
qed

lemma chess_rsp_ok:
  assumes ok: "cg_ok p1 p2 s" and st: "GAME_STARTED (cg_grp s)"
  shows "\<exists>s' outs rv. cg_handle_rsp_player_req p body s = Some (s', outs, rv) \<and> (rv \<le> 0 \<longrightarrow> cg_ok p1 p2 s')"
proof -
  obtain r o1 err where r: "req_handle_rsp_player_req (cg_grp s) p body (cg_reqs s) = Some (r, o1, err)"
    using req_results(2) [OF st] by blast
  have "cg_ok p1 p2 (s\<lparr>cg_reqs := r\<rparr>)" "GAME_STARTED (cg_grp (s\<lparr>cg_reqs := r\<rparr>))" using ok st by simp_all
  from confirm_ok [OF this, of p] ok r show ?thesis
    by (cases "err = 0") (auto simp: cg_handle_rsp_player_req_def Let_def)
qed

text \<open>While a game has not started there is no request to wait for, and only a leave is heard.\<close>

lemma rsp_not_started:
  "\<not> GAME_STARTED (cg_grp s) \<Longrightarrow> cg_handle_rsp_player_req p body s = Some (s, [], -1)"
  by (simp add: cg_handle_rsp_player_req_def req_handle_rsp_player_req_def)

lemma leave_not_started:
  assumes "\<not> GAME_STARTED (cg_grp s)" and "cg_handle_player_leave p s = Some (s', outs, rv)" and "rv \<le> 0" and "cg_ok p1 p2 s"
  shows "cg_ok p1 p2 s'"
  using assms by (auto simp: cg_handle_player_leave_def cn_handle_player_leave_def Let_def GER_end_of_game_def
    cg_confirm_def req_confirmed_def split: if_splits prod.splits)

lemma chess_data_ok:
  assumes ok: "cg_ok p1 p2 s" and k: "known_sprite p1 p2 p" and st: "GAME_STARTED (cg_grp s)"
  shows "\<exists>s' outs rv. cg_handle_data now tid sent p cmd body s = Some (s', outs, rv) \<and> (rv \<le> 0 \<longrightarrow> cg_ok p1 p2 s')"
proof -
  obtain r os rv where "req_handle_player_req (cg_grp s) p body (cg_reqs s) = Some (r, os, rv)"
    using req_results(1) [OF st] by blast
  then show ?thesis
    using chess_action_ok [OF ok k, of now tid sent body] chess_rsp_ok [OF ok st, of p body] leave_ok [OF ok st, of p] ok
    by (simp add: cg_handle_data_def)
qed

lemma chess_step_ok:
  assumes ok: "cg_ok p1 p2 s" and k: "known_sprite p1 p2 p"
    and h: "cg_handle_data now tid sent p cmd body s = Some (s', outs, rv)" and rv: "rv \<le> 0"
  shows "cg_ok p1 p2 s'"
proof (cases "GAME_STARTED (cg_grp s)")
  case True
  from chess_data_ok [OF ok k True, of now tid sent cmd body] h rv show ?thesis by auto
next
  case False
  have "cg_ok p1 p2 s'" if "cg_handle_player_action now tid sent p body s = Some (s', outs, rv)"
    using chess_action_ok [OF ok k, of now tid sent body] that rv by auto
  then show ?thesis
    using h ok rv leave_not_started [OF False _ rv ok] rsp_not_started [OF False] False
    by (auto simp: cg_handle_data_def req_handle_player_req_def split: if_splits)
qed

lemma cg_reach_ok: "cg_reach p1 p2 s \<Longrightarrow> cg_ok p1 p2 s"
  by (induction rule: cg_reach.induct) (auto intro: chess_game_new_ok cg_init_ok chess_step_ok)

section \<open>A game to look at\<close>

definition red_player :: sprite where "red_player = \<lparr>sp_id = 100001, sp_pos_id = 1, sp_status = 1\<rparr>"
definition black_player :: sprite where "black_player = \<lparr>sp_id = 100002, sp_pos_id = 2, sp_status = 1\<rparr>"
definition onlooker :: sprite where "onlooker = \<lparr>sp_id = 100003, sp_pos_id = 0, sp_status = 2\<rparr>"

definition chess_group :: "u8 \<Rightarrow> game_group" where
  "chess_group flag = \<lparr>gg_flag = flag, gg_players = [red_player, black_player], gg_watchers = [onlooker],
     gg_game = \<lparr>game_IQ = 5, game_exp = 5, game_yxb = 10\<rparr>\<rparr>"

definition new_chess :: chess_game where
  "new_chess = \<lparr>cg_grp = chess_group 3, cg_nxmover = 100001, cg_timerid = 7,
     cg_rule = setup_rule\<lparr>cn_move_order := [100001, 100002], cn_nxmover := 1, cn_nx_mover := 100001\<rparr>,
     cg_reqs = req_handler_new 0\<rparr>"

lemma sample_players: "two_players red_player black_player"
  "known_sprite red_player black_player red_player" "known_sprite red_player black_player black_player"
  "known_sprite red_player black_player onlooker"
  by (simp_all add: two_players_def known_sprite_def red_player_def black_player_def onlooker_def)

lemma new_chess_reach: "cg_reach red_player black_player new_chess"
proof -
  let ?s = "\<lparr>cg_grp = chess_group 1, cg_nxmover = 100001, cg_timerid = 0,
     cg_rule = setup_rule\<lparr>cn_move_order := [100001, 100002], cn_nxmover := 1, cn_nx_mover := 100001\<rparr>,
     cg_reqs = req_handler_new 0\<rparr>"
  have g: "gg_players (chess_group 1) \<in> {[red_player, black_player], [black_player, red_player]}" by (simp add: chess_group_def)
  have "chess_game_new 0 (chess_group 1) = Some ?s"
    unfolding chess_game_new_def cn_rule_new_eq [OF sample_players(1) g] cn_nextmover_def Let_def
    by (simp add: red_player_def black_player_def)
  then have "cg_reach red_player black_player ?s" using g by (intro cg_start sample_players(1))
  moreover have "set_bit (Suc 0) (1::u8) = 3" by code_simp
  then have "\<exists>outs. cg_init 0 7 red_player ?s = Some (new_chess, outs)"
    by (simp add: cg_init_def cg_add_timer_def new_chess_def chess_group_def red_player_def black_player_def GAME_READY_def
      SET_GAME_START_def Let_def)
  ultimately show ?thesis using cg_begin by blast
qed

lemma new_chess_facts: "GAME_STARTED (cg_grp new_chess)" "cg_nxmover new_chess = 100001"
  "cg_reqs new_chess = req_handler_new 0" "cn_board (cg_rule new_chess) = start_board" "cg_timerid new_chess = 7"
  "cn_gpos (cg_rule new_chess) = [(0, 4), (9, 4)]"
  by (simp_all add: new_chess_def chess_group_def GAME_STARTED_def setup_rule_def)

lemma sample_facts [simp]: "sp_id red_player = 100001" "sp_id black_player = 100002" "sp_id onlooker = 100003"
  "sp_pos_id red_player = 1" "sp_pos_id black_player = 2" "\<not> IS_GAME_WATCHER red_player" "\<not> IS_GAME_WATCHER black_player"
  "\<not> IS_GAME_PLAYER onlooker"
  by (simp_all add: red_player_def black_player_def onlooker_def)

fun play :: "(sprite \<times> byte list) list \<Rightarrow> chess_game \<Rightarrow> chess_game option" where
  "play [] s = Some s"
| "play ((p, m) # ms) s =
     (case cg_handle_data 0 7 0 p proto_player_action m s of
        Some (s', outs, rv) \<Rightarrow> if rv = 0 then play ms s' else None
      | None \<Rightarrow> None)"

lemma play_reach:
  "play ms s = Some s' \<Longrightarrow> cg_reach p1 p2 s \<Longrightarrow> \<forall>(p, m) \<in> set ms. known_sprite p1 p2 p \<Longrightarrow> cg_reach p1 p2 s'"
proof (induction ms s rule: play.induct)
  case (2 p m ms s)
  from "2.prems"(1) obtain s1 outs where h: "cg_handle_data 0 7 0 p proto_player_action m s = Some (s1, outs, 0)"
    "play ms s1 = Some s'" by (auto split: option.splits prod.splits if_splits)
  then have "cg_reach p1 p2 s1" using "2.prems"(2,3) by (intro cg_data [OF "2.prems"(2) _ h(1)]) auto
  with "2.IH" h "2.prems"(3) show ?case by auto
qed auto

definition soldier_march :: "(sprite \<times> byte list) list" where
  "soldier_march = [(red_player, [3, 4, 4, 4]), (black_player, [9, 0, 8, 0]), (red_player, [4, 4, 5, 4]),
     (black_player, [8, 0, 9, 0]), (red_player, [5, 4, 6, 4]), (black_player, [9, 0, 8, 0]), (red_player, [6, 4, 7, 4]),
     (black_player, [8, 0, 9, 0]), (red_player, [7, 4, 8, 4]), (black_player, [9, 0, 8, 0])]"

definition before_capture :: chess_game where
  "before_capture = \<lparr>cg_grp = chess_group 3, cg_nxmover = 100001, cg_timerid = 7,
     cg_rule = \<lparr>cn_board = [[65, 66, 67, 68, 69, 68, 67, 66, 65], [0, 0, 0, 0, 0, 0, 0, 0, 0],
         [0, 70, 0, 0, 0, 0, 0, 70, 0], [71, 0, 71, 0, 0, 0, 71, 0, 71],
         [0, 0, 0, 0, 0, 0, 0, 0, 0], [0, 0, 0, 0, 0, 0, 0, 0, 0],
         [135, 0, 135, 0, 0, 0, 135, 0, 135], [0, 134, 0, 0, 0, 0, 0, 134, 0],
         [129, 0, 0, 0, 71, 0, 0, 0, 0], [0, 130, 131, 132, 133, 132, 131, 130, 129]],
       cn_flag = 0, cn_nsteps = 10, cn_move_order = [100001, 100002], cn_nxmover = 1, cn_nx_mover = 100001,
       cn_maps = [[(65, 0, 0), (65, 0, 8), (66, 0, 1), (66, 0, 7), (70, 2, 1), (70, 2, 7), (71, 3, 0), (71, 3, 2), (71, 8, 4),
           (71, 3, 6), (71, 3, 8)],
         [(129, 8, 0), (129, 9, 8), (130, 9, 1), (130, 9, 7), (134, 7, 1), (134, 7, 7), (135, 6, 0), (135, 6, 2),
           (135, 6, 6), (135, 6, 8)]],
       cn_gpos = [(0, 4), (9, 4)]\<rparr>,
     cg_reqs = req_handler_new 0\<rparr>"

lemma march_play: "play soldier_march new_chess = Some before_capture"
  by code_simp

section \<open>What holds of every game\<close>

lemma known_mover_turn:
  assumes "cg_ok p1 p2 s" and "known_sprite p1 p2 m" and "cg_nxmover s = sp_id m"
  shows "other_id p1 p2 m \<noteq> sp_id m" "sp_id m \<noteq> 0" "other_id p1 p2 m \<noteq> 0"
  using assms by (auto simp: cg_ok_def known_sprite_def two_players_def other_id_def)

lemma players_two: "cg_ok p1 p2 s \<Longrightarrow> of_nat (length (gg_players (cg_grp s))) - 1 = (1::u8)"
  by (auto simp: cg_ok_def)

text \<open>No request is open and none was answered before.\<close>

definition fresh_reqs :: "req_handler \<Rightarrow> u8 \<Rightarrow> bool" where
  "fresh_reqs r req \<longleftrightarrow> rq_uid r = 0 \<and> rq_rsp r = {} \<and> rq_nagree r = 0 \<and> rq_ndisagree r = 0 \<and> req \<notin> rq_made r"

definition asked :: "u32 \<Rightarrow> u8 \<Rightarrow> chess_game \<Rightarrow> chess_game" where
  "asked uid req s = s\<lparr>cg_reqs := (cg_reqs s)\<lparr>rq_made := insert req (rq_made (cg_reqs s)), rq_uid := uid, rq_req := req,
     rq_cntneeded := 1\<rparr>\<rparr>"

lemma request_step:
  assumes ok: "cg_ok p1 p2 s" and st: "GAME_STARTED (cg_grp s)" "\<not> IS_GAME_WATCHER m" and t: "cg_nxmover s = sp_id m"
    and r: "req \<in> {1, 2}" "rq_uid (cg_reqs s) = 0" "req \<notin> rq_made (cg_reqs s)"
  shows "cg_handle_data now tid sent m proto_player_req [req] s =
    Some (asked (sp_id m) req s, [ToOthers (sp_id m) (CgReq (sp_id m) req)], 0)"
  using assms players_two [OF ok]
  by (auto simp: cg_handle_data_def proto_player_req_def proto_player_action_def req_handle_player_req_def req_isvalid_def
    REQ_draw_def REQ_surrender_def add_req_def notify_req_def asked_def)

lemma response_step:
  assumes st: "GAME_STARTED (cg_grp s)" "\<not> IS_GAME_WATCHER o1" and b: "length body = 5" "be_u32 body 0 = rq_uid (cg_reqs s)"
    and a: "body ! 4 = 0 \<or> body ! 4 = rq_req (cg_reqs s) \<and> body ! 4 \<le> 2" and n: "sp_id o1 \<noteq> rq_uid (cg_reqs s)"
    "sp_id o1 \<notin> rq_rsp (cg_reqs s)"
  defines "r1 \<equiv> (cg_reqs s)\<lparr>rq_rsp := insert (sp_id o1) (rq_rsp (cg_reqs s))\<rparr>"
  shows "cg_handle_data now tid sent o1 proto_notify_player_req body s =
    map_option (\<lambda>(s2, o2, err2). (s2, [ToOthers (sp_id o1) (CgRsp (sp_id o1) (rq_uid (cg_reqs s)) (body ! 4))] @ o2, err2))
      (cg_confirm o1 (s\<lparr>cg_reqs := if body ! 4 \<noteq> 0 then r1\<lparr>rq_nagree := rq_nagree r1 + 1\<rparr>
                                   else r1\<lparr>rq_ndisagree := rq_ndisagree r1 + 1\<rparr>\<rparr>))"
proof -
  have "\<not> REQ_max < body ! 4" using a by (auto simp: REQ_max_def not_less)
  then have "req_handle_rsp_player_req (cg_grp s) o1 body (cg_reqs s) =
    Some (if body ! 4 \<noteq> 0 then r1\<lparr>rq_nagree := rq_nagree r1 + 1\<rparr> else r1\<lparr>rq_ndisagree := rq_ndisagree r1 + 1\<rparr>,
      [ToOthers (sp_id o1) (CgRsp (sp_id o1) (rq_uid (cg_reqs s)) (body ! 4))], 0)"
    using st b a n by (auto simp: req_handle_rsp_player_req_def Let_def add_rsp_def REQ_rejected_def req_rsp_player_req_def r1_def)
  then show ?thesis
    by (simp add: cg_handle_data_def proto_player_req_def proto_player_action_def proto_notify_player_req_def cg_handle_rsp_player_req_def Let_def)
qed

lemma if_elim_keep:
  "if A then B else if C then D else (E \<and> F \<and> G \<and> H \<and> I) \<Longrightarrow> if A then B else if C then D else (E \<and> F \<and> I)"
  by (simp split: if_splits)

text \<open>
  C7: \<open>isvalid\<close> and \<open>movable\<close> accept exactly the moves of Chinese chess: from an own piece to a square
  of the board without one, as the piece goes: chariots along free lines, cannons so too and over
  exactly one piece to take, horses and elephants unless the square between is taken, the elephant
  on its half, mandarin and general in their palace, soldiers forward, and sideways over the river.
\<close>
theorem cn_movable_legal:
  assumes "sp_pos_id p \<in> {1, 2}" and "cn_board_ok (cn_board s)"
  shows "isvalid p fx fy tx ty s \<and> movable p fx fy tx ty s \<longleftrightarrow>
    legal_move (cn_board s) (sp_pos_id p = 1) (fx, fy) (tx, ty)"
  by (rule movable_legal [OF assms])

theorem cn_movable_legal_witness:
  "isvalid red_player 2 1 8 1 (cg_rule new_chess) \<and> \<not> movable red_player 2 1 8 1 (cg_rule new_chess) \<and>
   \<not> legal_move start_board True (2, 1) (8, 1) \<and> legal_move start_board True (2, 1) (2, 4)"
proof -
  have b: "cn_board_ok (cn_board (cg_rule new_chess))" using cg_reach_ok [OF new_chess_reach] by (simp add: cg_ok_def cn_okD(1))
  have "isvalid red_player 2 1 8 1 (cg_rule new_chess) \<and> \<not> movable red_player 2 1 8 1 (cg_rule new_chess)"
    "isvalid red_player 2 1 2 4 (cg_rule new_chess) \<and> movable red_player 2 1 2 4 (cg_rule new_chess)"
    by code_simp+
  with cn_movable_legal [OF _ b, of red_player 2 1 8 1] cn_movable_legal [OF _ b, of red_player 2 1 2 4] show ?thesis
    by (auto simp: new_chess_facts)
qed

text \<open>
  C8: \<open>ischeck\<close> reads no square outside the board and says yes exactly when some piece of the player
  could take the general of the other side with its next move.
\<close>
theorem cn_ischeck_correct:
  assumes "cn_ok s" and "sp_pos_id p \<in> {1, 2}"
  shows "ischeck p s =
    Some (\<exists>f. legal_move (cn_board s) (sp_pos_id p = 1) f (cn_gpos s ! side_ix (sp_pos_id p \<noteq> 1)))"
  by (rule ischeck_legal [OF assms])

theorem cn_ischeck_correct_witness:
  "ischeck red_player (cg_rule before_capture) = Some True \<and>
   (\<exists>f. legal_move (cn_board (cg_rule before_capture)) True f (9, 4))"
proof -
  have ok: "cn_ok (cg_rule before_capture)"
    using cg_reach_ok [OF play_reach [OF march_play new_chess_reach]]
    by (auto simp: cg_ok_def soldier_march_def known_sprite_def)
  moreover have "ischeck red_player (cg_rule before_capture) = Some True" by code_simp
  ultimately show ?thesis using cn_ischeck_correct [OF ok, of red_player]
    by (simp add: side_ix_def) (simp add: before_capture_def)
qed

text \<open>
  C4: in every game of two players, whatever the players and watchers send: the board holds pieces
  only, one general of each side, in its palace and where \<open>general_pos_\<close> has it; \<open>chess_multimap_\<close>
  holds exactly the chariots, horses, cannons and soldiers of a side, each once; the next mover is
  one of the two players. Once the game has started no data makes an assertion fail, a null pointer
  be followed or a loop leave the board.
\<close>
theorem cg_game_invariant:
  assumes "cg_reach p1 p2 s"
  shows "cn_board_ok (cn_board (cg_rule s)) \<and>
    (\<forall>red. general_ok (cn_board (cg_rule s)) red (cn_gpos (cg_rule s) ! side_ix red) \<and>
      distinct (cn_maps (cg_rule s) ! side_ix red) \<and>
      set (cn_maps (cg_rule s) ! side_ix red) = hunters (cn_board (cg_rule s)) red) \<and>
    cg_nxmover s \<in> {sp_id p1, sp_id p2} \<and>
    (GAME_STARTED (cg_grp s) \<and> known_sprite p1 p2 p \<longrightarrow> cg_handle_data now tid sent p cmd body s \<noteq> None)"
proof -
  note ok = cg_reach_ok [OF assms]
  then have r: "cn_ok (cg_rule s)" and t: "cg_nxmover s \<in> {sp_id p1, sp_id p2}" by (auto simp: cg_ok_def)
  have "GAME_STARTED (cg_grp s) \<and> known_sprite p1 p2 p \<longrightarrow> cg_handle_data now tid sent p cmd body s \<noteq> None"
    using chess_data_ok [OF ok, of p now tid sent cmd body] by auto
  with cn_okD [OF r] t show ?thesis by blast
qed

theorem cg_game_invariant_witness:
  "cn_board_ok (cn_board (cg_rule before_capture)) \<and>
   cg_handle_data 0 7 0 black_player proto_player_action [8, 0, 9, 0] before_capture \<noteq> None"
proof -
  have r: "cg_reach red_player black_player before_capture"
    by (rule play_reach [OF march_play new_chess_reach]) (simp add: soldier_march_def sample_players)
  show ?thesis
    using cg_game_invariant [OF r, of black_player 0 7 0 proto_player_action "[8, 0, 9, 0]"] sample_players(3)
    by (simp add: before_capture_def chess_group_def GAME_STARTED_def)
qed

text \<open>
  C19: an action of the mover with no request open is refused, and nothing changes, unless it is a
  legal move. A legal move puts the piece on its new square and tells the group; the game is won by
  the other player when the generals then face each other, else by the mover when the general was
  taken, else the turn passes on with a new timer, and the byte sent with the move says whether the
  other general could be taken now.
\<close>
theorem cg_move_outcome:
  assumes "cg_reach p1 p2 s" and "known_sprite p1 p2 p" and "GAME_STARTED (cg_grp s)" and "\<not> IS_GAME_WATCHER p"
    and "cg_nxmover s = sp_id p" and "\<not> has_pending_req (cg_reqs s)" and "length body = 4"
  shows "let red = (sp_pos_id p = 1); f = (body ! 0, body ! 1); t = (body ! 2, body ! 3);
             b' = cn_moved (cn_board (cg_rule s)) f t; g' = gpos_after red f t (cn_gpos (cg_rule s)) in
    if \<not> legal_move (cn_board (cg_rule s)) red f t
    then cg_handle_data now tid sent p proto_player_action body s = Some (s, [ErrorToSelf p 1], sent)
    else \<exists>s' outs rv c. cg_handle_data now tid sent p proto_player_action body s = Some (s', outs, rv) \<and>
      cn_board (cg_rule s') = b' \<and> ToGroup (CgAct (sp_id p) body c) \<in> set outs \<and>
      (if facing b' (g' ! 0) (g' ! 1)
       then rv = GER_end_of_game \<and> ToGroup (CgWinner (other_id p1 p2 p)) \<in> set outs
       else if t = cn_gpos (cg_rule s) ! side_ix (\<not> red)
       then rv = GER_end_of_game \<and> ToGroup (CgWinner (sp_id p)) \<in> set outs
       else rv = 0 \<and> cg_nxmover s' = other_id p1 p2 p \<and>
         c = of_bool (\<exists>f2. legal_move b' red f2 (g' ! side_ix (\<not> red))) \<and>
         (\<exists>op. AddTimer op (now + 62) \<in> set outs \<and> sp_id op = other_id p1 p2 p))"
proof -
  note ok = cg_reach_ok [OF assms(1)]
  have d: "cg_handle_data now tid sent p proto_player_action body s = cg_handle_player_action now tid sent p body s"
    by (simp add: cg_handle_data_def)
  show ?thesis
  proof (cases "legal_move (cn_board (cg_rule s)) (sp_pos_id p = 1) (body ! 0, body ! 1) (body ! 2, body ! 3)")
    case False
    then show ?thesis using chess_action_illegal [OF ok assms(2-7) False] unfolding Let_def d by simp
  next
    case True
    have nn: "\<not> \<not> legal_move (cn_board (cg_rule s)) (sp_pos_id p = 1) (body ! 0, body ! 1) (body ! 2, body ! 3)" using True by simp
    from chess_action_legal [OF ok assms(2-7) True, of now tid sent] obtain s' outs rv c where
      a: "cg_handle_player_action now tid sent p body s = Some (s', outs, rv)" and
      bd: "cn_board (cg_rule s') = cn_moved (cn_board (cg_rule s)) (body ! 0, body ! 1) (body ! 2, body ! 3)" and
      o: "ToGroup (CgAct (sp_id p) body c) \<in> set outs" and
      w: "let red = (sp_pos_id p = 1); f = (body ! 0, body ! 1); t = (body ! 2, body ! 3);
           b' = cn_moved (cn_board (cg_rule s)) f t; g' = gpos_after red f t (cn_gpos (cg_rule s)) in
       if facing b' (g' ! 0) (g' ! 1)
       then rv = GER_end_of_game \<and> ToGroup (CgWinner (other_id p1 p2 p)) \<in> set outs
       else if t = cn_gpos (cg_rule s) ! side_ix (\<not> red)
       then rv = GER_end_of_game \<and> ToGroup (CgWinner (sp_id p)) \<in> set outs
       else rv = 0 \<and> cg_nxmover s' = other_id p1 p2 p \<and> cg_ok p1 p2 s' \<and> cg_grp s' = cg_grp s \<and>
         c = of_bool (\<exists>f2. legal_move b' red f2 (g' ! side_ix (\<not> red))) \<and>
         (\<exists>op. AddTimer op (now + 62) \<in> set outs \<and> sp_id op = other_id p1 p2 p)"
      unfolding Let_def by (elim exE conjE)
    show ?thesis using w unfolding Let_def d if_not_P [OF nn]
      by (intro exI [of _ s'] exI [of _ outs] exI [of _ rv] exI [of _ c] conjI a bd o) (elim if_elim_keep)
  qed
qed

theorem cg_move_outcome_witness:
  "\<exists>s' outs rv. cg_handle_data 0 8 0 red_player proto_player_action [2, 1, 2, 4] new_chess = Some (s', outs, rv) \<and>
     cn_board (cg_rule s') = cn_moved start_board (2, 1) (2, 4)"
proof -
  have b: "cn_board_ok (cn_board (cg_rule new_chess))" using cg_reach_ok [OF new_chess_reach] by (simp add: cg_ok_def cn_okD(1))
  have "isvalid red_player 2 1 2 4 (cg_rule new_chess) \<and> movable red_player 2 1 2 4 (cg_rule new_chess)" by code_simp
  then have l: "legal_move start_board True (2, 1) (2, 4)" using movable_legal [OF _ b, of red_player 2 1 2 4] by (simp add: new_chess_facts)
  have n: "\<not> has_pending_req (cg_reqs new_chess)" by (simp add: new_chess_facts has_pending_req_def req_handler_new_def)
  show ?thesis
    using cg_move_outcome [OF new_chess_reach sample_players(2) new_chess_facts(1) sample_facts(6) _ n, of "[2, 1, 2, 4]" 0 8 0] l
    by (auto simp: new_chess_facts Let_def)
qed

lemma before_capture_reach: "cg_reach red_player black_player before_capture"
  by (rule play_reach [OF march_play new_chess_reach]) (simp add: soldier_march_def sample_players)

lemma squares_between_sym: "squares_between g h = squares_between h g"
  by (auto simp: squares_between_def)

lemma facing_sym: "facing b g h = facing b h g"
  by (auto simp: facing_def pieces_between_def squares_between_sym [of h g])

lemma facing_after_capture:
  assumes ok: "cn_ok r" and l: "legal_move (cn_board r) red f t" and t: "t = cn_gpos r ! side_ix (\<not> red)"
    and f: "f \<noteq> cn_gpos r ! side_ix red" and c: "snd t = snd (cn_gpos r ! side_ix red)"
    and e: "\<forall>q \<in> squares_between t (cn_gpos r ! side_ix red). q = f \<or> sq (cn_board r) (fst q) (snd q) = 0"
  shows "facing (cn_moved (cn_board r) f t) (gpos_after red f t (cn_gpos r) ! 0) (gpos_after red f t (cn_gpos r) ! 1)"
proof -
  let ?b' = "cn_moved (cn_board r) f t" and ?g = "cn_gpos r ! side_ix red"
  note D = cn_okD [OF ok]
  have on: "on_board f" "on_board t" "on_board ?g" using l D(4) [of red] by (auto simp: legal_move_def general_ok_def)
  have "sq ?b' x y = 0" if q: "(x, y) \<in> squares_between t ?g" for x y
  proof -
    have "on_board (x, y)" "(x, y) \<noteq> t" using q on by (auto simp: squares_between_def on_board_def)
    with e q show ?thesis by (auto simp: sq_moved [OF D(1) on(1,2)])
  qed
  then have "pieces_between ?b' t ?g = 0" by (simp add: pieces_between_def case_prod_unfold)
  then have "facing ?b' t ?g" using c by (simp add: facing_def)
  moreover have "gpos_after red f t (cn_gpos r) = cn_gpos r" using f by (simp add: gpos_after_def)
  ultimately show ?thesis using t facing_sym [of ?b' t ?g] by (cases red) (simp_all add: side_ix_def)
qed

lemma general_taken:
  assumes ok: "cn_ok r" and l: "legal_move (cn_board r) red f t" and t: "t = cn_gpos r ! side_ix (\<not> red)" and o: "on_board (x, y)"
  shows "sq (cn_moved (cn_board r) f t) x y \<noteq> general_of (\<not> red)"
proof -
  note D = cn_okD [OF ok]
  have L: "on_board f" "on_board t" "owned red (sq (cn_board r) (fst f) (snd f))" using l by (auto simp: legal_move_def)
  have "(x, y) = t" if "sq (cn_board r) x y = general_of (\<not> red)" using general_at [OF D(4) o, of "\<not> red"] that t by simp
  moreover have "sq (cn_board r) (fst f) (snd f) \<noteq> general_of (\<not> red)"
    using L(3) general_of_facts(4) [of red] by (cases red) (auto simp: owned_def general_of_def)
  ultimately show ?thesis using sq_moved [OF D(1) L(1,2) o] by (auto simp: general_of_def)
qed

text \<open>
  C36: taking the general loses the game when the mover's own general stands on the same column with
  nothing else between: the place of the general just taken still counts as a general's, so the
  generals are said to face each other and the other player, whose general is gone, wins.
\<close>
theorem cg_capture_loses:
  assumes "cg_reach p1 p2 s" and "known_sprite p1 p2 p" and "GAME_STARTED (cg_grp s)" and "\<not> IS_GAME_WATCHER p"
    and "cg_nxmover s = sp_id p" and "\<not> has_pending_req (cg_reqs s)" and "length body = 4"
  defines "red \<equiv> sp_pos_id p = 1" and "f \<equiv> (body ! 0, body ! 1)" and "t \<equiv> (body ! 2, body ! 3)"
  defines "g \<equiv> cn_gpos (cg_rule s) ! side_ix red"
  assumes "legal_move (cn_board (cg_rule s)) red f t" and "t = cn_gpos (cg_rule s) ! side_ix (\<not> red)" and "f \<noteq> g" and "snd t = snd g"
    and "\<forall>q \<in> squares_between t g. q = f \<or> sq (cn_board (cg_rule s)) (fst q) (snd q) = 0"
  shows "\<exists>s' outs. cg_handle_data now tid sent p proto_player_action body s = Some (s', outs, GER_end_of_game) \<and>
    ToGroup (CgWinner (other_id p1 p2 p)) \<in> set outs \<and>
    (\<forall>x y. on_board (x, y) \<longrightarrow> sq (cn_board (cg_rule s')) x y \<noteq> general_of (\<not> red))"
proof -
  note ok = cg_reach_ok [OF assms(1)]
  then have r: "cn_ok (cg_rule s)" by (simp add: cg_ok_def)
  have fc: "facing (cn_moved (cn_board (cg_rule s)) f t) (gpos_after red f t (cn_gpos (cg_rule s)) ! 0)
      (gpos_after red f t (cn_gpos (cg_rule s)) ! 1)"
    by (rule facing_after_capture [OF r assms(12,13)]) (use assms(14-16) in \<open>simp_all add: g_def\<close>)
  from chess_action_legal [OF ok assms(2-7), folded red_def f_def t_def, OF assms(12), of now tid sent] fc
  obtain s' outs rv where a: "cg_handle_player_action now tid sent p body s = Some (s', outs, rv)"
    "cn_board (cg_rule s') = cn_moved (cn_board (cg_rule s)) f t" "rv = GER_end_of_game" "ToGroup (CgWinner (other_id p1 p2 p)) \<in> set outs"
    by auto
  then show ?thesis using general_taken [OF r assms(12,13)]
    by (intro exI [of _ s'] exI [of _ outs]) (simp add: cg_handle_data_def)
qed

theorem cg_capture_loses_witness:
  "\<exists>s' outs. cg_handle_data 0 8 0 red_player proto_player_action [8, 4, 9, 4] before_capture = Some (s', outs, GER_end_of_game) \<and>
     ToGroup (CgWinner 100002) \<in> set outs"
proof -
  have b: "cn_board_ok (cn_board (cg_rule before_capture))" using cg_reach_ok [OF before_capture_reach] by (simp add: cg_ok_def cn_okD(1))
  have "isvalid red_player 8 4 9 4 (cg_rule before_capture) \<and> movable red_player 8 4 9 4 (cg_rule before_capture)" by code_simp
  then have l: "legal_move (cn_board (cg_rule before_capture)) True (8, 4) (9, 4)"
    using movable_legal [OF _ b, of red_player 8 4 9 4] by simp
  have st: "GAME_STARTED (cg_grp before_capture)" "cg_nxmover before_capture = sp_id red_player"
    "\<not> has_pending_req (cg_reqs before_capture)" "cn_gpos (cg_rule before_capture) = [(0, 4), (9, 4)]"
    by (simp_all add: before_capture_def chess_group_def GAME_STARTED_def has_pending_req_def req_handler_new_def)
  have u: "x = 0 \<or> x = 1 \<or> x = 2 \<or> x = 3 \<or> x = 4 \<or> x = 5 \<or> x = 6 \<or> x = 7 \<or> x = 8" if "x < 9" for x :: u8
    using that by (auto simp: word_less_nat_alt unat_word_ariths word_unat_eq_iff)
  have "\<forall>q \<in> squares_between (9, 4) (0, 4). q = (8, 4) \<or> sq (cn_board (cg_rule before_capture)) (fst q) (snd q) = 0"
    by (auto simp: squares_between_def before_capture_def dest!: u)
  with cg_capture_loses [OF before_capture_reach sample_players(2) st(1) sample_facts(6) st(2,3), of "[8, 4, 9, 4]" 0 8 0] l
  have "\<exists>s' outs. cg_handle_data 0 8 0 red_player proto_player_action [8, 4, 9, 4] before_capture = Some (s', outs, GER_end_of_game) \<and>
     ToGroup (CgWinner 100002) \<in> set outs \<and> (\<forall>x y. on_board (x, y) \<longrightarrow> sq (cn_board (cg_rule s')) x y \<noteq> general_of False)"
    by (simp add: st(4) side_ix_def other_id_def)
  then show ?thesis by blast
qed

lemma pending_blocks:
  "has_pending_req (cg_reqs s) \<Longrightarrow> cg_handle_data now tid sent p proto_player_action body s = Some (s, [], -1)"
  by (simp add: cg_handle_data_def cg_handle_player_action_def)

lemma asked_facts [simp]:
  "cg_grp (asked u req s) = cg_grp s" "cg_nxmover (asked u req s) = cg_nxmover s" "cg_rule (asked u req s) = cg_rule s"
  "rq_uid (cg_reqs (asked u req s)) = u" "rq_req (cg_reqs (asked u req s)) = req" "rq_rsp (cg_reqs (asked u req s)) = rq_rsp (cg_reqs s)"
  "rq_nagree (cg_reqs (asked u req s)) = rq_nagree (cg_reqs s)" "rq_ndisagree (cg_reqs (asked u req s)) = rq_ndisagree (cg_reqs s)"
  "rq_cntneeded (cg_reqs (asked u req s)) = 1"
  by (simp_all add: asked_def)

text \<open>
  C21: when no request is open, no answer has been counted since the last one, and the player to move has
  not made this request in his turn (\<open>fresh_reqs\<close>), a request of his to draw or to surrender reaches the
  others and holds the game until the other player answers it. Rejected, it is gone and the game goes on
  where it stood; agreed to, it ends the game: a draw without winner, a surrender with the other player
  as the winner. After a stray answer this fails.
\<close>
theorem cg_request_answered:
  assumes "cg_reach p1 p2 s" and "GAME_STARTED (cg_grp s)" and "\<not> IS_GAME_WATCHER m" and "\<not> IS_GAME_WATCHER o1"
    and "known_sprite p1 p2 m" and "cg_nxmover s = sp_id m" and "sp_id o1 = other_id p1 p2 m"
    and "fresh_reqs (cg_reqs s) req" and "req \<in> {1, 2}"
    and "length body = 5" and "be_u32 body 0 = sp_id m" and "body ! 4 \<in> {0, req}"
  shows "\<exists>s1. cg_handle_data now tid sent m proto_player_req [req] s = Some (s1, [ToOthers (sp_id m) (CgReq (sp_id m) req)], 0) \<and>
    (\<forall>q b. cg_handle_data now2 tid2 sent2 q proto_player_action b s1 = Some (s1, [], -1)) \<and>
    (\<exists>s2 outs rv. cg_handle_data now3 tid3 sent3 o1 proto_notify_player_req body s1 = Some (s2, outs, rv) \<and>
       (if body ! 4 = 0
        then rv = 0 \<and> \<not> has_pending_req (cg_reqs s2) \<and> cg_nxmover s2 = sp_id m \<and> cg_rule s2 = cg_rule s
        else rv = GER_end_of_game \<and> ToGroup (CgWinner (if req = 1 then 0 else sp_id o1)) \<in> set outs))"
proof -
  note ok = cg_reach_ok [OF assms(1)]
  have ids: "other_id p1 p2 m \<noteq> sp_id m" "sp_id m \<noteq> 0" using known_mover_turn [OF ok assms(5,6)] by simp_all
  have fl: "cn_flag (cg_rule s) = 0" using ok by (simp add: cg_ok_def)
  let ?s1 = "asked (sp_id m) req s"
  have fr: "rq_uid (cg_reqs s) = 0" "rq_rsp (cg_reqs s) = {}" "rq_nagree (cg_reqs s) = 0" "rq_ndisagree (cg_reqs s) = 0"
    "req \<notin> rq_made (cg_reqs s)" using assms(8) by (simp_all add: fresh_reqs_def)
  have q: "cg_handle_data now tid sent m proto_player_req [req] s = Some (?s1, [ToOthers (sp_id m) (CgReq (sp_id m) req)], 0)"
    by (rule request_step [OF ok assms(2,3,6,9) fr(1,5)])
  have blk: "cg_handle_data now2 tid2 sent2 q proto_player_action b ?s1 = Some (?s1, [], -1)" for q b
    by (rule pending_blocks) (simp add: has_pending_req_def ids)
  have rs: "body ! 4 = 0 \<or> body ! 4 = rq_req (cg_reqs ?s1) \<and> body ! 4 \<le> 2" using assms(9,12) by auto
  note R = response_step [of ?s1 o1 body now3 tid3 sent3, unfolded asked_facts, OF assms(2,4,10,11) rs [unfolded asked_facts]]
  have "\<exists>s2 outs rv. cg_handle_data now3 tid3 sent3 o1 proto_notify_player_req body ?s1 = Some (s2, outs, rv) \<and>
       (if body ! 4 = 0
        then rv = 0 \<and> \<not> has_pending_req (cg_reqs s2) \<and> cg_nxmover s2 = sp_id m \<and> cg_rule s2 = cg_rule s
        else rv = GER_end_of_game \<and> ToGroup (CgWinner (if req = 1 then 0 else sp_id o1)) \<in> set outs)"
  proof (cases "body ! 4 = 0")
    case True
    then show ?thesis using R ids fr assms(2,6,7)
      by (simp add: cg_confirm_def req_confirmed_def req_rsp_player_req_def Let_def REQ_rejected_def REQ_unconfirmed_def
        req_reset_def has_pending_req_def)
  next
    case False
    then have b: "body ! 4 = req" "req \<noteq> 0" "req \<noteq> 255" using assms(9,12) by auto
    then show ?thesis using R ids fr assms(2,6,7,9) fl
      by (auto simp: cg_confirm_def req_confirmed_def req_rsp_player_req_def Let_def REQ_rejected_def REQ_unconfirmed_def
        cn_handle_confirmed_req_def cn_notify_winner_def REQ_draw_def REQ_surrender_def cn_draw_def split: prod.splits)
  qed
  with q blk show ?thesis by blast
qed

lemma new_chess_fresh: "fresh_reqs (cg_reqs new_chess) req" "\<not> has_pending_req (cg_reqs new_chess)"
  by (simp_all add: new_chess_facts fresh_reqs_def req_handler_new_def has_pending_req_def)

lemma answer_bytes: "be_u32 [0, 1, 134, 161, x] 0 = 100001"
  by (simp add: be_u32_def)

theorem cg_request_answered_witness:
  "\<exists>s1 s2 outs. cg_handle_data 0 8 0 red_player proto_player_req [2] new_chess =
       Some (s1, [ToOthers 100001 (CgReq 100001 2)], 0) \<and>
     cg_handle_data 3 8 0 black_player proto_notify_player_req [0, 1, 134, 161, 2] s1 = Some (s2, outs, GER_end_of_game) \<and>
     ToGroup (CgWinner 100002) \<in> set outs"
  using cg_request_answered [OF new_chess_reach new_chess_facts(1) sample_facts(6,7) sample_players(2) _ _ new_chess_fresh(1),
      of 2 "[0, 1, 134, 161, 2]" 0 8 0 0 8 0 3 8 0]
  by (auto simp: answer_bytes new_chess_facts other_id_def)

text \<open>
  C37: a watcher who leaves while a request waits for its answer rejects it: the count of answers
  needed is that of the other players, but every sprite that leaves takes one off. The players are
  told that the request was rejected, and the same request is refused until the next move.
\<close>
theorem cg_watcher_leave_rejects:
  assumes "cg_reach p1 p2 s" and "GAME_STARTED (cg_grp s)" and "\<not> IS_GAME_WATCHER m" and "known_sprite p1 p2 m"
    and "cg_nxmover s = sp_id m" and "fresh_reqs (cg_reqs s) req" and "req \<in> {1, 2}"
    and "\<not> IS_GAME_PLAYER w" and "sp_id w \<noteq> sp_id m"
  shows "\<exists>s1 outs s2. cg_handle_data now tid sent m proto_player_req [req] s = Some (s1, outs, 0) \<and>
    cg_handle_data now2 tid2 sent2 w proto_player_leave body s1 = Some (s2, [ToOthers 0 (CgRsp 0 (sp_id m) 0)], 0) \<and>
    \<not> has_pending_req (cg_reqs s2) \<and> cg_rule s2 = cg_rule s \<and>
    cg_handle_data now3 tid3 sent3 m proto_player_req [req] s2 = Some (s2, [], -1)"
proof -
  note ok = cg_reach_ok [OF assms(1)]
  have nz: "sp_id m \<noteq> 0" using known_mover_turn(2) [OF ok assms(4,5)] .
  have fr: "rq_uid (cg_reqs s) = 0" "rq_rsp (cg_reqs s) = {}" "rq_nagree (cg_reqs s) = 0" "rq_ndisagree (cg_reqs s) = 0"
    "req \<notin> rq_made (cg_reqs s)" using assms(6) by (simp_all add: fresh_reqs_def)
  let ?s1 = "asked (sp_id m) req s"
  define r2 where "r2 = req_reset ((cg_reqs ?s1)\<lparr>rq_cntneeded := 0\<rparr>)"
  define s2 where "s2 = ?s1\<lparr>cg_reqs := r2\<rparr>"
  have cf: "cg_confirm w (?s1\<lparr>cg_reqs := (cg_reqs ?s1)\<lparr>rq_cntneeded := 0\<rparr>\<rparr>) = Some (s2, [ToOthers 0 (CgRsp 0 (sp_id m) 0)], 0)"
    using fr assms(2) by (simp add: cg_confirm_def req_confirmed_def req_rsp_player_req_def Let_def REQ_rejected_def
        REQ_unconfirmed_def s2_def r2_def)
  have q: "cg_handle_data now tid sent m proto_player_req [req] s = Some (?s1, [ToOthers (sp_id m) (CgReq (sp_id m) req)], 0)"
    by (rule request_step [OF ok assms(2,3,5,7) fr(1,5)])
  have same: "?s1\<lparr>cg_rule := cg_rule s, cg_reqs := r\<rparr> = ?s1\<lparr>cg_reqs := r\<rparr>" for r by (simp add: asked_def)
  have l: "cg_handle_data now2 tid2 sent2 w proto_player_leave body ?s1 = Some (s2, [ToOthers 0 (CgRsp 0 (sp_id m) 0)], 0)"
    using cf assms(8,9) fr nz
    by (simp add: same cg_handle_data_def proto_player_leave_def proto_player_action_def proto_player_req_def proto_notify_player_req_def
        cg_handle_player_leave_def cn_handle_player_leave_def req_handle_player_leave_def has_pending_req_def Let_def)
  have m: "req \<in> rq_made r2" "rq_uid r2 = 0" by (simp_all add: r2_def req_reset_def asked_def)
  have again: "cg_handle_data now3 tid3 sent3 m proto_player_req [req] s2 = Some (s2, [], -1)"
    using m assms(2,3,5,7) by (auto simp: s2_def cg_handle_data_def proto_player_req_def proto_player_action_def
        req_handle_player_req_def req_isvalid_def REQ_draw_def REQ_surrender_def add_req_def)
  show ?thesis using q l again m(2) by (intro exI conjI) (auto simp: s2_def has_pending_req_def)
qed

theorem cg_watcher_leave_rejects_witness:
  "\<exists>s1 outs s2. cg_handle_data 0 8 0 red_player proto_player_req [1] new_chess = Some (s1, outs, 0) \<and>
     cg_handle_data 2 8 0 onlooker proto_player_leave [2] s1 = Some (s2, [ToOthers 0 (CgRsp 0 100001 0)], 0)"
  using cg_watcher_leave_rejects [OF new_chess_reach new_chess_facts(1) sample_facts(6) sample_players(2) _ new_chess_fresh(1),
      of 1 onlooker 0 8 0 2 8 0 "[2]" 2 8 0]
  by (simp add: new_chess_facts) blast

text \<open>
  C38: an answer to request 0 is accepted while no request is open, and stays counted unless the
  number of answers needed, which the constructor does not set, happens to be 1. The next request of
  the mover can then not be decided: agreed to by the other player it stays open, and no move is
  taken any more.
\<close>
theorem cg_zero_response_blocks:
  assumes "cg_reach p1 p2 s" and "GAME_STARTED (cg_grp s)" and "\<not> IS_GAME_WATCHER m" and "\<not> IS_GAME_WATCHER o1"
    and "known_sprite p1 p2 m" and "cg_nxmover s = sp_id m" and "sp_id o1 = other_id p1 p2 m"
    and "fresh_reqs (cg_reqs s) req" and "req \<in> {1, 2}" and "rq_cntneeded (cg_reqs s) \<noteq> 1"
    and "length body = 5" and "be_u32 body 0 = sp_id m" and "body ! 4 = req"
  shows "\<exists>s1 outs1 s2 outs2 s3 outs3.
    cg_handle_data now tid sent m proto_notify_player_req [0, 0, 0, 0, 0] s = Some (s1, outs1, 0) \<and>
    cg_handle_data now1 tid1 sent1 m proto_player_req [req] s1 = Some (s2, outs2, 0) \<and>
    cg_handle_data now2 tid2 sent2 o1 proto_notify_player_req body s2 = Some (s3, outs3, 0) \<and>
    has_pending_req (cg_reqs s3) \<and>
    (\<forall>q b. cg_handle_data now3 tid3 sent3 q proto_player_action b s3 = Some (s3, [], -1))"
proof -
  note ok = cg_reach_ok [OF assms(1)]
  have ids: "other_id p1 p2 m \<noteq> sp_id m" "sp_id m \<noteq> 0" using known_mover_turn [OF ok assms(5,6)] by simp_all
  have fr: "rq_uid (cg_reqs s) = 0" "rq_rsp (cg_reqs s) = {}" "rq_nagree (cg_reqs s) = 0" "rq_ndisagree (cg_reqs s) = 0"
    "req \<notin> rq_made (cg_reqs s)" using assms(8) by (simp_all add: fresh_reqs_def)
  define s1 where "s1 = s\<lparr>cg_reqs := (cg_reqs s)\<lparr>rq_rsp := {sp_id m}, rq_ndisagree := 1\<rparr>\<rparr>"
  have z: "length [0, 0, 0, 0, 0 :: byte] = 5" "be_u32 [0, 0, 0, 0, 0] 0 = 0" "[0, 0, 0, 0, 0 :: byte] ! 4 = 0" by (simp_all add: be_u32_def)
  have n1: "unat (rq_cntneeded (cg_reqs s)) \<noteq> 1" using assms(10) by (auto simp: word_unat_eq_iff)
  have a: "\<exists>o1. cg_handle_data now tid sent m proto_notify_player_req [0, 0, 0, 0, 0] s = Some (s1, o1, 0)"
    using response_step [of s m "[0, 0, 0, 0, 0]" now tid sent] assms(2,3) z fr ids n1
    by (simp add: cg_confirm_def req_confirmed_def Let_def s1_def REQ_unconfirmed_def)
  have ok1: "cg_ok p1 p2 s1" using ok by (simp add: s1_def)
  let ?s2 = "asked (sp_id m) req s1"
  have b: "cg_handle_data now1 tid1 sent1 m proto_player_req [req] s1 = Some (?s2, [ToOthers (sp_id m) (CgReq (sp_id m) req)], 0)"
    by (rule request_step [OF ok1]) (use assms(2,3,6,9) fr in \<open>simp_all add: s1_def\<close>)
  have "req \<noteq> 0" "req \<le> 2" using assms(9) by auto
  then have c: "\<exists>s3 o3. cg_handle_data now2 tid2 sent2 o1 proto_notify_player_req body ?s2 = Some (s3, o3, 0) \<and> has_pending_req (cg_reqs s3)"
    using response_step [of ?s2 o1 body now2 tid2 sent2, unfolded asked_facts] assms(2,4,7,11,12,13) ids fr
    by (simp add: s1_def cg_confirm_def req_confirmed_def Let_def REQ_unconfirmed_def has_pending_req_def)
  with a b pending_blocks show ?thesis by blast
qed

theorem cg_zero_response_blocks_witness:
  "\<exists>s1 outs1 s2 outs2 s3 outs3.
    cg_handle_data 0 8 0 red_player proto_notify_player_req [0, 0, 0, 0, 0] new_chess = Some (s1, outs1, 0) \<and>
    cg_handle_data 1 8 0 red_player proto_player_req [1] s1 = Some (s2, outs2, 0) \<and>
    cg_handle_data 2 8 0 black_player proto_notify_player_req [0, 1, 134, 161, 1] s2 = Some (s3, outs3, 0) \<and>
    cg_handle_data 3 8 0 red_player proto_player_action [3, 4, 4, 4] s3 = Some (s3, [], -1)"
  using cg_zero_response_blocks [OF new_chess_reach new_chess_facts(1) sample_facts(6,7) sample_players(2) _ _ new_chess_fresh(1),
      of 1 "[0, 1, 134, 161, 1]" 0 8 0 1 8 0 2 8 0 3 8 0]
  by (simp add: answer_bytes new_chess_facts other_id_def req_handler_new_def) blast

end
