(* ===== verification/GamePlugin.thy ===== *)
theory GamePlugin
  imports GobangProps ChessProps
begin

text \<open>
  The interface between the mole game server and a board game: the virtual methods of
  \<open>src/mole/gamesvr/games/mpog.hpp\<close> and the \<open>create_game\<close> of its library. The locale \<open>game_plugin\<close>
  states what the server relies on; gobang, Chinese chess and the two of them together, as the
  server loads them, are its interpretations.
\<close>

section \<open>The interface\<close>

text \<open>
  A game keeps its group (\<open>grp_\<close>): \<open>mp_grp\<close> reads it and \<open>mp_set_grp\<close> puts in the group as the server
  has it now. \<open>create_game\<close> is found in the library with the given number.
\<close>

record ('g, 'pkg) mpog =
  mp_create :: "nat \<Rightarrow> game_group \<Rightarrow> 'g option"
  mp_init :: "int \<Rightarrow> nat \<Rightarrow> sprite \<Rightarrow> 'g \<Rightarrow> ('g \<times> 'pkg game_out list) option"
  mp_data :: "int \<Rightarrow> nat \<Rightarrow> sprite \<Rightarrow> int \<Rightarrow> byte list \<Rightarrow> 'g \<Rightarrow> ('g \<times> 'pkg game_out list \<times> int) option"
  mp_grp :: "'g \<Rightarrow> game_group"
  mp_set_grp :: "game_group \<Rightarrow> 'g \<Rightarrow> 'g"

text \<open>Neither game overrides the other two methods.\<close>

definition handle_timeout :: "nat \<Rightarrow> 'g \<Rightarrow> 'g \<times> int" where
  "handle_timeout d h = (h, 0)"

definition handle_db_return :: "u32 \<Rightarrow> byte list \<Rightarrow> u32 \<Rightarrow> 'g \<Rightarrow> 'g \<times> int" where
  "handle_db_return uid buf ret h = (h, 0)"

definition members :: "game_group \<Rightarrow> sprite list" where
  "members g = gg_players g @ gg_watchers g"

definition seated :: "game_group \<Rightarrow> bool" where
  "seated g \<longleftrightarrow> distinct (map sp_id (members g)) \<and> (\<forall>p \<in> set (members g). sp_id p \<noteq> 0) \<and>
     (\<forall>p \<in> set (gg_players g). IS_GAME_PLAYER p \<and> \<not> IS_GAME_WATCHER p) \<and>
     (\<forall>p \<in> set (gg_watchers g). IS_GAME_WATCHER p \<and> \<not> IS_GAME_PLAYER p)"

text \<open>Two players on the seats 1 and 2.\<close>

definition full_table :: "game_group \<Rightarrow> bool" where
  "full_table g \<longleftrightarrow> seated g \<and> (\<exists>p q. gg_players g = [p, q] \<and> {sp_pos_id p, sp_pos_id q} = {1, 2})"

definition same_seats :: "game_group \<Rightarrow> game_group \<Rightarrow> bool" where
  "same_seats g g' \<longleftrightarrow> map sp_id (gg_players g) = map sp_id (gg_players g') \<and>
     map sp_pos_id (gg_players g) = map sp_pos_id (gg_players g')"

fun out_ok :: "int \<Rightarrow> game_group \<Rightarrow> 'pkg game_out \<Rightarrow> bool" where
  "out_ok now g (ToSelf p x) \<longleftrightarrow> p \<in> set (members g)"
| "out_ok now g (ErrorToSelf p e) \<longleftrightarrow> p \<in> set (members g)"
| "out_ok now g (SubmitScore p sc) \<longleftrightarrow> p \<in> set (gg_players g)"
| "out_ok now g (AddTimer p e) \<longleftrightarrow> p \<in> set (gg_players g) \<and> now < e"
| "out_ok now g (RemoveTimer p i) \<longleftrightarrow> p \<in> set (members g)"
| "out_ok now g _ \<longleftrightarrow> True"

abbreviation outs_ok :: "int \<Rightarrow> game_group \<Rightarrow> 'pkg game_out list \<Rightarrow> bool" where
  "outs_ok now g \<equiv> list_all (out_ok now g)"

locale game_plugin =
  fixes mp :: "('g, 'pkg) mpog" and ok :: "'g \<Rightarrow> bool" and libs :: "nat set"
  assumes start_law: "lib \<in> libs \<Longrightarrow> full_table g \<Longrightarrow> GAME_READY g \<Longrightarrow> p \<in> set (gg_players g) \<Longrightarrow>
      \<exists>h h' os. mp_create mp lib g = Some h \<and> mp_init mp now tid p h = Some (h', os) \<and> ok h' \<and>
        mp_grp mp h' = SET_GAME_START g \<and> outs_ok now g os"
    and set_grp_law: "ok h \<Longrightarrow> same_seats g (mp_grp mp h) \<Longrightarrow> ok (mp_set_grp mp g h) \<and> mp_grp mp (mp_set_grp mp g h) = g"
    and watch_law: "ok h \<Longrightarrow> seated (mp_grp mp h) \<Longrightarrow> GAME_READY (mp_grp mp h) \<Longrightarrow> GAME_STARTED (mp_grp mp h) \<Longrightarrow>
      p \<in> set (gg_watchers (mp_grp mp h)) \<Longrightarrow>
      \<exists>h' os. mp_init mp now tid p h = Some (h', os) \<and> ok h' \<and> mp_grp mp h' = mp_grp mp h \<and> outs_ok now (mp_grp mp h) os"
    and data_law: "ok h \<Longrightarrow> seated (mp_grp mp h) \<Longrightarrow> GAME_STARTED (mp_grp mp h) \<Longrightarrow> p \<in> set (members (mp_grp mp h)) \<Longrightarrow>
      \<exists>h' os rv. mp_data mp now tid p cmd body h = Some (h', os, rv) \<and> mp_grp mp h' = mp_grp mp h \<and>
        outs_ok now (mp_grp mp h) os \<and> (rv \<le> 0 \<longrightarrow> ok h')"
    and leave_law: "ok h \<Longrightarrow> IS_GAME_PLAYER p \<Longrightarrow> mp_data mp now tid p proto_player_leave body h = Some (h', os, rv) \<Longrightarrow> 0 < rv"

lemma seatedD:
  assumes "seated g"
  shows "p \<in> set (members g) \<Longrightarrow> sp_id p \<noteq> 0"
    and "p \<in> set (gg_players g) \<Longrightarrow> IS_GAME_PLAYER p \<and> \<not> IS_GAME_WATCHER p"
    and "p \<in> set (gg_watchers g) \<Longrightarrow> IS_GAME_WATCHER p \<and> \<not> IS_GAME_PLAYER p"
    and "p \<in> set (members g) \<Longrightarrow> q \<in> set (members g) \<Longrightarrow> sp_id p = sp_id q \<Longrightarrow> p = q"
proof -
  show "p \<in> set (members g) \<Longrightarrow> sp_id p \<noteq> 0"
    and "p \<in> set (gg_players g) \<Longrightarrow> IS_GAME_PLAYER p \<and> \<not> IS_GAME_WATCHER p"
    and "p \<in> set (gg_watchers g) \<Longrightarrow> IS_GAME_WATCHER p \<and> \<not> IS_GAME_PLAYER p"
    using assms by (auto simp: seated_def)
  have "inj_on sp_id (set (members g))" using assms by (simp add: seated_def distinct_map)
  then show "p \<in> set (members g) \<Longrightarrow> q \<in> set (members g) \<Longrightarrow> sp_id p = sp_id q \<Longrightarrow> p = q"
    by (auto dest: inj_onD)
qed

lemma found_player: "get_sprite_from_gamegrp uid ps = Some p \<Longrightarrow> p \<in> set ps"
  by (induction ps) (auto split: if_splits)

lemma members_players [simp]: "p \<in> set (gg_players g) \<Longrightarrow> p \<in> set (members g)" "p \<in> set (gg_watchers g) \<Longrightarrow> p \<in> set (members g)"
  by (auto simp: members_def)

section \<open>Gobang\<close>

definition gobang_plugin :: "(gobang, gb_pkg) mpog" where
  "gobang_plugin =
     \<lparr>mp_create = \<lambda>lib g. if lib = 1 then gobang_new g else None, mp_init = gobang_init, mp_data = handle_data, mp_grp = gb_grp,
      mp_set_grp = \<lambda>g h. h\<lparr>gb_grp := g\<rparr>\<rparr>"

definition gobang_inv :: "gobang \<Rightarrow> bool" where
  "gobang_inv h \<longleftrightarrow> (\<exists>p q. gb_ok h p q)"

lemma gb_ok_seats:
  assumes "gb_ok h p q" and "same_seats g (gb_grp h)"
  shows "gobang_inv (h\<lparr>gb_grp := g\<rparr>)"
proof -
  from assms obtain p' q' where "gg_players g = [p', q']" "sp_id p' = sp_id p" "sp_id q' = sp_id q"
    by (auto simp: same_seats_def gb_ok_def)
  with assms(1) show ?thesis unfolding gobang_inv_def by (intro exI [of _ p'] exI [of _ q']) (simp add: gb_ok_def)
qed

lemma score_outs: "send_game_score p r r' s = Some os \<Longrightarrow> outs_ok now (gb_grp s) os"
  by (auto simp: send_game_score_def Let_def list_all_iff split: if_splits)

lemma move_timer_outs: "add_move_timer now tid s = Some (s', os) \<Longrightarrow> outs_ok now (gb_grp s) os \<and> gb_grp s' = gb_grp s"
  by (auto simp: add_move_timer_def dest: found_player split: option.splits)

lemma gb_action_outs:
  assumes "handle_player_action now tid p body s = Some (s', os, rv)" and p: "p \<in> set (members (gb_grp s))"
  shows "outs_ok now (gb_grp s) os"
proof -
  obtain s1 r where pc: "place_chess (be_u16 body 4) (be_u16 body 6) s = (s1, r)" by fastforce
  have g: "gb_grp s1 = gb_grp s" using pc by (auto simp: place_chess_def color_index_def split: if_splits option.splits)
  let ?s2 = "s1\<lparr>gb_nsteps := gb_nsteps s1 + 1\<rparr>"
  let ?s3 = "?s2\<lparr>gb_nxmover := 0\<rparr>"
  let ?o1 = "RemoveTimer p (gb_timerid s) # broadcast_action body (sp_id p)"
  have o1: "outs_ok now (gb_grp s) ?o1" using p by (simp add: broadcast_action_def)
  consider "os = []" | "os = [RemoveTimer p (gb_timerid s)]"
    | adj ow sc where "notify_winner5 (sp_id p) adj = Some ow" "send_game_score p 0 1 ?s3 = Some sc" "os = ?o1 @ ow @ sc"
    | sc where "send_game_score p 2 2 ?s3 = Some sc" "os = ?o1 @ notify_winner 0 @ sc"
    | s3 ot where "add_move_timer now tid (set_nxmover ?s2) = Some (s3, ot)" "os = ?o1 @ ot"
    using assms(1) unfolding handle_player_action_def Let_def pc
    by (auto simp: bind_eq_Some_conv split: if_splits option.splits bool.splits)
  then show ?thesis
  proof cases
    case (3 adj ow sc)
    with score_outs [OF 3(2), of now] o1 g show ?thesis by (auto simp: notify_winner5_def split: if_splits)
  next
    case (4 sc)
    with score_outs [OF 4(1), of now] o1 g show ?thesis by (simp add: notify_winner_def)
  next
    case (5 s3 ot)
    with move_timer_outs [OF 5(1)] o1 g show ?thesis by (simp add: set_nxmover_def)
  qed (use p in simp_all)
qed

lemma gb_req_outs: "handle_player_req p body s = Some (s', os, rv) \<Longrightarrow> outs_ok now (gb_grp s) os"
  by (auto simp: handle_player_req_def notify_player_req_def Let_def split: if_splits prod.splits)

lemma gb_rsp_outs:
  assumes "handle_rsp_player_req p body s = Some (s', os, rv)"
  shows "outs_ok now (gb_grp s) os"
proof -
  obtain s1 b where c: "chk_player_req (be_u32 body 0) (body ! 4) s = (s1, b)" by fastforce
  have g: "gb_grp s1 = gb_grp s" using c by (auto simp: chk_player_req_def split: if_splits option.splits)
  show ?thesis using assms score_outs [of p _ _ s1, where now = now, unfolded g]
    by (auto simp: handle_rsp_player_req_def Let_def c rsp_player_req_def notify_winner_def bind_eq_Some_conv split: if_splits)
qed

lemma gb_leave_outs: "handle_player_leave p s = Some (s', os, rv) \<Longrightarrow> outs_ok now (gb_grp s) os"
  by (auto simp: handle_player_leave_def score_outs split: if_splits)

lemma gb_data_ok:
  assumes ok: "gb_ok s p0 p1" and st: "GAME_STARTED (gb_grp s)" and p: "sp_id p \<noteq> 0" "p \<in> set (members (gb_grp s))"
  shows "\<exists>s' os rv. handle_data now tid p cmd body s = Some (s', os, rv) \<and> gb_grp s' = gb_grp s \<and> outs_ok now (gb_grp s) os \<and>
    gb_ok s' p0 p1"
proof -
  have "handle_player_leave p s \<noteq> None" using st by (simp add: handle_player_leave_def send_game_score_def Let_def)
  then obtain s' os rv where l: "handle_player_leave p s = Some (s', os, rv)" by (metis not_None_eq prod.collapse)
  moreover from l have "s' = s" by (auto simp: handle_player_leave_def split: if_splits)
  ultimately show ?thesis
    using action_ok [OF ok p(1), of now tid body] req_ok [OF ok, of p body] rsp_ok [OF ok, of p body] ok
      gb_action_outs [OF _ p(2), of now tid body] gb_req_outs [of p body s _ _ _ now] gb_rsp_outs [of p body s _ _ _ now]
      gb_leave_outs [OF l, of now]
    by (auto simp: handle_data_def)
qed

lemma gb_watch_ok:
  assumes "gb_ok s p0 p1" and "GAME_READY (gb_grp s)" "GAME_STARTED (gb_grp s)" and "IS_GAME_WATCHER p" "\<not> IS_GAME_PLAYER p"
    and "p \<in> set (members (gb_grp s))"
  shows "\<exists>os. gobang_init now tid p s = Some (s, os) \<and> outs_ok now (gb_grp s) os"
proof -
  obtain b where "pack_board_info s = Some (s, b)" using pack_board_ok [OF assms(1)] by blast
  with assms show ?thesis by (simp add: gobang_init_def notify_board_info_to_def)
qed

lemma gb_start_ok:
  assumes f: "full_table g" and r: "GAME_READY g" and p: "p \<in> set (gg_players g)"
  shows "\<exists>h h' os. gobang_new g = Some h \<and> gobang_init now tid p h = Some (h', os) \<and> gobang_inv h' \<and>
    gb_grp h' = SET_GAME_START g \<and> outs_ok now g os"
proof -
  obtain p0 p1 where pq: "gg_players g = [p0, p1]" using f by (auto simp: full_table_def)
  from f pq have d: "sp_id p0 \<noteq> sp_id p1" "sp_id p0 \<noteq> 0" "sp_id p1 \<noteq> 0" by (auto simp: full_table_def seated_def members_def)
  obtain h where h: "gobang_new g = Some h" "gb_grp h = g" "gb_nxmover h = sp_id p0" using pq by (auto simp: gobang_new_def)
  have ok: "gb_ok h p0 p1" by (rule gobang_new_ok [OF h(1) pq d])
  let ?h = "h\<lparr>gb_grp := SET_GAME_START g\<rparr>"
  have 1: "gb_ok ?h p0 p1" using ok gb_ok_grp [of "SET_GAME_START g" h] h(2) by simp
  obtain b where b: "pack_board_info ?h = Some (?h, b)" using pack_board_ok [OF 1] by blast
  have "\<exists>o2. notify_board_info ?h = Some (?h, o2) \<and> outs_ok now g o2" by (simp add: notify_board_info_def b)
  then obtain o2 where n: "notify_board_info ?h = Some (?h, o2)" "outs_ok now g o2" by blast
  have "IS_GAME_PLAYER p" using seatedD(2) p f by (auto simp: full_table_def)
  then have i: "gobang_init now tid p h = Some (?h\<lparr>gb_timerid := tid\<rparr>, (notify_game_start ?h @ o2) @ [AddTimer p0 (now + 62)])"
    using n(1) h r pq by (simp add: gobang_init_def add_move_timer_def Let_def)
  show ?thesis
    by (intro exI conjI, rule h(1), rule i)
      (use 1 n(2) pq in \<open>auto simp: gobang_inv_def gb_ok_timer notify_game_start_def\<close>)
qed

lemma gobang_plugin_simps [simp]:
  "mp_create gobang_plugin lib g = (if lib = 1 then gobang_new g else None)" "mp_init gobang_plugin = gobang_init"
  "mp_data gobang_plugin = handle_data" "mp_grp gobang_plugin = gb_grp" "mp_set_grp gobang_plugin g h = h\<lparr>gb_grp := g\<rparr>"
  by (simp_all add: gobang_plugin_def)

interpretation gobang: game_plugin gobang_plugin gobang_inv "{1}"
proof
  show "\<exists>h h' os. mp_create gobang_plugin lib g = Some h \<and> mp_init gobang_plugin now tid p h = Some (h', os) \<and> gobang_inv h' \<and>
      mp_grp gobang_plugin h' = SET_GAME_START g \<and> outs_ok now g os"
    if "lib \<in> {1}" "full_table g" "GAME_READY g" "p \<in> set (gg_players g)" for lib g p now tid
    using that(1) gb_start_ok [OF that(2-4)] by simp
  show "gobang_inv (mp_set_grp gobang_plugin g h) \<and> mp_grp gobang_plugin (mp_set_grp gobang_plugin g h) = g"
    if "gobang_inv h" "same_seats g (mp_grp gobang_plugin h)" for g h
    using that gb_ok_seats by (auto simp: gobang_inv_def)
  show "\<exists>h' os. mp_init gobang_plugin now tid p h = Some (h', os) \<and> gobang_inv h' \<and> mp_grp gobang_plugin h' = mp_grp gobang_plugin h \<and>
      outs_ok now (mp_grp gobang_plugin h) os"
    if "gobang_inv h" "seated (mp_grp gobang_plugin h)" "GAME_READY (mp_grp gobang_plugin h)" "GAME_STARTED (mp_grp gobang_plugin h)"
      "p \<in> set (gg_watchers (mp_grp gobang_plugin h))" for h p now tid
    using that seatedD(3) [OF that(2)] gb_watch_ok [of h _ _ p now tid] by (fastforce simp: gobang_inv_def)
  show "\<exists>h' os rv. mp_data gobang_plugin now tid p cmd body h = Some (h', os, rv) \<and> mp_grp gobang_plugin h' = mp_grp gobang_plugin h \<and>
      outs_ok now (mp_grp gobang_plugin h) os \<and> (rv \<le> 0 \<longrightarrow> gobang_inv h')"
    if "gobang_inv h" "seated (mp_grp gobang_plugin h)" "GAME_STARTED (mp_grp gobang_plugin h)"
      "p \<in> set (members (mp_grp gobang_plugin h))" for h p now tid cmd body
    using that seatedD(1) [OF that(2,4)] gb_data_ok [of h _ _ p now tid cmd body] by (fastforce simp: gobang_inv_def)
  show "0 < rv" if "gobang_inv h" "IS_GAME_PLAYER p" "mp_data gobang_plugin now tid p proto_player_leave body h = Some (h', os, rv)"
    for h p now tid body h' os rv
    using that by (auto simp: handle_data_def handle_player_leave_def gobang_action_def proto_player_leave_def proto_player_req_def
        proto_notify_player_req_def)
qed

section \<open>Chinese chess\<close>

text \<open>\<open>junk\<close> is the value the constructor of \<open>ReqHandler\<close> leaves in \<open>cntneeded\<close>.\<close>

definition chess_plugin :: "u8 \<Rightarrow> (chess_game, chess_pkg) mpog" where
  "chess_plugin junk =
     \<lparr>mp_create = \<lambda>lib g. if lib = 2 then chess_game_new junk g else None, mp_init = cg_init,
      mp_data = \<lambda>now tid. cg_handle_data now tid 0, mp_grp = cg_grp, mp_set_grp = \<lambda>g h. h\<lparr>cg_grp := g\<rparr>\<rparr>"

lemma chess_plugin_simps [simp]:
  "mp_create (chess_plugin junk) lib g = (if lib = 2 then chess_game_new junk g else None)" "mp_init (chess_plugin junk) = cg_init"
  "mp_data (chess_plugin junk) now tid = cg_handle_data now tid 0" "mp_grp (chess_plugin junk) = cg_grp"
  "mp_set_grp (chess_plugin junk) g h = h\<lparr>cg_grp := g\<rparr>"
  by (simp_all add: chess_plugin_def)

definition chess_inv :: "chess_game \<Rightarrow> bool" where
  "chess_inv h \<longleftrightarrow> (\<exists>p q. cg_ok p q h)"

lemma cg_ok_seats:
  assumes "cg_ok p q h" and "same_seats g (cg_grp h)"
  shows "chess_inv (h\<lparr>cg_grp := g\<rparr>)"
proof -
  from assms have t: "ChessProps.two_players p q" "gg_players (cg_grp h) = [p, q] \<or> gg_players (cg_grp h) = [q, p]"
    by (auto simp: cg_ok_def)
  then have "\<exists>p' q'. (gg_players g = [p', q'] \<or> gg_players g = [q', p']) \<and> sp_id p' = sp_id p \<and> sp_id q' = sp_id q \<and>
    sp_pos_id p' = sp_pos_id p \<and> sp_pos_id q' = sp_pos_id q"
    using assms(2) by (elim disjE) (clarsimp simp: same_seats_def map_eq_Cons_conv, blast)+
  then obtain p' q' where g: "gg_players g = [p', q'] \<or> gg_players g = [q', p']" "sp_id p' = sp_id p" "sp_id q' = sp_id q"
    "sp_pos_id p' = sp_pos_id p" "sp_pos_id q' = sp_pos_id q" by blast
  show ?thesis unfolding chess_inv_def
    by (intro exI [of _ p'] exI [of _ q']) (use assms(1) t(1) g in \<open>auto simp: cg_ok_def ChessProps.two_players_def\<close>)
qed

lemma cn_score_outs: "outs_ok now g (cn_send_gamescore g p r)"
  by (auto simp: cn_send_gamescore_def list_all_iff)

lemma cg_timer_outs: "cg_add_timer now tid s = Some (s', os) \<Longrightarrow> outs_ok now (cg_grp s) os \<and> cg_grp s' = cg_grp s"
  by (auto simp: cg_add_timer_def dest: found_player split: option.splits)

lemma cg_action_outs:
  assumes "cg_handle_player_action now tid sent p body s = Some (s', os, rv)" and "p \<in> set (members (cg_grp s))"
  shows "outs_ok now (cg_grp s) os \<and> cg_grp s' = cg_grp s"
  using assms cg_timer_outs [of now tid]
  by (fastforce simp: cg_handle_player_action_def Let_def cg_broadcast_action_def cn_notify_winner_def bind_eq_Some_conv cn_score_outs
    split: if_splits prod.splits)

lemma cg_confirm_outs: "cg_confirm p s = Some (s', os, rv) \<Longrightarrow> outs_ok now (cg_grp s) os \<and> cg_grp s' = cg_grp s"
  by (auto simp: cg_confirm_def req_confirmed_def req_rsp_player_req_def cn_handle_confirmed_req_def cn_notify_winner_def Let_def
    bind_eq_Some_conv cn_score_outs split: if_splits prod.splits)

lemma cg_rsp_outs: "cg_handle_rsp_player_req p body s = Some (s', os, rv) \<Longrightarrow> outs_ok now (cg_grp s) os \<and> cg_grp s' = cg_grp s"
  using cg_confirm_outs [of p _ _ _ _ now]
  by (fastforce simp: cg_handle_rsp_player_req_def req_handle_rsp_player_req_def req_rsp_player_req_def Let_def
    bind_eq_Some_conv split: if_splits prod.splits)

lemma cg_leave_outs: "cg_handle_player_leave p s = Some (s', os, rv) \<Longrightarrow> outs_ok now (cg_grp s) os \<and> cg_grp s' = cg_grp s"
  using cg_confirm_outs [of p _ _ _ _ now]
  by (fastforce simp: cg_handle_player_leave_def cn_handle_player_leave_def Let_def cn_score_outs GER_end_of_game_def
    split: if_splits prod.splits)

lemma cg_data_outs:
  assumes "cg_handle_data now tid sent p cmd body s = Some (s', os, rv)" and "p \<in> set (members (cg_grp s))"
  shows "outs_ok now (cg_grp s) os \<and> cg_grp s' = cg_grp s"
  using assms cg_action_outs [OF _ assms(2), of now tid sent body s' os rv] cg_rsp_outs [of p body s s' os rv now]
    cg_leave_outs [of p s s' os rv now]
  by (auto simp: cg_handle_data_def req_handle_player_req_def notify_req_def Let_def bind_eq_Some_conv split: if_splits)

lemma cg_known:
  assumes "cg_ok p1 p2 s" and "seated (cg_grp s)" and "p \<in> set (members (cg_grp s))"
  shows "known_sprite p1 p2 p"
proof -
  have m: "p1 \<in> set (members (cg_grp s))" "p2 \<in> set (members (cg_grp s))" using assms(1) by (auto simp: cg_ok_def members_def)
  then show ?thesis using seatedD(1) [OF assms(2,3)] seatedD(4) [OF assms(2,3)] assms(1)
    by (auto simp: known_sprite_def cg_ok_def ChessProps.two_players_def)
qed

lemma cg_start_ok:
  assumes f: "full_table g" and r: "GAME_READY g" and p: "p \<in> set (gg_players g)"
  shows "\<exists>h h' os. chess_game_new junk g = Some h \<and> cg_init now tid p h = Some (h', os) \<and> chess_inv h' \<and>
    cg_grp h' = SET_GAME_START g \<and> outs_ok now g os"
proof -
  obtain p0 q0 where pq: "gg_players g = [p0, q0]" "{sp_pos_id p0, sp_pos_id q0} = {1, 2}" using f by (auto simp: full_table_def)
  from f pq have d: "sp_id p0 \<noteq> sp_id q0" "sp_id p0 \<noteq> 0" "sp_id q0 \<noteq> 0" by (auto simp: full_table_def seated_def members_def)
  have "\<exists>p1 p2. ChessProps.two_players p1 p2 \<and> gg_players g \<in> {[p1, p2], [p2, p1]}"
  proof (cases "sp_pos_id p0 = 1")
    case True
    with pq d show ?thesis by (intro exI [of _ p0] exI [of _ q0]) (auto simp: ChessProps.two_players_def doubleton_eq_iff)
  next
    case False
    with pq d show ?thesis by (intro exI [of _ q0] exI [of _ p0]) (auto simp: ChessProps.two_players_def doubleton_eq_iff)
  qed
  then obtain p1 p2 where tp: "ChessProps.two_players p1 p2" "gg_players g \<in> {[p1, p2], [p2, p1]}" by blast
  obtain h where h: "chess_game_new junk g = Some h" by (auto simp: chess_game_new_def cn_rule_new_eq [OF tp])
  then have g: "cg_grp h = g" by (cases "cn_rule_new g") (auto simp: chess_game_new_def split: prod.splits)
  have ok: "cg_ok p1 p2 h" by (rule chess_game_new_ok [OF h tp])
  obtain op where op: "get_sprite_from_gamegrp (cg_nxmover h) (gg_players g) = Some op"
    using find_player [OF ok, of "cg_nxmover h"] ok g by (auto simp: cg_ok_def)
  have "IS_GAME_PLAYER p" using seatedD(2) p f by (auto simp: full_table_def)
  then obtain h' os where i: "cg_init now tid p h = Some (h', os)" "cg_grp h' = SET_GAME_START g" "outs_ok now g os"
    using g op r found_player [OF op] by (auto simp: cg_init_def cg_add_timer_def Let_def cg_notify_game_start_def cn_notify_board_info_def)
  from cg_init_ok [OF ok i(1)] have "chess_inv h'" by (auto simp: chess_inv_def)
  with h i show ?thesis by blast
qed

interpretation chess: game_plugin "chess_plugin junk" chess_inv "{2}"
proof
  show "\<exists>h h' os. mp_create (chess_plugin junk) lib g = Some h \<and> mp_init (chess_plugin junk) now tid p h = Some (h', os) \<and> chess_inv h' \<and>
      mp_grp (chess_plugin junk) h' = SET_GAME_START g \<and> outs_ok now g os"
    if "lib \<in> {2}" "full_table g" "GAME_READY g" "p \<in> set (gg_players g)" for lib g p now tid
    using that(1) cg_start_ok [OF that(2-4)] by simp
  show "chess_inv (mp_set_grp (chess_plugin junk) g h) \<and> mp_grp (chess_plugin junk) (mp_set_grp (chess_plugin junk) g h) = g"
    if "chess_inv h" "same_seats g (mp_grp (chess_plugin junk) h)" for g h
    using that cg_ok_seats by (auto simp: chess_inv_def)
  show "\<exists>h' os. mp_init (chess_plugin junk) now tid p h = Some (h', os) \<and> chess_inv h' \<and>
      mp_grp (chess_plugin junk) h' = mp_grp (chess_plugin junk) h \<and> outs_ok now (mp_grp (chess_plugin junk) h) os"
    if "chess_inv h" "seated (mp_grp (chess_plugin junk) h)" "GAME_READY (mp_grp (chess_plugin junk) h)"
      "GAME_STARTED (mp_grp (chess_plugin junk) h)" "p \<in> set (gg_watchers (mp_grp (chess_plugin junk) h))" for h p now tid
    using that seatedD(3) [OF that(2)] by (auto simp: cg_init_def cn_notify_board_info_def Let_def)
  show "\<exists>h' os rv. mp_data (chess_plugin junk) now tid p cmd body h = Some (h', os, rv) \<and>
      mp_grp (chess_plugin junk) h' = mp_grp (chess_plugin junk) h \<and>
      outs_ok now (mp_grp (chess_plugin junk) h) os \<and> (rv \<le> 0 \<longrightarrow> chess_inv h')"
    if "chess_inv h" "seated (mp_grp (chess_plugin junk) h)" "GAME_STARTED (mp_grp (chess_plugin junk) h)"
      "p \<in> set (members (mp_grp (chess_plugin junk) h))" for h p now tid cmd body
  proof -
    from that(1) obtain p1 p2 where ok: "cg_ok p1 p2 h" unfolding chess_inv_def by blast
    from that have s: "seated (cg_grp h)" "GAME_STARTED (cg_grp h)" "p \<in> set (members (cg_grp h))" by simp_all
    from chess_data_ok [OF ok cg_known [OF ok s(1,3)] s(2), of now tid 0 cmd body] cg_data_outs [OF _ s(3), of now tid 0 cmd body]
    show ?thesis by (fastforce simp: chess_inv_def)
  qed
  show "0 < rv" if "chess_inv h" "IS_GAME_PLAYER p" "mp_data (chess_plugin junk) now tid p proto_player_leave body h = Some (h', os, rv)"
    for h p now tid body h' os rv
    using that by (auto simp: cg_handle_data_def cg_handle_player_leave_def cn_handle_player_leave_def Let_def GER_end_of_game_def
        proto_player_action_def proto_player_leave_def proto_player_req_def proto_notify_player_req_def)
qed

section \<open>The two games of one server\<close>

text \<open>
  The pointer \<open>game_handler\<close> is to an object of one of the two classes; its virtual methods are those
  of the class. What the games send goes out on the same connections.
\<close>

datatype board_game = GobangGame gobang | ChessGame chess_game

type_synonym board_pkg = "gb_pkg + chess_pkg"

fun board_create :: "u8 \<Rightarrow> nat \<Rightarrow> game_group \<Rightarrow> board_game option" where
  "board_create junk lib g =
     (if lib = 1 then map_option GobangGame (gobang_new g)
      else if lib = 2 then map_option ChessGame (chess_game_new junk g) else None)"

fun board_init :: "int \<Rightarrow> nat \<Rightarrow> sprite \<Rightarrow> board_game \<Rightarrow> (board_game \<times> board_pkg game_out list) option" where
  "board_init now tid p (GobangGame h) = map_option (\<lambda>(h', os). (GobangGame h', map (map_game_out Inl) os)) (gobang_init now tid p h)"
| "board_init now tid p (ChessGame h) = map_option (\<lambda>(h', os). (ChessGame h', map (map_game_out Inr) os)) (cg_init now tid p h)"

fun board_data ::
    "int \<Rightarrow> nat \<Rightarrow> sprite \<Rightarrow> int \<Rightarrow> byte list \<Rightarrow> board_game \<Rightarrow> (board_game \<times> board_pkg game_out list \<times> int) option" where
  "board_data now tid p cmd body (GobangGame h) =
     map_option (\<lambda>(h', os, rv). (GobangGame h', map (map_game_out Inl) os, rv)) (handle_data now tid p cmd body h)"
| "board_data now tid p cmd body (ChessGame h) =
     map_option (\<lambda>(h', os, rv). (ChessGame h', map (map_game_out Inr) os, rv)) (cg_handle_data now tid 0 p cmd body h)"

fun board_grp :: "board_game \<Rightarrow> game_group" where
  "board_grp (GobangGame h) = gb_grp h"
| "board_grp (ChessGame h) = cg_grp h"

fun board_set_grp :: "game_group \<Rightarrow> board_game \<Rightarrow> board_game" where
  "board_set_grp g (GobangGame h) = GobangGame (h\<lparr>gb_grp := g\<rparr>)"
| "board_set_grp g (ChessGame h) = ChessGame (h\<lparr>cg_grp := g\<rparr>)"

definition board_plugin :: "u8 \<Rightarrow> (board_game, board_pkg) mpog" where
  "board_plugin junk =
     \<lparr>mp_create = board_create junk, mp_init = board_init, mp_data = board_data, mp_grp = board_grp, mp_set_grp = board_set_grp\<rparr>"

lemma board_plugin_simps [simp]:
  "mp_create (board_plugin junk) = board_create junk" "mp_init (board_plugin junk) = board_init"
  "mp_data (board_plugin junk) = board_data" "mp_grp (board_plugin junk) = board_grp" "mp_set_grp (board_plugin junk) = board_set_grp"
  by (simp_all add: board_plugin_def)

fun board_inv :: "board_game \<Rightarrow> bool" where
  "board_inv (GobangGame h) \<longleftrightarrow> gobang_inv h"
| "board_inv (ChessGame h) \<longleftrightarrow> chess_inv h"

lemma out_ok_map [simp]: "out_ok now g (map_game_out f x) = out_ok now g x"
  by (cases x) simp_all

lemma outs_ok_map [simp]: "outs_ok now g (map (map_game_out f) os) = outs_ok now g os"
  by (simp add: list_all_iff)

interpretation board: game_plugin "board_plugin junk" board_inv "{1, 2}"
proof
  show "\<exists>h h' os. mp_create (board_plugin junk) lib g = Some h \<and> mp_init (board_plugin junk) now tid p h = Some (h', os) \<and> board_inv h' \<and>
      mp_grp (board_plugin junk) h' = SET_GAME_START g \<and> outs_ok now g os"
    if "lib \<in> {1, 2}" "full_table g" "GAME_READY g" "p \<in> set (gg_players g)" for lib g p now tid
  proof (cases "lib = 1")
    case True
    from gobang.start_law [of 1, OF _ that(2-4), of now tid] obtain h h' os where
      "gobang_new g = Some h" "gobang_init now tid p h = Some (h', os)" "gobang_inv h'" "gb_grp h' = SET_GAME_START g" "outs_ok now g os"
      by auto
    with True show ?thesis by (auto intro!: exI [of _ "GobangGame h"])
  next
    case False
    from chess.start_law [of 2, OF _ that(2-4), of junk now tid] obtain h h' os where
      "chess_game_new junk g = Some h" "cg_init now tid p h = Some (h', os)" "chess_inv h'" "cg_grp h' = SET_GAME_START g" "outs_ok now g os"
      by auto
    with False that(1) show ?thesis by (auto intro!: exI [of _ "ChessGame h"])
  qed
  fix h :: board_game
  note G = gobang.game_plugin_axioms and C = chess.game_plugin_axioms [where junk = junk]
  show "board_inv (mp_set_grp (board_plugin junk) g h) \<and> mp_grp (board_plugin junk) (mp_set_grp (board_plugin junk) g h) = g"
    if "board_inv h" "same_seats g (mp_grp (board_plugin junk) h)" for g
    using that gobang.set_grp_law [of _ g] chess.set_grp_law [of _ g] by (cases h) auto
  show "\<exists>h' os. mp_init (board_plugin junk) now tid p h = Some (h', os) \<and> board_inv h' \<and>
      mp_grp (board_plugin junk) h' = mp_grp (board_plugin junk) h \<and> outs_ok now (mp_grp (board_plugin junk) h) os"
    if "board_inv h" "seated (mp_grp (board_plugin junk) h)" "GAME_READY (mp_grp (board_plugin junk) h)"
      "GAME_STARTED (mp_grp (board_plugin junk) h)" "p \<in> set (gg_watchers (mp_grp (board_plugin junk) h))" for p now tid
    using that gobang.watch_law [of _ p now tid] chess.watch_law [of _ junk p now tid] by (cases h) fastforce+
  show "\<exists>h' os rv. mp_data (board_plugin junk) now tid p cmd body h = Some (h', os, rv) \<and>
      mp_grp (board_plugin junk) h' = mp_grp (board_plugin junk) h \<and>
      outs_ok now (mp_grp (board_plugin junk) h) os \<and> (rv \<le> 0 \<longrightarrow> board_inv h')"
    if "board_inv h" "seated (mp_grp (board_plugin junk) h)" "GAME_STARTED (mp_grp (board_plugin junk) h)"
      "p \<in> set (members (mp_grp (board_plugin junk) h))" for p now tid cmd body
    using that gobang.data_law [of _ p now tid cmd body] chess.data_law [of _ junk p now tid cmd body] by (cases h) fastforce+
  show "0 < rv" if "board_inv h" "IS_GAME_PLAYER p" "mp_data (board_plugin junk) now tid p proto_player_leave body h = Some (h', os, rv)"
    for p now tid body h' os rv
    using that gobang.leave_law [of _ p now tid body] chess.leave_law [of _ p junk now tid body] by (cases h) auto
qed

end
