(* ===== verification/GameServer.thy ===== *)
theory GameServer
  imports Timer GamePlugin "HOL-Library.Monad_Syntax"
begin

text \<open>
  The process of the mole game server that plays the games, \<open>src/mole/gamesvr\<close>: connections
  (\<open>service.c\<close>), sprites (\<open>sprite.c\<close>), game groups (\<open>dll.c\<close>), the calls of the games
  (\<open>gamexx.cpp\<close>), scores (\<open>game.c\<close>), the requests of the clients (\<open>proto.c\<close>) and the blocks from the
  parent process (\<open>net.c\<close>).

  A sprite pointer is the number of its connection (\<open>all_sprites\<close> is indexed by it), a group
  pointer the id of the group. \<open>sv_sent\<close> collects what is put on the queue to the parent process
  and what goes to the database proxy; the queue has room. \<open>None\<close> is a failed assertion, a null
  pointer that is followed or an array bound that is passed.
\<close>

section \<open>The state\<close>

type_synonym u64 = "64 word"

record game_conf =
  gc_id :: u32
  gc_players :: nat
  gc_watchable :: bool
  gc_timeout :: int
  gc_game :: game_t
  gc_handle :: nat

record gsprite =
  gp_sprite :: sprite
  gp_group :: "u64 option"
  gp_waitcmd :: int
  gp_oltoday :: u32
  gp_stamp :: u32
  gp_db_data :: game_score

record 'g group_t =
  gr_flag :: u8
  gr_players :: "nat list"
  gr_watchers :: "nat list"
  gr_game :: game_conf
  gr_handler :: "'g option"

datatype 'pkg sv_pkg =
    PkgGame 'pkg
  | PkgGameEnd u8 u32
  | PkgPlayerLeave u32 u8
  | PkgPlayerEntered u32
  | PkgWatcherNumber nat
  | PkgGameReady u64 u32 "u32 list"
  | PkgEnterRsp u32 bool "u32 list"
  | PkgError int int
  | PkgScore game_score
  | PkgVersion
  | PkgTestAlive

datatype 'pkg sv_block =
    DataTo nat "'pkg sv_pkg"
  | FinTo nat
  | DbScore nat int u32 game_score
  | DbOther u32 int "u32 list"

record ('g, 'pkg) server = timers +
  sv_sprites :: "nat \<Rightarrow> gsprite option"
  sv_ids :: "nat list"
  sv_groups :: "u64 \<Rightarrow> 'g group_t option"
  sv_cn :: "nat \<Rightarrow> bool"
  sv_fdmax :: nat
  sv_count :: nat
  sv_sent :: "'pkg sv_block list"

text \<open>
  What the server gets from outside: the games and their libraries, the memory allocator (an
  address that is not among those in use), the decryption of a block of 8 bytes, and whether the
  database proxy takes a request at a time for a player.
\<close>

record ('g, 'pkg) game_env =
  ev_mp :: "('g, 'pkg) mpog"
  ev_games :: "nat \<Rightarrow> game_conf"
  ev_alloc :: "nat list \<Rightarrow> nat"
  ev_des :: "byte list \<Rightarrow> byte list"
  ev_db :: "int \<Rightarrow> u32 \<Rightarrow> bool"

definition MAXFDS :: nat where "MAXFDS = 30000"
definition GAMES_NUM_MAX :: int where "GAMES_NUM_MAX = 100"
definition MAX_PLAYERS_PER_GAME :: nat where "MAX_PLAYERS_PER_GAME = 10"
definition MAX_WATCHERS_PER_GAME :: nat where "MAX_WATCHERS_PER_GAME = 20"
definition GER_player_offline :: u8 where "GER_player_offline = 2"
definition GER_player_request :: u8 where "GER_player_request = 3"
definition GER_timer_expire :: u8 where "GER_timer_expire = 6"
definition GER_multi_login :: u8 where "GER_multi_login = 7"
definition GER_invalid_data :: u8 where "GER_invalid_data = 254"
definition GER_game_system_err :: u8 where "GER_game_system_err = 255"
definition proto_version :: int where "proto_version = 200"
definition proto_test_alive :: int where "proto_test_alive = 30000"
definition proto_player_enter :: int where "proto_player_enter = 30001"
definition proto_game_score :: int where "proto_game_score = 30006"
definition proto_card_getinfo :: int where "proto_card_getinfo = 30015"
definition proto_card_add_win_lost :: int where "proto_card_add_win_lost = 30016"
definition proto_get_items :: int where "proto_get_items = 30017"
definition proto_set_redclothes :: int where "proto_set_redclothes = 30018"
definition ERR_OCCUPIED_POS :: int where "ERR_OCCUPIED_POS = 10007"
definition ERR_SYSTEM_BUSY :: int where "ERR_SYSTEM_BUSY = 10009"
definition ERR_daily_money_limit_exceeded :: int where "ERR_daily_money_limit_exceeded = 10021"
definition db_obtain_item :: int where "db_obtain_item = 0x1116"
definition db_change_game_attr :: int where "db_change_game_attr = 0x1139"
definition db_obtain_pet_item :: int where "db_obtain_pet_item = 0x1165"

fun fold_opt :: "('b \<Rightarrow> 'a \<Rightarrow> 'a option) \<Rightarrow> 'b list \<Rightarrow> 'a \<Rightarrow> 'a option" where
  "fold_opt f [] w = Some w"
| "fold_opt f (x # xs) w = f x w \<bind> fold_opt f xs"

definition upd_sprite :: "nat \<Rightarrow> (gsprite \<Rightarrow> gsprite) \<Rightarrow> ('g, 'pkg) server \<Rightarrow> ('g, 'pkg) server" where
  "upd_sprite fd f w = w\<lparr>sv_sprites := (sv_sprites w)(fd := map_option f (sv_sprites w fd))\<rparr>"

definition upd_group :: "u64 \<Rightarrow> ('g group_t \<Rightarrow> 'g group_t) \<Rightarrow> ('g, 'pkg) server \<Rightarrow> ('g, 'pkg) server" where
  "upd_group gid f w = w\<lparr>sv_groups := (sv_groups w)(gid := map_option f (sv_groups w gid))\<rparr>"

abbreviation sprite_at :: "('g, 'pkg) server \<Rightarrow> nat \<Rightarrow> gsprite" where
  "sprite_at w fd \<equiv> the (sv_sprites w fd)"

abbreviation id_at :: "('g, 'pkg) server \<Rightarrow> nat \<Rightarrow> u32" where
  "id_at w fd \<equiv> sp_id (gp_sprite (sprite_at w fd))"

abbreviation status_at :: "('g, 'pkg) server \<Rightarrow> nat \<Rightarrow> u16" where
  "status_at w fd \<equiv> sp_status (gp_sprite (sprite_at w fd))"

abbreviation grp_fds :: "'g group_t \<Rightarrow> nat list" where
  "grp_fds g \<equiv> gr_players g @ gr_watchers g"

definition set_status :: "nat \<Rightarrow> nat \<Rightarrow> ('g, 'pkg) server \<Rightarrow> ('g, 'pkg) server" where
  "set_status b fd = upd_sprite fd (\<lambda>p. p\<lparr>gp_sprite := (gp_sprite p)\<lparr>sp_status := set_bit b (sp_status (gp_sprite p))\<rparr>\<rparr>)"

definition set_waitcmd :: "int \<Rightarrow> nat \<Rightarrow> ('g, 'pkg) server \<Rightarrow> ('g, 'pkg) server" where
  "set_waitcmd c fd = upd_sprite fd (\<lambda>p. p\<lparr>gp_waitcmd := c\<rparr>)"

text \<open>The list a timer is in: \<open>timer_list\<close> of a sprite or of a group; it is the owner, too.\<close>

definition sprite_timers :: "nat \<Rightarrow> nat" where
  "sprite_timers fd = 2 * fd"

definition group_timers :: "u64 \<Rightarrow> nat" where
  "group_timers gid = 2 * unat gid + 1"

section \<open>Sprites and connections\<close>

definition get_sprite :: "u32 \<Rightarrow> ('g, 'pkg) server \<Rightarrow> nat option" where
  "get_sprite uid w = find (\<lambda>fd. id_at w fd = uid) (sv_ids w)"

definition get_sprite_by_fd :: "nat \<Rightarrow> ('g, 'pkg) server \<Rightarrow> gsprite option" where
  "get_sprite_by_fd fd w = (if MAXFDS \<le> fd then None else sv_sprites w fd)"

definition send_to :: "nat list \<Rightarrow> 'pkg sv_pkg \<Rightarrow> ('g, 'pkg) server \<Rightarrow> ('g, 'pkg) server" where
  "send_to fds x w = w\<lparr>sv_sent := sv_sent w @ map (\<lambda>fd. DataTo fd x) (filter (\<lambda>fd. fd \<le> sv_fdmax w) fds)\<rparr>"

text \<open>\<open>send_to_self\<close> with \<open>completed\<close> set.\<close>

definition reply :: "nat \<Rightarrow> 'pkg sv_pkg \<Rightarrow> ('g, 'pkg) server \<Rightarrow> ('g, 'pkg) server" where
  "reply fd x w = (if fd \<le> sv_fdmax w then set_waitcmd 0 fd (send_to [fd] x w) else w)"

definition except_self :: "u32 \<Rightarrow> ('g, 'pkg) server \<Rightarrow> nat list \<Rightarrow> nat list" where
  "except_self uid w = filter (\<lambda>fd. id_at w fd \<noteq> uid)"

definition del_sprite :: "nat \<Rightarrow> ('g, 'pkg) server \<Rightarrow> ('g, 'pkg) server" where
  "del_sprite fd w = w\<lparr>sv_sprites := (sv_sprites w)(fd := None), sv_ids := remove1 fd (sv_ids w)\<rparr>"

definition del_sprite_by_fd :: "nat \<Rightarrow> ('g, 'pkg) server \<Rightarrow> ('g, 'pkg) server" where
  "del_sprite_by_fd fd w = (case get_sprite_by_fd fd w of None \<Rightarrow> w | Some p \<Rightarrow> del_sprite fd w)"

text \<open>The loop that looks for the largest connection that is left.\<close>

fun last_open :: "(nat \<Rightarrow> bool) \<Rightarrow> nat \<Rightarrow> nat" where
  "last_open cn 0 = 0"
| "last_open cn (Suc i) = (if cn (Suc i) then Suc i else last_open cn i)"

definition handle_close :: "nat \<Rightarrow> ('g, 'pkg) server \<Rightarrow> ('g, 'pkg) server option" where
  "handle_close fd w =
     (if sv_fdmax w < fd \<or> \<not> sv_cn w fd then Some w
      else if sv_count w = 0 \<or> sv_fdmax w < sv_count w then None
      else
        let w1 = del_sprite_by_fd fd w; cn = (sv_cn w1)(fd := False)
        in Some (w1\<lparr>sv_cn := cn, sv_fdmax := (if sv_fdmax w1 = fd then last_open cn (fd - 1) else sv_fdmax w1),
                    sv_count := sv_count w1 - 1\<rparr>))"

definition shm_fin :: "nat \<Rightarrow> ('g, 'pkg) server \<Rightarrow> ('g, 'pkg) server option" where
  "shm_fin fd w = do { w1 \<leftarrow> handle_close fd w; Some (w1\<lparr>sv_sent := sv_sent w1 @ [FinTo fd]\<rparr>) }"

text \<open>\<open>len_ok\<close> is whether the block has the length of its struct.\<close>

definition handle_open :: "nat \<Rightarrow> bool \<Rightarrow> ('g, 'pkg) server \<Rightarrow> ('g, 'pkg) server option" where
  "handle_open fd len_ok w =
     (if MAXFDS \<le> fd then None
      else if sv_cn w fd \<or> \<not> len_ok then Some (w\<lparr>sv_sent := sv_sent w @ [FinTo fd]\<rparr>)
      else
        let w1 = w\<lparr>sv_cn := (sv_cn w)(fd := True), sv_fdmax := max (sv_fdmax w) fd, sv_count := sv_count w + 1\<rparr>
        in if sv_count w1 \<le> MAXFDS then Some w1 else None)"

definition del_sprite_conn :: "nat \<Rightarrow> ('g, 'pkg) server \<Rightarrow> ('g, 'pkg) server option" where
  "del_sprite_conn fd w =
     (if sv_fdmax w < fd then Some w
      else if \<not> bit (status_at w fd) 2 then shm_fin fd w else handle_close fd w)"

definition add_sprite :: "nat \<Rightarrow> u32 \<Rightarrow> ('g, 'pkg) server \<Rightarrow> (('g, 'pkg) server \<times> int) option" where
  "add_sprite fd uid w =
     (if uid = 0 \<or> 2000000000 \<le> uid \<or> uid \<le> 10000 then Some (w, -1)
      else if sv_fdmax w < fd \<or> sv_sprites w fd \<noteq> None then None
      else
        let p = \<lparr>gp_sprite = \<lparr>sp_id = uid, sp_pos_id = 0, sp_status = 0\<rparr>, gp_group = None, gp_waitcmd = proto_player_enter,
                 gp_oltoday = 0, gp_stamp = 0, gp_db_data = zero_score\<rparr>
        in Some (w\<lparr>sv_sprites := (sv_sprites w)(fd \<mapsto> p), sv_ids := sv_ids w @ [fd],
                   tw_lists := (tw_lists w)(sprite_timers fd := [])\<rparr>, 0))"

section \<open>Ending a game\<close>

definition game_end_response :: "'g group_t \<Rightarrow> nat option \<Rightarrow> u8 \<Rightarrow> ('g, 'pkg) server \<Rightarrow> ('g, 'pkg) server option" where
  "game_end_response g p reason w =
     (let x = PkgGameEnd reason (case p of None \<Rightarrow> 0 | Some fd \<Rightarrow> id_at w fd) in
      if reason \<noteq> GER_player_offline then Some (send_to (grp_fds g) x w)
      else (case p of
              None \<Rightarrow> None
            | Some fd \<Rightarrow> Some (send_to (except_self (id_at w fd) w (grp_fds g)) x w)))"

definition player_exit :: "nat \<Rightarrow> ('g, 'pkg) server \<Rightarrow> ('g, 'pkg) server option" where
  "player_exit fd w =
     (case sv_sprites w fd of
        None \<Rightarrow> None
      | Some p \<Rightarrow>
          let w1 = remove_timers (sprite_timers fd) (upd_sprite fd (\<lambda>p. p\<lparr>gp_group := None\<rparr>) w)
          in if bit (sp_status (gp_sprite p)) 2 \<or>
                gp_waitcmd p \<notin> {proto_game_score, proto_get_items, proto_card_add_win_lost, proto_set_redclothes}
             then del_sprite_conn fd w1 else Some w1)"

definition watcher_exit :: "nat \<Rightarrow> ('g, 'pkg) server \<Rightarrow> ('g, 'pkg) server option" where
  "watcher_exit fd w =
     (case sv_sprites w fd of
        None \<Rightarrow> None
      | Some p \<Rightarrow> del_sprite_conn fd (upd_sprite fd (\<lambda>p. p\<lparr>gp_group := None\<rparr>) w))"

definition all_exit_group :: "'g group_t \<Rightarrow> ('g, 'pkg) server \<Rightarrow> ('g, 'pkg) server option" where
  "all_exit_group g w = do { w1 \<leftarrow> fold_opt player_exit (gr_players g) w; fold_opt watcher_exit (gr_watchers g) w1 }"

definition free_game_group :: "u64 \<Rightarrow> ('g, 'pkg) server \<Rightarrow> ('g, 'pkg) server" where
  "free_game_group gid w = (remove_timers (group_timers gid) w)\<lparr>sv_groups := (sv_groups w)(gid := None)\<rparr>"

text \<open>\<open>SET_GAME_END\<close> and \<open>on_game_end\<close> take the flags and the object away.\<close>

definition end_multiplayer_game :: "u64 \<Rightarrow> nat option \<Rightarrow> u8 \<Rightarrow> ('g, 'pkg) server \<Rightarrow> ('g, 'pkg) server option" where
  "end_multiplayer_game gid p reason w =
     (case sv_groups w gid of
        None \<Rightarrow> None
      | Some g \<Rightarrow> do {
          w1 \<leftarrow> game_end_response g p reason w;
          w2 \<leftarrow> all_exit_group g
            (upd_group gid (\<lambda>g. g\<lparr>gr_flag := unset_bit 0 (unset_bit 1 (gr_flag g)), gr_handler := None\<rparr>) w1);
          Some (free_game_group gid w2) })"

definition swap_out :: "nat \<Rightarrow> nat list \<Rightarrow> nat list" where
  "swap_out fd xs = (if fd \<in> set xs then butlast (xs[length (takeWhile (\<lambda>x. x \<noteq> fd) xs) := last xs]) else xs)"

text \<open>
  \<open>player_exit_gamegrp\<close> and \<open>watcher_exit_gamegrp\<close>; only the first removes the timers. A sprite that
  is not in its group's array stays as it is.
\<close>

definition exit_gamegrp :: "nat \<Rightarrow> u64 \<Rightarrow> ('g, 'pkg) server \<Rightarrow> ('g, 'pkg) server option" where
  "exit_gamegrp fd gid w =
     (case sv_groups w gid of
        None \<Rightarrow> None
      | Some g \<Rightarrow>
          if bit (status_at w fd) 0 then
            Some (if fd \<in> set (gr_players g)
              then remove_timers (sprite_timers fd) (upd_sprite fd (\<lambda>p. p\<lparr>gp_group := None\<rparr>)
                     (upd_group gid (\<lambda>g. g\<lparr>gr_players := swap_out fd (gr_players g)\<rparr>) w))
              else w)
          else if \<not> bit (status_at w fd) 1 then None
          else
            Some (if fd \<in> set (gr_watchers g)
              then upd_sprite fd (\<lambda>p. p\<lparr>gp_group := None\<rparr>)
                     (upd_group gid (\<lambda>g. g\<lparr>gr_watchers := swap_out fd (gr_watchers g)\<rparr>) w)
              else w))"

definition one_exit_group :: "nat \<Rightarrow> u64 \<Rightarrow> ('g, 'pkg) server \<Rightarrow> ('g, 'pkg) server option" where
  "one_exit_group fd gid w =
     (if status_at w fd = 0 then None else do { w1 \<leftarrow> exit_gamegrp fd gid w; del_sprite_conn fd w1 })"

section \<open>Scores\<close>

text \<open>\<open>pack_game_score\<close>: the score is doubled, and cut with the time the player has been online.\<close>

definition score_modulus :: "int \<Rightarrow> gsprite \<Rightarrow> int" where
  "score_modulus now p =
     (let online = now - uint (gp_stamp p) + uint (gp_oltoday p)
      in if 18000 \<le> online then 0 else if 7200 \<le> online then 100 else 200)"

definition pack_game_score :: "int \<Rightarrow> game_score \<Rightarrow> gsprite \<Rightarrow> gsprite" where
  "pack_game_score now sc p =
     (let m = score_modulus now p; f = (\<lambda>x. quot32 (wrap32 (x * m)) 100)
      in p\<lparr>gp_db_data := \<lparr>gs_iq = f (gs_iq sc), gs_exp = f (gs_exp sc), gs_coins = f (gs_coins sc)\<rparr>,
           gp_waitcmd := proto_game_score\<rparr>)"

definition sprite_attr_unchanged :: "game_score \<Rightarrow> bool" where
  "sprite_attr_unchanged sc \<longleftrightarrow> gs_exp sc = 0 \<and> gs_iq sc = 0 \<and> gs_coins sc = 0"

definition upd_game_attr_callback :: "nat \<Rightarrow> nat \<Rightarrow> ('g, 'pkg) server \<Rightarrow> (('g, 'pkg) server \<times> int) option" where
  "upd_game_attr_callback fd len w =
     (case sv_sprites w fd of
        None \<Rightarrow> None
      | Some p \<Rightarrow>
          if len \<noteq> 20 then Some (w, -1)
          else if gp_waitcmd p \<noteq> proto_game_score then Some (w, -1)
          else
            let w1 = reply fd (PkgScore (gp_db_data p)) w
            in if gp_group p = None then do { w2 \<leftarrow> del_sprite_conn fd w1; Some (w2, 0) } else Some (w1, 0))"

definition db_upd_game_attr :: "('g, 'pkg) game_env \<Rightarrow> nat \<Rightarrow> ('g, 'pkg) server \<Rightarrow> (('g, 'pkg) server \<times> int) option" where
  "db_upd_game_attr e fd w =
     (case sv_sprites w fd of
        None \<Rightarrow> None
      | Some p \<Rightarrow>
          if sprite_attr_unchanged (gp_db_data p) then upd_game_attr_callback fd 20 w
          else if ev_db e (tw_now w) (sp_id (gp_sprite p)) then
            Some (w\<lparr>sv_sent := sv_sent w @ [DbScore fd (gp_waitcmd p) (sp_id (gp_sprite p)) (gp_db_data p)]\<rparr>, 0)
          else Some (w, -1))"

text \<open>
  \<open>get_item_callback\<close> and \<open>get_pet_item_callback\<close>; the item is not modelled. The log entry of a
  failure reads the group of the sprite.
\<close>

definition get_item_callback :: "('g, 'pkg) game_env \<Rightarrow> nat \<Rightarrow> ('g, 'pkg) server \<Rightarrow> (('g, 'pkg) server \<times> int) option" where
  "get_item_callback e fd w = do {
     (w1, rv) \<leftarrow> db_upd_game_attr e fd w;
     if rv = -1 then
       if gp_group (sprite_at w1 fd) = None then None else Some (set_waitcmd 0 fd w1, -1)
     else Some (w1, 0) }"

definition submit_game_score :: "('g, 'pkg) game_env \<Rightarrow> nat \<Rightarrow> game_score \<Rightarrow> ('g, 'pkg) server \<Rightarrow> ('g, 'pkg) server option" where
  "submit_game_score e fd sc w =
     (if sv_fdmax w < fd then Some w
      else if gp_group (sprite_at w fd) = None then None
      else map_option fst (get_item_callback e fd (upd_sprite fd (pack_game_score (tw_now w) sc) w)))"

end
