(* ===== verification/GameRequests.thy ===== *)
theory GameRequests
  imports GameServer
begin

text \<open>
  How the mole game server calls the games and what it does with the requests of the clients, the
  answers of the database proxy, the ends of connections and the timers: \<open>gamexx.cpp\<close>, \<open>proto.c\<close>,
  \<open>join_game\<close> of \<open>dll.c\<close>, and the loops of \<open>net.c\<close> and \<open>service.c\<close>.
\<close>

section \<open>Calls of the games\<close>

definition grp_view :: "('g, 'pkg) server \<Rightarrow> 'g group_t \<Rightarrow> game_group" where
  "grp_view w g =
     \<lparr>gg_flag = gr_flag g, gg_players = map (\<lambda>fd. gp_sprite (sprite_at w fd)) (gr_players g),
      gg_watchers = map (\<lambda>fd. gp_sprite (sprite_at w fd)) (gr_watchers g), gg_game = gc_game (gr_game g)\<rparr>"

definition member_fd :: "('g, 'pkg) server \<Rightarrow> u64 \<Rightarrow> sprite \<Rightarrow> nat option" where
  "member_fd w gid p =
     (case sv_groups w gid of None \<Rightarrow> None | Some g \<Rightarrow> find (\<lambda>fd. id_at w fd = sp_id p) (grp_fds g))"

definition next_timer_id :: "'a timers_scheme \<Rightarrow> u32" where
  "next_timer_id w = (if tw_baseid w + 1 = 0 then 1 else tw_baseid w + 1)"

text \<open>
  What a game gives out is carried out in order after it has returned. A game sets at most one timer
  in a call; its identifier is the next one.
\<close>

definition exec_out :: "('g, 'pkg) game_env \<Rightarrow> u64 \<Rightarrow> 'pkg game_out \<Rightarrow> ('g, 'pkg) server \<Rightarrow> ('g, 'pkg) server option" where
  "exec_out e gid x w =
     (case sv_groups w gid of
        None \<Rightarrow> None
      | Some g \<Rightarrow>
          (case x of
             ToSelf p y \<Rightarrow> map_option (\<lambda>fd. reply fd (PkgGame y) w) (member_fd w gid p)
           | ToPlayers y \<Rightarrow> Some (send_to (gr_players g) (PkgGame y) w)
           | ToWatchers y \<Rightarrow> Some (send_to (gr_watchers g) (PkgGame y) w)
           | ToGroup y \<Rightarrow> Some (send_to (grp_fds g) (PkgGame y) w)
           | ToOthers uid y \<Rightarrow> Some (send_to (except_self uid w (grp_fds g)) (PkgGame y) w)
           | ErrorToSelf p err \<Rightarrow>
               map_option (\<lambda>fd. reply fd (PkgError (gp_waitcmd (sprite_at w fd)) err) w) (member_fd w gid p)
           | DbRequest uid cmd buf \<Rightarrow>
               Some (if ev_db e (tw_now w) uid then w\<lparr>sv_sent := sv_sent w @ [DbOther uid cmd buf]\<rparr> else w)
           | SubmitScore p sc \<Rightarrow> member_fd w gid p \<bind> (\<lambda>fd. submit_game_score e fd sc w)
           | AddTimer p expire \<Rightarrow>
               map_option (\<lambda>fd. fst (add_timer_event (ev_alloc e (concat (map (vec_at w) [0..<5])))
                  (sprite_timers fd) 1 (sprite_timers fd) 0 expire w)) (member_fd w gid p)
           | RemoveTimer p i \<Rightarrow> map_option (\<lambda>fd. remove_timer (sprite_timers fd) (of_nat i) w) (member_fd w gid p)))"

text \<open>A call of the object of a group; it finds its group as the server has it, and may set its flags.\<close>

definition call_game ::
    "('g, 'pkg) game_env \<Rightarrow> u64 \<Rightarrow> ('g \<Rightarrow> ('g \<times> 'pkg game_out list \<times> int) option) \<Rightarrow> 'g \<Rightarrow> ('g, 'pkg) server \<Rightarrow>
     (('g, 'pkg) server \<times> int) option" where
  "call_game e gid act h w = do {
     (h', os, rv) \<leftarrow> act h;
     w1 \<leftarrow> fold_opt (exec_out e gid) os
       (upd_group gid (\<lambda>g. g\<lparr>gr_handler := Some h', gr_flag := gg_flag (mp_grp (ev_mp e) h')\<rparr>) w);
     Some (w1, rv) }"

definition on_game_data ::
    "('g, 'pkg) game_env \<Rightarrow> nat \<Rightarrow> int \<Rightarrow> byte list \<Rightarrow> ('g, 'pkg) server \<Rightarrow> (('g, 'pkg) server \<times> int) option" where
  "on_game_data e fd cmd body w =
     (case gp_group (sprite_at w fd) of
        None \<Rightarrow> None
      | Some gid \<Rightarrow>
          (case sv_groups w gid of
             None \<Rightarrow> None
           | Some g \<Rightarrow>
               (case gr_handler g of
                  None \<Rightarrow> Some (w, 0)
                | Some h \<Rightarrow>
                    call_game e gid
                      (mp_data (ev_mp e) (tw_now w) (unat (next_timer_id w)) (gp_sprite (sprite_at w fd)) cmd body)
                      (mp_set_grp (ev_mp e) (grp_view w g) h) w)))"

definition on_game_begin :: "('g, 'pkg) game_env \<Rightarrow> nat \<Rightarrow> ('g, 'pkg) server \<Rightarrow> (('g, 'pkg) server \<times> int) option" where
  "on_game_begin e fd w =
     (case gp_group (sprite_at w fd) of
        None \<Rightarrow> None
      | Some gid \<Rightarrow>
          (case sv_groups w gid of
             None \<Rightarrow> None
           | Some g \<Rightarrow>
               let init = (\<lambda>h. map_option (\<lambda>(h', os). (h', os, 0))
                     (mp_init (ev_mp e) (tw_now w) (unat (next_timer_id w)) (gp_sprite (sprite_at w fd)) h))
               in if \<not> bit (gr_flag g) 0 then None
                  else if gc_handle (gr_game g) = 0 then Some (w, -1)
                  else if bit (status_at w fd) 0 then
                    (case mp_create (ev_mp e) (gc_handle (gr_game g)) (grp_view w g) of
                       None \<Rightarrow> Some (w, -1)
                     | Some h \<Rightarrow> call_game e gid init h w)
                  else
                    (case gr_handler g of
                       None \<Rightarrow> Some (w, 0)
                     | Some h \<Rightarrow> call_game e gid init (mp_set_grp (ev_mp e) (grp_view w g) h) w)))"

section \<open>Leaving a game\<close>

definition leave_reason :: "byte list \<Rightarrow> u16 \<Rightarrow> u8" where
  "leave_reason body st =
     (case body of
        [] \<Rightarrow> GER_player_request
      | [r] \<Rightarrow> (if \<not> bit st 2 \<and> r = GER_player_offline \<or> \<not> bit st 3 \<and> r = GER_timer_expire then GER_invalid_data else r)
      | _ \<Rightarrow> GER_invalid_data)"

definition leave_game_cmd ::
    "('g, 'pkg) game_env \<Rightarrow> nat \<Rightarrow> byte list \<Rightarrow> ('g, 'pkg) server \<Rightarrow> (('g, 'pkg) server \<times> int) option" where
  "leave_game_cmd e fd body w =
     (case gp_group (sprite_at w fd) of
        None \<Rightarrow> Some (w, -1)
      | Some gid \<Rightarrow>
          let w1 = (if body = [] then set_status 4 fd w else w);
              reason = leave_reason body (status_at w1 fd)
          in (case sv_groups w1 gid of
                None \<Rightarrow> None
              | Some g \<Rightarrow>
                  if bit (gr_flag g) 0 then do {
                    (w2, rv) \<leftarrow> on_game_data e fd proto_player_leave (take 1 body) w1;
                    if 0 < rv then do { w3 \<leftarrow> end_multiplayer_game gid (Some fd) reason w2; Some (w3, 0) }
                    else
                      (case sv_groups w2 gid of
                         None \<Rightarrow> None
                       | Some g2 \<Rightarrow>
                           let player = bit (status_at w2 fd) 0;
                               x = PkgPlayerLeave (id_at w2 fd) reason;
                               w3 = (if player then
                                  send_to (if reason \<noteq> GER_timer_expire then except_self (id_at w2 fd) w2 (grp_fds g2) else grp_fds g2) x w2
                                else w2)
                           in do {
                             w4 \<leftarrow> one_exit_group fd gid w3;
                             if player then Some (w4, 0)
                             else
                               (case sv_groups w4 gid of
                                  None \<Rightarrow> None
                                | Some g4 \<Rightarrow> Some (send_to (gr_players g4) (PkgWatcherNumber (length (gr_watchers g4))) w4, 0)) })
                  } else do { w3 \<leftarrow> end_multiplayer_game gid (Some fd) reason w1; Some (w3, 0) }))"

definition handle_invalid_data ::
    "('g, 'pkg) game_env \<Rightarrow> nat \<Rightarrow> u8 \<Rightarrow> ('g, 'pkg) server \<Rightarrow> ('g, 'pkg) server option" where
  "handle_invalid_data e fd reason w =
     (case sv_sprites w fd of
        None \<Rightarrow> None
      | Some p \<Rightarrow>
          if gp_group p \<noteq> None then map_option fst (leave_game_cmd e fd [reason] w) else del_sprite_conn fd w)"

section \<open>Entering a game\<close>

record gamesession =
  gs_tm1 :: u32
  gs_gameid :: int
  gs_grpid :: u64
  gs_flag :: u16
  gs_posid :: u16
  gs_tm2 :: u32
  gs_uid :: u32
  gs_oltoday :: u32
  gs_stamp :: u32

definition le_u16 :: "byte list \<Rightarrow> nat \<Rightarrow> u16" where
  "le_u16 b i = word_of_int (uint (b ! i) + 256 * uint (b ! (i + 1)))"

definition le_u64 :: "byte list \<Rightarrow> nat \<Rightarrow> u64" where
  "le_u64 b i = word_of_int (uint (le_u32 b i) + 4294967296 * uint (le_u32 b (i + 4)))"

text \<open>The structure is decrypted 8 bytes at a time; the fields nothing here depends on are left out.\<close>

definition unpkg_gamesession :: "(byte list \<Rightarrow> byte list) \<Rightarrow> byte list \<Rightarrow> gamesession option" where
  "unpkg_gamesession des body =
     (if length body \<noteq> 112 then None
      else
        let d = concat (map (\<lambda>i. des (take 8 (drop (8 * i) body))) [0..<14])
        in Some \<lparr>gs_tm1 = le_u32 d 0, gs_gameid = sint (le_u32 d 4), gs_grpid = le_u64 d 8, gs_flag = le_u16 d 16,
                 gs_posid = le_u16 d 18, gs_tm2 = le_u32 d 20, gs_uid = le_u32 d 24, gs_oltoday = le_u32 d 56,
                 gs_stamp = le_u32 d 60\<rparr>)"

definition session_ok :: "int \<Rightarrow> u32 \<Rightarrow> gamesession \<Rightarrow> bool" where
  "session_ok now uid s \<longleftrightarrow> gs_uid s = uid \<and> gs_tm1 s = gs_tm2 s \<and> 0 < gs_gameid s \<and> gs_gameid s < GAMES_NUM_MAX \<and>
     \<bar>now - uint (gs_tm1 s)\<bar> \<le> 1800"

definition auth_cmd :: "nat \<Rightarrow> u32 \<Rightarrow> gamesession \<Rightarrow> ('g, 'pkg) server \<Rightarrow> (('g, 'pkg) server \<times> int) option" where
  "auth_cmd fd uid s w = (if \<not> session_ok (tw_now w) uid s then Some (w, -1) else add_sprite fd uid w)"

definition alloc_game_group :: "('g, 'pkg) game_env \<Rightarrow> u64 \<Rightarrow> game_conf \<Rightarrow> ('g, 'pkg) server \<Rightarrow> ('g, 'pkg) server" where
  "alloc_game_group e gid game w =
     (let w1 = w\<lparr>sv_groups := (sv_groups w)(gid \<mapsto>
            \<lparr>gr_flag = 0, gr_players = [], gr_watchers = [], gr_game = game, gr_handler = None\<rparr>)\<rparr>
      in fst (add_timer_event (ev_alloc e (concat (map (vec_at w1) [0..<5])))
           (group_timers gid) 2 (group_timers gid) 0 (tw_now w1 + gc_timeout game) w1))"

definition bad_seat :: "game_conf \<Rightarrow> sprite \<Rightarrow> bool" where
  "bad_seat game p \<longleftrightarrow> sp_pos_id p = 0 \<or> gc_players game < unat (sp_pos_id p)"

definition seat_refused :: "'g group_t \<Rightarrow> sprite \<Rightarrow> bool" where
  "seat_refused g p \<longleftrightarrow> bit (sp_status p) 0 \<and> bad_seat (gr_game g) p \<or>
     bit (gr_flag g) 0 \<and> (\<not> gc_watchable (gr_game g) \<or> bit (sp_status p) 0 \<or> length (gr_watchers g) = MAX_WATCHERS_PER_GAME)"

text \<open>The arrays of a group have room for 10 players and 20 watchers. The code does not test it: a seat
  behind them is written all the same, for which \<open>join_game\<close> is \<open>None\<close> here.\<close>

definition seat_overrun :: "'g group_t \<Rightarrow> sprite \<Rightarrow> bool" where
  "seat_overrun g p \<longleftrightarrow>
     (if bit (sp_status p) 0 then MAX_PLAYERS_PER_GAME \<le> length (gr_players g) else MAX_WATCHERS_PER_GAME \<le> length (gr_watchers g))"

text \<open>The last lines of \<open>join_game\<close>, from \<open>add sprite to group\<close> on.\<close>

definition take_seat :: "nat \<Rightarrow> u64 \<Rightarrow> game_conf \<Rightarrow> ('g, 'pkg) server \<Rightarrow> ('g, 'pkg) server" where
  "take_seat fd gid game w =
     (let w1 = upd_group gid (\<lambda>g. if bit (status_at w fd) 0 then g\<lparr>gr_players := gr_players g @ [fd]\<rparr>
                                else g\<lparr>gr_watchers := gr_watchers g @ [fd]\<rparr>) w;
          w2 = upd_sprite fd (\<lambda>p. p\<lparr>gp_group := Some gid\<rparr>) w1;
          g = the (sv_groups w2 gid)
      in if \<not> bit (gr_flag g) 0 \<and> length (gr_players g) = gc_players game
         then upd_group gid (\<lambda>g. g\<lparr>gr_flag := set_bit 0 (gr_flag g)\<rparr>) w2 else w2)"

definition join_game ::
    "('g, 'pkg) game_env \<Rightarrow> nat \<Rightarrow> int \<Rightarrow> u64 \<Rightarrow> ('g, 'pkg) server \<Rightarrow> (('g, 'pkg) server \<times> int) option" where
  "join_game e fd gameid gid w =
     (let p = gp_sprite (sprite_at w fd); game = ev_games e (nat gameid) in
      if gp_group (sprite_at w fd) \<noteq> None \<or> gameid \<le> 0 \<or> GAMES_NUM_MAX \<le> gameid then None
      else if bad_seat game p \<and> \<not> bit (sp_status p) 1 then Some (w, -1)
      else
        let w1 = (if sv_groups w gid = None then alloc_game_group e gid game w else w);
            g = the (sv_groups w1 gid)
        in if seat_refused g p then Some (w1, -1)
           else if seat_overrun g p then None
           else Some (take_seat fd gid game w1, 0))"

definition set_sprite_attr :: "gamesession \<Rightarrow> gsprite \<Rightarrow> gsprite" where
  "set_sprite_attr s p =
     (let sp = gp_sprite p;
          sp1 = (if bit (gs_flag s) 0 then sp\<lparr>sp_status := set_bit 0 (sp_status sp), sp_pos_id := ucast (gs_posid s)\<rparr>
                 else sp\<lparr>sp_status := set_bit 1 (sp_status sp)\<rparr>);
          sp2 = (if bit (gs_flag s) 7 then sp1\<lparr>sp_status := set_bit 7 (sp_status sp1)\<rparr> else sp1)
      in p\<lparr>gp_sprite := sp2, gp_oltoday := gs_oltoday s, gp_stamp := gs_stamp s\<rparr>)"

definition notify_enter :: "nat \<Rightarrow> u64 \<Rightarrow> ('g, 'pkg) server \<Rightarrow> ('g, 'pkg) server" where
  "notify_enter fd gid w =
     (let g = the (sv_groups w gid); player = bit (status_at w fd) 0;
          w1 = reply fd (PkgEnterRsp (gc_id (gr_game g)) player (map (id_at w) (gr_players g))) w;
          w2 = (if player then send_to (except_self (id_at w fd) w (grp_fds g)) (PkgPlayerEntered (id_at w fd)) w1 else w1)
      in if gc_watchable (gr_game g) then send_to (gr_players g) (PkgWatcherNumber (length (gr_watchers g))) w2 else w2)"

definition notify_game_ready :: "nat \<Rightarrow> u64 \<Rightarrow> ('g, 'pkg) server \<Rightarrow> ('g, 'pkg) server" where
  "notify_game_ready fd gid w =
     (let g = the (sv_groups w gid); x = PkgGameReady gid (gc_id (gr_game g)) (map (id_at w) (gr_players g))
      in if bit (status_at w fd) 0 then send_to (grp_fds g) x w else reply fd x w)"

definition begin_if_ready ::
    "('g, 'pkg) game_env \<Rightarrow> nat \<Rightarrow> u64 \<Rightarrow> ('g, 'pkg) server \<Rightarrow> ('g, 'pkg) server option" where
  "begin_if_ready e fd gid w =
     (case sv_groups w gid of
        None \<Rightarrow> None
      | Some g \<Rightarrow>
          if bit (gr_flag g) 0 then do {
            (w1, rv) \<leftarrow> on_game_begin e fd (notify_game_ready fd gid w);
            if rv = -1 then end_multiplayer_game gid (Some fd) GER_game_system_err w1 else Some w1
          } else Some w)"

definition add_player_cmd ::
    "('g, 'pkg) game_env \<Rightarrow> nat \<Rightarrow> u32 \<Rightarrow> byte list \<Rightarrow> ('g, 'pkg) server \<Rightarrow> (('g, 'pkg) server \<times> int) option" where
  "add_player_cmd e fd uid body w =
     (case unpkg_gamesession (ev_des e) body of
        None \<Rightarrow> Some (w, -1)
      | Some s \<Rightarrow> do {
          (w1, rv) \<leftarrow> auth_cmd fd uid s w;
          if rv = -1 then Some (w1, -1)
          else do {
            (w2, rv2) \<leftarrow> join_game e fd (gs_gameid s) (gs_grpid s) (upd_sprite fd (set_sprite_attr s) w1);
            if rv2 = -1 then Some (reply fd (PkgError proto_player_enter (- ERR_OCCUPIED_POS)) w2, -1)
            else do {
              w3 \<leftarrow> begin_if_ready e fd (gs_grpid s) (notify_enter fd (gs_grpid s) w2);
              Some (w3, 0) } } })"

section \<open>Requests\<close>

definition reset_waitcmd :: "nat \<Rightarrow> ('g, 'pkg) server \<Rightarrow> ('g, 'pkg) server" where
  "reset_waitcmd fd w =
     (case sv_sprites w fd of
        None \<Rightarrow> w
      | Some p \<Rightarrow>
          if gp_waitcmd p \<notin> {0, proto_game_score, proto_get_items, proto_card_add_win_lost, proto_card_getinfo, proto_set_redclothes,
               30019, 30020, 30021, 30022}
          then set_waitcmd 0 fd w else w)"

definition game_cmd ::
    "('g, 'pkg) game_env \<Rightarrow> nat \<Rightarrow> int \<Rightarrow> byte list \<Rightarrow> ('g, 'pkg) server \<Rightarrow> (('g, 'pkg) server \<times> int) option" where
  "game_cmd e fd cmd body w =
     (case gp_group (sprite_at w fd) of
        None \<Rightarrow> Some (w, -1)
      | Some gid \<Rightarrow>
          (case sv_groups w gid of
             None \<Rightarrow> None
           | Some g \<Rightarrow>
               if bit (gr_flag g) 0 then do {
                 (w1, rv) \<leftarrow> on_game_data e fd cmd body w;
                 if 0 < rv then do { w2 \<leftarrow> end_multiplayer_game gid (Some fd) (word_of_int rv) w1; Some (w2, 0) }
                 else if rv < 0 then leave_game_cmd e fd [GER_invalid_data] w1
                 else Some (w1, 0)
               } else leave_game_cmd e fd [GER_invalid_data] w))"

text \<open>
  \<open>dispatch_protocol\<close>, for the sprite of a connection; a new player has no sprite yet when it is called
  for \<open>proto_player_enter\<close>.
\<close>

definition dispatch_enter ::
    "('g, 'pkg) game_env \<Rightarrow> nat \<Rightarrow> u32 \<Rightarrow> byte list \<Rightarrow> ('g, 'pkg) server \<Rightarrow> (('g, 'pkg) server \<times> int) option" where
  "dispatch_enter e fd uid body w = do { (w1, rv) \<leftarrow> add_player_cmd e fd uid body w; Some (reset_waitcmd fd w1, rv) }"

definition dispatch_protocol ::
    "('g, 'pkg) game_env \<Rightarrow> nat \<Rightarrow> int \<Rightarrow> byte list \<Rightarrow> ('g, 'pkg) server \<Rightarrow> (('g, 'pkg) server \<times> int) option" where
  "dispatch_protocol e fd cmd body w =
     (if gp_waitcmd (sprite_at w fd) \<noteq> 0 then Some (send_to [fd] (PkgError cmd (- ERR_SYSTEM_BUSY)) w, 0)
      else
        let w1 = set_waitcmd cmd fd w in do {
          (w2, rv) \<leftarrow> (if cmd = proto_player_leave then leave_game_cmd e fd body w1 else game_cmd e fd cmd body w1);
          Some (reset_waitcmd fd w2, rv) })"

text \<open>The header has 17 bytes: length, version, command, player, result.\<close>

definition parse_protocol ::
    "('g, 'pkg) game_env \<Rightarrow> nat \<Rightarrow> byte list \<Rightarrow> ('g, 'pkg) server \<Rightarrow> (('g, 'pkg) server \<times> int) option" where
  "parse_protocol e fd data w =
     (let len = unat (be_u32 data 0); cmd = sint (be_u32 data 5); uid = be_u32 data 9; p = get_sprite_by_fd fd w;
          body = take (len - 17) (drop 17 data);
          invalid = (if p \<noteq> None then map_option (\<lambda>w1. (w1, 0)) (handle_invalid_data e fd GER_invalid_data w) else Some (w, -1))
      in if length data < 17 then None
         else if uid = 0 then Some (w, 0)
         else if len < 17 then invalid
         else if cmd = proto_version then Some (w\<lparr>sv_sent := sv_sent w @ [DataTo fd PkgVersion]\<rparr>, 0)
         else if cmd = proto_test_alive then Some (w\<lparr>sv_sent := sv_sent w @ [DataTo fd PkgTestAlive]\<rparr>, 0)
         else if cmd \<noteq> proto_player_enter \<and> p = None \<or> cmd = proto_player_enter \<and> p \<noteq> None \<or>
             p \<noteq> None \<and> sp_id (gp_sprite (the p)) \<noteq> uid then invalid
         else if length data < len then None
         else if cmd = proto_player_enter then do {
           w1 \<leftarrow> (case get_sprite uid w of
                      None \<Rightarrow> Some w
                    | Some old \<Rightarrow> handle_invalid_data e old GER_multi_login w);
           dispatch_enter e fd uid body w1
         } else dispatch_protocol e fd cmd body w)"

definition handle_process ::
    "('g, 'pkg) game_env \<Rightarrow> nat \<Rightarrow> byte list \<Rightarrow> ('g, 'pkg) server \<Rightarrow> ('g, 'pkg) server option" where
  "handle_process e fd data w = do {
     (w1, err) \<leftarrow> parse_protocol e fd data w;
     if err \<noteq> 0 then shm_fin fd w1 else Some w1 }"

section \<open>Answers of the database proxy\<close>

definition on_db_return ::
    "nat \<Rightarrow> u32 \<Rightarrow> byte list \<Rightarrow> u32 \<Rightarrow> ('g, 'pkg) server \<Rightarrow> (('g, 'pkg) server \<times> int) option" where
  "on_db_return fd uid buf ret w =
     (case gp_group (sprite_at w fd) of
        None \<Rightarrow> Some (w, -1)
      | Some gid \<Rightarrow>
          (case sv_groups w gid of
             None \<Rightarrow> None
           | Some g \<Rightarrow>
               (case gr_handler g of
                  None \<Rightarrow> Some (w, -1)
                | Some h \<Rightarrow>
                    let (h', rv) = handle_db_return uid buf ret h;
                        w1 = upd_group gid (\<lambda>g. g\<lparr>gr_handler := Some h'\<rparr>) w
                    in if rv = GER_end_of_game then
                         do { w2 \<leftarrow> end_multiplayer_game gid (Some fd) (word_of_int rv) w1; Some (w2, 0) }
                       else Some (w1, rv))))"

definition worker_handle_net ::
    "('g, 'pkg) game_env \<Rightarrow> nat \<Rightarrow> int \<Rightarrow> int \<Rightarrow> int \<Rightarrow> u32 \<Rightarrow> byte list \<Rightarrow> ('g, 'pkg) server \<Rightarrow>
     (('g, 'pkg) server \<times> int) option" where
  "worker_handle_net e fd waitcmd cmd ret uid buf w =
     (if fd = 0 \<and> waitcmd = 0 then Some (w, 0)
      else case get_sprite_by_fd fd w of
        None \<Rightarrow> Some (w, 0)
      | Some p \<Rightarrow>
          if gp_waitcmd p \<noteq> waitcmd then Some (w, 0)
          else if ret = 1116 then
            Some (reply fd (PkgError (gp_waitcmd p) (- ERR_daily_money_limit_exceeded)) w, if fd \<le> sv_fdmax w then 0 else -1)
          else if ret \<notin> {0, 1006, 2547, 1147, 1114, 2675, 2676, 2679, 1119} then Some (w, -1)
          else if cmd = db_change_game_attr then upd_game_attr_callback fd (length buf) w
          else if cmd = db_obtain_item \<or> cmd = db_obtain_pet_item then get_item_callback e fd w
          else on_db_return fd uid buf (word_of_int ret) w)"

definition handle_db_answer ::
    "('g, 'pkg) game_env \<Rightarrow> nat \<Rightarrow> int \<Rightarrow> int \<Rightarrow> int \<Rightarrow> u32 \<Rightarrow> byte list \<Rightarrow> ('g, 'pkg) server \<Rightarrow> ('g, 'pkg) server option" where
  "handle_db_answer e fd waitcmd cmd ret uid buf w = do {
     (w1, err) \<leftarrow> worker_handle_net e fd waitcmd cmd ret uid buf w;
     if err \<noteq> 0 then handle_invalid_data e fd GER_invalid_data (set_waitcmd 0 fd w1) else Some w1 }"

section \<open>Timers\<close>

definition on_timer_expire :: "('g, 'pkg) game_env \<Rightarrow> nat \<Rightarrow> ('g, 'pkg) server \<Rightarrow> (('g, 'pkg) server \<times> int) option" where
  "on_timer_expire e fd w =
     (case sv_sprites w fd of
        None \<Rightarrow> None
      | Some p \<Rightarrow>
          if gp_group p = None then None
          else do { (w1, rv) \<leftarrow> leave_game_cmd e fd [GER_timer_expire] (set_status 3 fd w); Some (w1, -1) })"

definition on_game_timer_expire :: "u64 \<Rightarrow> nat \<Rightarrow> ('g, 'pkg) server \<Rightarrow> (('g, 'pkg) server \<times> int) option" where
  "on_game_timer_expire gid data w =
     (case sv_groups w gid of
        None \<Rightarrow> None
      | Some g \<Rightarrow>
          if data \<noteq> 0 then
            (case gr_handler g of
               None \<Rightarrow> None
             | Some h \<Rightarrow>
                 let (h', rv) = handle_timeout data h;
                     w1 = upd_group gid (\<lambda>g. g\<lparr>gr_handler := Some h'\<rparr>) w
                 in if rv = GER_end_of_game then
                      do { w2 \<leftarrow> end_multiplayer_game gid None (word_of_int rv) w1; Some (w2, -1) }
                    else Some (w1, rv))
          else do { w1 \<leftarrow> end_multiplayer_game gid None GER_timer_expire w; Some (w1, -1) })"

text \<open>The functions of timers: 1 is \<open>on_timer_expire\<close>, 2 is \<open>on_game_timer_expire\<close>.\<close>

definition game_cb :: "('g, 'pkg) game_env \<Rightarrow> nat \<Rightarrow> nat \<Rightarrow> nat \<Rightarrow> ('g, 'pkg) server \<Rightarrow> (('g, 'pkg) server \<times> int) option" where
  "game_cb e func owner data w =
     (if func = 1 then on_timer_expire e (owner div 2) w
      else if func = 2 then on_game_timer_expire (of_nat (owner div 2)) data w
      else None)"

section \<open>The loop of the process\<close>

datatype sv_event =
    OpenBlock nat bool
  | CloseBlock nat
  | DataBlock nat "byte list"
  | DbAnswer nat int int int u32 "byte list"
  | Second

definition handle_close_block :: "('g, 'pkg) game_env \<Rightarrow> nat \<Rightarrow> ('g, 'pkg) server \<Rightarrow> ('g, 'pkg) server option" where
  "handle_close_block e fd w =
     (case get_sprite_by_fd fd w of
        None \<Rightarrow> handle_close fd w
      | Some p \<Rightarrow>
          if gp_group p \<noteq> None then
            map_option fst (leave_game_cmd e fd [GER_player_offline] (set_waitcmd 0 fd (set_status 2 fd w)))
          else handle_close fd w)"

text \<open>
  A second passes: \<open>handle_timer\<close> sees the next value of the clock. The loop reads the clock once in a
  round and a round takes at most a second of waiting; a round that misses a value of the clock, which
  can make a timer of a far list late, is not modelled.
\<close>

fun handle_event :: "('g, 'pkg) game_env \<Rightarrow> sv_event \<Rightarrow> ('g, 'pkg) server \<Rightarrow> ('g, 'pkg) server option" where
  "handle_event e (OpenBlock fd len_ok) w = handle_open fd len_ok w"
| "handle_event e (CloseBlock fd) w = handle_close_block e fd w"
| "handle_event e (DataBlock fd data) w =
     (if fd \<le> sv_fdmax w \<and> data \<noteq> [] then handle_process e fd data w else Some w)"
| "handle_event e (DbAnswer fd waitcmd cmd ret uid buf) w = handle_db_answer e fd waitcmd cmd ret uid buf w"
| "handle_event e Second w = map_option fst (handle_timer (game_cb e) (tw_now w + 1) (tw_now w) w)"

definition sv_start :: "int \<Rightarrow> ('g, 'pkg) server" where
  "sv_start now =
     setup_timer now
       \<lparr>tw_heap = \<lambda>_. None, tw_lists = \<lambda>_. [], tw_vec = replicate 5 \<lparr>tv_head = [], tv_expire = 0, tv_min = 0\<rparr>, tw_baseid = 0,
        tw_now = 0, sv_sprites = \<lambda>_. None, sv_ids = [], sv_groups = \<lambda>_. None, sv_cn = \<lambda>_. False, sv_fdmax = 0,
        sv_count = 0, sv_sent = []\<rparr>"

end
