(* ===== verification/ServerInv.thy ===== *)
theory ServerInv
  imports TimerScan GameRequests
begin

text \<open>
  The invariant of the game server: connections, sprites, groups and timers agree. \<open>core\<close> is the
  whole of it, with the groups in \<open>D\<close> left out while they are taken apart; \<open>sv_frame\<close> says that an
  operation leaves the seats as they are.
\<close>

section \<open>The timers in use\<close>

definition active :: "'a timers_scheme \<Rightarrow> nat \<Rightarrow> timer_struct option" where
  "active w a = (if in_use w a then tw_heap w a else None)"

lemma active_iff: "active w a = Some t \<longleftrightarrow> tw_heap w a = Some t \<and> tm_function t \<noteq> 0"
  by (auto simp: active_def in_use_def)

lemma active_cong: "tw_heap w' = tw_heap w \<Longrightarrow> active w' = active w"
  by (rule ext) (auto simp: active_def in_use_def)

lemma active_same_use: "same_use w w' \<Longrightarrow> active w' = active w"
  by (auto simp: same_use_def active_def fun_eq_iff)

lemma listed_active: "wheel_ok w \<Longrightarrow> a \<in> set (tw_lists w l) \<longleftrightarrow> (\<exists>t. active w a = Some t \<and> tm_list t = Some l)"
  using wheel_okD(3) [of w] unfolding lists_ok_def active_iff by (metis option.distinct(1) option.inject)

lemma marks_more: "wheel_ok w \<Longrightarrow> \<forall>a \<in> set as. tw_heap w a \<noteq> None \<Longrightarrow>
    timers.more (fold (\<lambda>a. do_remove_timer a False) as w) = timers.more w \<and>
    (\<forall>b. b \<notin> set as \<longrightarrow> tw_heap (fold (\<lambda>a. do_remove_timer a False) as w) b = tw_heap w b)"
proof (induction as arbitrary: w)
  case (Cons a as)
  have a: "tw_heap w a \<noteq> None" using Cons.prems by simp
  note R = remove_mark [OF Cons.prems(1) a]
  have "\<forall>a \<in> set as. tw_heap (do_remove_timer a False w) a \<noteq> None" for a
    using Cons.prems(2) mark_grows [OF Cons.prems(1)] by (metis a list.set_intros(1,2) grows_def R(3,7) option.distinct(1))
  then have "\<forall>b \<in> set as. tw_heap (do_remove_timer a False w) b \<noteq> None"
    using Cons.prems(2) mark_grows [OF Cons.prems(1) a] by (simp add: grows_def)
  from Cons.IH [OF R(1) this] R(3,6) show ?case by auto
qed simp

lemma remove_timers_active:
  assumes "wheel_ok w"
  shows "active (remove_timers l w) a = (case active w a of None \<Rightarrow> None | Some t \<Rightarrow> if tm_list t = Some l then None else Some t)"
    and "timers.more (remove_timers l w) = timers.more w"
proof -
  have h: "\<forall>a \<in> set (tw_lists w l). tw_heap w a \<noteq> None" using listed_heap [OF assms] in_use_heap by blast
  note M = marks_more [OF assms h, folded remove_timers_def]
  from M show "timers.more (remove_timers l w) = timers.more w" by blast
  have "active (remove_timers l w) a = (if in_use w a \<and> a \<notin> set (tw_lists w l) then tw_heap w a else None)"
    using M remove_timers_ok(3) [OF assms, of l a] by (auto simp: active_def)
  then show "active (remove_timers l w) a = (case active w a of None \<Rightarrow> None | Some t \<Rightarrow> if tm_list t = Some l then None else Some t)"
    using listed_active [OF assms, of a l] by (auto simp: active_def split: option.splits)
qed

lemma remove_timer_active:
  assumes "wheel_ok w" and "active (remove_timer l tid w) a = Some t"
  shows "active w a = Some t"
proof (cases "find_timer_id l tid w")
  case (Some b)
  have h: "tw_heap w b \<noteq> None" by (rule in_use_heap [OF listed_heap [OF assms(1) found_listed(1) [OF Some]]])
  from remove_mark(2,3) [OF assms(1) h, of a] Some assms(2) show ?thesis
    by (cases "a = b") (auto simp: remove_timer_def active_def split: if_splits)
qed (use assms in \<open>simp add: remove_timer_def\<close>)

lemma remove_timer_kept:
  assumes "wheel_ok w" and "active w a = Some t" and "tm_list t \<noteq> Some l"
  shows "active (remove_timer l tid w) a = Some t"
proof (cases "find_timer_id l tid w")
  case (Some b)
  have h: "tw_heap w b \<noteq> None" by (rule in_use_heap [OF listed_heap [OF assms(1) found_listed(1) [OF Some]]])
  have "a \<noteq> b" using found_listed(1) [OF Some] listed_active [OF assms(1), of b l] assms(2,3) by auto
  with remove_mark(2,3) [OF assms(1) h, of a] Some assms(2) show ?thesis
    by (auto simp: remove_timer_def active_def split: if_splits)
qed (use assms in \<open>simp add: remove_timer_def\<close>)

lemma remove_timer_more: "wheel_ok w \<Longrightarrow> timers.more (remove_timer l tid w) = timers.more w"
  using remove_mark(6) [of w] in_use_heap listed_heap found_listed(1) [of l tid w]
  by (fastforce simp: remove_timer_def split: option.splits)

lemma add_event_active:
  assumes "wheel_ok w" and "tw_heap w a = None" and "func \<noteq> 0" and "0 < expire"
  shows "active (fst (add_timer_event a l func owner data expire w)) =
      (active w)(a \<mapsto> \<lparr>tm_id = snd (add_timer_event a l func owner data expire w), tm_expire = expire, tm_owner = owner,
                      tm_data = data, tm_function = func, tm_list = Some l\<rparr>)"
    and "timers.more (fst (add_timer_event a l func owner data expire w)) = timers.more w"
proof -
  obtain w' tid where e: "add_timer_event a l func owner data expire w = (w', tid)" by fastforce
  note A = add_event_ok [OF assms e]
  show "timers.more (fst (add_timer_event a l func owner data expire w)) = timers.more w" using A(7) by (simp add: e)
  show "active (fst (add_timer_event a l func owner data expire w)) =
      (active w)(a \<mapsto> \<lparr>tm_id = snd (add_timer_event a l func owner data expire w), tm_expire = expire, tm_owner = owner,
                      tm_data = data, tm_function = func, tm_list = Some l\<rparr>)"
    using A(2,3,4) assms(3) by (auto simp: e active_def fun_eq_iff in_use_def)
qed

lemma heap_listed: "wheel_ok w \<Longrightarrow> tw_heap w a \<noteq> None \<Longrightarrow> a \<in> set (concat (map (vec_at w) [0..<5]))"
  using vec_disjointD(3) [OF wheel_okD(2), of w a] by auto

text \<open>Every change of the rest of the server is a step that timers allow.\<close>

lemma rest_step: "tw_heap w' = tw_heap w \<Longrightarrow> tw_lists w' = tw_lists w \<Longrightarrow> tw_vec w' = tw_vec w \<Longrightarrow> tw_baseid w' = tw_baseid w \<Longrightarrow>
    tw_now w' = tw_now w \<Longrightarrow> cb_step\<^sup>*\<^sup>* w w'"
proof -
  assume "tw_heap w' = tw_heap w" "tw_lists w' = tw_lists w" "tw_vec w' = tw_vec w" "tw_baseid w' = tw_baseid w" "tw_now w' = tw_now w"
  then have "w' = timers.more_update (\<lambda>_. timers.more w') w" by simp
  with cb_rest [of w "timers.more w'"] show ?thesis by (metis r_into_rtranclp)
qed

lemma server_eq_iff: "timers.more w' = timers.more w \<Longrightarrow>
    sv_sprites w' = sv_sprites w \<and> sv_ids w' = sv_ids w \<and> sv_groups w' = sv_groups w \<and> sv_cn w' = sv_cn w \<and> sv_fdmax w' = sv_fdmax w \<and>
    sv_count w' = sv_count w \<and> sv_sent w' = sv_sent w"
  for w w' :: "('g, 'pkg) server"
  by (cases w, cases w') simp

section \<open>The invariant\<close>

definition members_of :: "('g, 'pkg) server \<Rightarrow> u64 \<Rightarrow> nat set" where
  "members_of w gid = {fd. \<exists>p. sv_sprites w fd = Some p \<and> gp_group p = Some gid}"

definition conn_ok :: "('g, 'pkg) server \<Rightarrow> bool" where
  "conn_ok w \<longleftrightarrow> (\<forall>fd. sv_cn w fd \<longrightarrow> 1 \<le> fd \<and> fd \<le> sv_fdmax w) \<and> sv_fdmax w < MAXFDS \<and> sv_count w = card {fd. sv_cn w fd} \<and>
     (\<forall>fd. sv_sprites w fd \<noteq> None \<longrightarrow> sv_cn w fd)"

definition ids_ok :: "('g, 'pkg) server \<Rightarrow> bool" where
  "ids_ok w \<longleftrightarrow> distinct (sv_ids w) \<and> (\<forall>fd. fd \<in> set (sv_ids w) \<longleftrightarrow> sv_sprites w fd \<noteq> None) \<and>
     (\<forall>fd p. sv_sprites w fd = Some p \<longrightarrow> sp_id (gp_sprite p) \<noteq> 0) \<and>
     (\<forall>fd fd' p p'. sv_sprites w fd = Some p \<and> sv_sprites w fd' = Some p' \<and> gp_group p \<noteq> None \<and> gp_group p' \<noteq> None \<and>
       sp_id (gp_sprite p) = sp_id (gp_sprite p') \<longrightarrow> fd = fd')"

definition timer_own :: "('g, 'pkg) server \<Rightarrow> timer_struct \<Rightarrow> bool" where
  "timer_own w t \<longleftrightarrow>
     tm_function t = 1 \<and> (\<exists>fd p. tm_owner t = sprite_timers fd \<and> tm_list t = Some (sprite_timers fd) \<and> sv_sprites w fd = Some p \<and>
       gp_group p \<noteq> None \<and> bit (sp_status (gp_sprite p)) 0) \<or>
     tm_function t = 2 \<and> tm_data t = 0 \<and> (\<exists>gid g. tm_owner t = group_timers gid \<and> tm_list t = Some (group_timers gid) \<and>
       sv_groups w gid = Some g \<and> tm_expire t \<le> tw_now w + gc_timeout (gr_game g))"

definition own_ok :: "('g, 'pkg) server \<Rightarrow> bool" where
  "own_ok w \<longleftrightarrow> (\<forall>a t. active w a = Some t \<longrightarrow> timer_own w t) \<and>
     (\<forall>gid g. sv_groups w gid = Some g \<longrightarrow> (\<exists>a t. active w a = Some t \<and> tm_list t = Some (group_timers gid)))"

definition seats_ok :: "('g, 'pkg) server \<Rightarrow> u64 \<Rightarrow> 'g group_t \<Rightarrow> bool" where
  "seats_ok w gid g \<longleftrightarrow> distinct (grp_fds g) \<and> set (grp_fds g) = members_of w gid \<and>
     (\<forall>fd \<in> set (gr_players g). bit (status_at w fd) 0 \<and> \<not> bit (status_at w fd) 1) \<and>
     (\<forall>fd \<in> set (gr_watchers g). bit (status_at w fd) 1 \<and> \<not> bit (status_at w fd) 0)"

definition conf_ok :: "nat set \<Rightarrow> game_conf \<Rightarrow> bool" where
  "conf_ok libs c \<longleftrightarrow> 0 < gc_timeout c \<and> 1 \<le> gc_players c \<and> gc_players c \<le> 10 \<and> (gc_handle c \<noteq> 0 \<longrightarrow> gc_handle c \<in> libs \<and> gc_players c = 2)"

definition phase_ok :: "('g, 'pkg) mpog \<Rightarrow> ('g \<Rightarrow> bool) \<Rightarrow> nat set \<Rightarrow> ('g, 'pkg) server \<Rightarrow> 'g group_t \<Rightarrow> bool" where
  "phase_ok mp ok libs w g \<longleftrightarrow> conf_ok libs (gr_game g) \<and> length (gr_watchers g) \<le> 20 \<and>
     (if bit (gr_flag g) 0
      then bit (gr_flag g) 1 \<and> (\<exists>h. gr_handler g = Some h \<and> ok h \<and> same_seats (grp_view w g) (mp_grp mp h))
      else \<not> bit (gr_flag g) 1 \<and> gr_handler g = None \<and> length (gr_players g) < gc_players (gr_game g) \<and>
        distinct (map (\<lambda>fd. sp_pos_id (gp_sprite (sprite_at w fd))) (gr_players g)) \<and>
        (\<forall>fd \<in> set (gr_players g). \<not> bad_seat (gr_game g) (gp_sprite (sprite_at w fd))))"

definition core :: "('g, 'pkg) mpog \<Rightarrow> ('g \<Rightarrow> bool) \<Rightarrow> nat set \<Rightarrow> u64 set \<Rightarrow> ('g, 'pkg) server \<Rightarrow> bool" where
  "core mp ok libs D w \<longleftrightarrow> wheel_ok w \<and> 0 < tw_now w \<and> conn_ok w \<and> ids_ok w \<and> own_ok w \<and>
     (\<forall>gid. gid \<notin> D \<longrightarrow>
        (case sv_groups w gid of
           None \<Rightarrow> members_of w gid = {}
         | Some g \<Rightarrow> seats_ok w gid g \<and> phase_ok mp ok libs w g))"

lemma coreD:
  assumes "core mp ok libs D w"
  shows "wheel_ok w" "0 < tw_now w" "conn_ok w" "ids_ok w" "own_ok w"
    "gid \<notin> D \<Longrightarrow> sv_groups w gid = None \<Longrightarrow> members_of w gid = {}"
    "gid \<notin> D \<Longrightarrow> sv_groups w gid = Some g \<Longrightarrow> seats_ok w gid g"
    "gid \<notin> D \<Longrightarrow> sv_groups w gid = Some g \<Longrightarrow> phase_ok mp ok libs w g"
  using assms by (fastforce simp: core_def)+

lemma timers_distinct [simp]: "sprite_timers fd \<noteq> group_timers gid" "group_timers gid \<noteq> sprite_timers fd"
  "sprite_timers fd = sprite_timers fd' \<longleftrightarrow> fd = fd'" "group_timers gid = group_timers gid' \<longleftrightarrow> gid = gid'"
  "sprite_timers fd div 2 = fd" "of_nat (group_timers gid div 2) = gid"
  unfolding sprite_timers_def group_timers_def by (simp_all add: word_unat_eq_iff) presburger+

section \<open>Operations that leave the seats as they are\<close>

definition same_sprite :: "gsprite \<Rightarrow> gsprite \<Rightarrow> bool" where
  "same_sprite p q \<longleftrightarrow> gp_group q = gp_group p \<and> sp_id (gp_sprite q) = sp_id (gp_sprite p) \<and> sp_pos_id (gp_sprite q) = sp_pos_id (gp_sprite p) \<and>
     (bit (sp_status (gp_sprite q)) 0 \<longleftrightarrow> bit (sp_status (gp_sprite p)) 0) \<and> (bit (sp_status (gp_sprite q)) 1 \<longleftrightarrow> bit (sp_status (gp_sprite p)) 1)"

definition sv_frame :: "('g, 'pkg) server \<Rightarrow> ('g, 'pkg) server \<Rightarrow> bool" where
  "sv_frame w w' \<longleftrightarrow> sv_ids w' = sv_ids w \<and> sv_groups w' = sv_groups w \<and> sv_cn w' = sv_cn w \<and> sv_fdmax w' = sv_fdmax w \<and>
     sv_count w' = sv_count w \<and> tw_now w' = tw_now w \<and> (\<forall>fd. rel_option same_sprite (sv_sprites w fd) (sv_sprites w' fd))"

lemma same_sprite_refl [simp]: "same_sprite p p"
  by (simp add: same_sprite_def)

lemma sv_frame_refl [simp]: "sv_frame w w"
  by (simp add: sv_frame_def option.rel_refl)

lemma same_sprite_trans: "same_sprite p q \<Longrightarrow> same_sprite q r \<Longrightarrow> same_sprite p r"
  by (simp add: same_sprite_def)

lemma frame_sprite:
  assumes "sv_frame w w'"
  shows "sv_sprites w' fd = None \<longleftrightarrow> sv_sprites w fd = None" and "sv_sprites w fd = Some p \<Longrightarrow> \<exists>q. sv_sprites w' fd = Some q \<and> same_sprite p q"
    and "sv_sprites w' fd = Some q \<Longrightarrow> \<exists>p. sv_sprites w fd = Some p \<and> same_sprite p q"
proof -
  have r: "rel_option same_sprite (sv_sprites w fd) (sv_sprites w' fd)" using assms by (simp add: sv_frame_def)
  show "sv_sprites w' fd = None \<longleftrightarrow> sv_sprites w fd = None" using r by (cases "sv_sprites w fd"; cases "sv_sprites w' fd") auto
  show "sv_sprites w fd = Some p \<Longrightarrow> \<exists>q. sv_sprites w' fd = Some q \<and> same_sprite p q" using r by (cases "sv_sprites w' fd") auto
  show "sv_sprites w' fd = Some q \<Longrightarrow> \<exists>p. sv_sprites w fd = Some p \<and> same_sprite p q" using r by (cases "sv_sprites w fd") auto
qed


lemma sv_frame_trans:
  assumes "sv_frame w1 w2" and "sv_frame w2 w3"
  shows "sv_frame w1 w3"
proof -
  have "rel_option same_sprite (sv_sprites w1 fd) (sv_sprites w3 fd)" for fd
  proof (cases "sv_sprites w1 fd")
    case None
    then show ?thesis using frame_sprite(1) [OF assms(1), of fd] frame_sprite(1) [OF assms(2), of fd] by simp
  next
    case (Some p)
    then show ?thesis using frame_sprite(2) [OF assms(1) Some] frame_sprite(2) [OF assms(2), of fd] same_sprite_trans by fastforce
  qed
  with assms show ?thesis by (simp add: sv_frame_def)
qed


lemma frame_members: "sv_frame w w' \<Longrightarrow> members_of w' gid = members_of w gid"
  unfolding members_of_def using frame_sprite(2,3) by (fastforce simp: same_sprite_def)

lemma frame_at:
  assumes "sv_frame w w'" and "sv_sprites w fd \<noteq> None"
  shows "same_sprite (sprite_at w fd) (sprite_at w' fd)"
  using frame_sprite(2) [OF assms(1)] assms(2) by fastforce

lemma members_sprite: "fd \<in> members_of w gid \<Longrightarrow> sv_sprites w fd \<noteq> None"
  by (auto simp: members_of_def)

lemma seats_sprite: "seats_ok w gid g \<Longrightarrow> fd \<in> set (grp_fds g) \<Longrightarrow> sv_sprites w fd \<noteq> None"
  unfolding seats_ok_def using members_sprite by blast

lemma frame_seats:
  assumes "sv_frame w w'" and "seats_ok w gid g"
  shows "seats_ok w' gid g"
proof -
  have "same_sprite (sprite_at w fd) (sprite_at w' fd)" if "fd \<in> set (grp_fds g)" for fd
    by (rule frame_at [OF assms(1) seats_sprite [OF assms(2) that]])
  then show ?thesis using assms by (simp add: seats_ok_def frame_members same_sprite_def)
qed

lemma frame_phase:
  assumes f: "sv_frame w w'" and s: "seats_ok w gid g" and p: "phase_ok mp ok libs w g"
  shows "phase_ok mp ok libs w' g"
proof -
  have m: "same_sprite (sprite_at w fd) (sprite_at w' fd)" if "fd \<in> set (gr_players g)" for fd
    using frame_at [OF f seats_sprite [OF s]] that by simp
  then have e: "map (\<lambda>fd. sp_pos_id (gp_sprite (sprite_at w' fd))) (gr_players g) = map (\<lambda>fd. sp_pos_id (gp_sprite (sprite_at w fd))) (gr_players g)"
    "map (\<lambda>fd. sp_id (gp_sprite (sprite_at w' fd))) (gr_players g) = map (\<lambda>fd. sp_id (gp_sprite (sprite_at w fd))) (gr_players g)"
    by (simp_all add: same_sprite_def)
  from e have "same_seats (grp_view w' g) x = same_seats (grp_view w g) x" for x
    by (simp add: same_seats_def grp_view_def comp_def del: map_eq_conv)
  moreover have "bad_seat c (gp_sprite (sprite_at w' fd)) = bad_seat c (gp_sprite (sprite_at w fd))" if "fd \<in> set (gr_players g)" for c fd
    using m [OF that] by (simp add: bad_seat_def same_sprite_def)
  ultimately show ?thesis using p unfolding phase_ok_def e(1) by (auto split: if_splits)
qed

lemma frame_timer_own:
  assumes f: "sv_frame w w'" and t: "timer_own w t"
  shows "timer_own w' t"
proof -
  have "\<exists>q. sv_sprites w' fd = Some q \<and> gp_group q \<noteq> None \<and> bit (sp_status (gp_sprite q)) 0"
    if "sv_sprites w fd = Some p" "gp_group p \<noteq> None" "bit (sp_status (gp_sprite p)) 0" for fd p
    using frame_sprite(2) [OF f that(1)] that(2,3) by (auto simp: same_sprite_def)
  then show ?thesis using t f unfolding timer_own_def sv_frame_def by metis
qed

lemma frame_ids:
  assumes f: "sv_frame w w'" and i: "ids_ok w"
  shows "ids_ok w'"
proof -
  have k: "\<exists>p. sv_sprites w fd = Some p \<and> sp_id (gp_sprite p) = sp_id (gp_sprite q) \<and> gp_group p = gp_group q" if "sv_sprites w' fd = Some q" for fd q
    using frame_sprite(3) [OF f that] by (auto simp: same_sprite_def)
  have "sv_ids w' = sv_ids w" using f by (simp add: sv_frame_def)
  moreover have "sp_id (gp_sprite q) \<noteq> 0" if "sv_sprites w' fd = Some q" for fd q
    using k [OF that] i by (auto simp: ids_ok_def)
  moreover have "fd = fd'" if "sv_sprites w' fd = Some q" "sv_sprites w' fd' = Some q'" "gp_group q \<noteq> None" "gp_group q' \<noteq> None"
      "sp_id (gp_sprite q) = sp_id (gp_sprite q')" for fd fd' q q'
  proof -
    note H = that
    from k [OF H(1)] obtain p where p: "sv_sprites w fd = Some p" "sp_id (gp_sprite p) = sp_id (gp_sprite q)" "gp_group p \<noteq> None"
      using H(3) by auto
    from k [OF H(2)] obtain p' where p': "sv_sprites w fd' = Some p'" "sp_id (gp_sprite p') = sp_id (gp_sprite q')" "gp_group p' \<noteq> None"
      using H(4) by auto
    have "\<forall>fd fd' p p'. sv_sprites w fd = Some p \<and> sv_sprites w fd' = Some p' \<and> gp_group p \<noteq> None \<and> gp_group p' \<noteq> None \<and>
       sp_id (gp_sprite p) = sp_id (gp_sprite p') \<longrightarrow> fd = fd'" using i by (simp add: ids_ok_def)
    from this [rule_format, of fd p fd' p'] p p' H(5) show ?thesis by simp
  qed
  moreover have "distinct (sv_ids w)" "\<forall>fd. fd \<in> set (sv_ids w) \<longleftrightarrow> sv_sprites w' fd \<noteq> None"
    using i frame_sprite(1) [OF f] by (simp_all add: ids_ok_def)
  ultimately show ?thesis unfolding ids_ok_def by presburger
qed

lemma frame_conn: "sv_frame w w' \<Longrightarrow> conn_ok w \<Longrightarrow> conn_ok w'"
  using frame_sprite(1) [of w w'] unfolding conn_ok_def sv_frame_def by simp

lemma frame_core:
  assumes f: "sv_frame w w'" and c: "core mp ok libs D w" and w: "wheel_ok w'" and o: "own_ok w'"
  shows "core mp ok libs D w'"
proof -
  have g: "sv_groups w' = sv_groups w" "tw_now w' = tw_now w" using f by (simp_all add: sv_frame_def)
  have "case sv_groups w' gid of None \<Rightarrow> members_of w' gid = {} | Some g \<Rightarrow> seats_ok w' gid g \<and> phase_ok mp ok libs w' g"
    if "gid \<notin> D" for gid
  proof (cases "sv_groups w gid")
    case None
    then show ?thesis using coreD(6) [OF c that] g frame_members [OF f] by simp
  next
    case (Some x)
    then show ?thesis using coreD(7,8) [OF c that Some] g frame_seats [OF f] frame_phase [OF f] by simp
  qed
  then show ?thesis using c w o g frame_conn [OF f] frame_ids [OF f] unfolding core_def by simp
qed

lemma frame_own: "sv_frame w w' \<Longrightarrow> active w' = active w \<Longrightarrow> own_ok w \<Longrightarrow> own_ok w'"
  using frame_timer_own [of w w'] unfolding own_ok_def sv_frame_def by metis

text \<open>No group gets a new time limit.\<close>

definition no_new_limits :: "('g, 'pkg) server \<Rightarrow> ('g, 'pkg) server \<Rightarrow> bool" where
  "no_new_limits w w' \<longleftrightarrow> (\<forall>a t. active w' a = Some t \<and> tm_function t = 2 \<longrightarrow> active w a = Some t)"

lemma limits_refl [simp]: "no_new_limits w w"
  by (simp add: no_new_limits_def)

lemma limits_trans: "no_new_limits w1 w2 \<Longrightarrow> no_new_limits w2 w3 \<Longrightarrow> no_new_limits w1 w3"
  by (simp add: no_new_limits_def)

text \<open>Operations on the sprites and what is sent only.\<close>

definition quiet :: "('g, 'pkg) server \<Rightarrow> ('g, 'pkg) server \<Rightarrow> bool" where
  "quiet w w' \<longleftrightarrow> sv_frame w w' \<and> tw_heap w' = tw_heap w \<and> tw_lists w' = tw_lists w \<and> tw_vec w' = tw_vec w \<and> tw_baseid w' = tw_baseid w"

lemma wheel_cong: "tw_heap w' = tw_heap w \<Longrightarrow> tw_lists w' = tw_lists w \<Longrightarrow> tw_vec w' = tw_vec w \<Longrightarrow> wheel_ok w' = wheel_ok w"
  unfolding wheel_ok_def vec_shape_def vec_disjoint_def lists_ok_def mins_ok_def in_use_def by simp

lemma quiet_refl [simp]: "quiet w w"
  by (simp add: quiet_def)

lemma quiet_trans: "quiet w1 w2 \<Longrightarrow> quiet w2 w3 \<Longrightarrow> quiet w1 w3"
  unfolding quiet_def using sv_frame_trans by fastforce

lemma quiet_core:
  assumes "quiet w w'" and "core mp ok libs D w"
  shows "core mp ok libs D w'" "cb_step\<^sup>*\<^sup>* w w'" "active w' = active w"
proof -
  have a: "active w' = active w" by (rule active_cong) (use assms(1) in \<open>simp add: quiet_def\<close>)
  then show "active w' = active w" .
  show "cb_step\<^sup>*\<^sup>* w w'" by (rule rest_step) (use assms(1) in \<open>simp_all add: quiet_def sv_frame_def\<close>)
  have f: "sv_frame w w'" using assms(1) by (simp add: quiet_def)
  have "wheel_ok w' = wheel_ok w" by (rule wheel_cong) (use assms(1) in \<open>simp_all add: quiet_def\<close>)
  then have "wheel_ok w'" using coreD(1) [OF assms(2)] by simp
  from frame_core [OF f assms(2) this frame_own [OF f a coreD(5) [OF assms(2)]]] show "core mp ok libs D w'" .
qed

lemma upd_sprite_fields [simp]:
  "sv_sprites (upd_sprite fd f w) x = (if x = fd then map_option f (sv_sprites w fd) else sv_sprites w x)"
  "sv_ids (upd_sprite fd f w) = sv_ids w" "sv_groups (upd_sprite fd f w) = sv_groups w" "sv_cn (upd_sprite fd f w) = sv_cn w"
  "sv_fdmax (upd_sprite fd f w) = sv_fdmax w" "sv_count (upd_sprite fd f w) = sv_count w" "sv_sent (upd_sprite fd f w) = sv_sent w"
  "tw_heap (upd_sprite fd f w) = tw_heap w" "tw_lists (upd_sprite fd f w) = tw_lists w" "tw_vec (upd_sprite fd f w) = tw_vec w"
  "tw_baseid (upd_sprite fd f w) = tw_baseid w" "tw_now (upd_sprite fd f w) = tw_now w"
  by (simp_all add: upd_sprite_def)

lemma upd_group_fields [simp]:
  "sv_groups (upd_group gid f w) x = (if x = gid then map_option f (sv_groups w gid) else sv_groups w x)"
  "sv_ids (upd_group gid f w) = sv_ids w" "sv_sprites (upd_group gid f w) = sv_sprites w" "sv_cn (upd_group gid f w) = sv_cn w"
  "sv_fdmax (upd_group gid f w) = sv_fdmax w" "sv_count (upd_group gid f w) = sv_count w" "sv_sent (upd_group gid f w) = sv_sent w"
  "tw_heap (upd_group gid f w) = tw_heap w" "tw_lists (upd_group gid f w) = tw_lists w" "tw_vec (upd_group gid f w) = tw_vec w"
  "tw_baseid (upd_group gid f w) = tw_baseid w" "tw_now (upd_group gid f w) = tw_now w"
  by (simp_all add: upd_group_def)

lemma quiet_upd_sprite: "(\<And>p. sv_sprites w fd = Some p \<Longrightarrow> same_sprite p (f p)) \<Longrightarrow> quiet w (upd_sprite fd f w)"
  by (cases "sv_sprites w fd") (auto simp: quiet_def sv_frame_def option.rel_refl)

lemma quiet_sent: "quiet w (w\<lparr>sv_sent := x\<rparr>)"
  by (simp add: quiet_def sv_frame_def option.rel_refl)

lemma quiet_send [simp]: "quiet w (send_to fds x w)"
  by (simp add: send_to_def quiet_sent)

lemma quiet_waitcmd [simp]: "quiet w (set_waitcmd c fd w)"
  unfolding set_waitcmd_def by (rule quiet_upd_sprite) (simp add: same_sprite_def)

lemma quiet_reply [simp]: "quiet w (reply fd x w)"
  using quiet_trans [OF quiet_send quiet_waitcmd, of w] by (simp add: reply_def)

lemma quiet_reset [simp]: "quiet w (reset_waitcmd fd w)"
  by (simp add: reset_waitcmd_def split: option.split)

lemma quiet_status [simp]: "2 \<le> b \<Longrightarrow> quiet w (set_status b fd w)"
  unfolding set_status_def by (rule quiet_upd_sprite) (auto simp: same_sprite_def bit_set_bit_iff)

lemma quiet_limits: "quiet w w' \<Longrightarrow> no_new_limits w w'"
  using active_cong [of w' w] by (simp add: quiet_def no_new_limits_def)

end
