(* ===== verification/ServerEnd.thy ===== *)
theory ServerEnd
  imports ServerInv
begin

text \<open>
  Closing connections, taking sprites out of their groups, and the end of a game.
\<close>

section \<open>Changes of some sprites\<close>

lemma agree_phase:
  assumes "\<forall>fd \<in> set (gr_players g). sv_sprites w' fd = sv_sprites w fd"
  shows "phase_ok mp ok libs w' g = phase_ok mp ok libs w g"
proof -
  have v: "gg_players (grp_view w' g) = gg_players (grp_view w g)" using assms by (simp add: grp_view_def)
  have "(\<forall>fd \<in> set (gr_players g). \<not> bad_seat (gr_game g) (gp_sprite (sprite_at w' fd))) =
    (\<forall>fd \<in> set (gr_players g). \<not> bad_seat (gr_game g) (gp_sprite (sprite_at w fd)))" using assms by simp
  moreover have "same_seats (grp_view w' g) x = same_seats (grp_view w g) x" for x by (simp only: same_seats_def v)
  moreover have "map (\<lambda>fd. sp_pos_id (gp_sprite (sprite_at w' fd))) (gr_players g) = map (\<lambda>fd. sp_pos_id (gp_sprite (sprite_at w fd))) (gr_players g)"
    using assms by simp
  ultimately show ?thesis by (simp only: phase_ok_def)
qed

lemma agree_seats:
  assumes "\<forall>fd \<in> set (grp_fds g). sv_sprites w' fd = sv_sprites w fd" and "members_of w' gid = members_of w gid"
  shows "seats_ok w' gid g = seats_ok w gid g"
  using assms by (simp add: seats_ok_def)

lemma core_local:
  assumes c: "core mp ok libs D w" and w': "wheel_ok w'" "tw_now w' = tw_now w" "conn_ok w'" "ids_ok w'" "own_ok w'"
    and "D \<subseteq> D'"
    and g: "\<And>gid. gid \<notin> D' \<Longrightarrow> sv_groups w' gid = sv_groups w gid \<and> members_of w' gid = members_of w gid \<and>
      (\<forall>fd \<in> members_of w gid. sv_sprites w' fd = sv_sprites w fd)"
  shows "core mp ok libs D' w'"
proof -
  have "case sv_groups w' gid of None \<Rightarrow> members_of w' gid = {} | Some g \<Rightarrow> seats_ok w' gid g \<and> phase_ok mp ok libs w' g"
    if gid: "gid \<notin> D'" for gid
  proof (cases "sv_groups w gid")
    case None
    have "gid \<notin> D" using gid assms(7) by blast
    then show ?thesis using coreD(6) [OF c _ None] g [OF gid] None by simp
  next
    case (Some x)
    have "gid \<notin> D" using gid assms(7) by blast
    note S = coreD(7,8) [OF c this Some]
    have "\<forall>fd \<in> set (grp_fds x). sv_sprites w' fd = sv_sprites w fd" using S(1) g [OF gid] unfolding seats_ok_def by blast
    with agree_phase [of x w' w] agree_seats [OF this] g [OF gid] S Some show ?thesis by simp
  qed
  then show ?thesis using w' coreD(2) [OF c] unfolding core_def by simp
qed

text \<open>What remains when the sprites in \<open>X\<close> have left.\<close>

definition left_by :: "nat set \<Rightarrow> ('g, 'pkg) server \<Rightarrow> ('g, 'pkg) server \<Rightarrow> bool" where
  "left_by X w w' \<longleftrightarrow> cb_step\<^sup>*\<^sup>* w w' \<and> tw_now w' = tw_now w \<and> sv_groups w' = sv_groups w \<and>
     (\<forall>x. x \<notin> X \<longrightarrow> sv_sprites w' x = sv_sprites w x \<and> sv_cn w' x = sv_cn w x) \<and>
     (\<forall>x \<in> X. \<forall>q. sv_sprites w' x = Some q \<longrightarrow> gp_group q = None) \<and>
     (\<forall>x q. sv_sprites w' x = Some q \<longrightarrow> (\<exists>p. sv_sprites w x = Some p \<and> sp_id (gp_sprite q) = sp_id (gp_sprite p))) \<and>
     (\<forall>a t. active w' a = Some t \<longrightarrow> active w a = Some t)"

lemma left_byD:
  assumes "left_by X w w'"
  shows "cb_step\<^sup>*\<^sup>* w w'" "tw_now w' = tw_now w" "sv_groups w' = sv_groups w" "x \<notin> X \<Longrightarrow> sv_sprites w' x = sv_sprites w x"
    "x \<in> X \<Longrightarrow> sv_sprites w' x = Some q \<Longrightarrow> gp_group q = None" "active w' a = Some t \<Longrightarrow> active w a = Some t"
    "x \<notin> X \<Longrightarrow> sv_cn w' x = sv_cn w x"
    "sv_sprites w' x = Some q \<Longrightarrow> \<exists>p. sv_sprites w x = Some p \<and> sp_id (gp_sprite q) = sp_id (gp_sprite p)"
  using assms by (simp_all add: left_by_def)

lemma left_by_limits: "left_by X w w' \<Longrightarrow> no_new_limits w w'"
  by (simp add: left_by_def no_new_limits_def)

lemma left_by_trans:
  assumes f: "left_by X w1 w2" and s: "left_by Y w2 w3"
  shows "left_by (X \<union> Y) w1 w3"
proof -
  have "gp_group q = None" if "x \<in> X \<union> Y" "sv_sprites w3 x = Some q" for x q
    using that left_byD(5) [OF f, of x q] left_byD(5) [OF s, of x q] left_byD(4) [OF s, of x] by (cases "x \<in> Y") auto
  moreover have "\<exists>p. sv_sprites w1 x = Some p \<and> sp_id (gp_sprite q) = sp_id (gp_sprite p)" if "sv_sprites w3 x = Some q" for x q
    using left_byD(8) [OF s that] left_byD(8) [OF f, of x] by fastforce
  ultimately show ?thesis using f s unfolding left_by_def by auto
qed

section \<open>Connections\<close>

lemma last_open_ge: "cn k \<Longrightarrow> k \<le> n \<Longrightarrow> k \<le> last_open cn n"
  by (induction n) (auto simp: le_Suc_eq)

lemma last_open_le: "last_open cn n \<le> n"
  by (induction n) auto

lemma open_finite:
  assumes "conn_ok w"
  shows "finite {fd. sv_cn w fd}" and "sv_count w \<le> sv_fdmax w" and "sv_cn w fd \<Longrightarrow> 0 < sv_count w"
proof -
  have s: "{fd. sv_cn w fd} \<subseteq> {1..sv_fdmax w}" using assms by (auto simp: conn_ok_def)
  then show f: "finite {fd. sv_cn w fd}" using finite_subset by blast
  show "sv_count w \<le> sv_fdmax w" using card_mono [OF _ s] assms by (simp add: conn_ok_def)
  show "sv_cn w fd \<Longrightarrow> 0 < sv_count w" using f assms by (auto simp: conn_ok_def card_gt_0_iff)
qed

lemma sprite_open: "conn_ok w \<Longrightarrow> sv_sprites w fd \<noteq> None \<Longrightarrow> sv_cn w fd \<and> fd \<le> sv_fdmax w \<and> 1 \<le> fd \<and> fd < MAXFDS"
  unfolding conn_ok_def by (meson le_less_trans)

lemma by_fd: "conn_ok w \<Longrightarrow> get_sprite_by_fd fd w = sv_sprites w fd"
  using sprite_open [of w fd] by (cases "sv_sprites w fd") (auto simp: get_sprite_by_fd_def)

lemma timer_own_cong:
  assumes "timer_own w t" and "tw_now w' = tw_now w" and "sv_groups w' = sv_groups w"
    and "\<And>fd p. tm_list t = Some (sprite_timers fd) \<Longrightarrow> sv_sprites w fd = Some p \<Longrightarrow> gp_group p \<noteq> None \<Longrightarrow> sv_sprites w' fd = Some p"
  shows "timer_own w' t"
  using assms unfolding timer_own_def by metis

lemma close_ok:
  assumes c: "core mp ok libs D w" and p: "\<And>p. sv_sprites w fd = Some p \<Longrightarrow> gp_group p = None"
  shows "\<exists>w'. handle_close fd w = Some w' \<and> core mp ok libs D w' \<and> left_by {fd} w w' \<and> sv_sprites w' fd = None \<and>
    active w' = active w \<and> sv_sent w' = sv_sent w"
proof (cases "sv_cn w fd")
  case False
  then have "sv_sprites w fd = None" using sprite_open [OF coreD(3) [OF c], of fd] by blast
  with False c show ?thesis by (auto simp: handle_close_def left_by_def)
next
  case True
  note C = coreD(3) [OF c, unfolded conn_ok_def]
  have le: "1 \<le> fd" "fd \<le> sv_fdmax w" using C True by auto
  let ?cn = "(sv_cn w)(fd := False)"
  define v where "v = (del_sprite_by_fd fd w)\<lparr>sv_cn := ?cn, sv_fdmax := (if sv_fdmax w = fd then last_open ?cn (fd - 1) else sv_fdmax w),
              sv_count := sv_count w - 1\<rparr>"
  have d: "sv_sprites v = (sv_sprites w)(fd := None)" "sv_groups v = sv_groups w" "tw_heap v = tw_heap w" "tw_lists v = tw_lists w"
    "tw_vec v = tw_vec w" "tw_baseid v = tw_baseid w" "tw_now v = tw_now w" "set (sv_ids v) = set (sv_ids w) - {fd}" "distinct (sv_ids v)"
    using coreD(4) [OF c] by_fd [OF coreD(3) [OF c], of fd]
    by (auto simp: v_def del_sprite_by_fd_def del_sprite_def ids_ok_def split: option.splits)
  have s: "sv_sprites v x = (if x = fd then None else sv_sprites w x)" for x using fun_cong [OF d(1), of x] by simp
  have h: "handle_close fd w = Some v"
    using True le open_finite(2) [OF coreD(3) [OF c]] open_finite(3) [OF coreD(3) [OF c] True]
    by (simp add: v_def handle_close_def del_sprite_by_fd_def del_sprite_def Let_def split: option.split)
  have f: "sv_cn v x \<longleftrightarrow> x \<noteq> fd \<and> sv_cn w x" "sv_count v = sv_count w - 1"
    "sv_fdmax v = (if sv_fdmax w = fd then last_open ?cn (fd - 1) else sv_fdmax w)" for x by (simp_all add: v_def)
  have "Collect (sv_cn v) = Collect (sv_cn w) - {fd}" by (auto simp: f(1))
  then have "card (Collect (sv_cn v)) = sv_count w - 1" using open_finite(1) [OF coreD(3) [OF c]] True C by simp
  moreover have "k \<le> last_open ?cn (fd - 1)" if "sv_fdmax w = fd" "?cn k" for k
    using last_open_ge [where cn = ?cn and k = k and n = "fd - 1"] that C by (fastforce split: if_splits)
  moreover have "last_open ?cn (fd - 1) < MAXFDS" using last_open_le [of ?cn "fd - 1"] le C by linarith
  ultimately have co: "conn_ok v" using C unfolding conn_ok_def by (auto simp: s f split: if_splits)
  have io: "ids_ok v" using coreD(4) [OF c] d(8,9) unfolding ids_ok_def s by auto
  have a: "active v = active w" by (rule active_cong) (rule d(3))
  have "timer_own v t" if "timer_own w t" for t
    by (rule timer_own_cong [OF that d(7,2)]) (use p in \<open>auto simp: s\<close>)
  then have oo: "own_ok v" using coreD(5) [OF c] unfolding own_ok_def a d(2) by blast
  have m: "members_of v gid = members_of w gid" "fd \<notin> members_of w gid" for gid
    using p by (auto simp: members_of_def s split: if_splits)
  have wo: "wheel_ok v" using coreD(1) [OF c] wheel_cong [OF d(3-5)] by simp
  have g: "sv_groups v gid = sv_groups w gid \<and> members_of v gid = members_of w gid \<and>
      (\<forall>x \<in> members_of w gid. sv_sprites v x = sv_sprites w x)" for gid
    using m d(2) s by metis
  have "core mp ok libs D v" by (rule core_local [OF c wo d(7) co io oo subset_refl g])
  moreover have "left_by {fd} w v" using rest_step [OF d(3-7)] d(2,7) s a f(1) by (simp add: left_by_def)
  moreover have "sv_sent v = sv_sent w" by (simp add: v_def del_sprite_by_fd_def del_sprite_def split: option.split)
  ultimately show ?thesis using h a s by (intro exI [of _ v]) simp
qed

lemma fin_ok:
  assumes c: "core mp ok libs D w" and p: "\<And>p. sv_sprites w fd = Some p \<Longrightarrow> gp_group p = None"
  shows "\<exists>w'. shm_fin fd w = Some w' \<and> core mp ok libs D w' \<and> left_by {fd} w w' \<and> sv_sprites w' fd = None \<and> active w' = active w"
proof -
  from close_ok [OF assms] obtain w1 where w1: "handle_close fd w = Some w1" "core mp ok libs D w1" "left_by {fd} w w1"
    "sv_sprites w1 fd = None" "active w1 = active w" by blast
  note Q = quiet_core [OF quiet_sent [of w1 "sv_sent w1 @ [FinTo fd]"] w1(2)]
  have "left_by {fd} w (w1\<lparr>sv_sent := sv_sent w1 @ [FinTo fd]\<rparr>)"
    using w1(3) Q(2,3) by (auto simp: left_by_def intro: rtranclp_trans)
  with w1 Q show ?thesis by (simp add: shm_fin_def)
qed

lemma del_conn_ok:
  assumes c: "core mp ok libs D w" and p: "sv_sprites w fd = Some p" "gp_group p = None"
  shows "\<exists>w'. del_sprite_conn fd w = Some w' \<and> core mp ok libs D w' \<and> left_by {fd} w w' \<and> sv_sprites w' fd = None \<and> active w' = active w"
proof -
  have "fd \<le> sv_fdmax w" using sprite_open [OF coreD(3) [OF c], of fd] p by simp
  then show ?thesis using fin_ok [OF c, of fd] close_ok [OF c, of fd] p by (auto simp: del_sprite_conn_def)
qed

section \<open>Leaving a group\<close>

text \<open>A sprite that no timer is left for gives up its group.\<close>

lemma detach_ok:
  assumes c: "core mp ok libs D w" and D: "gid \<in> D" and p: "sv_sprites w fd = Some p" "gp_group p = Some gid"
    and w': "wheel_ok w'" "tw_now w' = tw_now w" "sv_sprites w' = (sv_sprites w)(fd \<mapsto> p\<lparr>gp_group := None\<rparr>)" "sv_groups w' = sv_groups w"
      "sv_ids w' = sv_ids w" "sv_cn w' = sv_cn w" "sv_fdmax w' = sv_fdmax w" "sv_count w' = sv_count w" "cb_step\<^sup>*\<^sup>* w w'"
    and a: "\<And>a. active w' a = (case active w a of None \<Rightarrow> None | Some t \<Rightarrow> if tm_list t = Some (sprite_timers fd) then None else Some t)"
  shows "core mp ok libs D w' \<and> left_by {fd} w w'"
proof -
  have act: "active w' b = Some t \<longleftrightarrow> active w b = Some t \<and> tm_list t \<noteq> Some (sprite_timers fd)" for b t
    using a [of b] by (auto split: option.splits if_splits)
  have s: "sv_sprites w' x = (if x = fd then Some (p\<lparr>gp_group := None\<rparr>) else sv_sprites w x)" for x using w'(3) by simp
  have io: "ids_ok w'" using coreD(4) [OF c] p unfolding ids_ok_def w'(5) s by (auto split: if_splits) 
  have co: "conn_ok w'" using coreD(3) [OF c] p unfolding conn_ok_def w'(6-8) s by (auto split: if_splits)
  have "timer_own w' t" if "active w' b = Some t" for b t
  proof (rule timer_own_cong [OF _ w'(2,4)])
    show "timer_own w t" using coreD(5) [OF c] that unfolding act own_ok_def by blast
    show "sv_sprites w' x = Some q" if "tm_list t = Some (sprite_timers x)" "sv_sprites w x = Some q" "gp_group q \<noteq> None" for x q
      using that \<open>active w' b = Some t\<close> by (auto simp: act s)
  qed
  then have oo: "own_ok w'" using coreD(5) [OF c] unfolding own_ok_def w'(4) act by (metis option.inject timers_distinct(2))
  have "sv_groups w' g = sv_groups w g \<and> members_of w' g = members_of w g \<and> (\<forall>x \<in> members_of w g. sv_sprites w' x = sv_sprites w x)"
    if "g \<notin> D" for g
    using that D p w'(4) by (auto simp: members_of_def s)
  with core_local [OF c w'(1,2) co io oo subset_refl] have "core mp ok libs D w'" by blast
  then show ?thesis using w'(2,4,6,9) p(1) by (simp add: left_by_def s act)
qed

lemma player_exit_ok:
  assumes c: "core mp ok libs D w" and D: "gid \<in> D" and p: "sv_sprites w fd = Some p" "gp_group p = Some gid"
  shows "\<exists>w'. player_exit fd w = Some w' \<and> core mp ok libs D w' \<and> left_by {fd} w w'"
proof -
  let ?w1 = "upd_sprite fd (\<lambda>p. p\<lparr>gp_group := None\<rparr>) w"
  let ?w2 = "remove_timers (sprite_timers fd) ?w1"
  have wo: "wheel_ok ?w1" using coreD(1) [OF c] wheel_cong [of ?w1 w] by simp
  note R = remove_timers_ok(1) [OF wo] remove_timers_active(1) [OF wo] server_eq_iff [OF remove_timers_active(2) [OF wo]]
  have n: "tw_now ?w2 = tw_now w" using remove_timers_ok(2) [OF wo] by (simp add: grows_def)
  have st: "cb_step\<^sup>*\<^sup>* w ?w2" using rest_step [of ?w1 w] cb_remove_all [of ?w1] by (simp add: rtranclp.rtrancl_into_rtrancl)
  have a1: "active ?w1 = active w" by (rule active_cong) simp
  have sp: "sv_sprites ?w2 = (sv_sprites w)(fd \<mapsto> p\<lparr>gp_group := None\<rparr>)" using R(3) p by (auto simp: fun_eq_iff)
  have D2: "core mp ok libs D ?w2 \<and> left_by {fd} w ?w2"
    by (rule detach_ok [OF c D p R(1) n sp]) (use R(2,3) a1 st in simp_all)
  show ?thesis
  proof (cases "bit (sp_status (gp_sprite p)) 2 \<or>
      gp_waitcmd p \<notin> {proto_game_score, proto_get_items, proto_card_add_win_lost, proto_set_redclothes}")
    case True
    from del_conn_ok [of mp ok libs D ?w2 fd "p\<lparr>gp_group := None\<rparr>"] D2 sp obtain w' where
      "del_sprite_conn fd ?w2 = Some w'" "core mp ok libs D w'" "left_by {fd} ?w2 w'" by auto
    then show ?thesis using True p left_by_trans [of "{fd}" w ?w2 "{fd}" w'] D2 by (simp add: player_exit_def)
  next
    case False
    then show ?thesis using p D2 by (simp add: player_exit_def)
  qed
qed

lemma watcher_exit_ok:
  assumes c: "core mp ok libs D w" and D: "gid \<in> D" and p: "sv_sprites w fd = Some p" "gp_group p = Some gid" "\<not> bit (sp_status (gp_sprite p)) 0"
  shows "\<exists>w'. watcher_exit fd w = Some w' \<and> core mp ok libs D w' \<and> left_by {fd} w w'"
proof -
  let ?w1 = "upd_sprite fd (\<lambda>p. p\<lparr>gp_group := None\<rparr>) w"
  have wo: "wheel_ok ?w1" using coreD(1) [OF c] wheel_cong [of ?w1 w] by simp
  have a1: "active ?w1 = active w" by (rule active_cong) simp
  have sp: "sv_sprites ?w1 = (sv_sprites w)(fd \<mapsto> p\<lparr>gp_group := None\<rparr>)" using p by (auto simp: fun_eq_iff)
  have st: "cb_step\<^sup>*\<^sup>* w ?w1" by (rule rest_step) simp_all
  have "tm_list t \<noteq> Some (sprite_timers fd)" if "active w a = Some t" for a t
    using coreD(5) [OF c] that p unfolding own_ok_def timer_own_def by fastforce
  then have "active ?w1 a = (case active w a of None \<Rightarrow> None | Some t \<Rightarrow> if tm_list t = Some (sprite_timers fd) then None else Some t)" for a
    by (simp add: a1 split: option.split)
  then have D1: "core mp ok libs D ?w1 \<and> left_by {fd} w ?w1"
    by (intro detach_ok [OF c D p(1,2) wo _ sp]) (use st in simp_all)
  from del_conn_ok [of mp ok libs D ?w1 fd "p\<lparr>gp_group := None\<rparr>"] D1 sp obtain w' where
    "del_sprite_conn fd ?w1 = Some w'" "core mp ok libs D w'" "left_by {fd} ?w1 w'" by auto
  then show ?thesis using p left_by_trans [of "{fd}" w ?w1 "{fd}" w'] D1 by (simp add: watcher_exit_def)
qed


section \<open>The end of a game\<close>

lemma exits_ok:
  assumes f: "\<And>fd w. core mp ok libs D w \<Longrightarrow> Q fd (sv_sprites w fd) \<Longrightarrow> \<exists>w'. f fd w = Some w' \<and> core mp ok libs D w' \<and> left_by {fd} w w'"
    and "core mp ok libs D w" and "distinct xs" and "\<forall>fd \<in> set xs. Q fd (sv_sprites w fd)"
  shows "\<exists>w'. fold_opt f xs w = Some w' \<and> core mp ok libs D w' \<and> left_by (set xs) w w'"
  using assms(2-)
proof (induction xs arbitrary: w)
  case Nil
  then show ?case by (simp add: left_by_def)
next
  case (Cons x xs)
  from f [OF Cons.prems(1), of x] Cons.prems(3) obtain w1 where w1: "f x w = Some w1" "core mp ok libs D w1" "left_by {x} w w1" by auto
  have "\<forall>fd \<in> set xs. Q fd (sv_sprites w1 fd)"
    using Cons.prems(2,3) left_byD(4) [OF w1(3)] by (metis distinct.simps(2) list.set_intros(2) singletonD)
  with Cons.IH [OF w1(2)] Cons.prems(2) obtain w' where
    "fold_opt f xs w1 = Some w'" "core mp ok libs D w'" "left_by (set xs) w1 w'" by auto
  then show ?case using w1(1) left_by_trans [OF w1(3), of "set xs" w'] by simp
qed

lemma all_exit_ok:
  assumes c: "core mp ok libs D w" and D: "gid \<in> D" and s: "seats_ok w gid g"
  shows "\<exists>w'. all_exit_group g w = Some w' \<and> core mp ok libs D w' \<and> left_by (set (grp_fds g)) w w'"
proof -
  have m: "\<exists>p. sv_sprites w fd = Some p \<and> gp_group p = Some gid" if "fd \<in> set (grp_fds g)" for fd
    using s that by (auto simp: seats_ok_def members_of_def)
  have d: "distinct (gr_players g)" "distinct (gr_watchers g)" using s by (simp_all add: seats_ok_def)
  have "\<forall>fd \<in> set (gr_players g). \<exists>p. sv_sprites w fd = Some p \<and> gp_group p = Some gid" using m by simp
  then have "\<exists>w'. fold_opt player_exit (gr_players g) w = Some w' \<and> core mp ok libs D w' \<and> left_by (set (gr_players g)) w w'"
    using player_exit_ok [OF _ D] by (intro exits_ok [where Q = "\<lambda>fd q. \<exists>p. q = Some p \<and> gp_group p = Some gid"] c d(1)) blast+
  then obtain w1 where w1: "fold_opt player_exit (gr_players g) w = Some w1" "core mp ok libs D w1" "left_by (set (gr_players g)) w w1" by blast
  have "\<exists>p. sv_sprites w1 fd = Some p \<and> gp_group p = Some gid \<and> \<not> bit (sp_status (gp_sprite p)) 0" if "fd \<in> set (gr_watchers g)" for fd
  proof -
    have "fd \<notin> set (gr_players g)" "\<not> bit (status_at w fd) 0" using s that by (auto simp: seats_ok_def)
    then show ?thesis using m [of fd] left_byD(4) [OF w1(3)] that by fastforce
  qed
  then have "\<exists>w'. fold_opt watcher_exit (gr_watchers g) w1 = Some w' \<and> core mp ok libs D w' \<and> left_by (set (gr_watchers g)) w1 w'"
    using watcher_exit_ok [OF _ D]
    by (intro exits_ok [where Q = "\<lambda>fd q. \<exists>p. q = Some p \<and> gp_group p = Some gid \<and> \<not> bit (sp_status (gp_sprite p)) 0"] w1(2) d(2)) blast+
  then obtain w2 where w2: "fold_opt watcher_exit (gr_watchers g) w1 = Some w2" "core mp ok libs D w2" "left_by (set (gr_watchers g)) w1 w2" by blast
  show ?thesis using w1(1) w2 left_by_trans [OF w1(3) w2(3)] by (simp add: all_exit_group_def)
qed

text \<open>The group without members goes, with its timers.\<close>

lemma free_ok:
  assumes c: "core mp ok libs D w" and m: "members_of w gid = {}"
  shows "core mp ok libs (D - {gid}) (free_game_group gid w)" "cb_step\<^sup>*\<^sup>* w (free_game_group gid w)"
    "sv_sprites (free_game_group gid w) = sv_sprites w" "sv_groups (free_game_group gid w) = (sv_groups w)(gid := None)"
    "tw_now (free_game_group gid w) = tw_now w" "active (free_game_group gid w) a = Some t \<Longrightarrow> active w a = Some t"
    "sv_cn (free_game_group gid w) = sv_cn w"
proof -
  let ?w1 = "remove_timers (group_timers gid) w" and ?w = "free_game_group gid w"
  note wo = coreD(1) [OF c]
  note R = remove_timers_ok(1) [OF wo] remove_timers_active(1) [OF wo] server_eq_iff [OF remove_timers_active(2) [OF wo]]
  have n1: "tw_now ?w1 = tw_now w" using remove_timers_ok(2) [OF wo] by (simp add: grows_def)
  have e: "tw_heap ?w = tw_heap ?w1" "tw_lists ?w = tw_lists ?w1" "tw_vec ?w = tw_vec ?w1" "tw_baseid ?w = tw_baseid ?w1" "tw_now ?w = tw_now ?w1"
    by (simp_all add: free_game_group_def)
  show n: "tw_now ?w = tw_now w" using e(5) n1 by simp
  show s: "sv_sprites ?w = sv_sprites w" using R(3) [of "group_timers gid"] by (simp add: free_game_group_def)
  show "sv_cn ?w = sv_cn w" using R(3) [of "group_timers gid"] by (simp add: free_game_group_def)
  show g: "sv_groups ?w = (sv_groups w)(gid := None)" by (simp add: free_game_group_def)
  show "cb_step\<^sup>*\<^sup>* w ?w" using cb_remove_all [of w "group_timers gid"] rest_step [OF e] by (simp add: converse_rtranclp_into_rtranclp)
  have act: "active ?w b = Some t \<longleftrightarrow> active w b = Some t \<and> tm_list t \<noteq> Some (group_timers gid)" for b t
    using R(2) [of "group_timers gid" b] active_cong [OF e(1)] by (auto split: option.splits if_splits)
  then show "active ?w a = Some t \<Longrightarrow> active w a = Some t" by blast
  have "timer_own ?w t" if "active ?w b = Some t" for b t
  proof -
    have "timer_own w t" "tm_list t \<noteq> Some (group_timers gid)" using that coreD(5) [OF c] unfolding act own_ok_def by blast+
    then show ?thesis unfolding timer_own_def n s g by (metis fun_upd_other option.inject)
  qed
  then have oo: "own_ok ?w" using coreD(5) [OF c] unfolding own_ok_def g act
    by (metis fun_upd_apply option.distinct(1) option.inject timers_distinct(4))
  have wo': "wheel_ok ?w" using R(1) wheel_cong [OF e(1-3)] by simp
  have f: "sv_ids ?w = sv_ids w" "sv_cn ?w = sv_cn w" "sv_fdmax ?w = sv_fdmax w" "sv_count ?w = sv_count w"
    using R(3) [of "group_timers gid"] by (simp_all add: free_game_group_def)
  have mo: "members_of ?w x = members_of w x" for x by (simp add: members_of_def s)
  have "core mp ok libs (insert gid D) ?w"
    by (rule core_local [OF c wo' n _ _ oo])
      (use coreD(3,4) [OF c] mo in \<open>auto simp: conn_ok_def ids_ok_def s g f\<close>)
  then show "core mp ok libs (D - {gid}) ?w" using g m mo unfolding core_def by (auto split: option.splits)
qed

lemma upd_group_ok:
  assumes c: "core mp ok libs D w" and g: "sv_groups w gid = Some g" and D: "gid \<in> D" and f: "gr_game (f g) = gr_game g"
  shows "core mp ok libs D (upd_group gid f w)" "cb_step\<^sup>*\<^sup>* w (upd_group gid f w)" "active (upd_group gid f w) = active w"
proof -
  let ?w = "upd_group gid f w"
  show a: "active ?w = active w" by (rule active_cong) simp
  show "cb_step\<^sup>*\<^sup>* w ?w" by (rule rest_step) simp_all
  have "timer_own ?w t" if "timer_own w t" for t
    using that g f unfolding timer_own_def by (auto simp: upd_group_def)
  then have oo: "own_ok ?w" using coreD(5) [OF c] g unfolding own_ok_def a by (auto split: if_splits)
  have "wheel_ok ?w" using coreD(1) [OF c] wheel_cong [of ?w w] by simp
  moreover have "members_of ?w x = members_of w x" for x by (simp add: members_of_def)
  ultimately show "core mp ok libs D ?w"
    by (intro core_local [OF c _ _ _ _ oo]) (use coreD(3,4) [OF c] D in \<open>auto simp: conn_ok_def ids_ok_def\<close>)
qed

lemma end_ok:
  assumes c: "core mp ok libs {gid} w" and g: "sv_groups w gid = Some g" and s: "seats_ok w gid g"
    and r: "p \<noteq> None \<or> reason \<noteq> GER_player_offline"
  shows "\<exists>w'. end_multiplayer_game gid p reason w = Some w' \<and> core mp ok libs {} w' \<and> cb_step\<^sup>*\<^sup>* w w' \<and> tw_now w' = tw_now w \<and>
    sv_groups w' = (sv_groups w)(gid := None) \<and>
    (\<forall>fd \<in> set (grp_fds g). \<forall>q. sv_sprites w' fd = Some q \<longrightarrow> gp_group q = None) \<and>
    (\<forall>fd. fd \<notin> set (grp_fds g) \<longrightarrow> sv_sprites w' fd = sv_sprites w fd \<and> sv_cn w' fd = sv_cn w fd) \<and>
    (\<forall>x q. sv_sprites w' x = Some q \<longrightarrow> (\<exists>p. sv_sprites w x = Some p \<and> sp_id (gp_sprite q) = sp_id (gp_sprite p))) \<and>
    (\<forall>a t. active w' a = Some t \<longrightarrow> active w a = Some t)"
proof -
  have "\<exists>fds x. game_end_response g p reason w = Some (send_to fds x w)"
    using r by (cases p) (auto simp: game_end_response_def Let_def)
  then obtain fds x where e: "game_end_response g p reason w = Some (send_to fds x w)" by blast
  let ?w1 = "send_to fds x w"
  note Q = quiet_core [OF quiet_send [of w fds x] c]
  have w1: "sv_groups ?w1 = sv_groups w" "sv_sprites ?w1 = sv_sprites w" "tw_now ?w1 = tw_now w" "sv_cn ?w1 = sv_cn w" by (simp_all add: send_to_def)
  let ?f = "\<lambda>g. g\<lparr>gr_flag := unset_bit 0 (unset_bit 1 (gr_flag g)), gr_handler := None\<rparr>"
  let ?w2 = "upd_group gid ?f ?w1"
  have U: "core mp ok libs {gid} ?w2" "cb_step\<^sup>*\<^sup>* ?w1 ?w2" "active ?w2 = active ?w1"
    using upd_group_ok [OF Q(1), of gid g ?f] g w1(1) by simp_all
  have s2: "seats_ok ?w2 gid g" using agree_seats [of g ?w2 w gid] s w1 by (simp add: members_of_def)
  from all_exit_ok [OF U(1) singletonI s2] obtain w3 where
    w3: "all_exit_group g ?w2 = Some w3" "core mp ok libs {gid} w3" "left_by (set (grp_fds g)) ?w2 w3" by blast
  have m: "members_of w3 gid = {}"
    using s2 left_byD(4,5) [OF w3(3)] unfolding seats_ok_def members_of_def by (smt (verit) Collect_empty_eq mem_Collect_eq option.distinct(1))
  note F = free_ok [OF w3(2) m]
  have r: "end_multiplayer_game gid p reason w = Some (free_game_group gid w3)"
    using g e w3(1) by (simp add: end_multiplayer_game_def)
  have st: "cb_step\<^sup>*\<^sup>* w (free_game_group gid w3)"
    using Q(2) U(2) left_byD(1) [OF w3(3)] F(2) by (meson rtranclp_trans)
  have gr: "sv_groups (free_game_group gid w3) = (sv_groups w)(gid := None)"
    using F(4) left_byD(3) [OF w3(3)] w1(1) by (auto simp: fun_eq_iff)
  have ac: "active w a = Some t" if "active (free_game_group gid w3) a = Some t" for a t
    using left_byD(6) [OF w3(3) F(6) [OF that]] U(3) Q(3) by simp
  show ?thesis
    by (intro exI [of _ "free_game_group gid w3"] conjI r st gr allI ballI impI)
      (use F(1,3,5,7) left_byD(2,4,5,7,8) [OF w3(3)] w1 ac in auto)
qed

end
