(* ===== verification/ServerPlay.thy ===== *)
theory ServerPlay
  imports ServerEnd
begin

text \<open>
  The calls of the games keep the invariant, and leaving a game: proved for every game that obeys
  the laws of \<open>game_plugin\<close>.
\<close>

lemma core_mono: "core mp ok libs D w \<Longrightarrow> D \<subseteq> D' \<Longrightarrow> core mp ok libs D' w"
  unfolding core_def by blast

lemma core_close:
  assumes c: "core mp ok libs {gid} w" and "sv_groups w gid = Some g" "seats_ok w gid g" "phase_ok mp ok libs w g"
  shows "core mp ok libs {} w"
proof -
  have "case sv_groups w x of None \<Rightarrow> members_of w x = {} | Some g \<Rightarrow> seats_ok w x g \<and> phase_ok mp ok libs w g" for x
    using c assms(2-4) by (cases "x = gid") (auto simp: core_def)
  then show ?thesis using c by (simp add: core_def)
qed

lemma member_sprite: "seats_ok w gid g \<Longrightarrow> fd \<in> set (grp_fds g) \<Longrightarrow> \<exists>p. sv_sprites w fd = Some p \<and> gp_group p = Some gid"
  by (auto simp: seats_ok_def members_of_def)

lemma id_unique: "ids_ok w \<Longrightarrow> seats_ok w gid g \<Longrightarrow> fd \<in> set (grp_fds g) \<Longrightarrow> fd' \<in> set (grp_fds g) \<Longrightarrow> id_at w fd = id_at w fd' \<Longrightarrow> fd = fd'"
  using member_sprite [of w gid g fd] member_sprite [of w gid g fd'] unfolding ids_ok_def by force

lemma members_view: "members (grp_view w g) = map (\<lambda>fd. gp_sprite (sprite_at w fd)) (grp_fds g)"
  by (simp add: members_def grp_view_def)

lemma view_fields [simp]:
  "gg_players (grp_view w g) = map (\<lambda>fd. gp_sprite (sprite_at w fd)) (gr_players g)"
  "gg_watchers (grp_view w g) = map (\<lambda>fd. gp_sprite (sprite_at w fd)) (gr_watchers g)" "gg_flag (grp_view w g) = gr_flag g"
  by (simp_all add: grp_view_def)

lemma view_member: "p \<in> set (members (grp_view w g)) \<Longrightarrow> \<exists>fd \<in> set (grp_fds g). p = gp_sprite (sprite_at w fd)"
  unfolding members_view by auto

lemma seated_view:
  assumes i: "ids_ok w" and s: "seats_ok w gid g"
  shows "seated (grp_view w g)"
proof -
  have sp: "sv_sprites w fd \<noteq> None" if "fd \<in> set (grp_fds g)" for fd using member_sprite [OF s that] by auto
  have "inj_on (id_at w) (set (grp_fds g))" by (rule inj_onI) (use id_unique [OF i s] in blast)
  then have "distinct (map sp_id (members (grp_view w g)))"
    using s by (simp add: members_view seats_ok_def distinct_map comp_def image_Un flip: image_image) (auto simp: inj_on_def)
  moreover have "sp_id p \<noteq> 0" if "p \<in> set (members (grp_view w g))" for p
  proof -
    from view_member [OF that] obtain fd where fd: "fd \<in> set (grp_fds g)" "p = gp_sprite (sprite_at w fd)" by blast
    then show ?thesis using member_sprite [OF s fd(1)] i by (auto simp: ids_ok_def)
  qed
  ultimately show ?thesis using s by (auto simp: seated_def seats_ok_def)
qed

section \<open>What a game gives out\<close>

definition out_fits :: "('g, 'pkg) server \<Rightarrow> 'g group_t \<Rightarrow> 'pkg game_out \<Rightarrow> bool" where
  "out_fits w g x \<longleftrightarrow>
     (case x of
        ToSelf p y \<Rightarrow> \<exists>fd \<in> set (grp_fds g). id_at w fd = sp_id p
      | ErrorToSelf p err \<Rightarrow> \<exists>fd \<in> set (grp_fds g). id_at w fd = sp_id p
      | SubmitScore p sc \<Rightarrow> \<exists>fd \<in> set (grp_fds g). id_at w fd = sp_id p
      | RemoveTimer p i \<Rightarrow> \<exists>fd \<in> set (grp_fds g). id_at w fd = sp_id p
      | AddTimer p expire \<Rightarrow> tw_now w < expire \<and> (\<exists>fd \<in> set (gr_players g). id_at w fd = sp_id p)
      | _ \<Rightarrow> True)"

lemma out_fits_view: "out_ok (tw_now w) (grp_view w g) x \<Longrightarrow> out_fits w g x"
  by (cases x) (auto simp: out_fits_def members_view)

lemma out_fits_frame:
  assumes f: "sv_frame w w'" and s: "seats_ok w gid g" and x: "out_fits w g x"
  shows "out_fits w' g x"
proof -
  have e: "id_at w' fd = id_at w fd" if "fd \<in> set (grp_fds g)" for fd
    using frame_at [OF f seats_sprite [OF s that]] by (simp add: same_sprite_def)
  moreover have "tw_now w' = tw_now w" using f by (simp add: sv_frame_def)
  ultimately show ?thesis using x by (cases x) (auto simp: out_fits_def)
qed

lemma find_in: "find P xs = Some x \<Longrightarrow> x \<in> set xs \<and> P x"
  by (induction xs) (auto split: if_splits)

lemma member_fd_ok:
  assumes g: "sv_groups w gid = Some g" and m: "\<exists>fd \<in> set (grp_fds g). id_at w fd = sp_id p"
  shows "\<exists>fd. member_fd w gid p = Some fd \<and> fd \<in> set (grp_fds g) \<and> id_at w fd = sp_id p"
proof -
  have "find (\<lambda>fd. id_at w fd = sp_id p) (grp_fds g) \<noteq> None" using m by (auto simp: find_None_iff)
  then obtain fd where "find (\<lambda>fd. id_at w fd = sp_id p) (grp_fds g) = Some fd" by auto
  then show ?thesis using g find_in [of "\<lambda>fd. id_at w fd = sp_id p" "grp_fds g" fd] by (simp add: member_fd_def)
qed

lemma db_upd_ok:
  assumes "sv_sprites w fd = Some p" and "gp_group p \<noteq> None" and "gp_waitcmd p = proto_game_score"
  shows "\<exists>w' rv. db_upd_game_attr e fd w = Some (w', rv) \<and> quiet w w' \<and> (rv \<noteq> 0 \<longrightarrow> w' = w)"
  using assms by (auto simp: db_upd_game_attr_def upd_game_attr_callback_def Let_def quiet_sent)

lemma submit_ok:
  assumes c: "conn_ok w" and p: "sv_sprites w fd = Some p" "gp_group p \<noteq> None"
  shows "\<exists>w'. submit_game_score e fd sc w = Some w' \<and> quiet w w'"
proof -
  let ?w1 = "upd_sprite fd (pack_game_score (tw_now w) sc) w"
  let ?p = "pack_game_score (tw_now w) sc p"
  have q1: "quiet w ?w1" by (rule quiet_upd_sprite) (simp add: same_sprite_def pack_game_score_def Let_def)
  have s1: "sv_sprites ?w1 fd = Some ?p" "gp_group ?p \<noteq> None" "gp_waitcmd ?p = proto_game_score"
    using p by (simp_all add: pack_game_score_def Let_def)
  from db_upd_ok [OF s1] obtain w2 rv where w2: "db_upd_game_attr e fd ?w1 = Some (w2, rv)" "quiet ?w1 w2" "rv \<noteq> 0 \<longrightarrow> w2 = ?w1" by blast
  have "\<exists>w' rv. get_item_callback e fd ?w1 = Some (w', rv) \<and> quiet w w'"
    using w2 s1(1,2) quiet_trans [OF q1 w2(2)] quiet_trans [OF q1 quiet_waitcmd] by (auto simp: get_item_callback_def)
  then show ?thesis using p sprite_open [OF c, of fd] by (auto simp: submit_game_score_def)
qed

lemma timers_frame: "timers.more w' = timers.more w \<Longrightarrow> tw_now w' = tw_now w \<Longrightarrow> sv_frame w w'"
  using server_eq_iff [of w' w] by (simp add: sv_frame_def option.rel_refl)

lemma remove_out_ok:
  assumes c: "core mp ok libs D w"
  shows "core mp ok libs D (remove_timer (sprite_timers fd) tid w) \<and> sv_frame w (remove_timer (sprite_timers fd) tid w) \<and>
    cb_step\<^sup>*\<^sup>* w (remove_timer (sprite_timers fd) tid w) \<and> no_new_limits w (remove_timer (sprite_timers fd) tid w)"
proof -
  let ?w = "remove_timer (sprite_timers fd) tid w"
  note wo = coreD(1) [OF c]
  note R = remove_timer_ok [OF wo, of "sprite_timers fd" tid]
  have f: "sv_frame w ?w" using timers_frame [OF remove_timer_more [OF wo]] R by (simp add: grows_def)
  have g: "sv_groups ?w = sv_groups w" using f by (simp add: sv_frame_def)
  have "timer_own ?w t" if "active ?w a = Some t" for a t
    using frame_timer_own [OF f] remove_timer_active [OF wo that] coreD(5) [OF c] by (auto simp: own_ok_def)
  moreover have "\<exists>a t. active ?w a = Some t \<and> tm_list t = Some (group_timers gid)" if "sv_groups w gid = Some x" for gid x
  proof -
    from coreD(5) [OF c] that obtain a t where "active w a = Some t" "tm_list t = Some (group_timers gid)" unfolding own_ok_def by blast
    with remove_timer_kept [OF wo this(1), of "sprite_timers fd" tid] show ?thesis by auto
  qed
  ultimately have "own_ok ?w" unfolding own_ok_def g by blast
  from frame_core [OF f c _ this] R have "core mp ok libs D ?w" by blast
  moreover have "no_new_limits w ?w" using remove_timer_active [OF wo] by (auto simp: no_new_limits_def)
  ultimately show ?thesis using f cb_remove [of w "sprite_timers fd" tid] by blast
qed

lemma add_out_ok:
  assumes c: "core mp ok libs D w" and a: "tw_heap w a = None" and p: "sv_sprites w fd = Some p" "gp_group p \<noteq> None" "bit (sp_status (gp_sprite p)) 0"
    and x: "tw_now w < expire"
  defines "w' \<equiv> fst (add_timer_event a (sprite_timers fd) 1 (sprite_timers fd) 0 expire w)"
  shows "core mp ok libs D w' \<and> sv_frame w w' \<and> cb_step\<^sup>*\<^sup>* w w' \<and> no_new_limits w w'"
proof -
  note wo = coreD(1) [OF c]
  have e: "0 < expire" using coreD(2) [OF c] x by linarith
  note A = add_event_active [OF wo a _ e, of 1 "sprite_timers fd" "sprite_timers fd" 0, folded w'_def]
  have st: "cb_step w w'" unfolding w'_def by (rule cb_add [OF a _ e x]) simp
  note W = cb_step_ok [OF st wo]
  have f: "sv_frame w w'" using timers_frame [OF A(2)] W by (simp add: grows_def)
  have g: "sv_groups w' = sv_groups w" using f by (simp add: sv_frame_def)
  have ne: "active w a = None" using a by (simp add: active_def)
  have "timer_own w t" if "active w' b = Some t" for b t
    using that coreD(5) [OF c] p unfolding A(1) [simplified] own_ok_def by (auto simp: timer_own_def split: if_splits)
  then have "timer_own w' t" if "active w' b = Some t" for b t using that frame_timer_own [OF f] by blast
  moreover have "\<exists>b t. active w' b = Some t \<and> tm_list t = Some (group_timers gid)" if "sv_groups w gid = Some x" for gid x
  proof -
    from coreD(5) [OF c] that obtain b t where b: "active w b = Some t" "tm_list t = Some (group_timers gid)" unfolding own_ok_def by blast
    with ne have "b \<noteq> a" by auto
    then have "active w' b = Some t" using A(1) b(1) by simp
    with b(2) show ?thesis by blast
  qed
  ultimately have "own_ok w'" unfolding own_ok_def g by blast
  moreover have "no_new_limits w w'" using A(1) by (auto simp: no_new_limits_def split: if_splits)
  ultimately show ?thesis using frame_core [OF f c] W f st by auto
qed


section \<open>The server and its games\<close>

text \<open>
  What the server relies on: the laws of its games, an allocator that gives a free address, and a
  table of games (the entries with a time limit) that are for two players when a library is named.
\<close>

locale game_server = game_plugin mp ok libs for mp :: "('g, 'pkg) mpog" and ok libs +
  fixes e :: "('g, 'pkg) game_env"
  assumes games_of: "ev_mp e = mp"
    and alloc_free: "ev_alloc e xs \<notin> set xs"
    and confs_ok: "0 < gc_timeout (ev_games e i) \<Longrightarrow> conf_ok libs (ev_games e i)"

text \<open>What a call of the object of group \<open>gid\<close> leaves: only that group is not the same.\<close>

definition called :: "('g, 'pkg) mpog \<Rightarrow> ('g \<Rightarrow> bool) \<Rightarrow> nat set \<Rightarrow> u64 \<Rightarrow> 'g group_t \<Rightarrow> 'g \<Rightarrow> ('g, 'pkg) server \<Rightarrow> ('g, 'pkg) server \<Rightarrow> bool" where
  "called mp ok libs gid g h w w' \<longleftrightarrow> core mp ok libs {gid} w' \<and> cb_step\<^sup>*\<^sup>* w w' \<and> tw_now w' = tw_now w \<and>
     sv_groups w' = (sv_groups w)(gid \<mapsto> g\<lparr>gr_handler := Some h, gr_flag := gg_flag (mp_grp mp h)\<rparr>) \<and>
     seats_ok w' gid (g\<lparr>gr_handler := Some h, gr_flag := gg_flag (mp_grp mp h)\<rparr>) \<and>
     sv_cn w' = sv_cn w \<and> no_new_limits w w' \<and> (\<forall>fd. rel_option same_sprite (sv_sprites w fd) (sv_sprites w' fd))"

context game_server begin

lemma alloc_heap: "wheel_ok w \<Longrightarrow> tw_heap w (ev_alloc e (concat (map (vec_at w) [0..<5]))) = None"
  using heap_listed [of w "ev_alloc e (concat (map (vec_at w) [0..<5]))"] alloc_free by blast

lemma exec_out_ok:
  assumes c: "core mp ok libs D w" and g: "sv_groups w gid = Some g" and s: "seats_ok w gid g" and x: "out_fits w g x"
  shows "\<exists>w'. exec_out e gid x w = Some w' \<and> core mp ok libs D w' \<and> sv_frame w w' \<and> cb_step\<^sup>*\<^sup>* w w' \<and> no_new_limits w w'"
proof -
  have q: "core mp ok libs D w' \<and> sv_frame w w' \<and> cb_step\<^sup>*\<^sup>* w w' \<and> no_new_limits w w'" if "quiet w w'" for w'
    using quiet_core [OF that c] quiet_limits [OF that] that by (simp add: quiet_def)
  show ?thesis
  proof (cases x)
    case (SubmitScore p sc)
    then obtain fd where fd: "member_fd w gid p = Some fd" "fd \<in> set (grp_fds g)"
      using member_fd_ok [OF g, of p] x by (auto simp: out_fits_def)
    from member_sprite [OF s fd(2)] obtain q where "sv_sprites w fd = Some q" "gp_group q = Some gid" by blast
    with submit_ok [OF coreD(3) [OF c], of fd q e sc] obtain w' where "submit_game_score e fd sc w = Some w'" "quiet w w'" by auto
    with q fd(1) SubmitScore g show ?thesis by (auto simp: exec_out_def)
  next
    case (AddTimer p expire)
    with x obtain fd0 where fd0: "fd0 \<in> set (gr_players g)" "id_at w fd0 = sp_id p" and ex: "tw_now w < expire" by (auto simp: out_fits_def)
    with member_fd_ok [OF g, of p] obtain fd where fd: "member_fd w gid p = Some fd" "fd \<in> set (grp_fds g)" "id_at w fd = sp_id p" by auto
    have "fd = fd0" using id_unique [OF coreD(4) [OF c] s fd(2), of fd0] fd(3) fd0 by simp
    then have b: "bit (status_at w fd) 0" using s fd0(1) by (simp add: seats_ok_def)
    from member_sprite [OF s fd(2)] obtain q where "sv_sprites w fd = Some q" "gp_group q = Some gid" by blast
    with add_out_ok [OF c alloc_heap [OF coreD(1) [OF c]], of fd q expire] b ex fd(1) AddTimer g show ?thesis
      by (simp add: exec_out_def)
  next
    case (RemoveTimer p i)
    then obtain fd where "member_fd w gid p = Some fd" using member_fd_ok [OF g, of p] x by (auto simp: out_fits_def)
    with remove_out_ok [OF c, of fd "of_nat i"] RemoveTimer g show ?thesis by (simp add: exec_out_def)
  next
    case (ToSelf p y)
    then obtain fd where "member_fd w gid p = Some fd" using member_fd_ok [OF g, of p] x by (auto simp: out_fits_def)
    with q [OF quiet_reply] ToSelf g show ?thesis by (simp add: exec_out_def)
  next
    case (ErrorToSelf p err)
    then obtain fd where "member_fd w gid p = Some fd" using member_fd_ok [OF g, of p] x by (auto simp: out_fits_def)
    with q [OF quiet_reply] ErrorToSelf g show ?thesis by (simp add: exec_out_def)
  next
    case (DbRequest uid cmd buf)
    with q [OF quiet_sent] q [OF quiet_refl] g show ?thesis by (simp add: exec_out_def)
  qed (use q [OF quiet_send] g in \<open>simp_all add: exec_out_def\<close>)
qed

lemma exec_outs_ok:
  assumes "core mp ok libs D w" and "sv_groups w gid = Some g" and "seats_ok w gid g" and "list_all (out_fits w g) os"
  shows "\<exists>w'. fold_opt (exec_out e gid) os w = Some w' \<and> core mp ok libs D w' \<and> sv_frame w w' \<and> cb_step\<^sup>*\<^sup>* w w' \<and> no_new_limits w w'"
  using assms
proof (induction os arbitrary: w)
  case (Cons x os)
  from exec_out_ok [OF Cons.prems(1-3), of x] Cons.prems(4) obtain w1 where
    w1: "exec_out e gid x w = Some w1" "core mp ok libs D w1" "sv_frame w w1" "cb_step\<^sup>*\<^sup>* w w1" "no_new_limits w w1" by auto
  have g1: "sv_groups w1 gid = Some g" using w1(3) Cons.prems(2) by (simp add: sv_frame_def)
  have "list_all (out_fits w1 g) os" using Cons.prems(4) out_fits_frame [OF w1(3) Cons.prems(3)] by (auto simp: list_all_iff)
  from Cons.IH [OF w1(2) g1 frame_seats [OF w1(3) Cons.prems(3)] this] obtain w2 where
    "fold_opt (exec_out e gid) os w1 = Some w2" "core mp ok libs D w2" "sv_frame w1 w2" "cb_step\<^sup>*\<^sup>* w1 w2" "no_new_limits w1 w2" by blast
  then show ?case using w1 sv_frame_trans [OF w1(3)] rtranclp_trans [OF w1(4)] limits_trans [OF w1(5)] by (intro exI [of _ w2]) simp
qed simp

lemma call_ok:
  assumes c: "core mp ok libs {gid} w" and g: "sv_groups w gid = Some g" and s: "seats_ok w gid g"
    and a: "act h0 = Some (h, os, rv)" and o: "outs_ok (tw_now w) (grp_view w g) os"
  shows "\<exists>w'. call_game e gid act h0 w = Some (w', rv) \<and> called mp ok libs gid g h w w'"
proof -
  let ?f = "\<lambda>g. g\<lparr>gr_handler := Some h, gr_flag := gg_flag (mp_grp mp h)\<rparr>"
  let ?w1 = "upd_group gid ?f w"
  note U = upd_group_ok [OF c g singletonI, of ?f, simplified]
  have g1: "sv_groups ?w1 gid = Some (?f g)" using g by simp
  have s1: "seats_ok ?w1 gid (?f g)" using s by (simp add: seats_ok_def members_of_def)
  have "out_fits ?w1 (?f g) x" if "out_fits w g x" for x using that by (cases x) (auto simp: out_fits_def)
  then have "list_all (out_fits ?w1 (?f g)) os" using o out_fits_view unfolding list_all_iff by blast
  from exec_outs_ok [OF U(1) g1 s1 this] obtain w2 where
    w2: "fold_opt (exec_out e gid) os ?w1 = Some w2" "core mp ok libs {gid} w2" "sv_frame ?w1 w2" "cb_step\<^sup>*\<^sup>* ?w1 w2" "no_new_limits ?w1 w2" by blast
  have gr: "sv_groups w2 = (sv_groups w)(gid \<mapsto> ?f g)" using w2(3) g by (auto simp: sv_frame_def upd_group_def)
  have "no_new_limits w w2" using w2(5) U(3) by (simp add: no_new_limits_def)
  then have "called mp ok libs gid g h w w2" unfolding called_def
    using w2(2,3) gr rtranclp_trans [OF U(2) w2(4)] frame_seats [OF w2(3) s1] by (simp add: sv_frame_def)
  moreover have "call_game e gid act h0 w = Some (w2, rv)" using a w2(1) by (simp add: call_game_def games_of)
  ultimately show ?thesis by blast
qed

lemma called_core:
  assumes "called mp ok libs gid g h w w'" and "phase_ok mp ok libs w' (g\<lparr>gr_handler := Some h, gr_flag := gg_flag (mp_grp mp h)\<rparr>)"
  shows "core mp ok libs {} w'"
  using core_close [of mp ok libs gid w'] assms by (simp add: called_def)

lemma called_phase:
  assumes cl: "called mp ok libs gid g h w w'" and s: "seats_ok w gid g" and p: "conf_ok libs (gr_game g)" "length (gr_watchers g) \<le> 20"
    and h: "ok h" "same_seats (grp_view w g) (mp_grp mp h)" "bit (gg_flag (mp_grp mp h)) 0" "bit (gg_flag (mp_grp mp h)) 1"
  shows "core mp ok libs {} w'"
proof (rule called_core [OF cl])
  have "same_sprite (sprite_at w fd) (sprite_at w' fd)" if "fd \<in> set (gr_players g)" for fd
  proof -
    have "sv_sprites w fd \<noteq> None" using seats_sprite [OF s] that by simp
    moreover have "rel_option same_sprite (sv_sprites w fd) (sv_sprites w' fd)" using cl by (simp add: called_def)
    ultimately show ?thesis by (auto elim: option.rel_cases)
  qed
  then have "same_seats (grp_view w' (g\<lparr>gr_handler := Some h, gr_flag := gg_flag (mp_grp mp h)\<rparr>)) (mp_grp mp h)"
    using h(2) by (simp add: same_seats_def same_sprite_def comp_def cong: map_cong)
  then show "phase_ok mp ok libs w' (g\<lparr>gr_handler := Some h, gr_flag := gg_flag (mp_grp mp h)\<rparr>)"
    using p h by (simp add: phase_ok_def)
qed

lemma on_data_ok:
  assumes c: "core mp ok libs {} w" and p: "sv_sprites w fd = Some p" "gp_group p = Some gid" and g: "sv_groups w gid = Some g"
    and r: "bit (gr_flag g) 0"
  shows "\<exists>w' rv h. on_game_data e fd cmd body w = Some (w', rv) \<and> called mp ok libs gid g h w w' \<and> gg_flag (mp_grp mp h) = gr_flag g \<and>
    (rv \<le> 0 \<longrightarrow> core mp ok libs {} w') \<and> (cmd = proto_player_leave \<and> bit (sp_status (gp_sprite p)) 0 \<longrightarrow> 0 < rv)"
proof -
  have s: "seats_ok w gid g" and ph: "phase_ok mp ok libs w g" using coreD(7,8) [OF c _ g] by auto
  from ph r obtain h0 where h0: "gr_handler g = Some h0" "ok h0" "same_seats (grp_view w g) (mp_grp mp h0)"
    and f1: "bit (gr_flag g) 1" and cf: "conf_ok libs (gr_game g)" "length (gr_watchers g) \<le> 20"
    by (auto simp: phase_ok_def)
  let ?h1 = "mp_set_grp mp (grp_view w g) h0"
  have h1: "ok ?h1" "mp_grp mp ?h1 = grp_view w g" using set_grp_law [OF h0(2,3)] by auto
  have st: "seated (mp_grp mp ?h1)" "GAME_STARTED (mp_grp mp ?h1)"
    using seated_view [OF coreD(4) [OF c] s] h1(2) f1 by (simp_all add: GAME_STARTED_def)
  have "fd \<in> set (grp_fds g)" using s p by (auto simp: seats_ok_def members_of_def)
  then have pm: "gp_sprite p \<in> set (members (mp_grp mp ?h1))" unfolding h1(2) members_view using p(1) by force
  let ?tid = "unat (next_timer_id w)"
  from data_law [OF h1(1) st pm, of "tw_now w" ?tid cmd body] obtain h os rv where
    d: "mp_data mp (tw_now w) ?tid (gp_sprite p) cmd body ?h1 = Some (h, os, rv)" "mp_grp mp h = grp_view w g"
      "outs_ok (tw_now w) (grp_view w g) os" "rv \<le> 0 \<longrightarrow> ok h" unfolding h1(2) by blast
  from call_ok [OF core_mono [OF c] g s, of "mp_data mp (tw_now w) ?tid (gp_sprite p) cmd body", OF _ d(1,3)] obtain w' where
    w': "call_game e gid (mp_data mp (tw_now w) ?tid (gp_sprite p) cmd body) ?h1 w = Some (w', rv)" "called mp ok libs gid g h w w'" by auto
  have "on_game_data e fd cmd body w = Some (w', rv)" using w'(1) p g h0(1) by (simp add: on_game_data_def games_of)
  moreover have "core mp ok libs {} w'" if "rv \<le> 0"
    by (rule called_phase [OF w'(2) s cf]) (use that d r f1 in \<open>auto simp: same_seats_def\<close>)
  moreover have "0 < rv" if "cmd = proto_player_leave" "bit (sp_status (gp_sprite p)) 0"
    using leave_law [OF h1(1) that(2)] d(1) that(1) by blast
  ultimately show ?thesis using w'(2) d(2) by (intro exI [of _ w'] exI [of _ rv] exI [of _ h]) simp
qed

section \<open>Leaving\<close>

lemma swap_out_ok:
  assumes "distinct xs" and "fd \<in> set xs"
  shows "distinct (swap_out fd xs) \<and> set (swap_out fd xs) = set xs - {fd} \<and> length (swap_out fd xs) = length xs - 1"
proof -
  obtain ys zs where xs: "xs = ys @ fd # zs" using assms(2) by (meson split_list)
  then have nf: "\<forall>x\<in>set ys. x \<noteq> fd" using assms(1) by auto
  have "takeWhile (\<lambda>x. x \<noteq> fd) (ys @ fd # zs) = ys @ takeWhile (\<lambda>x. x \<noteq> fd) (fd # zs)"
    by (rule takeWhile_append2) (use nf in blast)
  then have tw: "length (takeWhile (\<lambda>x. x \<noteq> fd) xs) = length ys" unfolding xs by simp
  show ?thesis
  proof (cases zs rule: rev_cases)
    case Nil
    then have "swap_out fd xs = ys" using assms(2) tw xs by (simp add: swap_out_def)
    then show ?thesis using xs assms(1) Nil by auto
  next
    case (snoc vs v)
    then have "swap_out fd xs = ys @ v # vs" using assms(2) tw xs by (simp add: swap_out_def butlast_append)
    then show ?thesis using xs assms(1) snoc by auto
  qed
qed

text \<open>A watcher leaves: its group goes on without it.\<close>

lemma watcher_leaves_ok:
  assumes c: "core mp ok libs {} w" and p: "sv_sprites w fd = Some p" "gp_group p = Some gid" "\<not> bit (sp_status (gp_sprite p)) 0"
    and g: "sv_groups w gid = Some g"
  shows "\<exists>w'. one_exit_group fd gid w = Some w' \<and> core mp ok libs {} w' \<and> cb_step\<^sup>*\<^sup>* w w' \<and> tw_now w' = tw_now w \<and>
    sv_sprites w' fd = None \<and> sv_groups w' = (sv_groups w)(gid \<mapsto> g\<lparr>gr_watchers := swap_out fd (gr_watchers g)\<rparr>) \<and>
    (\<forall>x. x \<noteq> fd \<longrightarrow> sv_sprites w' x = sv_sprites w x \<and> sv_cn w' x = sv_cn w x) \<and> no_new_limits w w'"
proof -
  have s: "seats_ok w gid g" and ph: "phase_ok mp ok libs w g" using coreD(7,8) [OF c _ g] by auto
  have "fd \<in> set (grp_fds g)" using s p by (auto simp: seats_ok_def members_of_def)
  then have m: "fd \<in> set (gr_watchers g)" "fd \<notin> set (gr_players g)" "bit (status_at w fd) 1" using s p by (auto simp: seats_ok_def)
  have dw: "distinct (gr_watchers g)" using s by (simp add: seats_ok_def)
  note S = swap_out_ok [OF dw m(1)]
  let ?f = "\<lambda>g. g\<lparr>gr_watchers := swap_out fd (gr_watchers g)\<rparr>"
  let ?w1 = "upd_group gid ?f w"
  note U = upd_group_ok [OF core_mono [OF c empty_subsetI] g singletonI, of ?f, simplified]
  let ?w2 = "upd_sprite fd (\<lambda>p. p\<lparr>gp_group := None\<rparr>) ?w1"
  have wo: "wheel_ok ?w2" using coreD(1) [OF U(1)] wheel_cong [of ?w2 ?w1] by simp
  have a2: "active ?w2 = active ?w1" by (rule active_cong) simp
  have sp: "sv_sprites ?w2 = (sv_sprites ?w1)(fd \<mapsto> p\<lparr>gp_group := None\<rparr>)" using p by (auto simp: fun_eq_iff)
  have st: "cb_step\<^sup>*\<^sup>* ?w1 ?w2" by (rule rest_step) simp_all
  have "tm_list t \<noteq> Some (sprite_timers fd)" if "active ?w1 a = Some t" for a t
    using coreD(5) [OF U(1)] that p unfolding own_ok_def timer_own_def by fastforce
  then have "active ?w2 a = (case active ?w1 a of None \<Rightarrow> None | Some t \<Rightarrow> if tm_list t = Some (sprite_timers fd) then None else Some t)" for a
    by (simp add: a2 split: option.split)
  then have D2: "core mp ok libs {gid} ?w2 \<and> left_by {fd} ?w1 ?w2"
    by (intro detach_ok [OF U(1) singletonI _ _ wo _ sp]) (use p st in simp_all)
  from del_conn_ok [of mp ok libs "{gid}" ?w2 fd "p\<lparr>gp_group := None\<rparr>"] D2 sp obtain w3 where
    w3: "del_sprite_conn fd ?w2 = Some w3" "core mp ok libs {gid} w3" "left_by {fd} ?w2 w3" "sv_sprites w3 fd = None" by auto
  have nl: "no_new_limits w w3"
    using left_by_limits [OF w3(3)] left_by_limits [of "{fd}" ?w1 ?w2] D2 U(3) by (simp add: no_new_limits_def)
  have so: "sv_sprites w3 x = sv_sprites w x" if "x \<noteq> fd" for x using left_byD(4) [OF w3(3), of x] that by simp
  have gr: "sv_groups w3 = (sv_groups w)(gid \<mapsto> ?f g)" using left_byD(3) [OF w3(3)] g by (auto simp: upd_group_def)
  have mo: "members_of w3 gid = members_of w gid - {fd}"
  proof -
    have "x \<in> members_of w3 gid \<longleftrightarrow> x \<in> members_of w gid \<and> x \<noteq> fd" for x
      using so [of x] w3(4) by (cases "x = fd") (simp_all add: members_of_def)
    then show ?thesis by blast
  qed
  have sp3: "\<forall>x\<in>set (gr_players g). sv_sprites w3 x = sv_sprites w x" by (rule ballI, rule so) (use m(2) in auto)
  have sw3: "\<forall>x\<in>set (gr_watchers g) - {fd}. sv_sprites w3 x = sv_sprites w x" by (rule ballI, rule so) simp
  have s3: "seats_ok w3 gid (?f g)" using s S mo m(2) sp3 sw3 by (auto simp: seats_ok_def)
  have sse: "same_seats (grp_view w (?f g)) X \<longleftrightarrow> same_seats (grp_view w g) X" for X
    by (simp add: grp_view_def same_seats_def)
  have "length (gr_watchers g) \<le> 20" using ph by (simp add: phase_ok_def)
  then have "length (swap_out fd (gr_watchers g)) \<le> 20" using S by linarith
  then have "phase_ok mp ok libs w (?f g)" using ph by (cases "bit (gr_flag g) 0") (simp_all add: phase_ok_def sse)
  then have "phase_ok mp ok libs w3 (?f g)" using agree_phase [of "?f g" w3 w] so m(2) by fastforce
  with core_close [OF w3(2) _ s3] gr have "core mp ok libs {} w3" by simp
  moreover have "one_exit_group fd gid w = Some w3"
    using w3(1) g m p by (auto simp: one_exit_group_def exit_gamegrp_def)
  moreover have "cb_step\<^sup>*\<^sup>* w w3" using U(2) st left_byD(1) [OF w3(3)] by (meson rtranclp_trans)
  moreover have "sv_cn w3 x = sv_cn w x" if "x \<noteq> fd" for x using left_byD(7) [OF w3(3), of x] that by simp
  ultimately show ?thesis using w3(4) gr so nl left_byD(2) [OF w3(3)] by (intro exI [of _ w3]) simp
qed

end

end
