(* ===== verification/ServerLeave.thy ===== *)
theory ServerLeave
  imports ServerPlay
begin

lemma cb_step_active:
  assumes "cb_step w w'" and wo: "wheel_ok w" and "active w' a = Some t"
  shows "tw_heap w a = None \<or> active w a = Some t"
  using assms(1)
proof (cases rule: cb_step.cases)
  case (cb_add b func expire l owner data)
  then show ?thesis using add_event_active(1) [OF wo cb_add(2-4), of l owner data] assms(3) by (cases "a = b") auto
next
  case (cb_remove l tid)
  then show ?thesis using remove_timer_active [OF wo] assms(3) by blast
next
  case (cb_remove_all l)
  then show ?thesis using remove_timers_active(1) [OF wo, of l a] assms(3) by (auto split: option.splits if_splits)
next
  case (cb_rest x)
  then have "active w' = active w" by (intro active_cong) simp
  then show ?thesis using assms(3) by simp
qed

lemma cb_steps_active: "cb_step\<^sup>*\<^sup>* w w' \<Longrightarrow> wheel_ok w \<Longrightarrow> active w' a = Some t \<Longrightarrow> tw_heap w a = None \<or> active w a = Some t"
proof (induction arbitrary: t rule: rtranclp_induct)
  case (step w1 w2)
  have w1: "wheel_ok w1" "grows w w1" using cb_steps_ok [OF step.hyps(1) step.prems(1)] by auto
  show ?case
  proof (cases "tw_heap w a")
    case (Some u)
    then have "tw_heap w1 a \<noteq> None" using w1(2) by (simp add: grows_def)
    with cb_step_active [OF step.hyps(2) w1(1) step.prems(2)] step.IH [OF step.prems(1)] show ?thesis by blast
  qed simp
qed simp

section \<open>Leaving\<close>

text \<open>Sprite \<open>fd\<close> has left group \<open>gid\<close>; the other groups and their sprites are as before.\<close>

definition out_of :: "u64 \<Rightarrow> nat \<Rightarrow> ('g, 'pkg) server \<Rightarrow> ('g, 'pkg) server \<Rightarrow> bool" where
  "out_of gid fd w w' \<longleftrightarrow> cb_step\<^sup>*\<^sup>* w w' \<and> tw_now w' = tw_now w \<and> no_new_limits w w' \<and>
     (\<forall>q. sv_sprites w' fd = Some q \<longrightarrow> gp_group q = None) \<and> (\<forall>x. x \<noteq> gid \<longrightarrow> sv_groups w' x = sv_groups w x) \<and>
     (\<forall>x. x \<notin> members_of w gid \<longrightarrow> rel_option same_sprite (sv_sprites w x) (sv_sprites w' x) \<and> sv_cn w' x = sv_cn w x) \<and>
     (\<forall>x q. sv_sprites w' x = Some q \<longrightarrow> (\<exists>p. sv_sprites w x = Some p \<and> sp_id (gp_sprite q) = sp_id (gp_sprite p)))"

lemma same_rel_trans: "rel_option same_sprite x y \<Longrightarrow> rel_option same_sprite y z \<Longrightarrow> rel_option same_sprite x z"
  by (cases x; cases y; cases z) (auto intro: same_sprite_trans)

lemma rel_members:
  assumes "\<forall>x. rel_option same_sprite (sv_sprites w x) (sv_sprites w1 x)"
  shows "members_of w1 gid = members_of w gid"
proof -
  have "x \<in> members_of w1 gid \<longleftrightarrow> x \<in> members_of w gid" for x
    using assms [rule_format, of x] by (cases "sv_sprites w x"; cases "sv_sprites w1 x") (auto simp: members_of_def same_sprite_def)
  then show ?thesis by blast
qed

lemma out_of_pre:
  assumes r: "\<forall>x. rel_option same_sprite (sv_sprites w x) (sv_sprites w1 x)" and s: "cb_step\<^sup>*\<^sup>* w w1" "tw_now w1 = tw_now w"
    "sv_cn w1 = sv_cn w" "no_new_limits w w1" "\<forall>x. x \<noteq> gid \<longrightarrow> sv_groups w1 x = sv_groups w x" and o: "out_of gid fd w1 w'"
  shows "out_of gid fd w w'"
proof -
  note m = rel_members [OF r, of gid]
  have "\<exists>p. sv_sprites w x = Some p \<and> sp_id (gp_sprite q) = sp_id (gp_sprite p)" if "sv_sprites w' x = Some q" for x q
  proof -
    from o that obtain p1 where p1: "sv_sprites w1 x = Some p1" "sp_id (gp_sprite q) = sp_id (gp_sprite p1)" unfolding out_of_def by blast
    then show ?thesis using r [rule_format, of x] by (cases "sv_sprites w x") (auto simp: same_sprite_def)
  qed
  moreover have "rel_option same_sprite (sv_sprites w x) (sv_sprites w' x) \<and> sv_cn w' x = sv_cn w x" if "x \<notin> members_of w gid" for x
    using o that m s(3) same_rel_trans [OF r [rule_format, of x]] by (auto simp: out_of_def)
  moreover have "no_new_limits w w'" using limits_trans [OF s(4)] o by (simp add: out_of_def)
  moreover have "cb_step\<^sup>*\<^sup>* w w'" using o rtranclp_trans [OF s(1)] by (simp add: out_of_def)
  ultimately show ?thesis using s(2,5) o by (simp add: out_of_def)
qed

lemma quiet_pre: "quiet w w1 \<Longrightarrow> out_of gid fd w1 w' \<Longrightarrow> out_of gid fd w w'"
  using rest_step [of w1 w] quiet_limits [of w w1] by (intro out_of_pre [of w w1]) (auto simp: quiet_def sv_frame_def)

lemma out_of_post:
  assumes "quiet w1 w2" and "out_of gid fd w w1"
  shows "out_of gid fd w w2"
proof -
  have r: "rel_option same_sprite (sv_sprites w1 x) (sv_sprites w2 x)" and n: "tw_now w2 = tw_now w1" "sv_groups w2 = sv_groups w1" "sv_cn w2 = sv_cn w1"
    and st: "cb_step\<^sup>*\<^sup>* w1 w2" for x
    using assms(1) rest_step [of w2 w1] by (auto simp: quiet_def sv_frame_def)
  have "\<exists>p. sv_sprites w1 x = Some p \<and> same_sprite p q" if "sv_sprites w2 x = Some q" for x q
    using r [of x] that by (cases "sv_sprites w1 x") auto
  then have s: "\<exists>p. sv_sprites w1 x = Some p \<and> gp_group q = gp_group p \<and> sp_id (gp_sprite q) = sp_id (gp_sprite p)" if "sv_sprites w2 x = Some q" for x q
    using that by (fastforce simp: same_sprite_def)
  have "gp_group q = None" if "sv_sprites w2 fd = Some q" for q
    using s [OF that] assms(2) by (auto simp: out_of_def)
  moreover have "\<exists>p. sv_sprites w x = Some p \<and> sp_id (gp_sprite q) = sp_id (gp_sprite p)" if "sv_sprites w2 x = Some q" for x q
    using s [OF that] assms(2) unfolding out_of_def by metis
  moreover have "cb_step\<^sup>*\<^sup>* w w2" using assms(2) rtranclp_trans [OF _ st] by (simp add: out_of_def)
  moreover have "rel_option same_sprite (sv_sprites w x) (sv_sprites w2 x)" if "x \<notin> members_of w gid" for x
    using assms(2) that same_rel_trans [OF _ r [of x]] by (simp add: out_of_def)
  moreover have "no_new_limits w w2" using limits_trans [OF _ quiet_limits [OF assms(1)]] assms(2) by (simp add: out_of_def)
  ultimately show ?thesis using assms(2) n by (simp add: out_of_def)
qed

lemma end_out:
  assumes c: "core mp ok libs {gid} w" and g: "sv_groups w gid = Some g" and s: "seats_ok w gid g" and fd: "fd \<in> set (grp_fds g)"
    and r: "p \<noteq> None \<or> reason \<noteq> GER_player_offline"
  shows "\<exists>w'. end_multiplayer_game gid p reason w = Some w' \<and> core mp ok libs {} w' \<and> out_of gid fd w w' \<and> sv_groups w' gid = None"
proof -
  have m: "set (grp_fds g) = members_of w gid" using s by (simp add: seats_ok_def)
  from end_ok [OF c g s r] obtain w' where w': "end_multiplayer_game gid p reason w = Some w'" "core mp ok libs {} w'" "cb_step\<^sup>*\<^sup>* w w'"
    "tw_now w' = tw_now w" "sv_groups w' = (sv_groups w)(gid := None)"
    "\<forall>fd \<in> set (grp_fds g). \<forall>q. sv_sprites w' fd = Some q \<longrightarrow> gp_group q = None"
    "\<forall>fd. fd \<notin> set (grp_fds g) \<longrightarrow> sv_sprites w' fd = sv_sprites w fd \<and> sv_cn w' fd = sv_cn w fd"
    "\<forall>x q. sv_sprites w' x = Some q \<longrightarrow> (\<exists>p. sv_sprites w x = Some p \<and> sp_id (gp_sprite q) = sp_id (gp_sprite p))"
    "\<forall>a t. active w' a = Some t \<longrightarrow> active w a = Some t" by blast
  then have "no_new_limits w w'" by (simp add: no_new_limits_def)
  then have "out_of gid fd w w'" unfolding out_of_def
    using w' fd m by (auto simp: option.rel_refl)
  with w' show ?thesis by (intro exI [of _ w']) simp
qed

context game_server begin

lemma watcher_out:
  assumes c: "core mp ok libs {} w" and p: "sv_sprites w fd = Some p" "gp_group p = Some gid" "\<not> bit (sp_status (gp_sprite p)) 0"
    and g: "sv_groups w gid = Some g"
  shows "\<exists>w' g'. one_exit_group fd gid w = Some w' \<and> core mp ok libs {} w' \<and> out_of gid fd w w' \<and> sv_groups w' gid = Some g' \<and> gr_flag g' = gr_flag g"
proof -
  from watcher_leaves_ok [OF assms] obtain w' where w': "one_exit_group fd gid w = Some w'" "core mp ok libs {} w'" "cb_step\<^sup>*\<^sup>* w w'"
    "tw_now w' = tw_now w" "sv_sprites w' fd = None" "sv_groups w' = (sv_groups w)(gid \<mapsto> g\<lparr>gr_watchers := swap_out fd (gr_watchers g)\<rparr>)"
    "\<forall>x. x \<noteq> fd \<longrightarrow> sv_sprites w' x = sv_sprites w x \<and> sv_cn w' x = sv_cn w x" "no_new_limits w w'" by blast
  have "fd \<in> members_of w gid" using p by (simp add: members_of_def)
  then have "rel_option same_sprite (sv_sprites w x) (sv_sprites w' x) \<and> sv_cn w' x = sv_cn w x" if "x \<notin> members_of w gid" for x
    using that w'(7) by (metis option.rel_refl same_sprite_refl)
  moreover have "\<exists>p. sv_sprites w x = Some p \<and> sp_id (gp_sprite q) = sp_id (gp_sprite p)" if "sv_sprites w' x = Some q" for x q
    using that w'(5,7) by (cases "x = fd") auto
  ultimately have "out_of gid fd w w'" using w' by (simp add: out_of_def)
  with w' show ?thesis by auto
qed

lemma called_pre:
  assumes cl: "called mp ok libs gid g h w w1" and o: "out_of gid fd w1 w'"
  shows "out_of gid fd w w'"
  by (rule out_of_pre [OF _ _ _ _ _ _ o]) (use cl in \<open>auto simp: called_def\<close>)

lemma leave_game_ok:
  assumes c: "core mp ok libs {} w" and p: "sv_sprites w fd = Some p" "gp_group p = Some gid" and g: "sv_groups w gid = Some g"
  shows "\<exists>w'. leave_game_cmd e fd body w = Some (w', 0) \<and> core mp ok libs {} w' \<and> out_of gid fd w w' \<and>
    (bit (sp_status (gp_sprite p)) 0 \<or> \<not> bit (gr_flag g) 0 \<longrightarrow> sv_groups w' gid = None) \<and>
    (\<forall>g'. sv_groups w' gid = Some g' \<longrightarrow> bit (gr_flag g') 0)"
proof -
  define w1 where "w1 = (if body = [] then set_status 4 fd w else w)"
  have q: "quiet w w1" by (simp add: w1_def)
  note Q = quiet_core [OF q c]
  have f: "sv_frame w w1" using q by (simp add: quiet_def)
  from frame_sprite(2) [OF f p(1)] obtain p1 where p1: "sv_sprites w1 fd = Some p1" "same_sprite p p1" by blast
  then have p1': "gp_group p1 = Some gid" "bit (sp_status (gp_sprite p1)) 0 = bit (sp_status (gp_sprite p)) 0"
    using p(2) by (simp_all add: same_sprite_def)
  have g1: "sv_groups w1 gid = Some g" using f g by (simp add: sv_frame_def)
  have s1: "seats_ok w1 gid g" by (rule coreD(7) [OF Q(1) _ g1]) simp
  have fd: "fd \<in> set (grp_fds g)" using s1 p1(1) p1'(1) by (auto simp: seats_ok_def members_of_def)
  show ?thesis
  proof (cases "bit (gr_flag g) 0")
    case False
    from end_out [OF core_mono [OF Q(1) empty_subsetI] g1 s1 fd, of "Some fd" "leave_reason body (status_at w1 fd)"] obtain w' where
      w': "end_multiplayer_game gid (Some fd) (leave_reason body (status_at w1 fd)) w1 = Some w'" "core mp ok libs {} w'"
        "out_of gid fd w1 w'" "sv_groups w' gid = None" by auto
    have "leave_game_cmd e fd body w = Some (w', 0)"
      using False p g1 w'(1) by (simp add: leave_game_cmd_def Let_def flip: w1_def)
    with w'(2,4) quiet_pre [OF q w'(3)] show ?thesis by (intro exI [of _ w']) simp
  next
    case True
    from on_data_ok [OF Q(1) p1(1) p1'(1) g1 True, of proto_player_leave "take 1 body"] obtain w2 rv h where
      d: "on_game_data e fd proto_player_leave (take 1 body) w1 = Some (w2, rv)" "called mp ok libs gid g h w1 w2"
        "rv \<le> 0 \<longrightarrow> core mp ok libs {} w2" "bit (sp_status (gp_sprite p)) 0 \<longrightarrow> 0 < rv" "gg_flag (mp_grp mp h) = gr_flag g" by (auto simp: p1'(2))
    let ?g2 = "g\<lparr>gr_handler := Some h, gr_flag := gg_flag (mp_grp mp h)\<rparr>"
    have g2: "sv_groups w2 gid = Some ?g2" "seats_ok w2 gid ?g2" "core mp ok libs {gid} w2" using d(2) by (simp_all add: called_def)
    show ?thesis
    proof (cases "0 < rv")
      case rv: True
      from end_out [OF g2(3,1,2), of fd "Some fd" "leave_reason body (status_at w1 fd)"] fd obtain w' where
        w': "end_multiplayer_game gid (Some fd) (leave_reason body (status_at w1 fd)) w2 = Some w'" "core mp ok libs {} w'"
          "out_of gid fd w2 w'" "sv_groups w' gid = None" by auto
      have "leave_game_cmd e fd body w = Some (w', 0)"
        using True p g1 w'(1) d(1) rv by (simp add: leave_game_cmd_def Let_def flip: w1_def)
      with w'(2,4) quiet_pre [OF q called_pre [OF d(2) w'(3)]] show ?thesis by (intro exI [of _ w']) simp
    next
      case rv: False
      then have c2: "core mp ok libs {} w2" and np: "\<not> bit (sp_status (gp_sprite p1)) 0" using d(3,4) p1'(2) by auto
      have "rel_option same_sprite (sv_sprites w1 fd) (sv_sprites w2 fd)" using d(2) by (simp add: called_def)
      then obtain p2 where p2: "sv_sprites w2 fd = Some p2" "same_sprite p1 p2" using p1(1) by (auto elim: option.rel_cases)
      then have p2': "gp_group p2 = Some gid" "\<not> bit (sp_status (gp_sprite p2)) 0" using p1'(1) np by (simp_all add: same_sprite_def)
      from watcher_out [OF c2 p2(1) p2' g2(1)] obtain w4 g4 where
        w4: "one_exit_group fd gid w2 = Some w4" "core mp ok libs {} w4" "out_of gid fd w2 w4" "sv_groups w4 gid = Some g4"
        "gr_flag g4 = gr_flag ?g2" by blast
      let ?w' = "send_to (gr_players g4) (PkgWatcherNumber (length (gr_watchers g4))) w4"
      have "leave_game_cmd e fd body w = Some (?w', 0)"
        using True p g1 d(1) rv g2(1) w4 p2(1) p2'(2) by (simp add: leave_game_cmd_def Let_def flip: w1_def)
      moreover have "core mp ok libs {} ?w'" by (rule quiet_core(1) [OF quiet_send w4(2)])
      moreover have "out_of gid fd w ?w'" by (rule quiet_pre [OF q called_pre [OF d(2) out_of_post [OF quiet_send w4(3)]]])
      moreover have "bit (gr_flag g') 0" if "sv_groups ?w' gid = Some g'" for g'
        using that w4(4,5) d(5) True by (simp add: send_to_def)
      ultimately show ?thesis using np p1'(2) True by blast
    qed
  qed
qed

text \<open>Data that is refused ends what the sprite is in, or its connection.\<close>

lemma invalid_ok:
  assumes c: "core mp ok libs {} w" and p: "sv_sprites w fd = Some p" "gp_group p = Some gid"
  shows "\<exists>w'. handle_invalid_data e fd reason w = Some w' \<and> core mp ok libs {} w' \<and> out_of gid fd w w' \<and>
    (\<forall>g'. sv_groups w' gid = Some g' \<longrightarrow> bit (gr_flag g') 0)"
proof -
  have "members_of w gid \<noteq> {}" using p by (auto simp: members_of_def)
  then obtain g where g: "sv_groups w gid = Some g" using coreD(6) [OF c, of gid] by (cases "sv_groups w gid") auto
  from leave_game_ok [OF c p g, of "[reason]"] p show ?thesis by (auto simp: handle_invalid_data_def)
qed

lemma invalid_core:
  assumes c: "core mp ok libs {} w" and p: "sv_sprites w fd = Some p"
  shows "\<exists>w'. handle_invalid_data e fd reason w = Some w' \<and> core mp ok libs {} w' \<and> cb_step\<^sup>*\<^sup>* w w' \<and> no_new_limits w w'"
proof (cases "gp_group p")
  case None
  from del_conn_ok [OF c p None] p None show ?thesis by (auto simp: handle_invalid_data_def dest: left_byD(1) left_by_limits)
next
  case (Some gid)
  from invalid_ok [OF c p Some, of reason] show ?thesis unfolding out_of_def by blast
qed

end

end
