(* ===== verification/ServerServe.thy ===== *)
theory ServerServe
  imports ServerLeave
begin

text \<open>
  Requests of sprites that are there, answers of the database proxy, timers and the ends of
  connections: each returns, keeps the invariant, and gives an error only for a sprite without a
  group, so that its connection can be closed.
\<close>

definition served :: "('g, 'pkg) mpog \<Rightarrow> ('g \<Rightarrow> bool) \<Rightarrow> nat set \<Rightarrow> ('g, 'pkg) server \<Rightarrow> ('g, 'pkg) server \<Rightarrow> bool" where
  "served mp ok libs w w' \<longleftrightarrow> core mp ok libs {} w' \<and> cb_step\<^sup>*\<^sup>* w w' \<and> no_new_limits w w'"

definition no_group :: "nat \<Rightarrow> ('g, 'pkg) server \<Rightarrow> bool" where
  "no_group fd w \<longleftrightarrow> (\<forall>p. sv_sprites w fd = Some p \<longrightarrow> gp_group p = None)"

lemma served_refl [simp]: "core mp ok libs {} w \<Longrightarrow> served mp ok libs w w"
  by (simp add: served_def)

lemma served_trans: "served mp ok libs w1 w2 \<Longrightarrow> served mp ok libs w2 w3 \<Longrightarrow> served mp ok libs w1 w3"
  unfolding served_def using rtranclp_trans limits_trans by fast

lemma served_quiet: "quiet w w' \<Longrightarrow> core mp ok libs {} w \<Longrightarrow> served mp ok libs w w'"
  using quiet_core [of w w'] quiet_limits [of w w'] by (simp add: served_def)

lemma served_out: "core mp ok libs {} w' \<Longrightarrow> out_of gid fd w w' \<Longrightarrow> served mp ok libs w w'"
  by (simp add: served_def out_of_def)

lemma served_left: "core mp ok libs {} w' \<Longrightarrow> left_by X w w' \<Longrightarrow> served mp ok libs w w'"
  using left_by_limits [of X w w'] by (simp add: served_def left_by_def)

lemma quiet_no_group: "quiet w w' \<Longrightarrow> no_group fd w' = no_group fd w"
  using frame_sprite(2,3) [of w w' fd] unfolding quiet_def no_group_def same_sprite_def by metis

lemma sprite_group:
  assumes c: "core mp ok libs {} w" and p: "sv_sprites w fd = Some p" "gp_group p = Some gid"
  shows "\<exists>g. sv_groups w gid = Some g \<and> seats_ok w gid g \<and> fd \<in> set (grp_fds g)"
proof -
  have m: "fd \<in> members_of w gid" using p by (simp add: members_of_def)
  then obtain g where g: "sv_groups w gid = Some g" using coreD(6) [OF c, of gid] by (cases "sv_groups w gid") auto
  with coreD(7) [OF c _ g] m show ?thesis by (auto simp: seats_ok_def)
qed

lemma group_handler:
  assumes "core mp ok libs {} w" and "sv_groups w gid = Some g" and "gr_handler g = Some h"
  shows "bit (gr_flag g) 0" "bit (gr_flag g) 1" "ok h" "same_seats (grp_view w g) (mp_grp mp h)"
  using coreD(8) [OF assms(1) _ assms(2)] assms(3) by (auto simp: phase_ok_def split: if_splits)

lemma same_handler: "sv_groups w gid = Some g \<Longrightarrow> gr_handler g = Some h \<Longrightarrow> upd_group gid (\<lambda>g. g\<lparr>gr_handler := Some h\<rparr>) w = w"
  by (cases w, cases g) (auto simp: upd_group_def fun_eq_iff)

context game_server begin

lemma game_cmd_ok:
  assumes c: "core mp ok libs {} w" and p: "sv_sprites w fd = Some p"
  shows "\<exists>w' rv. game_cmd e fd cmd body w = Some (w', rv) \<and> served mp ok libs w w' \<and> (rv \<noteq> 0 \<longrightarrow> no_group fd w')"
proof (cases "gp_group p")
  case None
  then show ?thesis using p c by (simp add: game_cmd_def no_group_def)
next
  case (Some gid)
  from sprite_group [OF c p Some] obtain g where g: "sv_groups w gid = Some g" "seats_ok w gid g" "fd \<in> set (grp_fds g)" by blast
  show ?thesis
  proof (cases "bit (gr_flag g) 0")
    case False
    from leave_game_ok [OF c p Some g(1), of "[GER_invalid_data]"] p Some g(1) False served_out show ?thesis
      by (auto simp: game_cmd_def)
  next
    case True
    from on_data_ok [OF c p Some g(1) True, of cmd body] obtain w1 rv h where
      d: "on_game_data e fd cmd body w = Some (w1, rv)" "called mp ok libs gid g h w w1" "rv \<le> 0 \<longrightarrow> core mp ok libs {} w1" by blast
    let ?g1 = "g\<lparr>gr_handler := Some h, gr_flag := gg_flag (mp_grp mp h)\<rparr>"
    have g1: "sv_groups w1 gid = Some ?g1" "seats_ok w1 gid ?g1" "core mp ok libs {gid} w1" using d(2) by (simp_all add: called_def)
    have st: "served mp ok libs w w1" if "core mp ok libs {} w1" using that d(2) by (simp add: served_def called_def)
    consider "0 < rv" | "rv < 0" | "rv = 0" by linarith
    then show ?thesis
    proof cases
      case 1
      from end_out [OF g1(3,1,2), of fd "Some fd" "word_of_int rv"] g(3) obtain w' where
        w': "end_multiplayer_game gid (Some fd) (word_of_int rv) w1 = Some w'" "core mp ok libs {} w'" "out_of gid fd w1 w'" by auto
      then have "game_cmd e fd cmd body w = Some (w', 0)" using 1 p Some g(1) True d(1) by (simp add: game_cmd_def)
      with served_out [OF w'(2) called_pre [OF d(2) w'(3)]] show ?thesis by simp
    next
      case 2
      then have c1: "core mp ok libs {} w1" using d(3) by simp
      have "rel_option same_sprite (sv_sprites w fd) (sv_sprites w1 fd)" using d(2) by (simp add: called_def)
      then obtain p1 where p1: "sv_sprites w1 fd = Some p1" "same_sprite p p1" using p by (auto elim: option.rel_cases)
      then have "gp_group p1 = Some gid" using Some by (simp add: same_sprite_def)
      from leave_game_ok [OF c1 p1(1) this g1(1), of "[GER_invalid_data]"] obtain w' where
        w': "leave_game_cmd e fd [GER_invalid_data] w1 = Some (w', 0)" "core mp ok libs {} w'" "out_of gid fd w1 w'" by blast
      then have "game_cmd e fd cmd body w = Some (w', 0)" using 2 p Some g(1) True d(1) by (simp add: game_cmd_def)
      with served_out [OF w'(2) called_pre [OF d(2) w'(3)]] show ?thesis by simp
    next
      case 3
      then have "game_cmd e fd cmd body w = Some (w1, 0)" using p Some g(1) True d(1) by (simp add: game_cmd_def)
      with st d(3) 3 show ?thesis by simp
    qed
  qed
qed

lemma leave_cmd_ok:
  assumes c: "core mp ok libs {} w" and p: "sv_sprites w fd = Some p"
  shows "\<exists>w' rv. leave_game_cmd e fd body w = Some (w', rv) \<and> served mp ok libs w w' \<and> no_group fd w'"
proof (cases "gp_group p")
  case None
  then show ?thesis using p c by (simp add: leave_game_cmd_def no_group_def)
next
  case (Some gid)
  from sprite_group [OF c p Some] obtain g where g: "sv_groups w gid = Some g" by blast
  from leave_game_ok [OF c p Some g, of body] served_out show ?thesis unfolding no_group_def out_of_def by blast
qed

lemma dispatch_ok:
  assumes c: "core mp ok libs {} w" and p: "sv_sprites w fd = Some p"
  shows "\<exists>w' rv. dispatch_protocol e fd cmd body w = Some (w', rv) \<and> served mp ok libs w w' \<and> (rv \<noteq> 0 \<longrightarrow> no_group fd w')"
proof (cases "gp_waitcmd p = 0")
  case False
  then show ?thesis using p served_quiet [OF quiet_send c] by (simp add: dispatch_protocol_def)
next
  case True
  let ?w1 = "set_waitcmd cmd fd w"
  note c1 = quiet_core(1) [OF quiet_waitcmd c, of cmd fd]
  have p1: "sv_sprites ?w1 fd = Some (p\<lparr>gp_waitcmd := cmd\<rparr>)" using p by (simp add: set_waitcmd_def)
  have "\<exists>w2 rv. (if cmd = proto_player_leave then leave_game_cmd e fd body ?w1 else game_cmd e fd cmd body ?w1) = Some (w2, rv) \<and>
    served mp ok libs ?w1 w2 \<and> (rv \<noteq> 0 \<longrightarrow> no_group fd w2)"
    using leave_cmd_ok [OF c1 p1, of body] game_cmd_ok [OF c1 p1, of cmd body] by (cases "cmd = proto_player_leave") auto
  then obtain w2 rv where w2: "(if cmd = proto_player_leave then leave_game_cmd e fd body ?w1 else game_cmd e fd cmd body ?w1) = Some (w2, rv)"
    "served mp ok libs ?w1 w2" "rv \<noteq> 0 \<longrightarrow> no_group fd w2" by blast
  have "core mp ok libs {} w2" using w2(2) by (simp add: served_def)
  then have s: "served mp ok libs w (reset_waitcmd fd w2)"
    using served_trans [OF served_trans [OF served_quiet [OF quiet_waitcmd c] w2(2)] served_quiet [OF quiet_reset]] by blast
  have "dispatch_protocol e fd cmd body w = Some (reset_waitcmd fd w2, rv)"
    using p True w2(1) by (simp add: dispatch_protocol_def)
  with s w2(3) quiet_no_group [OF quiet_reset, of fd fd w2] show ?thesis by auto
qed

section \<open>Timers\<close>

lemma limit_ok:
  assumes c: "core mp ok libs {} w" and g: "sv_groups w gid = Some g"
  shows "\<exists>w'. on_game_timer_expire gid 0 w = Some (w', -1) \<and> served mp ok libs w w' \<and> sv_groups w' gid = None"
proof -
  have s: "seats_ok w gid g" by (rule coreD(7) [OF c _ g]) simp
  have r: "None \<noteq> None \<or> GER_timer_expire \<noteq> GER_player_offline" by (simp add: GER_timer_expire_def GER_player_offline_def)
  from end_ok [OF core_mono [OF c empty_subsetI] g s, of None GER_timer_expire] r obtain w' where
    w': "end_multiplayer_game gid None GER_timer_expire w = Some w'" "core mp ok libs {} w'" "cb_step\<^sup>*\<^sup>* w w'"
      "sv_groups w' = (sv_groups w)(gid := None)" "\<forall>a t. active w' a = Some t \<longrightarrow> active w a = Some t" by auto
  with g show ?thesis by (auto simp: on_game_timer_expire_def served_def no_new_limits_def)
qed

lemma move_timer_ok:
  assumes c: "core mp ok libs {} w" and p: "sv_sprites w fd = Some p" "gp_group p \<noteq> None"
  shows "\<exists>w'. on_timer_expire e fd w = Some (w', -1) \<and> served mp ok libs w w' \<and> no_group fd w'"
proof -
  have q: "quiet w (set_status 3 fd w)" by simp
  note c1 = quiet_core(1) [OF q c]
  have "\<exists>p1. sv_sprites (set_status 3 fd w) fd = Some p1" using p by (simp add: set_status_def)
  then obtain p1 where "sv_sprites (set_status 3 fd w) fd = Some p1" by blast
  from leave_cmd_ok [OF c1 this, of "[GER_timer_expire]"] obtain w' rv where
    "leave_game_cmd e fd [GER_timer_expire] (set_status 3 fd w) = Some (w', rv)" "served mp ok libs (set_status 3 fd w) w'" "no_group fd w'" by blast
  with p served_trans [OF served_quiet [OF q c]] show ?thesis by (auto simp: on_timer_expire_def)
qed

text \<open>The timer that was called is no longer in use: its sprite has no group, or its group is gone.\<close>

lemma callback_ok:
  assumes c: "core mp ok libs {} w" and t: "active w a = Some t"
  shows "\<exists>w'. game_cb e (tm_function t) (tm_owner t) (tm_data t) w = Some (w', -1) \<and> served mp ok libs w w' \<and> \<not> in_use w' a"
proof -
  have h: "tw_heap w a \<noteq> None" using t by (auto simp: active_def split: if_splits)
  have nu: "\<not> in_use w' a" if s: "served mp ok libs w w'" and n: "\<not> timer_own w' t" for w'
  proof
    assume "in_use w' a"
    then obtain t' where t': "active w' a = Some t'" using in_use_heap [of w' a] by (auto simp: active_def)
    then have "t' = t" using cb_steps_active [of w w' a t'] coreD(1) [OF c] s h t by (auto simp: served_def)
    moreover have "timer_own w' t'" using t' s coreD(5) [of mp ok libs "{}" w'] by (auto simp: served_def own_ok_def)
    ultimately show False using n by simp
  qed
  have "timer_own w t" using coreD(5) [OF c] t by (auto simp: own_ok_def)
  then consider fd p where "tm_function t = 1" "tm_owner t = sprite_timers fd" "tm_list t = Some (sprite_timers fd)"
      "sv_sprites w fd = Some p" "gp_group p \<noteq> None"
    | gid g where "tm_function t = 2" "tm_data t = 0" "tm_owner t = group_timers gid" "tm_list t = Some (group_timers gid)"
      "sv_groups w gid = Some g" unfolding timer_own_def by blast
  then show ?thesis
  proof cases
    case (1 fd p)
    from move_timer_ok [OF c 1(4,5)] obtain w' where
      w': "on_timer_expire e fd w = Some (w', -1)" "served mp ok libs w w'" "no_group fd w'" by blast
    have "\<not> timer_own w' t" using w'(3) 1(1-3) by (auto simp: timer_own_def no_group_def)
    with nu w' 1(1,2) show ?thesis by (simp add: game_cb_def)
  next
    case (2 gid g)
    from limit_ok [OF c 2(5)] obtain w' where
      w': "on_game_timer_expire gid 0 w = Some (w', -1)" "served mp ok libs w w'" "sv_groups w' gid = None" by blast
    have "\<not> timer_own w' t" using w'(3) 2(1,3,4) by (auto simp: timer_own_def)
    with nu w' 2(1-3) show ?thesis by (simp add: game_cb_def)
  qed
qed

end

section \<open>A second passes\<close>

text \<open>The invariant without the lists of the timers, which the scan itself takes care of.\<close>

definition rest_ok :: "('g, 'pkg) mpog \<Rightarrow> ('g \<Rightarrow> bool) \<Rightarrow> nat set \<Rightarrow> ('g, 'pkg) server \<Rightarrow> bool" where
  "rest_ok mp ok libs w \<longleftrightarrow> 0 < tw_now w \<and> conn_ok w \<and> ids_ok w \<and> own_ok w \<and>
     (\<forall>gid. case sv_groups w gid of
          None \<Rightarrow> members_of w gid = {}
        | Some g \<Rightarrow> seats_ok w gid g \<and> phase_ok mp ok libs w g)"

lemma core_rest: "core mp ok libs {} w \<longleftrightarrow> wheel_ok w \<and> rest_ok mp ok libs w"
  by (simp add: core_def rest_ok_def)

lemma rest_fields:
  assumes "rest_ok mp ok libs w" and a: "active w' = active w" and n: "tw_now w \<le> tw_now w'" and m: "timers.more w' = timers.more w"
  shows "rest_ok mp ok libs w'"
proof -
  have e: "sv_sprites w' = sv_sprites w" "sv_ids w' = sv_ids w" "sv_groups w' = sv_groups w" "sv_cn w' = sv_cn w" "sv_fdmax w' = sv_fdmax w"
    "sv_count w' = sv_count w" using server_eq_iff [OF m] by simp_all
  have "timer_own w' t" if "timer_own w t" for t
    using that n unfolding timer_own_def e by fastforce
  then have "own_ok w'" using assms(1) unfolding rest_ok_def own_ok_def a e by blast
  then show ?thesis using assms(1) n
    unfolding rest_ok_def conn_ok_def ids_ok_def members_of_def seats_ok_def phase_ok_def grp_view_def e by simp
qed

sublocale game_server \<subseteq> ticks: timer_client "game_cb e" "\<lambda>w. rest_ok mp ok libs w \<and> no_new_limits w0 w" for w0
proof
  fix w w' :: "('g, 'pkg) server" and n :: int
  show "rest_ok mp ok libs w' \<and> no_new_limits w0 w'" if "rest_ok mp ok libs w \<and> no_new_limits w0 w" "same_use w w'"
    using that rest_fields [of mp ok libs w w'] active_same_use [OF that(2)] by (simp add: same_use_def no_new_limits_def)
  have a: "active (w\<lparr>tw_now := n\<rparr>) = active w" by (rule active_cong) simp
  show "rest_ok mp ok libs (w\<lparr>tw_now := n\<rparr>) \<and> no_new_limits w0 (w\<lparr>tw_now := n\<rparr>)"
    if "rest_ok mp ok libs w \<and> no_new_limits w0 w" "tw_now w \<le> n"
    using that rest_fields [of mp ok libs w "w\<lparr>tw_now := n\<rparr>"] a by (simp add: no_new_limits_def)
next
  fix w :: "('g, 'pkg) server" and a t
  assume w: "rest_ok mp ok libs w \<and> no_new_limits w0 w" "wheel_ok w" and t: "tw_heap w a = Some t" "tm_function t \<noteq> 0"
  have "core mp ok libs {} w" "active w a = Some t" using w t by (simp_all add: core_rest active_iff)
  from callback_ok [OF this] obtain w' where
    w': "game_cb e (tm_function t) (tm_owner t) (tm_data t) w = Some (w', -1)" "served mp ok libs w w'" "\<not> in_use w' a" by blast
  have "rest_ok mp ok libs w'" "no_new_limits w0 w'" "cb_step\<^sup>*\<^sup>* w w'"
    using w' w(1) limits_trans [of w0 w w'] by (simp_all add: served_def core_rest)
  with w' show "\<exists>w' rv. game_cb e (tm_function t) (tm_owner t) (tm_data t) w = Some (w', rv) \<and> cb_step\<^sup>*\<^sup>* w w' \<and>
      (rest_ok mp ok libs (if rv = 0 then do_remove_timer a True w' else w') \<and>
       no_new_limits w0 (if rv = 0 then do_remove_timer a True w' else w')) \<and> (rv \<noteq> 0 \<longrightarrow> \<not> due w' a)"
    by (intro exI [of _ w'] exI [of _ "-1"]) simp
qed

context game_server begin

lemma second_ok:
  assumes c: "core mp ok libs {} w" and s: "soon 1 w"
  shows "\<exists>w'. handle_event e Second w = Some w' \<and> core mp ok libs {} w' \<and> tw_now w' = tw_now w + 1 \<and> soon 1 w' \<and> no_new_limits w w' \<and>
    (\<forall>b. in_use w' b \<longrightarrow> tw_now w' < expiry w' b)"
proof -
  have "rest_ok mp ok libs w \<and> no_new_limits w w" "wheel_ok w" using c by (simp_all add: core_rest)
  from ticks.tick_spec [OF this s] obtain w' cs where
    "handle_timer (game_cb e) (tw_now w + 1) (tw_now w) w = Some (w', tw_now w + 1, cs)" "wheel_ok w'" "rest_ok mp ok libs w'" "no_new_limits w w'"
    "tw_now w' = tw_now w + 1" "soon 1 w'" "\<forall>b. in_use w' b \<longrightarrow> tw_now w + 1 < expiry w' b" by blast
  then show ?thesis by (simp add: core_rest)
qed

lemma tick_ok:
  assumes c: "core mp ok libs {} w" and s: "soon 1 w"
  shows "\<exists>w' cs. handle_timer (game_cb e) (tw_now w + 1) (tw_now w) w = Some (w', tw_now w + 1, cs) \<and> distinct cs \<and>
    (\<forall>b \<in> set cs. in_use w b \<and> expiry w b \<le> tw_now w + 1) \<and> (\<forall>b. in_use w' b \<longrightarrow> tw_now w + 1 < expiry w' b)"
proof -
  have "rest_ok mp ok libs w \<and> no_new_limits w w" "wheel_ok w" using c by (simp_all add: core_rest)
  from ticks.tick_spec [OF this s] show ?thesis by blast
qed

section \<open>Answers of the database proxy, and closed connections\<close>

lemma attr_callback_ok:
  assumes c: "core mp ok libs {} w" and p: "sv_sprites w fd = Some p"
  shows "\<exists>w' rv. upd_game_attr_callback fd len w = Some (w', rv) \<and> served mp ok libs w w' \<and> (rv \<noteq> 0 \<longrightarrow> w' = w) \<and>
    (gp_group p \<noteq> None \<longrightarrow> sv_sprites w' fd \<noteq> None)"
proof (cases "len = 20 \<and> gp_waitcmd p = proto_game_score")
  case False
  then show ?thesis using p c by (auto simp: upd_game_attr_callback_def)
next
  case True
  let ?w1 = "reply fd (PkgScore (gp_db_data p)) w"
  note c1 = quiet_core(1) [OF quiet_reply c, of fd "PkgScore (gp_db_data p)"]
  have f: "sv_frame w ?w1" using quiet_reply [of w fd] by (simp add: quiet_def)
  from frame_sprite(2) [OF f p] obtain p1 where p1: "sv_sprites ?w1 fd = Some p1" "same_sprite p p1" by blast
  note s1 = served_quiet [OF quiet_reply c, of fd "PkgScore (gp_db_data p)"]
  show ?thesis
  proof (cases "gp_group p")
    case None
    then have "gp_group p1 = None" using p1(2) by (simp add: same_sprite_def)
    from del_conn_ok [OF c1 p1(1) this] obtain w' where w': "del_sprite_conn fd ?w1 = Some w'" "core mp ok libs {} w'" "left_by {fd} ?w1 w'" by blast
    with served_trans [OF s1 served_left [OF w'(2,3)]] True p None show ?thesis by (simp add: upd_game_attr_callback_def)
  next
    case (Some gid)
    with s1 True p p1(1) show ?thesis by (simp add: upd_game_attr_callback_def)
  qed
qed

lemma get_item_ok:
  assumes c: "core mp ok libs {} w" and p: "sv_sprites w fd = Some p" "gp_group p \<noteq> None"
  shows "\<exists>w' rv. get_item_callback e fd w = Some (w', rv) \<and> served mp ok libs w w' \<and> sv_sprites w' fd \<noteq> None"
proof -
  have "\<exists>w' rv. db_upd_game_attr e fd w = Some (w', rv) \<and> served mp ok libs w w' \<and> (rv \<noteq> 0 \<longrightarrow> w' = w) \<and> sv_sprites w' fd \<noteq> None"
    using attr_callback_ok [OF c p(1), of 20] p c served_quiet [OF quiet_sent c] by (auto simp: db_upd_game_attr_def)
  then obtain w' rv where w': "db_upd_game_attr e fd w = Some (w', rv)" "served mp ok libs w w'" "rv \<noteq> 0 \<longrightarrow> w' = w" "sv_sprites w' fd \<noteq> None"
    by blast
  show ?thesis
  proof (cases "rv = -1")
    case True
    with w' p served_quiet [OF quiet_waitcmd c, of 0 fd] show ?thesis by (auto simp: get_item_callback_def set_waitcmd_def)
  next
    case False
    with w' show ?thesis by (simp add: get_item_callback_def)
  qed
qed

lemma db_return_ok:
  assumes c: "core mp ok libs {} w" and p: "sv_sprites w fd = Some p"
  shows "\<exists>rv. on_db_return fd uid buf ret w = Some (w, rv)"
proof (cases "gp_group p")
  case (Some gid)
  from sprite_group [OF c p Some] obtain g where g: "sv_groups w gid = Some g" by blast
  show ?thesis
  proof (cases "gr_handler g")
    case (Some h)
    with same_handler [OF g Some] p g \<open>gp_group p = Some gid\<close> show ?thesis
      by (simp add: on_db_return_def handle_db_return_def GER_end_of_game_def)
  qed (use p g Some in \<open>simp add: on_db_return_def\<close>)
qed (use p in \<open>simp add: on_db_return_def\<close>)

lemma db_answer_ok:
  assumes c: "core mp ok libs {} w" and i: "cmd = db_obtain_item \<or> cmd = db_obtain_pet_item \<Longrightarrow> \<not> no_group fd w"
  shows "\<exists>w'. handle_db_answer e fd waitcmd cmd ret uid buf w = Some w' \<and> served mp ok libs w w'"
proof (cases "sv_sprites w fd")
  case None
  then show ?thesis using c by (simp add: handle_db_answer_def worker_handle_net_def by_fd [OF coreD(3) [OF c]])
next
  case (Some p)
  then have fd: "fd \<noteq> 0" using sprite_open [OF coreD(3) [OF c], of fd] by auto
  have "\<exists>w1 err. worker_handle_net e fd waitcmd cmd ret uid buf w = Some (w1, err) \<and> served mp ok libs w w1 \<and> (err \<noteq> 0 \<longrightarrow> sv_sprites w1 fd \<noteq> None)"
  proof (cases "gp_waitcmd p = waitcmd \<and> ret \<noteq> 1116 \<and> ret \<in> {0, 1006, 2547, 1147, 1114, 2675, 2676, 2679, 1119}")
    case False
    have "sv_sprites (reply fd (PkgError (gp_waitcmd p) (- ERR_daily_money_limit_exceeded)) w) fd \<noteq> None"
      using Some by (simp add: reply_def send_to_def set_waitcmd_def)
    with False fd Some c served_quiet [OF quiet_reply c] show ?thesis
      by (auto simp: worker_handle_net_def by_fd [OF coreD(3) [OF c]] simp del: insert_iff)
  next
    case True
    consider "cmd = db_change_game_attr" | "cmd \<noteq> db_change_game_attr" "cmd = db_obtain_item \<or> cmd = db_obtain_pet_item"
      | "cmd \<noteq> db_change_game_attr" "cmd \<noteq> db_obtain_item" "cmd \<noteq> db_obtain_pet_item" by blast
    then show ?thesis
    proof cases
      case 1
      from attr_callback_ok [OF c Some, of "length buf"] True fd 1 Some show ?thesis
        by (auto simp: worker_handle_net_def by_fd [OF coreD(3) [OF c]])
    next
      case 2
      then have "gp_group p \<noteq> None" using i Some by (auto simp: no_group_def)
      from get_item_ok [OF c Some this] obtain w' rv where "get_item_callback e fd w = Some (w', rv)" "served mp ok libs w w'" "sv_sprites w' fd \<noteq> None"
        by blast
      with True fd 2 Some show ?thesis by (auto simp: worker_handle_net_def by_fd [OF coreD(3) [OF c]])
    next
      case 3
      from db_return_ok [OF c Some, of uid buf "word_of_int ret"] True fd 3 Some c show ?thesis
        by (auto simp: worker_handle_net_def by_fd [OF coreD(3) [OF c]])
    qed
  qed
  then obtain w1 err where w1: "worker_handle_net e fd waitcmd cmd ret uid buf w = Some (w1, err)" "served mp ok libs w w1"
    "err \<noteq> 0 \<longrightarrow> sv_sprites w1 fd \<noteq> None" by blast
  show ?thesis
  proof (cases "err = 0")
    case True
    with w1 show ?thesis by (simp add: handle_db_answer_def)
  next
    case False
    have c1: "core mp ok libs {} w1" using w1(2) by (simp add: served_def)
    from False w1(3) obtain p1 where "sv_sprites (set_waitcmd 0 fd w1) fd = Some p1" by (auto simp: set_waitcmd_def)
    from invalid_core [OF quiet_core(1) [OF quiet_waitcmd c1] this, of GER_invalid_data] obtain w' where
      w': "handle_invalid_data e fd GER_invalid_data (set_waitcmd 0 fd w1) = Some w'" "served mp ok libs (set_waitcmd 0 fd w1) w'"
      by (auto simp: served_def)
    with False w1(1) served_trans [OF served_trans [OF w1(2) served_quiet [OF quiet_waitcmd c1]] w'(2)] show ?thesis
      by (simp add: handle_db_answer_def)
  qed
qed

lemma close_block_ok:
  assumes c: "core mp ok libs {} w"
  shows "\<exists>w'. handle_close_block e fd w = Some w' \<and> served mp ok libs w w'"
proof (cases "\<exists>p gid. sv_sprites w fd = Some p \<and> gp_group p = Some gid")
  case False
  then have n: "gp_group p = None" if "sv_sprites w fd = Some p" for p using that by auto
  from close_ok [OF c n] obtain w' where "handle_close fd w = Some w'" "core mp ok libs {} w'" "left_by {fd} w w'" by blast
  with served_left n show ?thesis by (auto simp: handle_close_block_def by_fd [OF coreD(3) [OF c]] split: option.split)
next
  case True
  then obtain p gid where p: "sv_sprites w fd = Some p" "gp_group p = Some gid" by blast
  let ?w1 = "set_waitcmd 0 fd (set_status 2 fd w)"
  have q: "quiet w ?w1" by (rule quiet_trans [OF quiet_status quiet_waitcmd]) simp
  have "\<exists>p1. sv_sprites ?w1 fd = Some p1" using p by (simp add: set_waitcmd_def set_status_def)
  then obtain p1 where "sv_sprites ?w1 fd = Some p1" by blast
  from leave_cmd_ok [OF quiet_core(1) [OF q c] this, of "[GER_player_offline]"] obtain w' rv where
    "leave_game_cmd e fd [GER_player_offline] ?w1 = Some (w', rv)" "served mp ok libs ?w1 w'" by blast
  with p served_trans [OF served_quiet [OF q c]] show ?thesis by (simp add: handle_close_block_def by_fd [OF coreD(3) [OF c]])
qed

lemma open_ok:
  assumes c: "core mp ok libs {} w" and fd: "1 \<le> fd" "fd < MAXFDS"
  shows "\<exists>w'. handle_open fd len_ok w = Some w' \<and> served mp ok libs w w'"
proof (cases "sv_cn w fd \<or> \<not> len_ok")
  case True
  then show ?thesis using fd served_quiet [OF quiet_sent c] by (simp add: handle_open_def)
next
  case False
  define v where "v = w\<lparr>sv_cn := (sv_cn w)(fd := True), sv_fdmax := max (sv_fdmax w) fd, sv_count := sv_count w + 1\<rparr>"
  have e: "tw_heap v = tw_heap w" "tw_lists v = tw_lists w" "tw_vec v = tw_vec w" "tw_baseid v = tw_baseid w" "tw_now v = tw_now w"
    "sv_sprites v = sv_sprites w" "sv_groups v = sv_groups w" "sv_ids v = sv_ids w" by (simp_all add: v_def)
  note C = coreD(3) [OF c]
  have "Collect (sv_cn v) = insert fd (Collect (sv_cn w))" by (auto simp: v_def)
  then have "sv_count v = card (Collect (sv_cn v))" using open_finite(1) [OF C] False C by (simp add: v_def conn_ok_def)
  then have co: "conn_ok v" using C fd unfolding conn_ok_def by (auto simp: v_def le_max_iff_disj)
  have "sv_count v \<le> sv_fdmax v" "sv_fdmax v < MAXFDS" using open_finite(2) [OF co] co by (simp_all add: conn_ok_def)
  then have "sv_count v \<le> MAXFDS" by linarith
  then have "sv_count w + 1 \<le> MAXFDS" by (simp add: v_def)
  then have h: "handle_open fd len_ok w = Some v" using False fd by (simp add: handle_open_def v_def Let_def)
  have a: "active v = active w" by (rule active_cong) (rule e(1))
  have oo: "own_ok v" using coreD(5) [OF c] unfolding own_ok_def timer_own_def a e .
  have "core mp ok libs {} v"
    by (rule core_local [OF c _ e(5) co _ oo subset_refl])
      (use coreD(1,4) [OF c] wheel_cong [OF e(1-3)] in \<open>simp_all add: ids_ok_def members_of_def e\<close>)
  then have "served mp ok libs w v" using rest_step [OF e(1-5)] a by (simp add: served_def no_new_limits_def)
  with h show ?thesis by blast
qed

end

end
