(* ===== verification/ServerJoin.thy ===== *)
theory ServerJoin
  imports ServerServe
begin

text \<open>
  A player enters: a sprite is made, takes its seat in a group that may be new, and the game begins
  with the last one. A new sprite has either the status of a player or that of a watcher.
\<close>

section \<open>A new sprite\<close>

lemma no_timers: "wheel_ok w \<Longrightarrow> own_ok w \<Longrightarrow> no_group fd w \<Longrightarrow> tw_lists w (sprite_timers fd) = []"
proof (rule ccontr)
  assume w: "wheel_ok w" "own_ok w" "no_group fd w" and "tw_lists w (sprite_timers fd) \<noteq> []"
  then have "hd (tw_lists w (sprite_timers fd)) \<in> set (tw_lists w (sprite_timers fd))" by simp
  then obtain t where "active w (hd (tw_lists w (sprite_timers fd))) = Some t" "tm_list t = Some (sprite_timers fd)"
    unfolding listed_active [OF w(1)] by blast
  moreover from this(1) have "timer_own w t" using w(2) unfolding own_ok_def by blast
  ultimately show False using w(3) by (auto simp: timer_own_def no_group_def)
qed

lemma add_sprite_ok:
  assumes c: "core mp ok libs {} w" and cn: "sv_cn w fd" and n: "sv_sprites w fd = None"
  shows "\<exists>w' rv. add_sprite fd uid w = Some (w', rv) \<and> (rv \<noteq> 0 \<longrightarrow> w' = w) \<and> core mp ok libs {} w' \<and> cb_step\<^sup>*\<^sup>* w w' \<and>
    sv_groups w' = sv_groups w \<and> rv \<in> {0, -1} \<and> (\<forall>x. x \<noteq> fd \<longrightarrow> sv_sprites w' x = sv_sprites w x) \<and>
    (rv = 0 \<longrightarrow> (\<exists>p. sv_sprites w' fd = Some p \<and> gp_group p = None \<and> gp_sprite p = \<lparr>sp_id = uid, sp_pos_id = 0, sp_status = 0\<rparr>))"
proof (cases "uid = 0 \<or> 2000000000 \<le> uid \<or> uid \<le> 10000")
  case True
  then show ?thesis using c by (auto simp: add_sprite_def)
next
  case False
  define p where "p = \<lparr>gp_sprite = \<lparr>sp_id = uid, sp_pos_id = 0, sp_status = 0\<rparr>, gp_group = None, gp_waitcmd = proto_player_enter,
                 gp_oltoday = 0, gp_stamp = 0, gp_db_data = zero_score\<rparr>"
  define v where "v = w\<lparr>sv_sprites := (sv_sprites w)(fd \<mapsto> p), sv_ids := sv_ids w @ [fd],
                   tw_lists := (tw_lists w)(sprite_timers fd := [])\<rparr>"
  have "tw_lists w (sprite_timers fd) = []" by (rule no_timers [OF coreD(1,5) [OF c]]) (use n in \<open>simp add: no_group_def\<close>)
  then have e: "tw_heap v = tw_heap w" "tw_lists v = tw_lists w" "tw_vec v = tw_vec w" "tw_baseid v = tw_baseid w" "tw_now v = tw_now w"
    "sv_groups v = sv_groups w" "sv_cn v = sv_cn w" "sv_fdmax v = sv_fdmax w" "sv_count v = sv_count w" "sv_ids v = sv_ids w @ [fd]"
    by (auto simp: v_def fun_eq_iff)
  have s: "sv_sprites v x = (if x = fd then Some p else sv_sprites w x)" for x by (simp add: v_def)
  have pg: "gp_group p = None" "sp_id (gp_sprite p) \<noteq> 0" using False by (simp_all add: p_def)
  have le: "fd \<le> sv_fdmax w" using coreD(3) [OF c] cn by (simp add: conn_ok_def)
  have r: "add_sprite fd uid w = Some (v, 0)" using False n le by (simp add: add_sprite_def v_def p_def)
  have co: "conn_ok v" using coreD(3) [OF c] cn unfolding conn_ok_def e s by auto
  have io: "ids_ok v" using coreD(4) [OF c] n pg unfolding ids_ok_def e s by auto
  have a: "active v = active w" by (rule active_cong) (rule e(1))
  have "timer_own v t" if "timer_own w t" for t
    by (rule timer_own_cong [OF that e(5,6)]) (use n in \<open>auto simp: s\<close>)
  then have oo: "own_ok v" using coreD(5) [OF c] unfolding own_ok_def a e by blast
  have m: "members_of v gid = members_of w gid" for gid using n pg by (auto simp: members_of_def s split: if_splits)
  have "fd \<notin> members_of w gid" for gid using n by (auto simp: members_of_def)
  then have "core mp ok libs {} v"
    by (intro core_local [OF c _ e(5) co io oo subset_refl]) (use coreD(1) [OF c] wheel_cong [OF e(1-3)] m in \<open>auto simp: e s\<close>)
  with r rest_step [OF e(1-5)] e(6) s pg(1) show ?thesis by (intro exI [of _ v] exI [of _ 0]) (auto simp: p_def)
qed

section \<open>A group and its seats\<close>

definition fresh_group :: "game_conf \<Rightarrow> 'g group_t" where
  "fresh_group c = \<lparr>gr_flag = 0, gr_players = [], gr_watchers = [], gr_game = c, gr_handler = None\<rparr>"

lemma new_member_ids:
  assumes i: "ids_ok w" and p: "sv_sprites w fd = Some p" and e: "sv_ids w' = sv_ids w"
    and s: "\<And>x. sv_sprites w' x = (if x = fd then Some (p\<lparr>gp_group := Some gid\<rparr>) else sv_sprites w x)"
    and u: "\<And>x q. sv_sprites w x = Some q \<Longrightarrow> gp_group q \<noteq> None \<Longrightarrow> sp_id (gp_sprite q) \<noteq> sp_id (gp_sprite p)"
  shows "ids_ok w'"
proof -
  have old: "x = y" if "sv_sprites w x = Some q" "sv_sprites w y = Some r" "gp_group q \<noteq> None" "gp_group r \<noteq> None"
    "sp_id (gp_sprite q) = sp_id (gp_sprite r)" for x y q r
    using i that unfolding ids_ok_def by blast
  have "x = y" if H: "sv_sprites w' x = Some q" "sv_sprites w' y = Some r" "gp_group q \<noteq> None" "gp_group r \<noteq> None"
    "sp_id (gp_sprite q) = sp_id (gp_sprite r)" for x y q r
  proof (cases "x = fd \<or> y = fd")
    case False
    then show ?thesis using old [of x q y r] H by (simp add: s)
  next
    case True
    then show ?thesis
    proof
      assume x: "x = fd"
      show ?thesis
      proof (rule ccontr)
        assume "x \<noteq> y"
        then show False using u [of y r] H x by (auto simp: s)
      qed
    next
      assume y: "y = fd"
      show ?thesis
      proof (rule ccontr)
        assume "x \<noteq> y"
        then show False using u [of x q] H y by (auto simp: s)
      qed
    qed
  qed
  moreover have "distinct (sv_ids w')" "\<forall>x. x \<in> set (sv_ids w') \<longleftrightarrow> sv_sprites w' x \<noteq> None"
    "\<forall>x q. sv_sprites w' x = Some q \<longrightarrow> sp_id (gp_sprite q) \<noteq> 0"
    using i p by (auto simp: ids_ok_def e s)
  ultimately show ?thesis unfolding ids_ok_def by blast
qed

lemma add_seat_ok:
  assumes c: "core mp ok libs D w" and D: "gid \<in> D" and g: "sv_groups w gid = Some g" "seats_ok w gid g"
    and p: "sv_sprites w fd = Some p" "gp_group p = None" "bit (sp_status (gp_sprite p)) 1 \<longleftrightarrow> \<not> bit (sp_status (gp_sprite p)) 0"
    and u: "\<forall>x q. sv_sprites w x = Some q \<and> gp_group q \<noteq> None \<longrightarrow> sp_id (gp_sprite q) \<noteq> sp_id (gp_sprite p)"
  defines "f \<equiv> \<lambda>g. if bit (sp_status (gp_sprite p)) 0 then g\<lparr>gr_players := gr_players g @ [fd]\<rparr> else g\<lparr>gr_watchers := gr_watchers g @ [fd]\<rparr>"
  defines "w' \<equiv> upd_sprite fd (\<lambda>p. p\<lparr>gp_group := Some gid\<rparr>) (upd_group gid f w)"
  shows "core mp ok libs D w'" "cb_step\<^sup>*\<^sup>* w w'" "seats_ok w' gid (f g)" "sv_groups w' = (sv_groups w)(gid \<mapsto> f g)"
    "sv_sprites w' = (sv_sprites w)(fd \<mapsto> p\<lparr>gp_group := Some gid\<rparr>)" "fd \<notin> set (grp_fds g)"
proof -
  let ?w1 = "upd_group gid f w"
  note U = upd_group_ok [OF c g(1) D, of f]
  have fg: "gr_game (f g) = gr_game g" by (simp add: f_def)
  note c1 = U(1) [OF fg]
  show st: "cb_step\<^sup>*\<^sup>* w w'" using U(2) [OF fg] rest_step [of w' ?w1] by (simp add: w'_def)
  show gr: "sv_groups w' = (sv_groups w)(gid \<mapsto> f g)" using g by (auto simp: w'_def upd_group_def)
  show sp: "sv_sprites w' = (sv_sprites w)(fd \<mapsto> p\<lparr>gp_group := Some gid\<rparr>)" using p by (auto simp: w'_def fun_eq_iff)
  have s: "sv_sprites w' x = (if x = fd then Some (p\<lparr>gp_group := Some gid\<rparr>) else sv_sprites ?w1 x)" "sv_sprites ?w1 = sv_sprites w" for x
    by (simp_all add: sp)
  have e: "tw_heap w' = tw_heap ?w1" "tw_lists w' = tw_lists ?w1" "tw_vec w' = tw_vec ?w1" "tw_now w' = tw_now ?w1" "sv_groups w' = sv_groups ?w1"
    "sv_ids w' = sv_ids ?w1" "sv_cn w' = sv_cn ?w1" "sv_fdmax w' = sv_fdmax ?w1" "sv_count w' = sv_count ?w1"
    by (simp_all add: w'_def fun_eq_iff)
  have co: "conn_ok w'" using coreD(3) [OF c1] p(1) unfolding conn_ok_def e s by (auto split: if_splits)
  have io: "ids_ok w'" by (rule new_member_ids [OF coreD(4) [OF c1], of fd p _ gid]) (use p u in \<open>simp_all add: s e\<close>)
  have a: "active w' = active ?w1" by (rule active_cong) (rule e(1))
  have "timer_own w' t" if "timer_own ?w1 t" for t
    by (rule timer_own_cong [OF that e(4,5)]) (use p in \<open>auto simp: s\<close>)
  then have oo: "own_ok w'" using coreD(5) [OF c1] unfolding own_ok_def a e(5) by blast
  have m: "members_of w' x = (if x = gid then insert fd (members_of w gid) else members_of w x)" for x
    using p(2) by (auto simp: members_of_def sp p)
  have nm: "fd \<notin> members_of w x" for x using p by (simp add: members_of_def)
  show "fd \<notin> set (grp_fds g)" using nm g(2) by (simp add: seats_ok_def)
  have loc: "sv_groups w' x = sv_groups ?w1 x \<and> members_of w' x = members_of ?w1 x \<and> (\<forall>fd \<in> members_of ?w1 x. sv_sprites w' fd = sv_sprites ?w1 fd)"
    if "x \<notin> D" for x
  proof -
    have "members_of ?w1 x = members_of w x" by (simp add: members_of_def)
    then show ?thesis using that D m [of x] nm [of x] by (auto simp: e(5) s(1))
  qed
  have wo: "wheel_ok w'" using coreD(1) [OF c1] wheel_cong [OF e(1-3)] by simp
  show "core mp ok libs D w'" by (rule core_local [OF c1 wo e(4) co io oo subset_refl loc])
  show "seats_ok w' gid (f g)"
    using g(2) nm [of gid] m [of gid] p(3) unfolding seats_ok_def by (auto simp: f_def sp)
qed

text \<open>
  The seat that a new sprite asks for in a group that has not begun is free: the group is one of its
  game, no other player sits there, and there are fewer than 20 watchers.
\<close>

definition seat_free :: "game_conf \<Rightarrow> ('g, 'pkg) server \<Rightarrow> u64 \<Rightarrow> sprite \<Rightarrow> bool" where
  "seat_free game w gid p \<longleftrightarrow>
     (case sv_groups w gid of
        None \<Rightarrow> True
      | Some g \<Rightarrow> bit (gr_flag g) 0 \<or> gr_game g = game \<and>
          (if bit (sp_status p) 0 then sp_pos_id p \<notin> (\<lambda>fd. sp_pos_id (gp_sprite (sprite_at w fd))) ` set (gr_players g)
           else length (gr_watchers g) < 20))"

text \<open>The last player has come, and the game is still to begin.\<close>

definition full_ok :: "nat set \<Rightarrow> ('g, 'pkg) server \<Rightarrow> 'g group_t \<Rightarrow> bool" where
  "full_ok libs w g \<longleftrightarrow> conf_ok libs (gr_game g) \<and> length (gr_watchers g) \<le> 20 \<and> bit (gr_flag g) 0 \<and> \<not> bit (gr_flag g) 1 \<and>
     gr_handler g = None \<and> length (gr_players g) = gc_players (gr_game g) \<and>
     distinct (map (\<lambda>fd. sp_pos_id (gp_sprite (sprite_at w fd))) (gr_players g)) \<and>
     (\<forall>fd \<in> set (gr_players g). \<not> bad_seat (gr_game g) (gp_sprite (sprite_at w fd)))"

lemma fresh_phase: "conf_ok libs c \<Longrightarrow> phase_ok mp ok libs w (fresh_group c)"
  by (simp add: phase_ok_def fresh_group_def conf_ok_def)

lemma phase_watch:
  assumes ph: "phase_ok mp ok libs w g" and s: "\<forall>x \<in> set (gr_players g). sv_sprites w' x = sv_sprites w x" and l: "length (gr_watchers g) < 20"
  shows "phase_ok mp ok libs w' (g\<lparr>gr_watchers := gr_watchers g @ [fd]\<rparr>)"
proof -
  have "same_seats (grp_view w (g\<lparr>gr_watchers := gr_watchers g @ [fd]\<rparr>)) X \<longleftrightarrow> same_seats (grp_view w g) X" for X
    by (simp add: grp_view_def same_seats_def)
  then have "phase_ok mp ok libs w (g\<lparr>gr_watchers := gr_watchers g @ [fd]\<rparr>)"
    using ph l by (cases "bit (gr_flag g) 0") (simp_all add: phase_ok_def)
  then show ?thesis using agree_phase [of "g\<lparr>gr_watchers := gr_watchers g @ [fd]\<rparr>" w' w] s by simp
qed

lemma phase_play:
  assumes ph: "phase_ok mp ok libs w g" and r: "\<not> bit (gr_flag g) 0" and s: "\<forall>x \<in> set (gr_players g). sv_sprites w' x = sv_sprites w x"
    and p: "sp_pos_id (gp_sprite (sprite_at w' fd)) \<notin> (\<lambda>fd. sp_pos_id (gp_sprite (sprite_at w fd))) ` set (gr_players g)"
      "\<not> bad_seat (gr_game g) (gp_sprite (sprite_at w' fd))"
  shows "length (gr_players g) + 1 \<noteq> gc_players (gr_game g) \<Longrightarrow> phase_ok mp ok libs w' (g\<lparr>gr_players := gr_players g @ [fd]\<rparr>)"
    and "length (gr_players g) + 1 = gc_players (gr_game g) \<Longrightarrow>
      full_ok libs w' (g\<lparr>gr_players := gr_players g @ [fd], gr_flag := set_bit 0 (gr_flag g)\<rparr>)"
proof -
  have e: "map (\<lambda>fd. sp_pos_id (gp_sprite (sprite_at w' fd))) (gr_players g) = map (\<lambda>fd. sp_pos_id (gp_sprite (sprite_at w fd))) (gr_players g)"
    using s by simp
  have i: "(\<lambda>fd. sp_pos_id (gp_sprite (sprite_at w' fd))) ` set (gr_players g) = (\<lambda>fd. sp_pos_id (gp_sprite (sprite_at w fd))) ` set (gr_players g)"
    using arg_cong [OF e, of set] by simp
  have d: "distinct (map (\<lambda>fd. sp_pos_id (gp_sprite (sprite_at w' fd))) (gr_players g))"
    using ph r unfolding e by (simp add: phase_ok_def)
  have b: "\<forall>x \<in> set (gr_players g). \<not> bad_seat (gr_game g) (gp_sprite (sprite_at w' x))" using ph r s by (simp add: phase_ok_def)
  have rest: "conf_ok libs (gr_game g)" "length (gr_watchers g) \<le> 20" "\<not> bit (gr_flag g) 1" "gr_handler g = None"
    "length (gr_players g) < gc_players (gr_game g)" using ph r by (simp_all add: phase_ok_def)
  have n: "sp_pos_id (gp_sprite (sprite_at w' fd)) \<notin> (\<lambda>fd. sp_pos_id (gp_sprite (sprite_at w' fd))) ` set (gr_players g)" using p(1) i by simp
  show "phase_ok mp ok libs w' (g\<lparr>gr_players := gr_players g @ [fd]\<rparr>)" if "length (gr_players g) + 1 \<noteq> gc_players (gr_game g)"
    using rest r d b n p(2) that by (simp add: phase_ok_def)
  show "full_ok libs w' (g\<lparr>gr_players := gr_players g @ [fd], gr_flag := set_bit 0 (gr_flag g)\<rparr>)" if "length (gr_players g) + 1 = gc_players (gr_game g)"
    using rest r d b n p(2) that by (simp add: full_ok_def bit_set_bit_iff)
qed

context game_server begin

lemma alloc_ok:
  assumes c: "core mp ok libs {} w" and g: "sv_groups w gid = None" and cf: "conf_ok libs game"
  defines "w' \<equiv> alloc_game_group e gid game w"
  shows "core mp ok libs {gid} w'" "cb_step\<^sup>*\<^sup>* w w'" "sv_sprites w' = sv_sprites w" "sv_groups w' = (sv_groups w)(gid \<mapsto> fresh_group game)"
    "seats_ok w' gid (fresh_group game)"
proof -
  define w1 where "w1 = w\<lparr>sv_groups := (sv_groups w)(gid \<mapsto> fresh_group game)\<rparr>"
  let ?a = "ev_alloc e (concat (map (vec_at w1) [0..<5]))" and ?x = "tw_now w1 + gc_timeout game"
  have w': "w' = fst (add_timer_event ?a (group_timers gid) 2 (group_timers gid) 0 ?x w1)"
    by (simp add: w'_def alloc_game_group_def w1_def fresh_group_def Let_def)
  have e1: "tw_heap w1 = tw_heap w" "tw_lists w1 = tw_lists w" "tw_vec w1 = tw_vec w" "tw_baseid w1 = tw_baseid w" "tw_now w1 = tw_now w"
    by (simp_all add: w1_def)
  have wo: "wheel_ok w1" using coreD(1) [OF c] wheel_cong [OF e1(1-3)] by simp
  note h = alloc_heap [OF wo]
  have x: "tw_now w1 < ?x" "0 < ?x" using cf coreD(2) [OF c] e1(5) by (simp_all add: conf_ok_def)
  have st: "cb_step w1 w'" unfolding w' by (rule cb_add [OF h _ x(2,1)]) simp
  with rest_step [OF e1] show stp: "cb_step\<^sup>*\<^sup>* w w'" by (rule rtranclp.rtrancl_into_rtrancl)
  note A = add_event_active [OF wo h _ x(2), of 2 "group_timers gid" "group_timers gid" 0, folded w']
  note S = server_eq_iff [OF A(2)]
  note W = cb_step_ok [OF st wo]
  have n: "tw_now w' = tw_now w" using W e1(5) by (simp add: grows_def)
  show sp: "sv_sprites w' = sv_sprites w" using S by (simp add: w1_def)
  show gr: "sv_groups w' = (sv_groups w)(gid \<mapsto> fresh_group game)" using S by (simp add: w1_def)
  have e: "sv_ids w' = sv_ids w" "sv_cn w' = sv_cn w" "sv_fdmax w' = sv_fdmax w" "sv_count w' = sv_count w" using S by (simp_all add: w1_def)
  have a1: "active w1 = active w" by (rule active_cong) (rule e1(1))
  have "timer_own w' t" if "timer_own w t" for t
    using that g unfolding timer_own_def n sp gr by (metis fun_upd_other option.distinct(1))
  moreover have "timer_own w' \<lparr>tm_id = i, tm_expire = ?x, tm_owner = group_timers gid, tm_data = 0, tm_function = 2, tm_list = Some (group_timers gid)\<rparr>" for i
    using e1(5) n by (auto simp: timer_own_def gr fresh_group_def)
  ultimately have "timer_own w' t" if "active w' b = Some t" for b t
    using that coreD(5) [OF c] unfolding own_ok_def A(1) [simplified] a1 by (cases "b = ?a") auto
  moreover have "\<exists>b t. active w' b = Some t \<and> tm_list t = Some (group_timers x)" if "sv_groups w' x = Some y" for x y
  proof (cases "x = gid")
    case True
    then show ?thesis using A(1) by (intro exI [of _ ?a]) simp
  next
    case False
    then have "sv_groups w x = Some y" using that gr by simp
    then obtain b t where b: "active w b = Some t" "tm_list t = Some (group_timers x)"
      using coreD(5) [OF c] unfolding own_ok_def by blast
    moreover have "active w1 ?a = None" using h by (simp add: active_def)
    ultimately have "active w' b = Some t" using A(1) a1 by auto
    with b(2) show ?thesis by blast
  qed
  ultimately have oo: "own_ok w'" unfolding own_ok_def by blast
  have m: "members_of w' x = members_of w x" for x by (simp add: members_of_def sp)
  show "core mp ok libs {gid} w'"
    by (rule core_local [OF c _ n _ _ oo]) (use W coreD(3,4) [OF c] m in \<open>auto simp: conn_ok_def ids_ok_def sp gr e\<close>)
  show "seats_ok w' gid (fresh_group game)"
    using coreD(6) [OF c _ g] m [of gid] by (simp add: seats_ok_def fresh_group_def)
qed

text \<open>The group that a sprite joins, as it is found or made.\<close>

lemma target_group:
  fixes gid :: u64
  assumes c: "core mp ok libs {} w" and cf: "conf_ok libs game"
  defines "w1 \<equiv> (if sv_groups w gid = None then alloc_game_group e gid game w else w)"
  shows "\<exists>g. sv_groups w1 gid = Some g \<and> core mp ok libs {gid} w1 \<and> cb_step\<^sup>*\<^sup>* w w1 \<and> sv_sprites w1 = sv_sprites w \<and> seats_ok w1 gid g \<and>
    phase_ok mp ok libs w g \<and> (sv_groups w gid = None \<longrightarrow> g = fresh_group game) \<and> (sv_groups w gid \<noteq> None \<longrightarrow> w1 = w)"
proof (cases "sv_groups w gid")
  case None
  from alloc_ok [OF c None cf] None fresh_phase [OF cf] show ?thesis by (simp add: w1_def)
next
  case (Some g)
  with coreD(7,8) [OF c _ Some] core_mono [OF c empty_subsetI] show ?thesis by (simp add: w1_def)
qed

lemma seat_ok:
  assumes c: "core mp ok libs {gid} w" and g: "sv_groups w gid = Some g" "seats_ok w gid g" "phase_ok mp ok libs w g"
    and p: "sv_sprites w fd = Some p" "gp_group p = None" "bit (sp_status (gp_sprite p)) 1 \<longleftrightarrow> \<not> bit (sp_status (gp_sprite p)) 0"
    and n: "\<not> seat_refused g (gp_sprite p)" "seat_free game w gid (gp_sprite p)"
    and u: "\<forall>x q. sv_sprites w x = Some q \<and> gp_group q \<noteq> None \<longrightarrow> sp_id (gp_sprite q) \<noteq> sp_id (gp_sprite p)"
  shows "\<not> seat_overrun g (gp_sprite p)"
    and "\<exists>g'. sv_groups (take_seat fd gid game w) gid = Some g' \<and> core mp ok libs {gid} (take_seat fd gid game w) \<and>
      cb_step\<^sup>*\<^sup>* w (take_seat fd gid game w) \<and> seats_ok (take_seat fd gid game w) gid g' \<and>
      sv_sprites (take_seat fd gid game w) = (sv_sprites w)(fd \<mapsto> p\<lparr>gp_group := Some gid\<rparr>) \<and>
      (phase_ok mp ok libs (take_seat fd gid game w) g' \<and> fd \<in> set (grp_fds g') \<and> (bit (gr_flag g') 0 \<longrightarrow> fd \<in> set (gr_watchers g')) \<or>
       full_ok libs (take_seat fd gid game w) g' \<and> fd \<in> set (gr_players g'))"
proof -
  let ?P = "gp_sprite p"
  let ?f = "\<lambda>g. if bit (sp_status ?P) 0 then g\<lparr>gr_players := gr_players g @ [fd]\<rparr> else g\<lparr>gr_watchers := gr_watchers g @ [fd]\<rparr>"
  define w2 where "w2 = upd_sprite fd (\<lambda>p. p\<lparr>gp_group := Some gid\<rparr>) (upd_group gid ?f w)"
  note S = add_seat_ok [OF c singletonI g(1,2) p u, folded w2_def]
  have ne: "\<forall>x \<in> set (gr_players g). sv_sprites w2 x = sv_sprites w x" using S(6) by (auto simp: S(5))
  have at: "gp_sprite (sprite_at w2 fd) = ?P" by (simp add: S(5))
  have cf: "gc_players (gr_game g) \<le> 10" "length (gr_watchers g) \<le> 20" using g(3) by (simp_all add: phase_ok_def conf_ok_def)
  have ts: "take_seat fd gid game w = (if \<not> bit (gr_flag (?f g)) 0 \<and> length (gr_players (?f g)) = gc_players game
      then upd_group gid (\<lambda>g. g\<lparr>gr_flag := set_bit 0 (gr_flag g)\<rparr>) w2 else w2)"
    using p(1) S(4) by (simp add: take_seat_def Let_def w2_def cong: if_cong)
  show "\<not> seat_overrun g ?P"
    using n cf g by (cases "bit (gr_flag g) 0")
      (auto simp: seat_overrun_def seat_refused_def seat_free_def phase_ok_def MAX_PLAYERS_PER_GAME_def MAX_WATCHERS_PER_GAME_def)
  show "\<exists>g'. sv_groups (take_seat fd gid game w) gid = Some g' \<and> core mp ok libs {gid} (take_seat fd gid game w) \<and>
      cb_step\<^sup>*\<^sup>* w (take_seat fd gid game w) \<and> seats_ok (take_seat fd gid game w) gid g' \<and>
      sv_sprites (take_seat fd gid game w) = (sv_sprites w)(fd \<mapsto> p\<lparr>gp_group := Some gid\<rparr>) \<and>
      (phase_ok mp ok libs (take_seat fd gid game w) g' \<and> fd \<in> set (grp_fds g') \<and> (bit (gr_flag g') 0 \<longrightarrow> fd \<in> set (gr_watchers g')) \<or>
       full_ok libs (take_seat fd gid game w) g' \<and> fd \<in> set (gr_players g'))"
  proof (cases "bit (sp_status ?P) 0")
    case False
    have l: "length (gr_watchers g) < 20"
      using n cf g(1) False by (cases "bit (gr_flag g) 0") (auto simp: seat_refused_def seat_free_def MAX_WATCHERS_PER_GAME_def)
    have ph: "phase_ok mp ok libs w2 (?f g)" using phase_watch [OF g(3) ne l, of fd] False by simp
    show ?thesis
    proof (cases "\<not> bit (gr_flag g) 0 \<and> length (gr_players g) = gc_players game")
      case True
      then have "gr_game g = game" using n(2) g(1) by (simp add: seat_free_def)
      then show ?thesis using True g(3) by (simp add: phase_ok_def)
    next
      case nf: False
      then have "take_seat fd gid game w = w2" using ts False by auto
      then show ?thesis using S(1-5) ph False by (intro exI [of _ "?f g"]) simp
    qed
  next
    case True
    then have r: "\<not> bit (gr_flag g) 0" "\<not> bad_seat (gr_game g) ?P" using n(1) by (auto simp: seat_refused_def)
    have fr: "gr_game g = game" "sp_pos_id ?P \<notin> (\<lambda>fd. sp_pos_id (gp_sprite (sprite_at w fd))) ` set (gr_players g)"
      using n(2) g(1) r(1) True by (simp_all add: seat_free_def)
    note P = phase_play [OF g(3) r(1) ne, of fd, unfolded at, OF fr(2) r(2)]
    show ?thesis
    proof (cases "length (gr_players g) + 1 = gc_players (gr_game g)")
      case False
      then have "take_seat fd gid game w = w2" using ts True fr(1) by auto
      then show ?thesis using S(1-5) P(1) [OF False] True r(1) by (intro exI [of _ "?f g"]) simp
    next
      case full: True
      let ?u = "\<lambda>g. g\<lparr>gr_flag := set_bit 0 (gr_flag g)\<rparr>"
      have t: "take_seat fd gid game w = upd_group gid ?u w2" using ts True fr(1) full r(1) by auto
      have g2: "sv_groups w2 gid = Some (?f g)" by (simp add: S(4))
      note U = upd_group_ok [OF S(1) g2 singletonI, of ?u, simplified]
      have "seats_ok (upd_group gid ?u w2) gid (?u (?f g))" using S(3) by (simp add: seats_ok_def members_of_def)
      moreover have "full_ok libs (upd_group gid ?u w2) (?u (?f g))" using P(2) [OF full] True by (simp add: full_ok_def)
      ultimately show ?thesis unfolding t
        using U S(2,5) g2 True rtranclp_trans [OF S(2) U(2)] by (intro exI [of _ "?u (?f g)"]) simp
    qed
  qed
qed

lemma join_ok:
  assumes c: "core mp ok libs {} w" and p: "sv_sprites w fd = Some p" "gp_group p = None"
      "bit (sp_status (gp_sprite p)) 1 \<longleftrightarrow> \<not> bit (sp_status (gp_sprite p)) 0"
    and id: "0 < gameid" "gameid < GAMES_NUM_MAX" and lt: "0 < gc_timeout (ev_games e (nat gameid))" and f: "seat_free (ev_games e (nat gameid)) w gid (gp_sprite p)"
    and u: "\<forall>x q. sv_sprites w x = Some q \<and> gp_group q \<noteq> None \<longrightarrow> sp_id (gp_sprite q) \<noteq> sp_id (gp_sprite p)"
  shows "join_game e fd gameid gid w = Some (w, -1) \<or>
    (\<exists>w' g. join_game e fd gameid gid w = Some (w', 0) \<and> sv_groups w' gid = Some g \<and> core mp ok libs {gid} w' \<and> cb_step\<^sup>*\<^sup>* w w' \<and>
      seats_ok w' gid g \<and> sv_sprites w' = (sv_sprites w)(fd \<mapsto> p\<lparr>gp_group := Some gid\<rparr>) \<and> fd \<in> set (grp_fds g) \<and>
      (phase_ok mp ok libs w' g \<and> (bit (gr_flag g) 0 \<longrightarrow> fd \<in> set (gr_watchers g)) \<or> full_ok libs w' g \<and> fd \<in> set (gr_players g)))"
proof -
  let ?game = "ev_games e (nat gameid)" and ?P = "gp_sprite p"
  define w1 where "w1 = (if sv_groups w gid = None then alloc_game_group e gid ?game w else w)"
  from target_group [OF c confs_ok [OF lt], of gid, folded w1_def] obtain g where
    g: "sv_groups w1 gid = Some g" "core mp ok libs {gid} w1" "cb_step\<^sup>*\<^sup>* w w1" "sv_sprites w1 = sv_sprites w" "seats_ok w1 gid g"
      "phase_ok mp ok libs w g" "sv_groups w gid = None \<longrightarrow> g = fresh_group ?game" "sv_groups w gid \<noteq> None \<longrightarrow> w1 = w" by (elim exE conjE)
  have head: "join_game e fd gameid gid w = (if bad_seat ?game ?P \<and> bit (sp_status ?P) 0 then Some (w, -1)
      else if seat_refused g ?P then Some (w1, -1) else if seat_overrun g ?P then None else Some (take_seat fd gid ?game w1, 0))"
  proof -
    have "\<not> (gp_group (sprite_at w fd) \<noteq> None \<or> gameid \<le> 0 \<or> GAMES_NUM_MAX \<le> gameid)" "gp_sprite (sprite_at w fd) = ?P" "the (sv_groups w1 gid) = g"
      using p id g(1) by simp_all
    then show ?thesis unfolding join_game_def Let_def w1_def [symmetric] by (simp only: p(3) if_False not_not)
  qed
  show ?thesis
  proof (cases "bad_seat ?game ?P \<and> bit (sp_status ?P) 0 \<or> seat_refused g ?P")
    case True
    have "seat_refused g ?P \<Longrightarrow> \<not> (bad_seat ?game ?P \<and> bit (sp_status ?P) 0) \<Longrightarrow> w1 = w"
      using g(7,8) by (cases "sv_groups w gid") (auto simp: seat_refused_def fresh_group_def)
    then show ?thesis using True head by auto
  next
    case False
    have ph: "phase_ok mp ok libs w1 g" using agree_phase [of g w1 w] g(4,6) by simp
    have sf: "seat_free ?game w1 gid ?P"
      using f g(1,4,7,8) by (cases "sv_groups w gid") (auto simp: seat_free_def fresh_group_def)
    have p1: "sv_sprites w1 fd = Some p" using p(1) g(4) by simp
    from seat_ok [OF g(2,1,5) ph p1 p(2,3) _ sf] False u g(4) obtain g' where
      "\<not> seat_overrun g ?P" "sv_groups (take_seat fd gid ?game w1) gid = Some g'" "core mp ok libs {gid} (take_seat fd gid ?game w1)"
      "cb_step\<^sup>*\<^sup>* w1 (take_seat fd gid ?game w1)" "seats_ok (take_seat fd gid ?game w1) gid g'"
      "sv_sprites (take_seat fd gid ?game w1) = (sv_sprites w1)(fd \<mapsto> p\<lparr>gp_group := Some gid\<rparr>)"
      "phase_ok mp ok libs (take_seat fd gid ?game w1) g' \<and> fd \<in> set (grp_fds g') \<and> (bit (gr_flag g') 0 \<longrightarrow> fd \<in> set (gr_watchers g')) \<or>
       full_ok libs (take_seat fd gid ?game w1) g' \<and> fd \<in> set (gr_players g')" by auto
    with head False g(4) rtranclp_trans [OF g(3)] show ?thesis
      by (intro disjI2 exI [of _ "take_seat fd gid ?game w1"] exI [of _ g']) auto
  qed
qed

section \<open>The game begins\<close>

lemma quiet_notify_enter: "quiet w (notify_enter fd gid w)"
proof -
  have a: "quiet w (reply fd x w)" "quiet w w1 \<Longrightarrow> quiet w (send_to fds y w1)" for x y fds w1
    using quiet_trans [OF _ quiet_send] by simp_all
  show ?thesis unfolding notify_enter_def Let_def using a by (simp split: if_split)
qed

lemma quiet_notify_ready: "quiet w (notify_game_ready fd gid w)"
  by (simp add: notify_game_ready_def Let_def)

lemma frame_full:
  assumes f: "sv_frame w w'" and s: "seats_ok w gid g" and p: "full_ok libs w g"
  shows "full_ok libs w' g"
proof -
  have m: "same_sprite (sprite_at w fd) (sprite_at w' fd)" if "fd \<in> set (gr_players g)" for fd
    using frame_at [OF f seats_sprite [OF s]] that by simp
  then have e: "map (\<lambda>fd. sp_pos_id (gp_sprite (sprite_at w' fd))) (gr_players g) = map (\<lambda>fd. sp_pos_id (gp_sprite (sprite_at w fd))) (gr_players g)"
    by (simp add: same_sprite_def)
  have "bad_seat c (gp_sprite (sprite_at w' fd)) = bad_seat c (gp_sprite (sprite_at w fd))" if "fd \<in> set (gr_players g)" for c fd
    using m [OF that] by (simp add: bad_seat_def same_sprite_def)
  then show ?thesis using p unfolding full_ok_def e by auto
qed

lemma full_table_view:
  assumes i: "ids_ok w" and s: "seats_ok w gid g" and f: "full_ok libs w g" and h: "gc_handle (gr_game g) \<noteq> 0"
  shows "full_table (grp_view w g)"
proof -
  have two: "gc_players (gr_game g) = 2" using f h by (simp add: full_ok_def conf_ok_def)
  then obtain x y where xy: "gr_players g = [x, y]" using f by (auto simp: full_ok_def length_Suc_conv numeral_2_eq_2)
  let ?a = "sp_pos_id (gp_sprite (sprite_at w x))" and ?b = "sp_pos_id (gp_sprite (sprite_at w y))"
  have "?a \<noteq> ?b" "?a \<noteq> 0" "?b \<noteq> 0" "unat ?a \<le> 2" "unat ?b \<le> 2" using f xy two by (auto simp: full_ok_def bad_seat_def)
  moreover have "a = 1 \<or> a = 2" if "a \<noteq> 0" "unat a \<le> 2" for a :: u8
  proof -
    have "unat a = 1 \<or> unat a = 2" using that unat_eq_zero [of a] by arith
    then show ?thesis by (simp add: word_unat_eq_iff)
  qed
  ultimately have "{?a, ?b} = {1, 2}" by (metis doubleton_eq_iff)
  then show ?thesis using seated_view [OF i s] xy by (simp add: full_table_def)
qed

lemma begin_ok:
  assumes c: "core mp ok libs {gid} w" and g: "sv_groups w gid = Some g" and s: "seats_ok w gid g"
    and p: "sv_sprites w fd = Some p" "gp_group p = Some gid"
    and h: "phase_ok mp ok libs w g \<and> (bit (gr_flag g) 0 \<longrightarrow> fd \<in> set (gr_watchers g)) \<or> full_ok libs w g \<and> fd \<in> set (gr_players g)"
  shows "\<exists>w'. begin_if_ready e fd gid w = Some w' \<and> core mp ok libs {} w' \<and> cb_step\<^sup>*\<^sup>* w w'"
proof (cases "bit (gr_flag g) 0")
  case False
  then have "phase_ok mp ok libs w g" using h by (auto simp: full_ok_def)
  from core_close [OF c g s this] False g show ?thesis by (simp add: begin_if_ready_def)
next
  case True
  define w1 where "w1 = notify_game_ready fd gid w"
  have q: "quiet w w1" unfolding w1_def by (rule quiet_notify_ready)
  note Q = quiet_core [OF q c]
  have f: "sv_frame w w1" using q by (simp add: quiet_def)
  have g1: "sv_groups w1 gid = Some g" using f g by (simp add: sv_frame_def)
  note s1 = frame_seats [OF f s]
  have h1: "phase_ok mp ok libs w1 g \<and> fd \<in> set (gr_watchers g) \<or> full_ok libs w1 g \<and> fd \<in> set (gr_players g)"
    using h True frame_phase [OF f s] frame_full [OF f s] by blast
  from frame_sprite(2) [OF f p(1)] obtain p1 where p1: "sv_sprites w1 fd = Some p1" "gp_group p1 = Some gid"
    using p(2) by (auto simp: same_sprite_def)
  let ?init = "\<lambda>h. map_option (\<lambda>(h', os). (h', os, 0)) (mp_init mp (tw_now w1) (unat (next_timer_id w1)) (gp_sprite p1) h)"
  have finish: "\<exists>w'. begin_if_ready e fd gid w = Some w' \<and> core mp ok libs {} w' \<and> cb_step\<^sup>*\<^sup>* w w'"
    if b: "on_game_begin e fd w1 = Some (w2, 0)" and cl: "called mp ok libs gid g h' w1 w2" and o: "ok h'" "same_seats (grp_view w1 g) (mp_grp mp h')"
      "bit (gg_flag (mp_grp mp h')) 0" "bit (gg_flag (mp_grp mp h')) 1" for w2 h'
  proof -
    have "conf_ok libs (gr_game g)" "length (gr_watchers g) \<le> 20" using h1 by (auto simp: phase_ok_def full_ok_def)
    from called_phase [OF cl s1 this o] have "core mp ok libs {} w2" .
    moreover have "cb_step\<^sup>*\<^sup>* w w2" using rtranclp_trans [OF Q(2)] cl by (simp add: called_def)
    ultimately show ?thesis using b g True by (simp add: begin_if_ready_def flip: w1_def)
  qed
  show ?thesis
  proof (cases "gc_handle (gr_game g) = 0")
    case z: True
    from end_ok [OF Q(1) g1 s1, of "Some fd" GER_game_system_err] obtain w' where
      w': "end_multiplayer_game gid (Some fd) GER_game_system_err w1 = Some w'" "core mp ok libs {} w'" "cb_step\<^sup>*\<^sup>* w1 w'" by auto
    have "on_game_begin e fd w1 = Some (w1, -1)" using z p1 g1 True by (simp add: on_game_begin_def)
    then show ?thesis using w' g True rtranclp_trans [OF Q(2) w'(3)] by (simp add: begin_if_ready_def flip: w1_def)
  next
    case nz: False
    from h1 show ?thesis
    proof
      assume F: "full_ok libs w1 g \<and> fd \<in> set (gr_players g)"
      then have pl: "bit (status_at w1 fd) 0" using s1 by (simp add: seats_ok_def)
      have lib: "gc_handle (gr_game g) \<in> libs" using F nz by (simp add: full_ok_def conf_ok_def)
      have rd: "GAME_READY (grp_view w1 g)" using True by (simp add: GAME_READY_def)
      have mem: "gp_sprite p1 \<in> set (gg_players (grp_view w1 g))" using F p1(1) by force
      from start_law [OF lib full_table_view [OF coreD(4) [OF Q(1)] s1 conjunct1 [OF F] nz] rd mem, of "tw_now w1" "unat (next_timer_id w1)"]
      obtain h0 h' os where st: "mp_create mp (gc_handle (gr_game g)) (grp_view w1 g) = Some h0"
        "mp_init mp (tw_now w1) (unat (next_timer_id w1)) (gp_sprite p1) h0 = Some (h', os)" "ok h'"
        "mp_grp mp h' = SET_GAME_START (grp_view w1 g)" "outs_ok (tw_now w1) (grp_view w1 g) os" by blast
      from call_ok [OF Q(1) g1 s1, of ?init h0 h' os 0] st(2,5) obtain w2 where
        w2: "call_game e gid ?init h0 w1 = Some (w2, 0)" "called mp ok libs gid g h' w1 w2" by auto
      have "on_game_begin e fd w1 = Some (w2, 0)"
        using w2(1) st(1) p1 g1 True nz pl by (simp add: on_game_begin_def games_of)
      from finish [OF this w2(2) st(3)] st(4) True show ?thesis
        by (simp add: SET_GAME_START_def same_seats_def bit_set_bit_iff)
    next
      assume F: "phase_ok mp ok libs w1 g \<and> fd \<in> set (gr_watchers g)"
      then have pl: "\<not> bit (status_at w1 fd) 0" using s1 by (simp add: seats_ok_def)
      from F True obtain h0 where h0: "gr_handler g = Some h0" "ok h0" "same_seats (grp_view w1 g) (mp_grp mp h0)"
        and f1: "bit (gr_flag g) 1" by (auto simp: phase_ok_def)
      let ?h1 = "mp_set_grp mp (grp_view w1 g) h0"
      have o1: "ok ?h1" "mp_grp mp ?h1 = grp_view w1 g" using set_grp_law [OF h0(2,3)] by auto
      have l: "seated (mp_grp mp ?h1)" "GAME_READY (mp_grp mp ?h1)" "GAME_STARTED (mp_grp mp ?h1)" "gp_sprite p1 \<in> set (gg_watchers (mp_grp mp ?h1))"
        using seated_view [OF coreD(4) [OF Q(1)] s1] o1(2) f1 True F p1(1) by (force simp: GAME_READY_def GAME_STARTED_def)+
      from watch_law [OF o1(1) l, of "tw_now w1" "unat (next_timer_id w1)"] obtain h' os where
        wl: "mp_init mp (tw_now w1) (unat (next_timer_id w1)) (gp_sprite p1) ?h1 = Some (h', os)" "ok h'" "mp_grp mp h' = grp_view w1 g"
          "outs_ok (tw_now w1) (grp_view w1 g) os" unfolding o1(2) by blast
      from call_ok [OF Q(1) g1 s1, of ?init ?h1 h' os 0] wl(1,4) obtain w2 where
        w2: "call_game e gid ?init ?h1 w1 = Some (w2, 0)" "called mp ok libs gid g h' w1 w2" by auto
      have "on_game_begin e fd w1 = Some (w2, 0)"
        using w2(1) h0(1) p1 g1 True nz pl by (simp add: on_game_begin_def games_of)
      from finish [OF this w2(2) wl(2)] wl(3) True f1 show ?thesis by (simp add: same_seats_def)
    qed
  qed
qed

end

end
