(* ===== verification/ServerRun.thy ===== *)
theory ServerRun
  imports ServerJoin
begin

text \<open>
  The events of the server one after another: under what the parent process and the clients of the
  server promise (\<open>fair\<close>), every event is handled and the invariant holds again.
\<close>

section \<open>A player enters\<close>

definition session_seat :: "gamesession \<Rightarrow> sprite" where
  "session_seat s =
     \<lparr>sp_id = gs_uid s, sp_pos_id = (if bit (gs_flag s) 0 then ucast (gs_posid s) else 0), sp_status = (if bit (gs_flag s) 0 then 1 else 2)\<rparr>"

lemma seat_free_cong:
  assumes "bit (sp_status p) 0 = bit (sp_status q) 0" and "bit (sp_status p) 0 \<Longrightarrow> sp_pos_id p = sp_pos_id q" and "sv_groups w' gid = sv_groups w gid"
    and "\<And>g x. sv_groups w gid = Some g \<Longrightarrow> x \<in> set (gr_players g) \<Longrightarrow>
      sp_pos_id (gp_sprite (sprite_at w' x)) = sp_pos_id (gp_sprite (sprite_at w x))"
  shows "seat_free game w' gid p = seat_free game w gid q"
proof (cases "sv_groups w gid")
  case (Some g)
  have "(\<lambda>fd. sp_pos_id (gp_sprite (sprite_at w' fd))) ` set (gr_players g) = (\<lambda>fd. sp_pos_id (gp_sprite (sprite_at w fd))) ` set (gr_players g)"
    by (rule image_cong) (use assms(4) Some in simp_all)
  then show ?thesis using assms(1-3) Some by (simp add: seat_free_def)
qed (use assms(3) in \<open>simp add: seat_free_def\<close>)

lemma loose_ok:
  assumes c: "core mp ok libs {} w" and p: "sv_sprites w fd = Some p" "gp_group p = None" and f: "gp_group (f p) = None" "sp_id (gp_sprite (f p)) = sp_id (gp_sprite p)"
  shows "core mp ok libs {} (upd_sprite fd f w)" "cb_step\<^sup>*\<^sup>* w (upd_sprite fd f w)"
proof -
  let ?w = "upd_sprite fd f w"
  show "cb_step\<^sup>*\<^sup>* w ?w" by (rule rest_step) simp_all
  have s: "sv_sprites ?w x = (if x = fd then Some (f p) else sv_sprites w x)" for x using p(1) by simp
  have e: "sv_ids ?w = sv_ids w" "sv_cn ?w = sv_cn w" "sv_fdmax ?w = sv_fdmax w" "sv_count ?w = sv_count w" "sv_groups ?w = sv_groups w"
    by (simp_all add: fun_eq_iff)
  have co: "conn_ok ?w" using coreD(3) [OF c] p(1) unfolding conn_ok_def e s by (auto split: if_splits)
  have io: "ids_ok ?w" using coreD(4) [OF c] p(1) f unfolding ids_ok_def e s by (auto split: if_splits)
  have a: "active ?w = active w" by (rule active_cong) simp
  have "timer_own ?w t" if "timer_own w t" for t
    by (rule timer_own_cong [OF that _ e(5)]) (use p in \<open>auto simp: s\<close>)
  then have oo: "own_ok ?w" using coreD(5) [OF c] unfolding own_ok_def a e by blast
  have m: "members_of ?w gid = members_of w gid" "fd \<notin> members_of w gid" for gid
    using p f by (auto simp: members_of_def s split: if_splits)
  show "core mp ok libs {} ?w"
    by (rule core_local [OF c _ _ co io oo subset_refl]) (use coreD(1) [OF c] wheel_cong [of ?w w] m in \<open>auto simp: e s\<close>)
qed

lemma attr_seat:
  assumes "gp_sprite p = \<lparr>sp_id = uid, sp_pos_id = 0, sp_status = 0\<rparr>" and "gp_group p = None"
  shows "gp_group (set_sprite_attr s p) = None" "sp_id (gp_sprite (set_sprite_attr s p)) = uid"
    "bit (sp_status (gp_sprite (set_sprite_attr s p))) 0 = bit (gs_flag s) 0"
    "bit (sp_status (gp_sprite (set_sprite_attr s p))) 1 = (\<not> bit (gs_flag s) 0)"
    "bit (gs_flag s) 0 \<Longrightarrow> sp_pos_id (gp_sprite (set_sprite_attr s p)) = ucast (gs_posid s)"
  using assms by (auto simp: set_sprite_attr_def Let_def bit_set_bit_iff)

section \<open>What the server may rely on\<close>

text \<open>
  The parent process sends what came on a connection that is open, in whole packages; a player who
  enters has no sprite left that is without a group (one that waits for its score to be stored), and
  asks for a seat of a listed game that is free.
\<close>

definition data_fair :: "('g, 'pkg) game_env \<Rightarrow> ('g, 'pkg) server \<Rightarrow> nat \<Rightarrow> byte list \<Rightarrow> bool" where
  "data_fair e w fd data \<longleftrightarrow>
     (let len = unat (be_u32 data 0); cmd = sint (be_u32 data 5); uid = be_u32 data 9; body = take (len - 17) (drop 17 data)
      in sv_cn w fd \<and> 17 \<le> length data \<and> len \<le> length data \<and>
         (cmd = proto_player_enter \<longrightarrow>
            list_all (\<lambda>x. id_at w x = uid \<longrightarrow> gp_group (sprite_at w x) \<noteq> None) (sv_ids w) \<and>
            (case unpkg_gamesession (ev_des e) body of
               None \<Rightarrow> True
             | Some s \<Rightarrow> 0 < gc_timeout (ev_games e (nat (gs_gameid s))) \<and> seat_free (ev_games e (nat (gs_gameid s))) w (gs_grpid s) (session_seat s))))"

fun fair :: "('g, 'pkg) game_env \<Rightarrow> sv_event \<Rightarrow> ('g, 'pkg) server \<Rightarrow> bool" where
  "fair e (OpenBlock fd len_ok) w \<longleftrightarrow> 1 \<le> fd \<and> fd < MAXFDS"
| "fair e (CloseBlock fd) w \<longleftrightarrow> True"
| "fair e (DataBlock fd data) w \<longleftrightarrow> data_fair e w fd data"
| "fair e (DbAnswer fd waitcmd cmd ret uid buf) w \<longleftrightarrow>
     (cmd = db_obtain_item \<or> cmd = db_obtain_pet_item \<longrightarrow>
        (case sv_sprites w fd of None \<Rightarrow> False | Some p \<Rightarrow> gp_group p \<noteq> None))"
| "fair e Second w \<longleftrightarrow> tw_now w + 1 < 2147483648"

definition sv_inv :: "('g, 'pkg) mpog \<Rightarrow> ('g \<Rightarrow> bool) \<Rightarrow> nat set \<Rightarrow> ('g, 'pkg) server \<Rightarrow> bool" where
  "sv_inv mp ok libs w \<longleftrightarrow> core mp ok libs {} w \<and> clock_ok w \<and> soon 1 w"

lemma sv_invD: "sv_inv mp ok libs w \<Longrightarrow> core mp ok libs {} w" "sv_inv mp ok libs w \<Longrightarrow> clock_ok w" "sv_inv mp ok libs w \<Longrightarrow> soon 1 w"
  by (simp_all add: sv_inv_def)

lemma cb_game_steps: "cb_step\<^sup>*\<^sup>* w w' \<Longrightarrow> game_step\<^sup>*\<^sup>* w w'"
  by (induction rule: rtranclp_induct) (auto intro: game_cb rtranclp.rtrancl_into_rtrancl)

lemma sv_inv_step: "sv_inv mp ok libs w \<Longrightarrow> core mp ok libs {} w' \<Longrightarrow> cb_step\<^sup>*\<^sup>* w w' \<Longrightarrow> sv_inv mp ok libs w'"
  using game_steps_ok [OF cb_game_steps, of w w'] coreD(1) [of mp ok libs "{}" w] by (simp add: sv_inv_def)

context game_server begin

lemma add_player_ok:
  assumes c: "core mp ok libs {} w" and cn: "sv_cn w fd" and n: "sv_sprites w fd = None"
    and u: "\<forall>x q. sv_sprites w x = Some q \<and> gp_group q \<noteq> None \<longrightarrow> sp_id (gp_sprite q) \<noteq> uid"
    and f: "\<And>s. unpkg_gamesession (ev_des e) body = Some s \<Longrightarrow> 0 < gc_timeout (ev_games e (nat (gs_gameid s))) \<and>
      seat_free (ev_games e (nat (gs_gameid s))) w (gs_grpid s) (session_seat s)"
  shows "\<exists>w' rv. add_player_cmd e fd uid body w = Some (w', rv) \<and> core mp ok libs {} w' \<and> cb_step\<^sup>*\<^sup>* w w' \<and> (rv \<noteq> 0 \<longrightarrow> no_group fd w')"
proof (cases "unpkg_gamesession (ev_des e) body")
  case None
  then show ?thesis using c n by (simp add: add_player_cmd_def no_group_def)
next
  case (Some s)
  show ?thesis
  proof (cases "session_ok (tw_now w) uid s")
    case False
    then show ?thesis using Some c n by (simp add: add_player_cmd_def auth_cmd_def no_group_def)
  next
    case True
    from add_sprite_ok [OF c cn n, of uid] obtain w1 rv where
      w1: "add_sprite fd uid w = Some (w1, rv)" "rv \<noteq> 0 \<longrightarrow> w1 = w" "core mp ok libs {} w1" "cb_step\<^sup>*\<^sup>* w w1" "sv_groups w1 = sv_groups w"
        "rv \<in> {0, -1}" "\<forall>x. x \<noteq> fd \<longrightarrow> sv_sprites w1 x = sv_sprites w x"
        "rv = 0 \<longrightarrow> (\<exists>p. sv_sprites w1 fd = Some p \<and> gp_group p = None \<and> gp_sprite p = \<lparr>sp_id = uid, sp_pos_id = 0, sp_status = 0\<rparr>)"
      by (elim exE conjE)
    show ?thesis
    proof (cases "rv = 0")
      case False
      then show ?thesis using w1(1,2,6) Some True c n by (simp add: add_player_cmd_def auth_cmd_def no_group_def)
    next
      case rv: True
      with w1(8) obtain p where p: "sv_sprites w1 fd = Some p" "gp_group p = None" "gp_sprite p = \<lparr>sp_id = uid, sp_pos_id = 0, sp_status = 0\<rparr>"
        by blast
      note A = attr_seat [OF p(3,2), of s]
      let ?w2 = "upd_sprite fd (set_sprite_attr s) w1" and ?p = "set_sprite_attr s p" and ?gid = "gs_grpid s"
      let ?game = "ev_games e (nat (gs_gameid s))"
      have id1: "sp_id (gp_sprite ?p) = sp_id (gp_sprite p)" using A(2) p(3) by simp
      note L = loose_ok [where f = "set_sprite_attr s", OF w1(3) p(1,2) A(1) id1]
      have s2: "sv_sprites ?w2 fd = Some ?p" "\<And>x. x \<noteq> fd \<Longrightarrow> sv_sprites ?w2 x = sv_sprites w x" using p(1) w1(7) by simp_all
      have g2: "sv_groups ?w2 = sv_groups w" using w1(5) by (simp add: fun_eq_iff)
      have sf: "seat_free ?game ?w2 ?gid (gp_sprite ?p)"
      proof (subst seat_free_cong [where q = "session_seat s" and w = w])
        show "seat_free ?game w ?gid (session_seat s)" by (rule conjunct2 [OF f [OF Some]])
        show "sp_pos_id (gp_sprite (sprite_at ?w2 x)) = sp_pos_id (gp_sprite (sprite_at w x))"
          if "sv_groups w ?gid = Some g" "x \<in> set (gr_players g)" for g x
        proof -
          have "sv_sprites w x \<noteq> None" using seats_sprite [OF coreD(7) [OF c _ that(1)], of x] that(2) by simp
          then have "x \<noteq> fd" using n by auto
          then show ?thesis using s2(2) by simp
        qed
      qed (use A g2 in \<open>simp_all add: session_seat_def\<close>)
      have st: "bit (sp_status (gp_sprite ?p)) 1 \<longleftrightarrow> \<not> bit (sp_status (gp_sprite ?p)) 0" using A(3,4) by simp
      have u2: "\<forall>x q. sv_sprites ?w2 x = Some q \<and> gp_group q \<noteq> None \<longrightarrow> sp_id (gp_sprite q) \<noteq> sp_id (gp_sprite ?p)"
      proof (intro allI impI)
        fix x q
        assume H: "sv_sprites ?w2 x = Some q \<and> gp_group q \<noteq> None"
        then have "x \<noteq> fd" using s2(1) A(1) by auto
        then have "sv_sprites w x = Some q" using H s2(2) by metis
        then show "sp_id (gp_sprite q) \<noteq> sp_id (gp_sprite ?p)" using u H A(2) by simp
      qed
      have gi: "0 < gs_gameid s" "gs_gameid s < GAMES_NUM_MAX" using True by (simp_all add: session_ok_def)
      have step: "cb_step\<^sup>*\<^sup>* w ?w2" by (rule rtranclp_trans [OF w1(4) L(2)])
      have head: "add_player_cmd e fd uid body w = do {
          (w3, rv2) \<leftarrow> join_game e fd (gs_gameid s) ?gid ?w2;
          if rv2 = -1 then Some (reply fd (PkgError proto_player_enter (- ERR_OCCUPIED_POS)) w3, -1)
          else do { w4 \<leftarrow> begin_if_ready e fd ?gid (notify_enter fd ?gid w3); Some (w4, 0) } }"
        using Some True w1(1) rv by (simp add: add_player_cmd_def auth_cmd_def)
      consider "join_game e fd (gs_gameid s) ?gid ?w2 = Some (?w2, -1)"
        | w3 g where "join_game e fd (gs_gameid s) ?gid ?w2 = Some (w3, 0)" "sv_groups w3 ?gid = Some g" "core mp ok libs {?gid} w3" "cb_step\<^sup>*\<^sup>* ?w2 w3"
          "seats_ok w3 ?gid g" "sv_sprites w3 = (sv_sprites ?w2)(fd \<mapsto> ?p\<lparr>gp_group := Some ?gid\<rparr>)" "fd \<in> set (grp_fds g)"
          "phase_ok mp ok libs w3 g \<and> (bit (gr_flag g) 0 \<longrightarrow> fd \<in> set (gr_watchers g)) \<or> full_ok libs w3 g \<and> fd \<in> set (gr_players g)"
        by (rule disjE [OF join_ok [OF L(1) s2(1) A(1) st gi conjunct1 [OF f [OF Some]] sf u2]], erule that(1), elim exE conjE, rule that(2))
      then show ?thesis
      proof cases
        case 1
        let ?w' = "reply fd (PkgError proto_player_enter (- ERR_OCCUPIED_POS)) ?w2"
        have "add_player_cmd e fd uid body w = Some (?w', -1)" using head 1 by simp
        moreover have "no_group fd ?w'"
        proof -
          have "no_group fd ?w2" unfolding no_group_def s2(1) using A(1) by simp
          then show ?thesis unfolding quiet_no_group [OF quiet_reply] .
        qed
        moreover note quiet_core(1) [OF quiet_reply L(1)] rtranclp_trans [OF step quiet_core(2) [OF quiet_reply L(1)]]
        ultimately show ?thesis by blast
      next
        case (2 w3 g)
        let ?w4 = "notify_enter fd ?gid w3"
        note q = quiet_notify_enter [of w3 fd ?gid]
        note Q = quiet_core [OF q 2(3)]
        have fr: "sv_frame w3 ?w4" using q by (simp add: quiet_def)
        have p3: "sv_sprites w3 fd = Some (?p\<lparr>gp_group := Some ?gid\<rparr>)" using 2(6) by simp
        from frame_sprite(2) [OF fr p3] obtain p4 where p4: "sv_sprites ?w4 fd = Some p4" "gp_group p4 = Some ?gid" by (auto simp: same_sprite_def)
        have g4: "sv_groups ?w4 ?gid = Some g" using 2(2) fr by (simp add: sv_frame_def)
        have "phase_ok mp ok libs ?w4 g \<and> (bit (gr_flag g) 0 \<longrightarrow> fd \<in> set (gr_watchers g)) \<or> full_ok libs ?w4 g \<and> fd \<in> set (gr_players g)"
          using 2(8) frame_phase [OF fr 2(5)] frame_full [OF fr 2(5)] by blast
        from begin_ok [OF Q(1) g4 frame_seats [OF fr 2(5)] p4 this] obtain w' where
          w': "begin_if_ready e fd ?gid ?w4 = Some w'" "core mp ok libs {} w'" "cb_step\<^sup>*\<^sup>* ?w4 w'" by blast
        have "add_player_cmd e fd uid body w = Some (w', 0)" using head 2(1) w'(1) by simp
        with w'(2) rtranclp_trans [OF step rtranclp_trans [OF 2(4) rtranclp_trans [OF Q(2) w'(3)]]] show ?thesis by blast
      qed
    qed
  qed
qed

text \<open>A player who is already there is taken out first.\<close>

lemma old_login_ok:
  assumes c: "core mp ok libs {} w" and n: "sv_sprites w fd = None" "sv_cn w fd"
    and l: "list_all (\<lambda>x. id_at w x = uid \<longrightarrow> gp_group (sprite_at w x) \<noteq> None) (sv_ids w)"
  shows "\<exists>w'. (case get_sprite uid w of None \<Rightarrow> Some w | Some old \<Rightarrow> handle_invalid_data e old GER_multi_login w) = Some w' \<and>
    core mp ok libs {} w' \<and> cb_step\<^sup>*\<^sup>* w w' \<and> sv_sprites w' fd = None \<and> sv_cn w' fd \<and>
    (\<forall>x q. sv_sprites w' x = Some q \<and> gp_group q \<noteq> None \<longrightarrow> sp_id (gp_sprite q) \<noteq> uid) \<and>
    (\<forall>game gid p. seat_free game w gid p \<longrightarrow> seat_free game w' gid p)"
proof (cases "get_sprite uid w")
  case None
  then have "id_at w x \<noteq> uid" if "x \<in> set (sv_ids w)" for x using that by (auto simp: get_sprite_def find_None_iff)
  then have "sp_id (gp_sprite q) \<noteq> uid" if "sv_sprites w x = Some q" for x q
    using that coreD(4) [OF c] unfolding ids_ok_def by (metis option.sel option.distinct(1))
  with None c n show ?thesis by auto
next
  case (Some old)
  from find_in [OF Some [unfolded get_sprite_def]] have o: "old \<in> set (sv_ids w)" "id_at w old = uid" by auto
  then obtain p gid where p: "sv_sprites w old = Some p" "gp_group p = Some gid" "sp_id (gp_sprite p) = uid"
    using l coreD(4) [OF c] unfolding ids_ok_def list_all_iff by fastforce
  from invalid_ok [OF c p(1,2), of GER_multi_login] obtain w' where
    w': "handle_invalid_data e old GER_multi_login w = Some w'" "core mp ok libs {} w'" "out_of gid old w w'"
      "\<forall>g'. sv_groups w' gid = Some g' \<longrightarrow> bit (gr_flag g') 0" by blast
  note O = w'(3) [unfolded out_of_def]
  have fdn: "sv_sprites w' fd = None"
  proof (cases "sv_sprites w' fd")
    case (Some q)
    then have "\<exists>p. sv_sprites w fd = Some p" using O by blast
    with n(1) show ?thesis by simp
  qed
  have "fd \<notin> members_of w gid" using n(1) by (simp add: members_of_def)
  then have cn: "sv_cn w' fd" using O n(2) by blast
  have un: "sp_id (gp_sprite q) \<noteq> uid" if H: "sv_sprites w' x = Some q" "gp_group q \<noteq> None" for x q
  proof
    assume i: "sp_id (gp_sprite q) = uid"
    from O H(1) i obtain p0 where p0: "sv_sprites w x = Some p0" "sp_id (gp_sprite p0) = uid" by metis
    have "x \<in> set (sv_ids w)" using coreD(4) [OF c] p0(1) by (simp add: ids_ok_def)
    then have "gp_group p0 \<noteq> None" using l p0 by (auto simp: list_all_iff)
    then have "x = old" using coreD(4) [OF c] p0 p unfolding ids_ok_def by (metis option.distinct(1))
    moreover from O have "\<forall>q. sv_sprites w' old = Some q \<longrightarrow> gp_group q = None" by (elim conjE)
    ultimately show False using H by simp
  qed
  have sf: "seat_free game w' gid' q" if f: "seat_free game w gid' q" for game gid' q
  proof (cases "gid' = gid")
    case True
    then show ?thesis using w'(4) by (auto simp: seat_free_def split: option.split)
  next
    case False
    have "sp_pos_id (gp_sprite (sprite_at w' x)) = sp_pos_id (gp_sprite (sprite_at w x))"
      if "sv_groups w gid' = Some g" "x \<in> set (gr_players g)" for g x
    proof -
      have s: "seats_ok w gid' g" by (rule coreD(7) [OF c _ that(1)]) simp
      from member_sprite [OF s, of x] that(2) obtain px where px: "sv_sprites w x = Some px" "gp_group px = Some gid'" by auto
      then have "x \<notin> members_of w gid" using False by (simp add: members_of_def)
      then have "rel_option same_sprite (sv_sprites w x) (sv_sprites w' x)" using O by blast
      with px(1) obtain q where "sv_sprites w' x = Some q" "same_sprite px q" by (auto elim: option.rel_cases)
      with px(1) show ?thesis by (simp add: same_sprite_def)
    qed
    moreover have "sv_groups w' gid' = sv_groups w gid'" using O False by blast
    ultimately show ?thesis using f seat_free_cong [of q q w' gid' w game] by blast
  qed
  have "cb_step\<^sup>*\<^sup>* w w'" using O by blast
  moreover have "\<forall>x q. sv_sprites w' x = Some q \<and> gp_group q \<noteq> None \<longrightarrow> sp_id (gp_sprite q) \<noteq> uid" using un by blast
  ultimately show ?thesis using Some w'(1,2) fdn cn sf by (intro exI [of _ w']) simp
qed

lemma invalid_data_ok:
  assumes c: "core mp ok libs {} w"
  shows "\<exists>w' rv. (if sv_sprites w fd \<noteq> None then map_option (\<lambda>w1. (w1, 0)) (handle_invalid_data e fd reason w) else Some (w, -1)) = Some (w', rv) \<and>
    core mp ok libs {} w' \<and> cb_step\<^sup>*\<^sup>* w w' \<and> (rv \<noteq> 0 \<longrightarrow> no_group fd w')"
proof (cases "sv_sprites w fd")
  case None
  then show ?thesis using c by (simp add: no_group_def)
next
  case (Some p)
  from invalid_core [OF c Some, of reason] Some show ?thesis by auto
qed

lemma parse_ok:
  assumes c: "core mp ok libs {} w" and f: "data_fair e w fd data"
  shows "\<exists>w' rv. parse_protocol e fd data w = Some (w', rv) \<and> core mp ok libs {} w' \<and> cb_step\<^sup>*\<^sup>* w w' \<and> (rv \<noteq> 0 \<longrightarrow> no_group fd w')"
proof -
  define len cmd uid body where d: "len = unat (be_u32 data 0)" "cmd = sint (be_u32 data 5)" "uid = be_u32 data 9" "body = take (len - 17) (drop 17 data)"
  define invalid where "invalid = (if sv_sprites w fd \<noteq> None then map_option (\<lambda>w1. (w1, 0 :: int)) (handle_invalid_data e fd GER_invalid_data w) else Some (w, -1))"
  have fr: "sv_cn w fd" "17 \<le> length data" "len \<le> length data" using f by (simp_all add: data_fair_def Let_def d)
  have en: "list_all (\<lambda>x. id_at w x = uid \<longrightarrow> gp_group (sprite_at w x) \<noteq> None) (sv_ids w)"
    "\<And>s. unpkg_gamesession (ev_des e) body = Some s \<Longrightarrow> 0 < gc_timeout (ev_games e (nat (gs_gameid s))) \<and> seat_free (ev_games e (nat (gs_gameid s))) w (gs_grpid s) (session_seat s)"
    if "cmd = proto_player_enter"
    using f that by (simp_all add: data_fair_def Let_def d)
  have head: "parse_protocol e fd data w =
     (if uid = 0 then Some (w, 0) else if len < 17 then invalid
      else if cmd = proto_version then Some (w\<lparr>sv_sent := sv_sent w @ [DataTo fd PkgVersion]\<rparr>, 0)
      else if cmd = proto_test_alive then Some (w\<lparr>sv_sent := sv_sent w @ [DataTo fd PkgTestAlive]\<rparr>, 0)
      else if cmd \<noteq> proto_player_enter \<and> sv_sprites w fd = None \<or> cmd = proto_player_enter \<and> sv_sprites w fd \<noteq> None \<or>
          sv_sprites w fd \<noteq> None \<and> id_at w fd \<noteq> uid then invalid
      else if cmd = proto_player_enter then do {
        w1 \<leftarrow> (case get_sprite uid w of None \<Rightarrow> Some w | Some old \<Rightarrow> handle_invalid_data e old GER_multi_login w);
        dispatch_enter e fd uid body w1
      } else dispatch_protocol e fd cmd body w)"
  proof -
    have l: "(length data < 17) = False" "(length data < len) = False" using fr(2,3) by simp_all
    show ?thesis unfolding parse_protocol_def Let_def by_fd [OF coreD(3) [OF c]] d [symmetric] invalid_def [symmetric] l if_False
      by (cases "sv_sprites w fd") simp_all
  qed
  have inv: "\<exists>w' rv. invalid = Some (w', rv) \<and> core mp ok libs {} w' \<and> cb_step\<^sup>*\<^sup>* w w' \<and> (rv \<noteq> 0 \<longrightarrow> no_group fd w')"
    unfolding invalid_def by (rule invalid_data_ok [OF c])
  have sent: "core mp ok libs {} (w\<lparr>sv_sent := x\<rparr>) \<and> cb_step\<^sup>*\<^sup>* w (w\<lparr>sv_sent := x\<rparr>)" for x
    using quiet_core(1,2) [OF quiet_sent c] by blast
  show ?thesis
  proof (cases "uid = 0 \<or> len < 17 \<or> cmd = proto_version \<or> cmd = proto_test_alive \<or> cmd \<noteq> proto_player_enter \<and> sv_sprites w fd = None \<or>
      cmd = proto_player_enter \<and> sv_sprites w fd \<noteq> None \<or> sv_sprites w fd \<noteq> None \<and> id_at w fd \<noteq> uid")
    case True
    then have "parse_protocol e fd data w = Some (w, 0) \<or> parse_protocol e fd data w = invalid \<or>
      (\<exists>x. parse_protocol e fd data w = Some (w\<lparr>sv_sent := x\<rparr>, 0))" using head by auto
    then show ?thesis using inv sent c by auto
  next
    case False
    show ?thesis
    proof (cases "cmd = proto_player_enter")
      case True
      with False have n: "sv_sprites w fd = None" by blast
      from old_login_ok [OF c n fr(1) en(1) [OF True]] obtain w1 where
        w1: "(case get_sprite uid w of None \<Rightarrow> Some w | Some old \<Rightarrow> handle_invalid_data e old GER_multi_login w) = Some w1"
          "core mp ok libs {} w1" "cb_step\<^sup>*\<^sup>* w w1" "sv_sprites w1 fd = None" "sv_cn w1 fd"
          "\<forall>x q. sv_sprites w1 x = Some q \<and> gp_group q \<noteq> None \<longrightarrow> sp_id (gp_sprite q) \<noteq> uid"
          "\<forall>game gid p. seat_free game w gid p \<longrightarrow> seat_free game w1 gid p" by (elim exE conjE)
      have "0 < gc_timeout (ev_games e (nat (gs_gameid s))) \<and> seat_free (ev_games e (nat (gs_gameid s))) w1 (gs_grpid s) (session_seat s)" if "unpkg_gamesession (ev_des e) body = Some s" for s
        using en(2) [OF True that] w1(7) by blast
      from add_player_ok [OF w1(2,5,4,6) this] obtain w2 rv where
        w2: "add_player_cmd e fd uid body w1 = Some (w2, rv)" "core mp ok libs {} w2" "cb_step\<^sup>*\<^sup>* w1 w2" "rv \<noteq> 0 \<longrightarrow> no_group fd w2" by blast
      let ?w' = "reset_waitcmd fd w2"
      have "parse_protocol e fd data w = Some (?w', rv)"
        using head False True w1(1) w2(1) by (simp add: dispatch_enter_def)
      moreover have "cb_step\<^sup>*\<^sup>* w ?w'" by (rule rtranclp_trans [OF rtranclp_trans [OF w1(3) w2(3)] quiet_core(2) [OF quiet_reset w2(2)]])
      ultimately show ?thesis using quiet_core(1) [OF quiet_reset w2(2), of fd] quiet_no_group [OF quiet_reset, of fd fd w2] w2(4) by auto
    next
      case np: False
      with False obtain p where p: "sv_sprites w fd = Some p" by auto
      have "id_at w fd = uid" using False p by auto
      then have "parse_protocol e fd data w = dispatch_protocol e fd cmd body w" using head False np p by simp
      with dispatch_ok [OF c p, of cmd body] show ?thesis by (auto simp: served_def)
    qed
  qed
qed

lemma process_ok:
  assumes c: "core mp ok libs {} w" and f: "data_fair e w fd data"
  shows "\<exists>w'. handle_process e fd data w = Some w' \<and> core mp ok libs {} w' \<and> cb_step\<^sup>*\<^sup>* w w'"
proof -
  from parse_ok [OF assms] obtain w1 rv where
    w1: "parse_protocol e fd data w = Some (w1, rv)" "core mp ok libs {} w1" "cb_step\<^sup>*\<^sup>* w w1" "rv \<noteq> 0 \<longrightarrow> no_group fd w1" by blast
  show ?thesis
  proof (cases "rv = 0")
    case True
    with w1 show ?thesis by (simp add: handle_process_def)
  next
    case False
    then have "gp_group p = None" if "sv_sprites w1 fd = Some p" for p using w1(4) that by (simp add: no_group_def)
    from fin_ok [OF w1(2) this] obtain w' where "shm_fin fd w1 = Some w'" "core mp ok libs {} w'" "left_by {fd} w1 w'" by blast
    with w1 False show ?thesis by (auto simp: handle_process_def left_by_def)
  qed
qed

text \<open>Every event that is fair is handled, and the invariant holds after it.\<close>

lemma event_ok:
  assumes i: "sv_inv mp ok libs w" and f: "fair e ev w"
  shows "\<exists>w'. handle_event e ev w = Some w' \<and> sv_inv mp ok libs w'"
proof (cases "ev = Second")
  case True
  from second_ok [OF sv_invD(1) [OF i] sv_invD(3) [OF i]] obtain w' where
    "handle_event e Second w = Some w'" "core mp ok libs {} w'" "tw_now w' = tw_now w + 1" "soon 1 w'" by blast
  moreover from this(3) have "clock_ok w'" using True f sv_invD(2) [OF i] by (simp add: clock_ok_def)
  ultimately show ?thesis unfolding True sv_inv_def by blast
next
  case False
  note c = sv_invD(1) [OF i]
  have "\<exists>w'. handle_event e ev w = Some w' \<and> core mp ok libs {} w' \<and> cb_step\<^sup>*\<^sup>* w w'"
  proof (cases ev)
    case (OpenBlock fd len_ok)
    with open_ok [OF c, of fd len_ok] f show ?thesis by (auto simp: served_def)
  next
    case (CloseBlock fd)
    with close_block_ok [OF c, of fd] show ?thesis by (auto simp: served_def)
  next
    case (DataBlock fd data)
    with process_ok [OF c, of fd data] f c show ?thesis by auto
  next
    case (DbAnswer fd waitcmd cmd ret uid buf)
    then have "\<not> no_group fd w" if "cmd = db_obtain_item \<or> cmd = db_obtain_pet_item"
      using f that by (cases "sv_sprites w fd") (simp_all add: no_group_def)
    from db_answer_ok [where waitcmd = waitcmd and ret = ret and uid = uid and buf = buf, OF c this] obtain w' where
      "handle_db_answer e fd waitcmd cmd ret uid buf w = Some w'" "served mp ok libs w w'" by blast
    with DbAnswer show ?thesis by (auto simp: served_def)
  qed (use False in simp)
  with sv_inv_step [OF i] show ?thesis by blast
qed

end

end
