(* ===== verification/ServerProps.thy ===== *)
theory ServerProps
  imports ServerRun
begin

text \<open>
  The game server with its two board games: what holds in every state that fair events lead to from
  the start, and three things the server does not check.
\<close>

section \<open>Runs of the server\<close>

definition env_ok :: "u8 \<Rightarrow> (board_game, board_pkg) game_env \<Rightarrow> bool" where
  "env_ok junk e \<longleftrightarrow> ev_mp e = board_plugin junk \<and> (\<forall>xs. ev_alloc e xs \<notin> set xs) \<and>
     (\<forall>i. 0 < gc_timeout (ev_games e i) \<longrightarrow> conf_ok {1, 2} (ev_games e i))"

inductive sv_reach :: "('g, 'pkg) game_env \<Rightarrow> int \<Rightarrow> ('g, 'pkg) server \<Rightarrow> bool" for e now where
  at_start: "sv_reach e now (sv_start now)"
| after_event: "sv_reach e now w \<Longrightarrow> fair e ev w \<Longrightarrow> handle_event e ev w = Some w' \<Longrightarrow> sv_reach e now w'"

fun seconds :: "('g, 'pkg) game_env \<Rightarrow> nat \<Rightarrow> ('g, 'pkg) server \<Rightarrow> ('g, 'pkg) server option" where
  "seconds e 0 w = Some w"
| "seconds e (Suc n) w = do { w1 \<leftarrow> handle_event e Second w; seconds e n w1 }"

abbreviation board_server_inv :: "u8 \<Rightarrow> (board_game, board_pkg) server \<Rightarrow> bool" where
  "board_server_inv junk \<equiv> sv_inv (board_plugin junk) board_inv {1, 2}"

lemma env_server:
  assumes "env_ok junk e"
  shows "game_server (board_plugin junk) board_inv {1, 2} e"
  by unfold_locales (use assms in \<open>auto simp: env_ok_def\<close>)

lemma start_timers: "tw_heap (sv_start now) = (\<lambda>_. None)" "tw_lists (sv_start now) = (\<lambda>_. [])"
    "tw_vec (sv_start now) = map (\<lambda>i. \<lparr>tv_head = [], tv_expire = 2 ^ (i + 2), tv_min = 0\<rparr>) [0..<5]"
  by (simp_all add: sv_start_def setup_timer_def)

lemma start_active: "active (sv_start now) a = None"
  by (simp add: active_def in_use_def start_timers)

lemma start_wheel: "wheel_ok (sv_start now)"
proof -
  have "vec_at (sv_start now) i = []" if "i < 5" for i
    unfolding start_timers using that by (subst nth_map) simp_all
  moreover have "tv_expire (tw_vec (sv_start now) ! i) = 2 ^ (i + 2)" if "i < 5" for i
    unfolding start_timers using that by (subst nth_map) simp_all
  ultimately show ?thesis
    by (simp add: wheel_ok_def vec_shape_def vec_disjoint_def lists_ok_def mins_ok_def in_use_def start_timers)
qed

lemma start_inv:
  assumes "0 < now" and "now < 2147483648"
  shows "sv_inv mp ok libs (sv_start now)"
proof -
  have f: "sv_sprites (sv_start now) = (\<lambda>_. None)" "sv_groups (sv_start now) = (\<lambda>_. None)" "tw_now (sv_start now) = now" "sv_ids (sv_start now) = []"
    "sv_cn (sv_start now) = (\<lambda>_. False)" "sv_fdmax (sv_start now) = 0" "sv_count (sv_start now) = 0"
    by (simp_all add: sv_start_def setup_timer_def)
  have "core mp ok libs {} (sv_start now)"
    using assms start_wheel [of now] unfolding core_def
    by (simp add: f conn_ok_def ids_ok_def own_ok_def members_of_def start_active MAXFDS_def)
  moreover have "soon 1 (sv_start now)" by (simp add: soon_def in_use_def sv_start_def setup_timer_def)
  ultimately show ?thesis using assms by (simp add: sv_inv_def clock_ok_def f)
qed

lemma reach_inv:
  assumes "sv_reach e now w" and "env_ok junk e" and "0 < now" and "now < 2147483648"
  shows "board_server_inv junk w"
  using assms
proof (induction rule: sv_reach.induct)
  case at_start
  then show ?case by (intro start_inv)
next
  case (after_event w ev w')
  from game_server.event_ok [OF env_server [OF after_event.prems(1)] after_event.IH [OF after_event.prems] after_event.hyps(2)]
  show ?case using after_event.hyps(3) by auto
qed

lemma board_two: "board_inv h \<Longrightarrow> length (gg_players (board_grp h)) = 2"
  by (cases h) (auto simp: gobang_inv_def gb_ok_def chess_inv_def cg_ok_def)

section \<open>A server of the games table\<close>

definition board_games :: "nat \<Rightarrow> game_conf" where
  "board_games i =
     (if i = 4 then
        \<lparr>gc_id = 4, gc_players = 2, gc_watchable = True, gc_timeout = 3600, gc_game = \<lparr>game_IQ = 3, game_exp = 6, game_yxb = 60\<rparr>, gc_handle = 1\<rparr>
      else if i = 13 then
        \<lparr>gc_id = 13, gc_players = 2, gc_watchable = True, gc_timeout = 3600, gc_game = \<lparr>game_IQ = 5, game_exp = 10, game_yxb = 80\<rparr>, gc_handle = 2\<rparr>
      else
        \<lparr>gc_id = 0, gc_players = 0, gc_watchable = False, gc_timeout = 0, gc_game = \<lparr>game_IQ = 0, game_exp = 0, game_yxb = 0\<rparr>, gc_handle = 0\<rparr>)"

definition board_env :: "(board_game, board_pkg) game_env" where
  "board_env = \<lparr>ev_mp = board_plugin 0, ev_games = board_games, ev_alloc = \<lambda>xs. Suc (foldr max xs 0), ev_des = \<lambda>b. b, ev_db = \<lambda>_ _. True\<rparr>"

lemma foldr_max: "x \<in> set xs \<Longrightarrow> x \<le> foldr max xs (0 :: nat)"
  by (induction xs) auto

lemma board_env_ok: "env_ok 0 board_env"
proof -
  have "Suc (foldr max xs 0) \<notin> set xs" for xs using foldr_max [of "Suc (foldr max xs 0)" xs] by auto
  then show ?thesis by (auto simp: env_ok_def board_env_def board_games_def conf_ok_def split: if_splits)
qed

interpretation board_server: game_server "board_plugin 0" board_inv "{1, 2}" board_env
  by (rule env_server [OF board_env_ok])

text \<open>A package that enters: the header, then the structure that \<open>unpkg_gamesession\<close> reads.\<close>

definition bytes4_be :: "u32 \<Rightarrow> byte list" where
  "bytes4_be x = rev (le_bytes x)"

definition enter_data :: "u32 \<Rightarrow> u32 \<Rightarrow> u32 \<Rightarrow> u32 \<Rightarrow> byte \<Rightarrow> byte \<Rightarrow> byte list" where
  "enter_data now game grp uid flag pos =
     bytes4_be 129 @ [0] @ bytes4_be 30001 @ bytes4_be uid @ bytes4_be 0 @
     le_bytes now @ le_bytes game @ le_bytes grp @ le_bytes 0 @ [flag, 0, pos, 0] @ le_bytes now @ le_bytes uid @ replicate 84 0"

definition opened :: "(board_game, board_pkg) server" where
  "opened = the (handle_event board_env (OpenBlock 1 True) (sv_start 1000))"

definition entered :: "(board_game, board_pkg) server" where
  "entered = the (handle_event board_env (DataBlock 1 (enter_data 1000 13 7 20000 1 1)) opened)"

lemma opened_run: "handle_event board_env (OpenBlock 1 True) (sv_start 1000) = Some opened"
    "fair board_env (OpenBlock 1 True) (sv_start 1000 :: (board_game, board_pkg) server)"
  by (simp_all add: opened_def handle_open_def sv_start_def setup_timer_def MAXFDS_def)

lemma entered_fair: "fair board_env (DataBlock 1 (enter_data 1000 13 7 20000 1 1)) opened"
  by code_simp

lemma entered_values:
  "case handle_event board_env (DataBlock 1 (enter_data 1000 13 7 20000 1 1)) opened of
     None \<Rightarrow> False
   | Some w \<Rightarrow> map_option (\<lambda>g. (gr_players g, gc_timeout (gr_game g))) (sv_groups w 7) = Some ([1], 3600) \<and>
       map_option (\<lambda>p. (gp_group p, bit (sp_status (gp_sprite p)) 0)) (sv_sprites w 1) = Some (Some 7, True) \<and> tw_now w = 1000"
  by code_simp

lemma entered_run: "handle_event board_env (DataBlock 1 (enter_data 1000 13 7 20000 1 1)) opened = Some entered"
  using entered_values by (auto simp: entered_def split: option.splits)

lemma entered_reach: "sv_reach board_env 1000 entered"
  by (rule after_event [OF after_event [OF at_start opened_run(2,1)] entered_fair entered_run])

lemma entered_state:
  "\<exists>g. sv_groups entered 7 = Some g \<and> gr_players g = [1] \<and> gc_timeout (gr_game g) = 3600"
  "\<exists>p. sv_sprites entered 1 = Some p \<and> gp_group p = Some 7 \<and> bit (sp_status (gp_sprite p)) 0" "tw_now entered = 1000"
  using entered_values by (auto simp: entered_def split: option.splits)

section \<open>What always holds\<close>

text \<open>
  C1: from the start on, and as long as the events are fair, the server handles every event: no
  assertion of \<open>gamesvr\<close> or of its two games fails and no null pointer is followed.
\<close>

theorem server_handles_events:
  assumes "env_ok junk e" and "0 < now" and "now < 2147483648" and "sv_reach e now w" and "fair e ev w"
  shows "\<exists>w'. handle_event e ev w = Some w' \<and> sv_reach e now w'"
proof -
  from game_server.event_ok [OF env_server [OF assms(1)] reach_inv [OF assms(4,1-3)] assms(5)] obtain w' where
    "handle_event e ev w = Some w'" by blast
  with after_event [OF assms(4,5)] show ?thesis by blast
qed

theorem server_handles_events_witness: "\<exists>w'. handle_event board_env Second entered = Some w' \<and> sv_reach board_env 1000 w'"
  by (rule server_handles_events [OF board_env_ok _ _ entered_reach]) (simp_all add: entered_state)

text \<open>
  C6: groups and sprites agree in every state the server comes to: the players and watchers of a
  group are, once each, the sprites that point to it, their ids differ, at most 10 of them play and
  at most 20 watch, and a game that has begun has its object and two players; a sprite has an open
  connection, and a group that is not there has no sprite.
\<close>

theorem server_groups_agree:
  assumes "env_ok junk e" and "0 < now" and "now < 2147483648" and "sv_reach e now w"
  shows "(case sv_groups w gid of
            None \<Rightarrow> \<forall>fd p. sv_sprites w fd = Some p \<longrightarrow> gp_group p \<noteq> Some gid
          | Some g \<Rightarrow> distinct (grp_fds g) \<and> distinct (map (id_at w) (grp_fds g)) \<and>
              (\<forall>fd. fd \<in> set (grp_fds g) \<longleftrightarrow> (\<exists>p. sv_sprites w fd = Some p \<and> gp_group p = Some gid)) \<and>
              length (gr_players g) \<le> 10 \<and> length (gr_watchers g) \<le> 20 \<and>
              (bit (gr_flag g) 0 \<longleftrightarrow> gr_handler g \<noteq> None) \<and> (bit (gr_flag g) 0 \<longrightarrow> length (gr_players g) = 2)) \<and>
    (\<forall>fd. sv_sprites w fd \<noteq> None \<longrightarrow> sv_cn w fd) \<and> sv_count w = card {fd. sv_cn w fd}"
proof -
  note c = sv_invD(1) [OF reach_inv [OF assms(4,1-3)]]
  have conn: "(\<forall>fd. sv_sprites w fd \<noteq> None \<longrightarrow> sv_cn w fd) \<and> sv_count w = card {fd. sv_cn w fd}"
    using coreD(3) [OF c] by (simp add: conn_ok_def)
  show ?thesis
  proof (cases "sv_groups w gid")
    case None
    then show ?thesis using conn coreD(6) [OF c _ None] by (auto simp: members_of_def)
  next
    case (Some g)
    note s = coreD(7) [OF c _ Some, simplified] and p = coreD(8) [OF c _ Some, simplified]
    have "inj_on (id_at w) (set (grp_fds g))" by (rule inj_onI) (use id_unique [OF coreD(4) [OF c] s] in blast)
    then have i: "distinct (map (id_at w) (grp_fds g))" using s unfolding distinct_map by (simp add: seats_ok_def)
    have two: "length (gr_players g) = 2" if r: "bit (gr_flag g) 0"
    proof -
      from p r obtain h where "board_inv h" "same_seats (grp_view w g) (board_grp h)" by (auto simp: phase_ok_def)
      then show ?thesis using board_two [of h] by (auto simp: same_seats_def dest: map_eq_imp_length_eq)
    qed
    have n: "length (gr_players g) \<le> 10" using two p by (cases "bit (gr_flag g) 0") (simp_all add: phase_ok_def conf_ok_def)
    have h: "bit (gr_flag g) 0 \<longleftrightarrow> gr_handler g \<noteq> None" "length (gr_watchers g) \<le> 20"
      using p by (cases "bit (gr_flag g) 0"; auto simp: phase_ok_def)+
    have m: "distinct (grp_fds g)" "\<forall>fd. fd \<in> set (grp_fds g) \<longleftrightarrow> (\<exists>p. sv_sprites w fd = Some p \<and> gp_group p = Some gid)"
      using s unfolding seats_ok_def members_of_def by blast+
    show ?thesis using conn i two n h m unfolding Some option.case by blast
  qed
qed

theorem server_groups_agree_witness: "sv_groups entered 7 \<noteq> None \<and> sv_count entered = card {fd. sv_cn entered fd}"
  using server_groups_agree [OF board_env_ok _ _ entered_reach, of 7] entered_state(1) by auto











lemma seconds_ok:
  assumes i: "board_server_inv junk w" and e: "env_ok junk e" and n: "tw_now w + int n < 2147483648"
  shows "\<exists>w'. seconds e n w = Some w' \<and> board_server_inv junk w' \<and> tw_now w' = tw_now w + int n \<and> no_new_limits w w' \<and>
    (0 < n \<longrightarrow> (\<forall>b. in_use w' b \<longrightarrow> tw_now w' < expiry w' b))"
  using i n
proof (induction n arbitrary: w)
  case 0
  then show ?case by simp
next
  case (Suc n)
  from game_server.second_ok [OF env_server [OF e] sv_invD(1) [OF Suc.prems(1)] sv_invD(3) [OF Suc.prems(1)]] obtain w1 where
    w1: "handle_event e Second w = Some w1" "core (board_plugin junk) board_inv {1, 2} {} w1" "tw_now w1 = tw_now w + 1" "soon 1 w1"
      "no_new_limits w w1" "\<forall>b. in_use w1 b \<longrightarrow> tw_now w1 < expiry w1 b" by blast
  have "board_server_inv junk w1" using w1 sv_invD(2) [OF Suc.prems(1)] Suc.prems(2) by (simp add: sv_inv_def clock_ok_def)
  from Suc.IH [OF this] w1(3) Suc.prems(2) obtain w2 where
    w2: "seconds e n w1 = Some w2" "board_server_inv junk w2" "tw_now w2 = tw_now w1 + int n" "no_new_limits w1 w2"
      "0 < n \<longrightarrow> (\<forall>b. in_use w2 b \<longrightarrow> tw_now w2 < expiry w2 b)" by auto
  have "\<forall>b. in_use w2 b \<longrightarrow> tw_now w2 < expiry w2 b" using w2 w1(6) by (cases n) auto
  moreover have "seconds e (Suc n) w = Some w2" unfolding seconds.simps w1(1) using w2(1) by simp
  ultimately show ?case using w1(3) w2(2,3) limits_trans [OF w1(5) w2(4)] by (intro exI [of _ w2]) simp
qed

text \<open>
  C11: a group does not outlive its time limit: when nothing comes but the ticks of the clock, the
  server handles all of them, and after as many seconds as the limit of the game the group is gone.
\<close>

theorem group_time_limit:
  assumes "env_ok junk e" and "0 < now" and "now < 2147483648" and "sv_reach e now w"
    and g: "sv_groups w gid = Some g" and t: "tw_now w + gc_timeout (gr_game g) < 2147483648"
  shows "\<exists>w'. seconds e (nat (gc_timeout (gr_game g))) w = Some w' \<and> sv_groups w' gid = None"
proof -
  note i = reach_inv [OF assms(4,1-3)]
  note c = sv_invD(1) [OF i]
  have pos: "0 < gc_timeout (gr_game g)" using coreD(8) [OF c _ g] by (simp add: phase_ok_def conf_ok_def)
  from seconds_ok [OF i assms(1), of "nat (gc_timeout (gr_game g))"] t pos obtain w' where
    w': "seconds e (nat (gc_timeout (gr_game g))) w = Some w'" "board_server_inv junk w'" "tw_now w' = tw_now w + gc_timeout (gr_game g)"
      "no_new_limits w w'" "\<forall>b. in_use w' b \<longrightarrow> tw_now w' < expiry w' b" by auto
  have "sv_groups w' gid = None"
  proof (cases "sv_groups w' gid")
    case (Some g')
    note oo = coreD(5) [OF sv_invD(1) [OF w'(2)]]
    from oo Some obtain a u where u: "active w' a = Some u" "tm_list u = Some (group_timers gid)" unfolding own_ok_def by blast
    from oo u(1) have "timer_own w' u" unfolding own_ok_def by blast
    with u(2) have "tm_function u = 2" by (auto simp: timer_own_def)
    with w'(4) u(1) have "active w a = Some u" by (simp add: no_new_limits_def)
    then have "timer_own w u" using coreD(5) [OF c] unfolding own_ok_def by blast
    with u(2) g have "tm_expire u \<le> tw_now w + gc_timeout (gr_game g)" by (auto simp: timer_own_def)
    moreover have "in_use w' a" "expiry w' a = tm_expire u" using u(1) by (auto simp: active_iff in_use_def)
    ultimately show ?thesis using w'(3,5) by fastforce
  qed
  with w'(1) show ?thesis by blast
qed

theorem group_time_limit_witness: "\<exists>w'. seconds board_env 3600 entered = Some w' \<and> sv_groups w' 7 = None"
proof -
  obtain g where g: "sv_groups entered 7 = Some g" "gc_timeout (gr_game g) = 3600" using entered_state(1) by blast
  with group_time_limit [OF board_env_ok _ _ entered_reach g(1)] entered_state(3) show ?thesis by simp
qed

text \<open>
  C12: when a second passes, exactly the timers whose time has come are called: each timer that is
  called is in use and has expired, none is called twice, and no timer that is still in use afterwards
  has expired. The time of a move and the limit of a group end in the second they are set to.
\<close>

theorem timers_on_time:
  assumes "env_ok junk e" and "0 < now" and "now < 2147483648" and "sv_reach e now w"
  shows "\<exists>w' cs. handle_timer (game_cb e) (tw_now w + 1) (tw_now w) w = Some (w', tw_now w + 1, cs) \<and> distinct cs \<and>
    (\<forall>a \<in> set cs. \<exists>t. tw_heap w a = Some t \<and> tm_function t \<noteq> 0 \<and> tm_expire t \<le> tw_now w + 1) \<and>
    (\<forall>a t. tw_heap w' a = Some t \<and> tm_function t \<noteq> 0 \<longrightarrow> tw_now w + 1 < tm_expire t)"
proof -
  note i = reach_inv [OF assms(4,1-3)]
  from game_server.tick_ok [OF env_server [OF assms(1)] sv_invD(1) [OF i] sv_invD(3) [OF i]] obtain w' cs where
    "handle_timer (game_cb e) (tw_now w + 1) (tw_now w) w = Some (w', tw_now w + 1, cs)" "distinct cs"
    "\<forall>b \<in> set cs. in_use w b \<and> expiry w b \<le> tw_now w + 1" "\<forall>b. in_use w' b \<longrightarrow> tw_now w + 1 < expiry w' b" by blast
  then show ?thesis by (intro exI [of _ w'] exI [of _ cs]) (fastforce simp: in_use_def)
qed

theorem timers_on_time_witness: "\<exists>w' cs. handle_timer (game_cb board_env) 1001 1000 entered = Some (w', 1001, cs) \<and> distinct cs"
  using timers_on_time [OF board_env_ok _ _ entered_reach] entered_state(3) by auto

section \<open>What the server does not check\<close>

text \<open>
  C39: data of a connection is taken when its number is not above the largest one, open or not: a
  player who enters on a connection that is closed gets a sprite that no end of the connection, from
  either side, takes away again.
\<close>

theorem closed_connection_keeps_sprite:
  assumes "fd \<le> sv_fdmax w" and "\<not> sv_cn w fd" and "sv_sprites w fd = None" and "10000 < uid" and "uid < 2000000000"
  shows "\<exists>w'. add_sprite fd uid w = Some (w', 0) \<and> sv_sprites w' fd \<noteq> None \<and> \<not> conn_ok w' \<and>
    handle_close fd w' = Some w' \<and> (\<exists>w2. shm_fin fd w' = Some w2 \<and> sv_sprites w2 fd \<noteq> None) \<and>
    (\<exists>w2. del_sprite_conn fd w' = Some w2 \<and> sv_sprites w2 fd \<noteq> None)"
proof -
  have u: "\<not> (uid = 0 \<or> 2000000000 \<le> uid \<or> uid \<le> 10000)" using assms(4,5) by auto
  obtain w' where w': "add_sprite fd uid w = Some (w', 0)" "sv_sprites w' fd \<noteq> None" "sv_cn w' = sv_cn w" "sv_fdmax w' = sv_fdmax w"
    using u assms(1,3) by (auto simp: add_sprite_def)
  have "\<not> conn_ok w'" using w'(2,3) assms(2) by (auto simp: conn_ok_def)
  moreover have h: "handle_close fd w' = Some w'" using w'(3) assms(2) by (simp add: handle_close_def)
  moreover have "\<exists>w2. shm_fin fd w' = Some w2 \<and> sv_sprites w2 fd \<noteq> None" using h w'(2) by (simp add: shm_fin_def)
  moreover from this have "\<exists>w2. del_sprite_conn fd w' = Some w2 \<and> sv_sprites w2 fd \<noteq> None"
    using h w'(2,4) assms(1) by (simp add: del_sprite_conn_def)
  ultimately show ?thesis using w'(1,2) by blast
qed

definition opened_2 :: "(board_game, board_pkg) server" where
  "opened_2 = (sv_start 1000)\<lparr>sv_cn := (\<lambda>_. False)(2 := True), sv_fdmax := 2, sv_count := 1\<rparr>"

theorem closed_connection_keeps_sprite_witness:
  "handle_event board_env (OpenBlock 2 True) (sv_start 1000) = Some opened_2 \<and>
   (\<exists>w'. add_sprite 1 20000 opened_2 = Some (w', 0) \<and> sv_sprites w' 1 \<noteq> None \<and> handle_close 1 w' = Some w')"
proof -
  have "handle_event board_env (OpenBlock 2 True) (sv_start 1000) = Some opened_2"
    by (simp add: opened_2_def handle_open_def sv_start_def setup_timer_def MAXFDS_def)
  moreover have "1 \<le> sv_fdmax opened_2" "\<not> sv_cn opened_2 1" "sv_sprites opened_2 1 = None"
    by (simp_all add: opened_2_def sv_start_def setup_timer_def)
  from closed_connection_keeps_sprite [OF this, of 20000]
  have "\<exists>w'. add_sprite 1 20000 opened_2 = Some (w', 0) \<and> sv_sprites w' 1 \<noteq> None \<and> handle_close 1 w' = Some w'" by auto
  ultimately show ?thesis by blast
qed

text \<open>
  C40: \<open>join_game\<close> compares the number of watchers with their limit only once the game is ready: the
  21st watcher of a group that waits for its players is written behind the array \<open>watchers\<close>.
\<close>

theorem watchers_overrun:
  assumes "gp_group (sprite_at w fd) = None" and "0 < gameid" and "gameid < GAMES_NUM_MAX"
    and "\<not> bit (status_at w fd) 0" and "bit (status_at w fd) 1"
    and "sv_groups w gid = Some g" and "\<not> bit (gr_flag g) 0" and "MAX_WATCHERS_PER_GAME \<le> length (gr_watchers g)"
  shows "join_game e fd gameid gid w = None"
  using assms by (simp add: join_game_def seat_refused_def seat_overrun_def Let_def)

definition watched :: "(board_game, board_pkg) server" where
  "watched =
     (let p = \<lambda>fd gid. \<lparr>gp_sprite = \<lparr>sp_id = 20000 + of_nat fd, sp_pos_id = 0, sp_status = 2\<rparr>, gp_group = gid, gp_waitcmd = 0, gp_oltoday = 0,
                    gp_stamp = 0, gp_db_data = zero_score\<rparr>
      in (sv_start 1000)\<lparr>sv_sprites := (\<lambda>fd. if fd = 21 then Some (p fd None) else if 1 \<le> fd \<and> fd < 21 then Some (p fd (Some 7)) else None),
           sv_groups := (\<lambda>_. None)(7 \<mapsto> (fresh_group (board_games 13))\<lparr>gr_watchers := [1..<21]\<rparr>)\<rparr>)"

theorem watchers_overrun_witness: "length (gr_watchers (the (sv_groups watched 7))) = 20 \<and> join_game board_env 21 13 7 watched = None"
proof -
  have g: "sv_groups watched 7 = Some ((fresh_group (board_games 13))\<lparr>gr_watchers := [1..<21]\<rparr>)" by (simp add: watched_def Let_def)
  have "join_game board_env 21 13 7 watched = None"
    by (rule watchers_overrun [OF _ _ _ _ _ g])
      (simp_all add: watched_def Let_def fresh_group_def GAMES_NUM_MAX_def MAX_WATCHERS_PER_GAME_def)
  with g show ?thesis by simp
qed

end
