(* ===== verification/Spec2Isabelle.thy ===== *)
theory Spec2Isabelle
  imports QueueProcesses MmTop TradeRooms ServerProps
begin

text \<open>
  Verification library for the Taomee game servers. The repository holds many servers; the parts
  modelled are those with a logic of their own, each from the C++ source as it is.

  \<^bold>\<open>Shared.\<close> \<open>Prelude\<close> has the machine words, the results of calls, blocks of bytes and the
  big- and little-endian fields of packets. \<open>StdMap\<close> is \<open>std::map\<close>: a list sorted by key with
  find, \<open>operator[]\<close>, insert, erase; the locale \<open>std_map\<close> states what its clients rely on.

  \<^bold>\<open>Ring queues\<close> (\<open>src/c/library/ring-queue/trunk\<close>). \<open>QueueIface\<close>: the virtual methods of
  \<open>i_ring_queue.h\<close> as the record \<open>i_ring_queue\<close>, the codes of \<open>error_list.h\<close> and the locales of
  a byte queue. \<open>RingQueue\<close>: \<open>ring_queue.cpp\<close>, a ring buffer in a shared mapping, refines the list
  of the bytes it holds. \<open>PacketQueue\<close>: \<open>fixed_queue.cpp\<close> and \<open>variable_queue.cpp\<close> put messages
  on it. \<open>SharedQueue\<close>: the decorators \<open>multipopable_queue.cpp\<close> (a semaphore) and
  \<open>waitable_queue.cpp\<close> (a pipe and \<open>select\<close>); what other processes do between the steps of a call is
  an argument of its model. \<open>QueueProcesses\<close>: any number of processes on one multipopable ring, the
  statements of their calls interleaved. The lemmas show that bytes and messages come out whole and in
  the order they went in, on every branch of push, pop and peek, and where two consumers break this.

  \<^bold>\<open>Counter tree\<close> (\<open>src/c/library/mmtree-1.0.0\<close>). \<open>MmTree\<close>: the file of \<open>mmtree.cpp\<close> as a record
  of its header and its array of nodes, every method a function on it. \<open>MmTreeShape\<close>: the search
  tree a file holds, the shape invariant, rotations; \<open>MmTreeColor\<close>: the recolouring loops end and
  keep the tree; \<open>MmTreeMap\<close>, \<open>MmTreeRemove\<close>: insert, update and remove as operations on a finite
  map; \<open>MmTreeWalk\<close>: the traversal; \<open>MmTreeProps\<close>: the locale \<open>counter_store\<close> and its
  interpretations by \<open>set\<close> and \<open>update\<close>; \<open>MmTreeClaims\<close>: runs of operations, combination of
  trees; \<open>MmTop\<close>: \<open>quicksort\<close> and the ranking.

  \<^bold>\<open>Trade rooms\<close> (\<open>src/gf/btl_switch/trade.hpp\<close>, \<open>trade.cpp\<close>). \<open>TradeRooms\<close>: the table of trade
  servers and the counters of their rooms; the handlers read the packed request and answer with
  bytes. The lemmas give the handlers as operations on a table of counters, and what the replies
  say of the table.

  \<^bold>\<open>Board games of the mole game server\<close> (\<open>src/mole/gamesvr/games\<close>). \<open>GameGroup\<close>: players, groups
  and scores as a game sees them (\<open>game.h\<close>, \<open>sprite.h\<close>); what a game sends, its timers, scores and
  database requests are the list of \<open>game_out\<close> a method returns. \<open>Gobang\<close>: the class of
  \<open>gobang/gobang.hpp\<close>. \<open>GobangProps\<close>: the invariant of a game, the search for five in a row against
  its mathematical statement, the outcome of a move. \<open>ChessRule\<close>: the board and the rules of
  \<open>chinesechess/cnchessrule.hpp\<close>; \<open>ChessLegal\<close>: they accept exactly the legal moves; \<open>ChessCheck\<close>:
  \<open>ischeck\<close> against the attacks on a general; \<open>ChessMove\<close>: a move keeps the board and the tables of
  the pieces in step. \<open>ChessGame\<close>: \<open>chessgame.hpp\<close> and \<open>reqhandler.hpp\<close>, the game with its requests
  for a draw or to give up; \<open>ChessProps\<close>: the invariant of a game and the outcome of each action.
  Assertions count: a failed \<open>assert\<close>, like a null pointer that is followed or an index outside an
  array, is the value \<open>None\<close>, although the Makefiles of the games define \<open>NDEBUG\<close>.

  \<^bold>\<open>Mole game server\<close> (\<open>src/mole/gamesvr\<close>). \<open>Timer\<close>: \<open>timer.c\<close>, five lists of timers by the time
  they still have; \<open>TimerWheel\<close>: the invariant of the lists and that every operation keeps it;
  \<open>TimerScan\<close>: the locale \<open>timer_client\<close> of what a scan relies on, and that a scan calls exactly what
  has expired. \<open>GamePlugin\<close>: the interface \<open>mpog.hpp\<close> between the server and a game as a record, its
  laws as the locale \<open>game_plugin\<close>, interpreted by gobang, by chess, and by the two together.
  \<open>GameServer\<close>: the state of the server (connections, sprites, groups, timers) and \<open>sprite.c\<close>,
  \<open>service.c\<close>, \<open>dll.c\<close> (leaving), \<open>game.c\<close> (scores). \<open>GameRequests\<close>: \<open>gamexx.cpp\<close>, \<open>proto.c\<close>,
  \<open>join_game\<close> of \<open>dll.c\<close> and the blocks of \<open>net.c\<close>; \<open>handle_event\<close> is one turn of the loop.
  \<open>ServerInv\<close>: the invariant and the operations that leave the seats alone; \<open>ServerEnd\<close>: closing
  connections and ending games; \<open>ServerPlay\<close>: the locale \<open>game_server\<close>, calls of the games;
  \<open>ServerLeave\<close>, \<open>ServerServe\<close>, \<open>ServerJoin\<close>: leaving, requests and timers, entering; \<open>ServerRun\<close>:
  every fair event is handled and keeps the invariant; \<open>ServerProps\<close>: the properties for the server
  with its two board games, and what it does not check. \<open>fair\<close> states what the parent process and the
  online servers promise: data of an open connection in whole packages, and a seat of a listed game
  that is free. What a game gives out is carried out after its method has returned; the queue to
  the parent process has room; the clock moves by a second at a time, each value of it being seen.

  \<^bold>\<open>Bounds and loops.\<close> No fuel is used where the code's loop ends for every input: those loops are
  functions with a measure. The loops on the nodes of a tree file, the scan of \<open>determine_winner\<close>, the
  searches along the lines of the chess board and the loop over the timers, which need an invariant to
  end, are \<open>partial_function (option)\<close>, and that they return is part of the properties. Words have
  the width of the C++ type; \<open>int\<close> with its range written out stands for signed values that do not
  overflow or wrap; the clock stays below \<open>2 ^ 31\<close>.

  \<^bold>\<open>Not modelled.\<close> Sockets, epoll, shared memory and processes (\<open>tcp.c\<close>, \<open>daemon.c\<close>, \<open>mcast.c\<close>, \<open>shmq.c\<close>,
  \<open>dbproxy.c\<close>), logging, the loading of the games table and of the libraries, and the generated
  routing code (\<open>Croute_func.cpp\<close>), which call the system, other libraries or generated code only; the
  microsecond timers, which nothing calls; items and medals of a score; \<open>flush\<close> and \<open>serialize\<close> of
  the counter tree, which write files; the other games and servers of the repository, whose rules are
  tables read from files and the state of which is in a database.
\<close>

end
